(* ===== verification/Cpp_Prelude.thy ===== *)
theory Cpp_Prelude
  imports Main "HOL-Library.Word"
begin

text \<open>
  Shared vocabulary of the development: the ways a C++ run can go wrong, the fragments of the
  language and of its standard library the components use (contiguous vectors with bounds,
  \<^verbatim>\<open>std::find\<close>, \<^verbatim>\<open>std::search\<close>, the object representation of integers), and the generic lemmas
  the component proofs rest on.

  Conventions. Code that can stop at an \<^verbatim>\<open>assert\<close>, at a fatal log line or at an out-of-range
  access is a function into \<open>'a result\<close>; \<open>Inl\<close> carries the fault, \<open>Inr\<close> the value. The model is
  that of a build with assertions on: a theorem that an operation returns \<open>Inr\<close> says that no
  assertion fires, and then a build with \<^verbatim>\<open>-DNDEBUG\<close> computes the same value. A pointer into a
  buffer is the index it denotes.
\<close>

section \<open>Faults and results\<close>

datatype fault =
    AssertFail string   \<comment> \<open>an \<^verbatim>\<open>assert\<close> of the source is false (its text)\<close>
  | LogFatal string     \<comment> \<open>\<^verbatim>\<open>LOG_FATAL\<close> or \<^verbatim>\<open>LOG_SYSFATAL\<close>: the process aborts\<close>
  | OutOfBounds         \<comment> \<open>an access outside an allocated array\<close>
  | DanglingPointer     \<comment> \<open>an access through a pointer to no object\<close>
  | BadAlloc            \<comment> \<open>\<^verbatim>\<open>operator new\<close> throws, or a container refuses a size\<close>

type_synonym 'a result = "fault + 'a"

definition bindR :: "'a result \<Rightarrow> ('a \<Rightarrow> 'b result) \<Rightarrow> 'b result" where
  "bindR m f = (case m of Inl e \<Rightarrow> Inl e | Inr a \<Rightarrow> f a)"

definition assertR :: "string \<Rightarrow> bool \<Rightarrow> 'a result \<Rightarrow> 'a result" where
  "assertR msg b k = (if b then k else Inl (AssertFail msg))"

definition is_ok :: "'a result \<Rightarrow> bool" where
  "is_ok r = (case r of Inl _ \<Rightarrow> False | Inr _ \<Rightarrow> True)"

text \<open>A loop over a container whose body may fault.\<close>

primrec foldR :: "('a \<Rightarrow> 'b \<Rightarrow> 'b result) \<Rightarrow> 'a list \<Rightarrow> 'b \<Rightarrow> 'b result" where
  "foldR f [] s = Inr s"
| "foldR f (x # xs) s = bindR (f x s) (foldR f xs)"

lemma bindR_simps [simp]: "bindR (Inl e) f = Inl e" "bindR (Inr a) f = f a"
  by (simp_all add: bindR_def)

lemma bindR_eq_Inr: "bindR m f = Inr c \<longleftrightarrow> (\<exists>a. m = Inr a \<and> f a = Inr c)"
  by (cases m) auto

lemma bindR_assoc: "bindR (bindR m f) g = bindR m (\<lambda>a. bindR (f a) g)"
  by (cases m) auto

lemma assertR_simps [simp]:
  "assertR msg True k = k" "assertR msg False k = Inl (AssertFail msg)"
  by (simp_all add: assertR_def)

lemma assertR_eq_Inr: "assertR msg b k = Inr c \<longleftrightarrow> b \<and> k = Inr c"
  by (simp add: assertR_def)

lemma assertR_ok: "b \<Longrightarrow> assertR msg b k = k"
  by simp

lemma is_ok_simps [simp]: "is_ok (Inr a)" "\<not> is_ok (Inl e)"
  by (simp_all add: is_ok_def)

lemma is_ok_iff: "is_ok r \<longleftrightarrow> (\<exists>a. r = Inr a)"
  by (cases r) auto

text \<open>A fold whose body never faults under an invariant computes the invariant again.\<close>

lemma foldR_inv:
  assumes "I s" and "\<And>x s. x \<in> set xs \<Longrightarrow> I s \<Longrightarrow> \<exists>s'. f x s = Inr s' \<and> I s'"
  shows "\<exists>s'. foldR f xs s = Inr s' \<and> I s'"
  using assms
proof (induction xs arbitrary: s)
  case Nil
  then show ?case by simp
next
  case (Cons x xs)
  then obtain s1 where s1: "f x s = Inr s1" "I s1" by (meson list.set_intros(1))
  from Cons.IH [OF s1(2)] Cons.prems(2) have "\<exists>s'. foldR f xs s1 = Inr s' \<and> I s'"
    by simp
  with s1 show ?case by simp
qed

lemma foldR_append: "foldR f (xs @ ys) s = bindR (foldR f xs s) (foldR f ys)"
  by (induction xs arbitrary: s) (auto simp: bindR_assoc bindR_def split: sum.splits)

text \<open>\<open>outcome E P r\<close>: the run \<open>r\<close> ends in a value with \<open>P\<close>, or in a fault that \<open>E\<close> allows. With
  \<open>\<lambda>_. False\<close> for \<open>E\<close> it is total correctness. The rules below follow the structure of the code.\<close>

definition outcome :: "(fault \<Rightarrow> bool) \<Rightarrow> ('a \<Rightarrow> bool) \<Rightarrow> 'a result \<Rightarrow> bool" where
  "outcome E P r = (case r of Inl e \<Rightarrow> E e | Inr a \<Rightarrow> P a)"

abbreviation total :: "('a \<Rightarrow> bool) \<Rightarrow> 'a result \<Rightarrow> bool" where
  "total \<equiv> outcome (\<lambda>_. False)"

lemma outcome_simps [simp]: "outcome E P (Inr a) = P a" "outcome E P (Inl e) = E e"
  by (simp_all add: outcome_def)

lemma outcome_bind: "outcome E (\<lambda>a. outcome E P (f a)) m \<Longrightarrow> outcome E P (bindR m f)"
  by (cases m) auto

lemma outcome_bind_rule:
  "outcome E Q m \<Longrightarrow> (\<And>a. Q a \<Longrightarrow> outcome E P (f a)) \<Longrightarrow> outcome E P (bindR m f)"
  by (cases m) auto

lemma outcome_assert: "b \<Longrightarrow> outcome E P k \<Longrightarrow> outcome E P (assertR msg b k)"
  by simp

lemma outcome_mono: "outcome E P r \<Longrightarrow> (\<And>a. P a \<Longrightarrow> Q a) \<Longrightarrow> outcome E Q r"
  by (cases r) auto

lemma outcome_weaken_fault: "total P r \<Longrightarrow> outcome E P r"
  by (cases r) auto

lemma total_iff: "total P r \<longleftrightarrow> (\<exists>a. r = Inr a \<and> P a)"
  by (cases r) auto

lemma outcome_foldR:
  assumes "I [] s" and "\<And>ys x s. I ys s \<Longrightarrow> (\<exists>zs. xs = ys @ x # zs) \<Longrightarrow> outcome E (I (ys @ [x])) (f x s)"
  shows "outcome E (I xs) (foldR f xs s)"
proof -
  have "outcome E (I xs) (foldR f zs s)" if "I ys s" "xs = ys @ zs" for ys zs s
    using that
  proof (induction zs arbitrary: ys s)
    case Nil
    then show ?case by simp
  next
    case (Cons z zs)
    have "outcome E (I (ys @ [z])) (f z s)" using assms(2) Cons.prems by blast
    then show ?case using Cons.IH [of "ys @ [z]"] Cons.prems(2)
      by (auto intro!: outcome_bind elim!: outcome_mono)
  qed
  from this [of "[]" s xs] assms(1) show ?thesis by simp
qed

lemma outcome_foldR_inv:
  assumes "I s" and "\<And>x s. I s \<Longrightarrow> x \<in> set xs \<Longrightarrow> outcome E I (f x s)"
  shows "outcome E I (foldR f xs s)"
  by (rule outcome_foldR [where I = "\<lambda>_. I"]) (use assms in auto)

section \<open>Signed division\<close>

text \<open>Division and remainder of C++ truncate towards zero.\<close>

definition cdiv :: "int \<Rightarrow> int \<Rightarrow> int" where
  "cdiv a b = sgn a * sgn b * (\<bar>a\<bar> div \<bar>b\<bar>)"

definition cmod :: "int \<Rightarrow> int \<Rightarrow> int" where
  "cmod a b = a - b * cdiv a b"

lemma cdiv_nonneg [simp]: "0 \<le> a \<Longrightarrow> 0 < b \<Longrightarrow> cdiv a b = a div b"
  by (cases "a = 0") (simp_all add: cdiv_def)

lemma cmod_nonneg [simp]: "0 \<le> a \<Longrightarrow> 0 < b \<Longrightarrow> cmod a b = a mod b"
  by (simp add: cmod_def minus_mult_div_eq_mod)

section \<open>Unsigned sizes\<close>

text \<open>
  Sizes and indices (\<^verbatim>\<open>size_t\<close>) are \<open>nat\<close>; the sizes of allocated objects stay below \<open>2 ^ 63\<close>, so
  additions of them do not wrap. A subtraction can, and wraps here as on a 64-bit target.
\<close>

definition size_sub :: "nat \<Rightarrow> nat \<Rightarrow> nat" where
  "size_sub a b = (if b \<le> a then a - b else a + 2 ^ 64 - b)"

lemma size_sub_le [simp]: "b \<le> a \<Longrightarrow> size_sub a b = a - b"
  by (simp add: size_sub_def)

section \<open>Vectors with bounds\<close>

text \<open>
  \<open>vec_read v i j\<close> is the sequence \<open>[i, j)\<close> of the vector \<open>v\<close>; \<open>vec_write v i d\<close> is \<open>v\<close> with \<open>d\<close>
  copied over it from position \<open>i\<close> (\<^verbatim>\<open>std::copy\<close>, \<^verbatim>\<open>memcpy\<close>). Both fault outside the allocation.
  \<open>vec_resize\<close> is \<^verbatim>\<open>std::vector::resize\<close> with its value initialisation.
\<close>

definition vec_read :: "'a list \<Rightarrow> nat \<Rightarrow> nat \<Rightarrow> 'a list result" where
  "vec_read v i j = (if i \<le> j \<and> j \<le> length v then Inr (take (j - i) (drop i v))
                     else Inl OutOfBounds)"

definition vec_write :: "'a list \<Rightarrow> nat \<Rightarrow> 'a list \<Rightarrow> 'a list result" where
  "vec_write v i d = (if i + length d \<le> length v
                      then Inr (take i v @ d @ drop (i + length d) v)
                      else Inl OutOfBounds)"

definition vec_resize :: "'a \<Rightarrow> 'a list \<Rightarrow> nat \<Rightarrow> 'a list" where
  "vec_resize z v n = take n v @ replicate (n - length v) z"

text \<open>Reading one element.\<close>

definition nthR :: "'a list \<Rightarrow> nat \<Rightarrow> 'a result" where
  "nthR xs i = (if i < length xs then Inr (xs ! i) else Inl OutOfBounds)"

lemma length_vec_resize [simp]: "length (vec_resize z v n) = n"
  by (simp add: vec_resize_def)

lemma vec_read_ok: "i \<le> j \<Longrightarrow> j \<le> length v \<Longrightarrow> vec_read v i j = Inr (take (j - i) (drop i v))"
  by (simp add: vec_read_def)

lemma vec_write_ok:
  "i + length d \<le> length v \<Longrightarrow> vec_write v i d = Inr (take i v @ d @ drop (i + length d) v)"
  by (simp add: vec_write_def)

lemma slice_write_before:
  assumes "j \<le> i" "i \<le> length v"
  shows "take (j - k) (drop k (take i v @ d @ e)) = take (j - k) (drop k v)"
  using assms by (simp add: take_drop min_def)

lemma slice_append:
  assumes "i \<le> j" "j \<le> length v"
  shows "take (j + length d - i) (drop i (take j v @ d @ e)) = take (j - i) (drop i v) @ d"
proof -
  have "drop i (take j v @ d @ e) = take (j - i) (drop i v) @ d @ e"
    using assms by (simp add: drop_take)
  moreover have "length (take (j - i) (drop i v)) = j - i" using assms by simp
  ultimately show ?thesis using assms by simp
qed

section \<open>Searching\<close>

text \<open>\<^verbatim>\<open>std::find\<close> and \<^verbatim>\<open>std::search\<close>: the offset of the first match, the length of the range if
  there is none (the iterator \<^verbatim>\<open>end\<close>).\<close>

definition std_find :: "'a \<Rightarrow> 'a list \<Rightarrow> nat" where
  "std_find c xs = length (takeWhile (\<lambda>x. x \<noteq> c) xs)"

fun std_search :: "'a list \<Rightarrow> 'a list \<Rightarrow> nat" where
  "std_search [] pat = 0"
| "std_search (x # xs) pat =
     (if take (length pat) (x # xs) = pat then 0 else Suc (std_search xs pat))"

lemma std_find_le [simp]: "std_find c xs \<le> length xs"
  by (simp add: std_find_def length_takeWhile_le)

lemma std_find_append_notin:
  "c \<notin> set xs \<Longrightarrow> std_find c (xs @ ys) = length xs + std_find c ys"
  by (induction xs) (auto simp: std_find_def)

lemma std_find_Cons_hit [simp]: "std_find c (c # xs) = 0"
  by (simp add: std_find_def)

lemma std_find_notin: "c \<notin> set xs \<Longrightarrow> std_find c xs = length xs"
  using std_find_append_notin [of c xs "[]"] by (simp add: std_find_def)

lemma take_std_find: "take (std_find c xs) xs = takeWhile (\<lambda>x. x \<noteq> c) xs"
  by (simp add: std_find_def takeWhile_eq_take [symmetric])

lemma std_find_found: "std_find c xs \<noteq> length xs \<Longrightarrow> xs ! std_find c xs = c"
  unfolding std_find_def
  by (metis (mono_tags, lifting) le_neq_implies_less length_takeWhile_le nth_length_takeWhile)

lemma std_search_le [simp]: "std_search xs pat \<le> length xs"
  by (induction xs pat rule: std_search.induct) auto

lemma std_search_found:
  "std_search xs pat \<noteq> length xs \<Longrightarrow>
     take (length pat) (drop (std_search xs pat) xs) = pat"
  by (induction xs pat rule: std_search.induct) (auto split: if_splits)

lemma std_search_first:
  "i < std_search xs pat \<Longrightarrow> take (length pat) (drop i xs) \<noteq> pat"
proof (induction xs pat arbitrary: i rule: std_search.induct)
  case (2 x xs pat)
  then show ?case by (cases i) (auto split: if_splits)
qed simp

lemma std_search_room:
  assumes "std_search xs pat \<noteq> length xs"
  shows "std_search xs pat + length pat \<le> length xs"
proof -
  have "length (take (length pat) (drop (std_search xs pat) xs)) = length pat"
    using std_search_found [OF assms] by simp
  moreover have "std_search xs pat \<le> length xs" by simp
  ultimately show ?thesis unfolding length_take length_drop by arith
qed

lemma std_search_nonempty: "std_search xs pat \<noteq> length xs \<Longrightarrow> 0 < length xs"
  by (cases xs) auto

lemma std_search_unique:
  assumes "i \<le> length xs" "take (length pat) (drop i xs) = pat" "pat \<noteq> []"
    and "\<And>k. k < i \<Longrightarrow> take (length pat) (drop k xs) \<noteq> pat"
  shows "std_search xs pat = i"
  using assms
proof (induction xs pat arbitrary: i rule: std_search.induct)
  case (1 pat)
  then show ?case by simp
next
  case (2 x xs pat)
  show ?case
  proof (cases i)
    case 0
    with "2.prems" show ?thesis by simp
  next
    case (Suc j)
    have ne: "take (length pat) (x # xs) \<noteq> pat" using "2.prems"(4) [of 0] Suc by simp
    have "\<And>k. k < j \<Longrightarrow> take (length pat) (drop k xs) \<noteq> pat"
      using "2.prems"(4) [of "Suc _"] Suc by simp
    with "2.IH" [OF ne, of j] "2.prems" Suc have "std_search xs pat = j" by simp
    with ne Suc show ?thesis by simp
  qed
qed

lemma std_search_append:
  assumes "std_search xs pat \<noteq> length xs" "pat \<noteq> []"
  shows "std_search (xs @ ys) pat = std_search xs pat"
proof (rule std_search_unique)
  let ?i = "std_search xs pat"
  note room = std_search_room [OF assms(1)]
  show "?i \<le> length (xs @ ys)" using std_search_le [of xs pat] by (simp add: trans_le_add1)
  show "take (length pat) (drop ?i (xs @ ys)) = pat"
    using std_search_found [OF assms(1)] room by simp
  show "take (length pat) (drop k (xs @ ys)) \<noteq> pat" if "k < ?i" for k
    using std_search_first [OF that] room that by simp
qed (rule assms(2))

text \<open>The last occurrence: \<^verbatim>\<open>strrchr\<close> and \<^verbatim>\<open>std::string::rfind\<close> of a character.\<close>

definition strrchr :: "'a \<Rightarrow> 'a list \<Rightarrow> nat option" where
  "strrchr c s = (if c \<in> set s then Some (length s - 1 - std_find c (rev s)) else None)"

lemma std_find_less: "c \<in> set xs \<Longrightarrow> std_find c xs < length xs"
  by (induction xs) (auto simp: std_find_def)

lemma drop_strrchr: "strrchr c s = Some i \<Longrightarrow> i < length s \<and> drop (i + 1) s = rev (takeWhile (\<lambda>x. x \<noteq> c) (rev s))"
proof -
  assume a: "strrchr c s = Some i"
  let ?k = "std_find c (rev s)"
  have c: "c \<in> set s" and i: "i = length s - 1 - ?k" using a by (auto simp: strrchr_def split: if_splits)
  have "?k < length (rev s)" using c by (intro std_find_less) simp
  then have k: "?k < length s" by simp
  have "drop (length s - ?k) s = rev (take ?k (rev s))" using k by (simp add: take_rev)
  moreover have "i + 1 = length s - ?k" using i k by simp
  ultimately show ?thesis using i k by (simp add: take_std_find)
qed

section \<open>Object representation of integers\<close>

text \<open>
  The targets of the build are little-endian: \<open>le_bytes n x\<close> is the object representation of an
  \<open>n\<close>-byte unsigned integer and \<open>le_nat\<close> reads one back. \<^verbatim>\<open>htonl\<close> and its relatives reverse the
  bytes of the representation.
\<close>

fun le_bytes :: "nat \<Rightarrow> nat \<Rightarrow> string" where
  "le_bytes 0 x = []"
| "le_bytes (Suc n) x = char_of (x mod 256) # le_bytes n (x div 256)"

fun le_nat :: "string \<Rightarrow> nat" where
  "le_nat [] = 0"
| "le_nat (c # cs) = of_char c + 256 * le_nat cs"

definition swap_bytes :: "nat \<Rightarrow> 'a::len word \<Rightarrow> 'a word" where
  "swap_bytes n w = word_of_nat (le_nat (rev (le_bytes n (unat w))))"

lemma unat_less_pow: "unat (w :: 'a::len word) < 2 ^ LENGTH('a)"
  by (rule unsigned_less)

lemma sint_of_nat: "n < 2 ^ 31 \<Longrightarrow> sint (word_of_nat n :: 32 word) = int n"
  by (simp add: signed_of_nat signed_take_bit_int_eq_self)

lemma length_le_bytes [simp]: "length (le_bytes n x) = n"
  by (induction n arbitrary: x) auto

lemma le_nat_bound: "le_nat cs < 256 ^ length cs"
proof (induction cs)
  case (Cons c cs)
  have "of_char c + 256 * le_nat cs < 256 + 256 * le_nat cs" by simp
  also have "\<dots> = 256 * (le_nat cs + 1)" by simp
  also have "\<dots> \<le> 256 * 256 ^ length cs" using Cons by (intro mult_le_mono) auto
  finally show ?case by simp
qed simp

lemma le_nat_le_bytes: "le_nat (le_bytes n x) = x mod 256 ^ n"
proof (induction n arbitrary: x)
  case (Suc n)
  have "x mod 256 + 256 * (x div 256 mod 256 ^ n) = x mod (256 * 256 ^ n)"
    using mod_mult2_eq [of x 256 "256 ^ n"] by simp
  with Suc show ?case by simp
qed simp

lemma le_bytes_le_nat: "le_bytes (length cs) (le_nat cs) = cs"
proof (induction cs)
  case (Cons c cs)
  have "(of_char c + 256 * le_nat cs) mod 256 = of_char c" by simp
  moreover have "(of_char c + 256 * le_nat cs) div 256 = le_nat cs" by simp
  ultimately show ?case using Cons by simp
qed simp

lemma le_bytes_swap_bytes:
  assumes "256 ^ n \<le> (2::nat) ^ LENGTH('a::len)"
  shows "le_bytes n (unat (swap_bytes n (w :: 'a word))) = rev (le_bytes n (unat w))"
proof -
  let ?r = "rev (le_bytes n (unat w))"
  have "le_nat ?r < 256 ^ n" using le_nat_bound [of ?r] by simp
  then have "le_nat ?r < 2 ^ LENGTH('a)" using assms by linarith
  then have "unat (swap_bytes n w) = le_nat ?r"
    by (simp add: swap_bytes_def unat_of_nat)
  then show ?thesis using le_bytes_le_nat [of ?r] by simp
qed

section \<open>Printing\<close>

text \<open>\<^verbatim>\<open>%d\<close> and its relatives, and the truncation of \<^verbatim>\<open>snprintf\<close> to the buffer it is given
  (one byte is kept for the terminator).\<close>

fun dec_nat :: "nat \<Rightarrow> string" where
  "dec_nat n = (if n < 10 then [char_of (48 + n)] else dec_nat (n div 10) @ [char_of (48 + n mod 10)])"

declare dec_nat.simps [simp del]

definition dec_int :: "int \<Rightarrow> string" where
  "dec_int i = (if i < 0 then CHR ''-'' # dec_nat (nat (- i)) else dec_nat (nat i))"

text \<open>\<^verbatim>\<open>%0wd\<close>: the sign counts towards the width.\<close>

definition dec_pad :: "nat \<Rightarrow> int \<Rightarrow> string" where
  "dec_pad w i =
     (let digits = dec_nat (nat \<bar>i\<bar>); sign = (if i < 0 then ''-'' else [])
      in sign @ replicate (w - length sign - length digits) (CHR ''0'') @ digits)"

text \<open>\<^verbatim>\<open>%wd\<close> pads with blanks.\<close>

definition dec_blank :: "nat \<Rightarrow> int \<Rightarrow> string" where
  "dec_blank w i = replicate (w - length (dec_int i)) (CHR '' '') @ dec_int i"

definition snprintf :: "nat \<Rightarrow> string \<Rightarrow> string" where
  "snprintf n text = take (n - 1) text"

lemma dec_nat_nonempty: "dec_nat n \<noteq> []"
  by (subst dec_nat.simps) simp

lemma length_dec_nat: "0 < k \<Longrightarrow> n < 10 ^ k \<Longrightarrow> length (dec_nat n) \<le> k"
proof (induction k arbitrary: n)
  case (Suc k)
  show ?case
  proof (cases "n < 10")
    case True
    then show ?thesis by (subst dec_nat.simps) simp
  next
    case False
    then have "0 < k" using Suc.prems(2) by (cases k) auto
    moreover have "n div 10 < 10 ^ k" using Suc.prems(2) by (simp add: less_mult_imp_div_less mult.commute)
    ultimately show ?thesis using Suc.IH False by (subst dec_nat.simps) simp
  qed
qed simp

lemma length_dec_blank: "length (dec_int i) \<le> w \<Longrightarrow> length (dec_blank w i) = w"
  by (simp add: dec_blank_def)

lemma length_dec_int_nonneg: "0 < k \<Longrightarrow> 0 \<le> i \<Longrightarrow> i < 10 ^ k \<Longrightarrow> length (dec_int i) \<le> k"
  using length_dec_nat [of k "nat i"] by (simp add: dec_int_def nat_less_iff)

lemma length_dec_pad:
  assumes "0 < w" "0 \<le> i" "i < 10 ^ w"
  shows "length (dec_pad w i) = w"
proof -
  have "length (dec_nat (nat i)) \<le> w" using assms by (intro length_dec_nat) (simp_all add: nat_less_iff)
  then show ?thesis using assms by (simp add: dec_pad_def Let_def)
qed

lemma snprintf_fits: "length text < n \<Longrightarrow> snprintf n text = text"
  by (simp add: snprintf_def)

lemma digit_chars:
  "char_of (48::nat) = CHR ''0''" "char_of (49::nat) = CHR ''1''" "char_of (50::nat) = CHR ''2''" "char_of (51::nat) = CHR ''3''"
  "char_of (52::nat) = CHR ''4''" "char_of (53::nat) = CHR ''5''" "char_of (54::nat) = CHR ''6''" "char_of (55::nat) = CHR ''7''"
  "char_of (56::nat) = CHR ''8''" "char_of (57::nat) = CHR ''9''"
  by code_simp+

lemmas print_simps = dec_pad_def dec_blank_def dec_int_def dec_nat.simps digit_chars Let_def

text \<open>The decimal text denotes the number: reading the digits back gives it again.\<close>

definition dec_value :: "string \<Rightarrow> nat" where
  "dec_value s = foldl (\<lambda>a c. 10 * a + (of_char c - 48)) 0 s"

lemma dec_value_dec_nat: "dec_value (dec_nat n) = n"
proof (induction n rule: dec_nat.induct)
  case (1 n)
  show ?case
  proof (cases "n < 10")
    case True
    then show ?thesis by (subst dec_nat.simps) (simp add: dec_value_def)
  next
    case False
    with "1.IH" have "dec_value (dec_nat (n div 10)) = n div 10" by simp
    moreover have "(of_char (char_of (48 + n mod 10) :: char) :: nat) = 48 + n mod 10" by simp
    ultimately show ?thesis using False by (subst dec_nat.simps) (simp add: dec_value_def)
  qed
qed

lemma dec_nat_inj: "dec_nat m = dec_nat n \<Longrightarrow> m = n"
  by (metis dec_value_dec_nat)

lemma dec_nat_digits: "set (dec_nat n) \<subseteq> {c. 48 \<le> (of_char c :: nat) \<and> (of_char c :: nat) \<le> 57}"
proof (induction n rule: dec_nat.induct)
  case (1 n)
  have d: "(of_char (char_of (48 + n mod 10) :: char) :: nat) = 48 + n mod 10" by simp
  show ?case
  proof (cases "n < 10")
    case True
    then show ?thesis by (subst dec_nat.simps) simp
  next
    case False
    with "1.IH" d show ?thesis by (subst dec_nat.simps) (auto simp del: of_char_of)
  qed
qed

section \<open>Character classes\<close>

definition isspace :: "char \<Rightarrow> bool" where
  "isspace c = (of_char c = (32::nat) \<or> (9 \<le> (of_char c :: nat) \<and> (of_char c :: nat) \<le> 13))"

section \<open>Shared collections\<close>

named_theorems model_simps "evaluation rules of the component models"

end
