(* ===== verification/Stream_Spec.thy ===== *)
theory Stream_Spec
  imports Cpp_Prelude
begin

text \<open>
  The contract of a byte sink (what a component that only appends relies on) and of a byte queue
  (append at one end, consume at the other), as locales over the operations and an abstraction to
  the pending sequence. \<^verbatim>\<open>net/Buffer\<close>, \<^verbatim>\<open>base/LogStream\<close>'s and \<^verbatim>\<open>base/FileUtil\<close>'s writers
  interpret them. The lemmas of the locales are the facts their clients use.
\<close>

locale byte_sink =
  fixes inv :: "'s \<Rightarrow> bool"
    and content :: "'s \<Rightarrow> 'a list"
    and put :: "'a list \<Rightarrow> 's \<Rightarrow> 's result"
  assumes put_ok: "inv s \<Longrightarrow> \<exists>s'. put d s = Inr s' \<and> inv s' \<and> content s' = content s @ d"
begin

lemma put_all_ok:
  "inv s \<Longrightarrow> \<exists>s'. foldR put ds s = Inr s' \<and> inv s' \<and> content s' = content s @ concat ds"
proof (induction ds arbitrary: s)
  case Nil
  then show ?case by simp
next
  case (Cons d ds)
  obtain s1 where s1: "put d s = Inr s1" "inv s1" "content s1 = content s @ d"
    using put_ok [OF Cons.prems] by blast
  from Cons.IH [OF s1(2)] s1 show ?case by auto
qed

lemma put_all_content:
  "inv s \<Longrightarrow> foldR put ds s = Inr s' \<Longrightarrow> content s' = content s @ concat ds"
  using put_all_ok [of s ds] by auto

end

datatype 'a stream_op = Put "'a list" | Get nat

primrec sent :: "'a stream_op list \<Rightarrow> 'a list" where
  "sent [] = []"
| "sent (op # ops) = (case op of Put d \<Rightarrow> d | Get _ \<Rightarrow> []) @ sent ops"

text \<open>A schedule of appends and reads; a read takes what is there, up to the size asked for.\<close>

fun stream_run :: "('a list \<Rightarrow> 's \<Rightarrow> 's result) \<Rightarrow> (nat \<Rightarrow> 's \<Rightarrow> 's result) \<Rightarrow> ('s \<Rightarrow> 'a list)
    \<Rightarrow> 'a stream_op list \<Rightarrow> 's \<Rightarrow> 'a list \<Rightarrow> ('s \<times> 'a list) result" where
  "stream_run put get content [] s out = Inr (s, out)"
| "stream_run put get content (Put d # ops) s out =
     bindR (put d s) (\<lambda>s'. stream_run put get content ops s' out)"
| "stream_run put get content (Get n # ops) s out =
     (let m = min n (length (content s)) in
      bindR (get m s) (\<lambda>s'. stream_run put get content ops s' (out @ take m (content s))))"

locale byte_queue = byte_sink inv content put
  for inv :: "'s \<Rightarrow> bool" and content :: "'s \<Rightarrow> 'a list" and put :: "'a list \<Rightarrow> 's \<Rightarrow> 's result" +
  fixes get :: "nat \<Rightarrow> 's \<Rightarrow> 's result"
  assumes get_ok: "inv s \<Longrightarrow> n \<le> length (content s)
      \<Longrightarrow> \<exists>s'. get n s = Inr s' \<and> inv s' \<and> content s' = drop n (content s)"
begin

lemma stream_run_ok:
  "inv s \<Longrightarrow> \<exists>s' out'. stream_run put get content ops s out = Inr (s', out') \<and> inv s'
       \<and> out' @ content s' = out @ content s @ sent ops"
proof (induction ops arbitrary: s out)
  case Nil
  then show ?case by simp
next
  case (Cons op ops)
  show ?case
  proof (cases op)
    case (Put d)
    obtain s1 where s1: "put d s = Inr s1" "inv s1" "content s1 = content s @ d"
      using put_ok [OF Cons.prems] by blast
    from Cons.IH [OF s1(2), of out] s1 Put show ?thesis by auto
  next
    case (Get n)
    define m where "m = min n (length (content s))"
    obtain s1 where s1: "get m s = Inr s1" "inv s1" "content s1 = drop m (content s)"
      using get_ok [OF Cons.prems, of m] by (auto simp: m_def)
    from Cons.IH [OF s1(2), of "out @ take m (content s)"] s1 Get show ?thesis
      by (auto simp: m_def [symmetric] Let_def)
  qed
qed

end

end
