(* ===== verification/Net_Buffer.thy ===== *)
theory Net_Buffer
  imports Stream_Spec
begin

text \<open>
  \<^verbatim>\<open>net/Buffer.h\<close>, \<^verbatim>\<open>net/Buffer.cc\<close> and the byte-order helpers of \<^verbatim>\<open>net/SocketsOps.h\<close>: the
  application buffer of a connection, a vector with a prepend area, a readable region
  \<open>[readerIndex, writerIndex)\<close> and free space behind it. The operations keep the source's
  assertions; every copy goes through a bounds check. The class invariant is \<open>Buffer_inv\<close>, the
  abstraction \<open>Buffer_content\<close> is the readable region, and the buffer interprets \<open>byte_queue\<close>.
\<close>

section \<open>Byte order (net/SocketsOps.h)\<close>

definition hostToNetwork64 :: "64 word \<Rightarrow> 64 word" where
  "hostToNetwork64 host64 = swap_bytes 8 host64"

definition hostToNetwork32 :: "32 word \<Rightarrow> 32 word" where
  "hostToNetwork32 host32 = swap_bytes 4 host32"

definition hostToNetwork16 :: "16 word \<Rightarrow> 16 word" where
  "hostToNetwork16 host16 = swap_bytes 2 host16"

definition networkToHost64 :: "64 word \<Rightarrow> 64 word" where
  "networkToHost64 net64 = swap_bytes 8 net64"

definition networkToHost32 :: "32 word \<Rightarrow> 32 word" where
  "networkToHost32 net32 = swap_bytes 4 net32"

definition networkToHost16 :: "16 word \<Rightarrow> 16 word" where
  "networkToHost16 net16 = swap_bytes 2 net16"

section \<open>The buffer\<close>

record Buffer =
  buffer :: string
  readerIndex :: nat
  writerIndex :: nat

definition kCheapPrepend :: nat where "kCheapPrepend = 8"
definition kInitialSize :: nat where "kInitialSize = 1024"
definition kCRLF :: string where "kCRLF = [CHR 0x0D, CHR 0x0A]"
definition extrabuf_size :: nat where "extrabuf_size = 65536"

definition readableBytes :: "Buffer \<Rightarrow> nat" where
  "readableBytes b = size_sub (writerIndex b) (readerIndex b)"

definition writableBytes :: "Buffer \<Rightarrow> nat" where
  "writableBytes b = size_sub (length (buffer b)) (writerIndex b)"

definition prependableBytes :: "Buffer \<Rightarrow> nat" where
  "prependableBytes b = readerIndex b"

definition Buffer_ctor :: "Buffer result" where
  "Buffer_ctor =
     (let b = \<lparr>buffer = replicate (kCheapPrepend + kInitialSize) (CHR 0x00),
               readerIndex = kCheapPrepend, writerIndex = kCheapPrepend\<rparr>
      in assertR ''readableBytes() == 0'' (readableBytes b = 0)
        (assertR ''writableBytes() == kInitialSize'' (writableBytes b = kInitialSize)
        (assertR ''prependableBytes() == kCheapPrepend'' (prependableBytes b = kCheapPrepend)
           (Inr b))))"

definition Buffer_swap :: "Buffer \<Rightarrow> Buffer \<Rightarrow> Buffer \<times> Buffer" where
  "Buffer_swap b rhs =
     (b\<lparr>buffer := buffer rhs, readerIndex := readerIndex rhs, writerIndex := writerIndex rhs\<rparr>,
      rhs\<lparr>buffer := buffer b, readerIndex := readerIndex b, writerIndex := writerIndex b\<rparr>)"

definition peek :: "Buffer \<Rightarrow> nat" where
  "peek b = readerIndex b"

definition beginWrite :: "Buffer \<Rightarrow> nat" where
  "beginWrite b = writerIndex b"

text \<open>An integer read through the read pointer: the bytes of its object representation.\<close>

definition peekInt32 :: "Buffer \<Rightarrow> 32 word result" where
  "peekInt32 b =
     assertR ''readableBytes()>=sizeof(int32_t)'' (4 \<le> readableBytes b)
       (bindR (vec_read (buffer b) (peek b) (peek b + 4))
          (\<lambda>bs. Inr (networkToHost32 (word_of_nat (le_nat bs)))))"

definition peekInt64 :: "Buffer \<Rightarrow> 64 word result" where
  "peekInt64 b =
     assertR ''readableBytes()>=sizeof(int64_t)'' (8 \<le> readableBytes b)
       (bindR (vec_read (buffer b) (peek b) (peek b + 8))
          (\<lambda>bs. Inr (networkToHost64 (word_of_nat (le_nat bs)))))"

text \<open>\<^verbatim>\<open>findCRLF\<close> returns a pointer into the buffer (an index) or \<^verbatim>\<open>NULL\<close>.\<close>

definition findCRLF_from :: "nat \<Rightarrow> Buffer \<Rightarrow> nat option result" where
  "findCRLF_from start b =
     assertR ''peek() <= start'' (peek b \<le> start)
      (assertR ''start <= beginWrite()'' (start \<le> beginWrite b)
        (bindR (vec_read (buffer b) start (beginWrite b))
          (\<lambda>range. let crlf = start + std_search range kCRLF
                   in Inr (if crlf = beginWrite b then None else Some crlf))))"

definition findCRLF :: "Buffer \<Rightarrow> nat option result" where
  "findCRLF b =
     bindR (vec_read (buffer b) (peek b) (beginWrite b))
       (\<lambda>range. let crlf = peek b + std_search range kCRLF
                in Inr (if crlf = beginWrite b then None else Some crlf))"

definition retrieve :: "nat \<Rightarrow> Buffer \<Rightarrow> Buffer result" where
  "retrieve len b =
     assertR ''len <= readableBytes()'' (len \<le> readableBytes b)
       (Inr (b\<lparr>readerIndex := readerIndex b + len\<rparr>))"

definition retrieveAll :: "Buffer \<Rightarrow> Buffer" where
  "retrieveAll b = b\<lparr>readerIndex := kCheapPrepend, writerIndex := kCheapPrepend\<rparr>"

definition retrieveAsString :: "Buffer \<Rightarrow> (string \<times> Buffer) result" where
  "retrieveAsString b =
     bindR (vec_read (buffer b) (peek b) (peek b + readableBytes b))
       (\<lambda>str. Inr (str, retrieveAll b))"

definition retrieveUntil :: "nat \<Rightarrow> Buffer \<Rightarrow> Buffer result" where
  "retrieveUntil e b =
     assertR ''peek() <= end'' (peek b \<le> e)
      (assertR ''end <= beginWrite()'' (e \<le> beginWrite b)
        (retrieve (size_sub e (peek b)) b))"

definition hasWritten :: "nat \<Rightarrow> Buffer \<Rightarrow> Buffer" where
  "hasWritten len b = b\<lparr>writerIndex := writerIndex b + len\<rparr>"

definition makeSpace :: "nat \<Rightarrow> Buffer \<Rightarrow> Buffer result" where
  "makeSpace len b =
     (if writableBytes b + prependableBytes b < len + kCheapPrepend
      then Inr (b\<lparr>buffer := vec_resize (CHR 0x00) (buffer b) (writerIndex b + len)\<rparr>)
      else assertR ''kCheapPrepend < readerIndex_'' (kCheapPrepend < readerIndex b)
        (let readable = readableBytes b in
         bindR (vec_read (buffer b) (readerIndex b) (writerIndex b)) (\<lambda>d.
         bindR (vec_write (buffer b) kCheapPrepend d) (\<lambda>v.
           let b' = b\<lparr>buffer := v, readerIndex := kCheapPrepend,
                      writerIndex := kCheapPrepend + readable\<rparr>
           in assertR ''readable == readableBytes()'' (readable = readableBytes b') (Inr b')))))"

definition ensureWritableBytes :: "nat \<Rightarrow> Buffer \<Rightarrow> Buffer result" where
  "ensureWritableBytes len b =
     bindR (if writableBytes b < len then makeSpace len b else Inr b)
       (\<lambda>b'. assertR ''writableBytes() >= len'' (len \<le> writableBytes b') (Inr b'))"

definition Buffer_append :: "string \<Rightarrow> Buffer \<Rightarrow> Buffer result" where
  "Buffer_append d b =
     bindR (ensureWritableBytes (length d) b) (\<lambda>b1.
     bindR (vec_write (buffer b1) (beginWrite b1) d) (\<lambda>v.
       Inr (hasWritten (length d) (b1\<lparr>buffer := v\<rparr>))))"

definition appendInt64 :: "64 word \<Rightarrow> Buffer \<Rightarrow> Buffer result" where
  "appendInt64 x b = (let be64 = hostToNetwork64 x in Buffer_append (le_bytes 8 (unat be64)) b)"

definition appendInt32 :: "32 word \<Rightarrow> Buffer \<Rightarrow> Buffer result" where
  "appendInt32 x b = (let be32 = hostToNetwork32 x in Buffer_append (le_bytes 4 (unat be32)) b)"

definition appendInt16 :: "16 word \<Rightarrow> Buffer \<Rightarrow> Buffer result" where
  "appendInt16 x b = (let be16 = hostToNetwork16 x in Buffer_append (le_bytes 2 (unat be16)) b)"

definition appendInt8 :: "8 word \<Rightarrow> Buffer \<Rightarrow> Buffer result" where
  "appendInt8 x b = Buffer_append (le_bytes 1 (unat x)) b"

definition prepend :: "string \<Rightarrow> Buffer \<Rightarrow> Buffer result" where
  "prepend d b =
     assertR ''len <= prependableBytes()'' (length d \<le> prependableBytes b)
       (let r = readerIndex b - length d in
        bindR (vec_write (buffer b) r d) (\<lambda>v. Inr (b\<lparr>buffer := v, readerIndex := r\<rparr>)))"

text \<open>\<^verbatim>\<open>shrink\<close> replaces the vector and leaves both indices as they are.\<close>

definition shrink :: "nat \<Rightarrow> Buffer \<Rightarrow> Buffer result" where
  "shrink reserve b =
     (let buf = replicate (kCheapPrepend + readableBytes b + reserve) (CHR 0x00) in
      bindR (vec_read (buffer b) (peek b) (peek b + readableBytes b)) (\<lambda>d.
      bindR (vec_write buf kCheapPrepend d) (\<lambda>buf'. Inr (b\<lparr>buffer := buf'\<rparr>))))"

text \<open>
  The outcome of \<^verbatim>\<open>readv(2)\<close> into the free space of the buffer followed by the 64 kB stack array:
  an error with its \<^verbatim>\<open>errno\<close>, or the bytes stored, in order, at most as many as both areas hold.
\<close>

datatype io_read = ReadErr int | ReadOk string

definition readv_fits :: "io_read \<Rightarrow> Buffer \<Rightarrow> bool" where
  "readv_fits r b = (case r of ReadErr _ \<Rightarrow> True
                     | ReadOk d \<Rightarrow> length d \<le> writableBytes b + extrabuf_size)"

definition readFd :: "io_read \<Rightarrow> int \<Rightarrow> Buffer \<Rightarrow> (int \<times> int \<times> Buffer) result" where
  "readFd r savedErrno b =
     (let writable = writableBytes b in
      case r of
        ReadErr e \<Rightarrow> Inr (-1, e, b)
      | ReadOk d \<Rightarrow>
          bindR (vec_write (buffer b) (writerIndex b) (take writable d)) (\<lambda>v.
            let b1 = b\<lparr>buffer := v\<rparr>; n = length d; extrabuf = drop writable d in
            if n \<le> writable
            then Inr (int n, savedErrno, b1\<lparr>writerIndex := writerIndex b1 + n\<rparr>)
            else bindR (Buffer_append (take (n - writable) extrabuf)
                          (b1\<lparr>writerIndex := length (buffer b1)\<rparr>))
                   (\<lambda>b2. Inr (int n, savedErrno, b2))))"

section \<open>Invariant and abstraction\<close>

definition Buffer_inv :: "Buffer \<Rightarrow> bool" where
  "Buffer_inv b \<longleftrightarrow> kCheapPrepend \<le> length (buffer b)
     \<and> readerIndex b \<le> writerIndex b \<and> writerIndex b \<le> length (buffer b)"

definition Buffer_content :: "Buffer \<Rightarrow> string" where
  "Buffer_content b = take (writerIndex b - readerIndex b) (drop (readerIndex b) (buffer b))"

lemmas buffer_sizes = readableBytes_def writableBytes_def prependableBytes_def
  peek_def beginWrite_def kCheapPrepend_def kInitialSize_def

lemma length_Buffer_content [simp]:
  "Buffer_inv b \<Longrightarrow> length (Buffer_content b) = writerIndex b - readerIndex b"
  by (auto simp: Buffer_inv_def Buffer_content_def)

lemma readableBytes_eq: "Buffer_inv b \<Longrightarrow> readableBytes b = length (Buffer_content b)"
  by (auto simp: Buffer_inv_def readableBytes_def Buffer_content_def)

lemma Buffer_inv_idx:
  "Buffer_inv b \<Longrightarrow> readerIndex b \<le> writerIndex b"
  "Buffer_inv b \<Longrightarrow> writerIndex b \<le> length (buffer b)"
  by (simp_all add: Buffer_inv_def)

lemma vec_read_content:
  "Buffer_inv b \<Longrightarrow> vec_read (buffer b) (peek b) (beginWrite b) = Inr (Buffer_content b)"
  by (simp add: Buffer_inv_def vec_read_ok Buffer_content_def peek_def beginWrite_def)

lemma Buffer_ctor_ok:
  "\<exists>b. Buffer_ctor = Inr b \<and> Buffer_inv b \<and> Buffer_content b = [] \<and> prependableBytes b = 8
     \<and> writableBytes b = 1024"
  by (simp add: Buffer_ctor_def Buffer_inv_def Buffer_content_def buffer_sizes)

lemma retrieveAll_ok:
  "Buffer_inv b \<Longrightarrow> Buffer_inv (retrieveAll b) \<and> Buffer_content (retrieveAll b) = []"
  by (simp add: retrieveAll_def Buffer_inv_def Buffer_content_def)

lemma retrieve_ok:
  assumes "Buffer_inv b" "n \<le> length (Buffer_content b)"
  shows "\<exists>b'. retrieve n b = Inr b' \<and> Buffer_inv b' \<and> Buffer_content b' = drop n (Buffer_content b)"
  using assms
  by (auto simp: retrieve_def readableBytes_eq Buffer_inv_def Buffer_content_def drop_take add.commute)

lemma retrieveAsString_ok:
  assumes "Buffer_inv b"
  shows "\<exists>b'. retrieveAsString b = Inr (Buffer_content b, b') \<and> Buffer_inv b' \<and> Buffer_content b' = []"
proof -
  have "vec_read (buffer b) (peek b) (peek b + readableBytes b) = Inr (Buffer_content b)"
    using assms vec_read_content [OF assms]
    by (simp add: readableBytes_def Buffer_inv_def peek_def beginWrite_def)
  then show ?thesis using retrieveAll_ok [OF assms] by (simp add: retrieveAsString_def)
qed

lemma Buffer_content_written:
  assumes "buffer b = take w v @ d @ e" "readerIndex b = r" "writerIndex b = w + length d"
    and "r \<le> w" "w \<le> length v"
  shows "Buffer_content b = take (w - r) (drop r v) @ d"
  unfolding Buffer_content_def assms(1-3) using assms(4,5) by (rule slice_append)

lemma makeSpace_ok:
  assumes inv: "Buffer_inv b" and short: "writableBytes b < len"
  shows "\<exists>b'. makeSpace len b = Inr b' \<and> Buffer_inv b' \<and> Buffer_content b' = Buffer_content b
           \<and> len \<le> writableBytes b' \<and> min 8 (prependableBytes b) \<le> prependableBytes b'"
proof (cases "writableBytes b + prependableBytes b < len + kCheapPrepend")
  case True
  let ?b = "b\<lparr>buffer := vec_resize (CHR 0x00) (buffer b) (writerIndex b + len)\<rparr>"
  have "take (writerIndex b - readerIndex b) (drop (readerIndex b) (vec_resize (CHR 0x00) (buffer b) (writerIndex b + len)))
      = take (writerIndex b - readerIndex b) (drop (readerIndex b) (buffer b))"
    using inv short by (simp add: vec_resize_def Buffer_inv_def writableBytes_def take_drop)
  then have "Buffer_content ?b = Buffer_content b" by (simp add: Buffer_content_def)
  moreover have "Buffer_inv ?b" using inv short
    by (auto simp: Buffer_inv_def writableBytes_def)
  ultimately show ?thesis using True by (simp add: makeSpace_def buffer_sizes)
next
  case False
  have rd: "vec_read (buffer b) (readerIndex b) (writerIndex b) = Inr (Buffer_content b)"
    using vec_read_content [OF inv] by (simp add: peek_def beginWrite_def)
  have far: "8 < readerIndex b" and idx: "readerIndex b \<le> writerIndex b" "writerIndex b \<le> length (buffer b)"
    using False short inv by (auto simp: buffer_sizes Buffer_inv_def)
  have len: "length (Buffer_content b) = writerIndex b - readerIndex b" using inv by simp
  define v where "v = take 8 (buffer b) @ Buffer_content b @ drop (8 + length (Buffer_content b)) (buffer b)"
  have wr: "vec_write (buffer b) 8 (Buffer_content b) = Inr v"
    unfolding v_def by (rule vec_write_ok) (use idx far len in linarith)
  let ?b = "b\<lparr>buffer := v, readerIndex := 8, writerIndex := 8 + (writerIndex b - readerIndex b)\<rparr>"
  have lv: "length v = length (buffer b)" unfolding v_def using idx far by (simp add: len)
  have "Buffer_content ?b = Buffer_content b"
    using Buffer_content_written [of ?b 8 "buffer b" "Buffer_content b" _ 8] idx far len
    by (simp add: v_def)
  moreover have "Buffer_inv ?b" using idx far lv by (auto simp: Buffer_inv_def kCheapPrepend_def)
  moreover have "makeSpace len b = Inr ?b"
    using False rd wr far idx by (simp add: makeSpace_def buffer_sizes)
  moreover have "len \<le> writableBytes ?b"
    using False lv far idx by (simp add: buffer_sizes)
  ultimately show ?thesis by (simp add: prependableBytes_def)
qed

lemma ensureWritableBytes_ok:
  assumes "Buffer_inv b"
  shows "\<exists>b'. ensureWritableBytes len b = Inr b' \<and> Buffer_inv b' \<and> Buffer_content b' = Buffer_content b
           \<and> len \<le> writableBytes b' \<and> min 8 (prependableBytes b) \<le> prependableBytes b'"
proof (cases "writableBytes b < len")
  case True
  from makeSpace_ok [OF assms True] True show ?thesis by (auto simp: ensureWritableBytes_def)
next
  case False
  with assms show ?thesis by (simp add: ensureWritableBytes_def)
qed

text \<open>Appending keeps at least the prepend area the buffer had (up to the reserved eight bytes),
  which is what a later \<^verbatim>\<open>prepend\<close> of a length header relies on.\<close>

lemma Buffer_append_ok:
  assumes "Buffer_inv b"
  shows "\<exists>b'. Buffer_append d b = Inr b' \<and> Buffer_inv b' \<and> Buffer_content b' = Buffer_content b @ d
           \<and> min 8 (prependableBytes b) \<le> prependableBytes b'"
proof -
  obtain b1 where b1: "ensureWritableBytes (length d) b = Inr b1" "Buffer_inv b1"
      "Buffer_content b1 = Buffer_content b" "length d \<le> writableBytes b1"
      "min 8 (prependableBytes b) \<le> prependableBytes b1"
    using ensureWritableBytes_ok [OF assms, of "length d"] by blast
  have room: "writerIndex b1 + length d \<le> length (buffer b1)"
    using b1(2,4) by (auto simp: writableBytes_def Buffer_inv_def)
  define v where "v = take (writerIndex b1) (buffer b1) @ d @ drop (writerIndex b1 + length d) (buffer b1)"
  have wr: "vec_write (buffer b1) (beginWrite b1) d = Inr v"
    unfolding v_def beginWrite_def using room by (rule vec_write_ok)
  let ?b = "hasWritten (length d) (b1\<lparr>buffer := v\<rparr>)"
  have "Buffer_append d b = Inr ?b" using b1(1) wr by (simp add: Buffer_append_def)
  moreover have "Buffer_inv ?b"
    using b1(2) room by (simp add: Buffer_inv_def hasWritten_def v_def)
  moreover have "Buffer_content ?b = Buffer_content b1 @ d"
    unfolding Buffer_content_def [of b1]
    by (rule Buffer_content_written)
      (use Buffer_inv_idx [OF b1(2)] in \<open>simp_all add: hasWritten_def v_def\<close>)
  ultimately show ?thesis using b1(3,5) by (simp add: prependableBytes_def hasWritten_def)
qed

lemma prepend_ok:
  assumes "Buffer_inv b" "length d \<le> prependableBytes b"
  shows "\<exists>b'. prepend d b = Inr b' \<and> Buffer_inv b' \<and> Buffer_content b' = d @ Buffer_content b"
proof -
  let ?r = "readerIndex b - length d"
  have r: "?r + length d = readerIndex b" using assms(2) by (simp add: prependableBytes_def)
  have room: "?r + length d \<le> length (buffer b)" using r assms(1) by (simp add: Buffer_inv_def)
  define v where "v = take ?r (buffer b) @ d @ drop (readerIndex b) (buffer b)"
  have wr: "vec_write (buffer b) ?r d = Inr v"
    unfolding v_def using vec_write_ok [OF room] r by simp
  let ?b = "b\<lparr>buffer := v, readerIndex := ?r\<rparr>"
  have "writerIndex b - ?r = length d + (writerIndex b - readerIndex b)"
    using r Buffer_inv_idx [OF assms(1)] by linarith
  then have "Buffer_content ?b = d @ Buffer_content b"
    using room by (simp add: Buffer_content_def v_def)
  moreover have "Buffer_inv ?b" using assms r by (simp add: Buffer_inv_def v_def)
  ultimately show ?thesis using assms(2) wr by (simp add: prepend_def Let_def)
qed

interpretation buf: byte_queue Buffer_inv Buffer_content Buffer_append retrieve
  by unfold_locales (use Buffer_append_ok retrieve_ok in blast)+

section \<open>Reading from a descriptor\<close>

lemma readFd_ok:
  assumes "Buffer_inv b"
  shows "\<exists>b'. readFd (ReadOk d) e b = Inr (int (length d), e, b') \<and> Buffer_inv b'
           \<and> Buffer_content b' = Buffer_content b @ d"
proof -
  note idx = Buffer_inv_idx [OF assms]
  let ?w = "writerIndex b" and ?n = "writableBytes b"
  let ?d = "take ?n d"
  have w: "?n = length (buffer b) - ?w" using idx by (simp add: writableBytes_def)
  have room: "?w + length ?d \<le> length (buffer b)" using idx w by simp
  define v where "v = take ?w (buffer b) @ ?d @ drop (?w + length ?d) (buffer b)"
  have wr: "vec_write (buffer b) ?w ?d = Inr v" unfolding v_def using room by (rule vec_write_ok)
  have lv: "length v = length (buffer b)" unfolding v_def using room by simp
  define b1 where "b1 = b\<lparr>buffer := v, writerIndex := ?w + length ?d\<rparr>"
  have c1: "Buffer_content b1 = Buffer_content b @ ?d" unfolding Buffer_content_def [of b]
    by (rule Buffer_content_written) (use idx in \<open>simp_all add: b1_def v_def\<close>)
  have i1: "Buffer_inv b1" using assms room lv by (auto simp: Buffer_inv_def b1_def)
  show ?thesis
  proof (cases "length d \<le> ?n")
    case True
    then show ?thesis using wr c1 i1 by (simp add: readFd_def Let_def b1_def)
  next
    case False
    then have "b\<lparr>buffer := v, writerIndex := length v\<rparr> = b1"
      using lv w idx by (simp add: b1_def)
    moreover obtain b2 where "Buffer_append (drop ?n d) b1 = Inr b2" "Buffer_inv b2"
        "Buffer_content b2 = Buffer_content b1 @ drop ?n d"
      using Buffer_append_ok [OF i1] by blast
    ultimately show ?thesis using False wr c1 by (simp add: readFd_def Let_def)
  qed
qed

section \<open>Searching for the end of a line\<close>

lemma findCRLF_eq:
  assumes "Buffer_inv b"
  shows "findCRLF b = Inr (let i = std_search (Buffer_content b) kCRLF in
           if i = length (Buffer_content b) then None else Some (readerIndex b + i))"
proof -
  have "findCRLF b = Inr (let crlf = peek b + std_search (Buffer_content b) kCRLF
      in if crlf = beginWrite b then None else Some crlf)"
    by (simp add: findCRLF_def vec_read_content [OF assms] Let_def)
  then show ?thesis
    using Buffer_inv_idx [OF assms] assms by (auto simp: Let_def peek_def beginWrite_def)
qed

lemma length_kCRLF [simp]: "length kCRLF = 2"
  by (simp add: kCRLF_def)

text \<open>A line end found at \<open>i\<close>, and what \<^verbatim>\<open>retrieveUntil(crlf + 2)\<close> leaves.\<close>

lemma retrieveUntil_crlf_ok:
  assumes "Buffer_inv b" and "findCRLF b = Inr (Some crlf)"
  shows "\<exists>b'. retrieveUntil (crlf + 2) b = Inr b' \<and> Buffer_inv b'
     \<and> Buffer_content b = take (crlf - peek b) (Buffer_content b) @ kCRLF @ Buffer_content b'
     \<and> Buffer_content b' = drop (crlf + 2 - peek b) (Buffer_content b)
     \<and> peek b \<le> crlf \<and> crlf + 2 \<le> beginWrite b"
proof -
  let ?c = "Buffer_content b" and ?i = "std_search (Buffer_content b) kCRLF"
  have i: "?i \<noteq> length ?c" "crlf = readerIndex b + ?i"
    using assms by (auto simp: findCRLF_eq Let_def split: if_splits)
  have room: "?i + 2 \<le> length ?c" using std_search_room [OF i(1)] by simp
  obtain b' where b': "retrieve (?i + 2) b = Inr b'" "Buffer_inv b'"
      "Buffer_content b' = drop (?i + 2) ?c"
    using retrieve_ok [OF assms(1) room] by blast
  have "crlf + 2 \<le> writerIndex b" using room i(2) assms(1) by auto
  then have "retrieveUntil (crlf + 2) b = Inr b'"
    using b'(1) i(2) by (simp add: retrieveUntil_def peek_def beginWrite_def)
  moreover have "?c = take ?i ?c @ kCRLF @ drop (?i + 2) ?c"
    using std_search_found [OF i(1)]
    by (metis append_take_drop_id drop_drop add.commute length_kCRLF)
  ultimately show ?thesis
    using b' i(2) \<open>crlf + 2 \<le> writerIndex b\<close> by (simp add: peek_def beginWrite_def)
qed

section \<open>Integers in network order\<close>

definition be_bytes :: "nat \<Rightarrow> nat \<Rightarrow> string" where
  "be_bytes n x = rev (le_bytes n x)"

lemma length_be_bytes [simp]: "length (be_bytes n x) = n"
  by (simp add: be_bytes_def)

lemma le_bytes_hton:
  "le_bytes 8 (unat (hostToNetwork64 x)) = be_bytes 8 (unat x)"
  "le_bytes 4 (unat (hostToNetwork32 y)) = be_bytes 4 (unat y)"
  "le_bytes 2 (unat (hostToNetwork16 z)) = be_bytes 2 (unat z)"
  by (simp_all add: hostToNetwork64_def hostToNetwork32_def hostToNetwork16_def be_bytes_def
      le_bytes_swap_bytes)

lemma ntoh32_be_bytes: "networkToHost32 (word_of_nat (le_nat (be_bytes 4 (unat x)))) = x"
proof -
  let ?r = "be_bytes 4 (unat x)"
  have "le_nat ?r < 2 ^ 32" using le_nat_bound [of ?r] by simp
  then have "unat (word_of_nat (le_nat ?r) :: 32 word) = le_nat ?r"
    by (simp add: unat_of_nat)
  then have "le_bytes 4 (unat (word_of_nat (le_nat ?r) :: 32 word)) = ?r"
    using le_bytes_le_nat [of ?r] by simp
  then show ?thesis
    using unat_less_pow [of x]
    by (simp add: networkToHost32_def swap_bytes_def be_bytes_def le_nat_le_bytes)
qed

lemma ntoh64_be_bytes: "networkToHost64 (word_of_nat (le_nat (be_bytes 8 (unat x)))) = x"
proof -
  let ?r = "be_bytes 8 (unat x)"
  have "le_nat ?r < 2 ^ 64" using le_nat_bound [of ?r] by simp
  then have "unat (word_of_nat (le_nat ?r) :: 64 word) = le_nat ?r"
    by (simp add: unat_of_nat)
  then have "le_bytes 8 (unat (word_of_nat (le_nat ?r) :: 64 word)) = ?r"
    using le_bytes_le_nat [of ?r] by simp
  then show ?thesis
    using unat_less_pow [of x]
    by (simp add: networkToHost64_def swap_bytes_def be_bytes_def le_nat_le_bytes)
qed

lemma peekInt32_ok:
  assumes "Buffer_inv b" "Buffer_content b = be_bytes 4 (unat x) @ rest"
  shows "peekInt32 b = Inr x"
proof -
  have len: "4 \<le> writerIndex b - readerIndex b"
    using length_Buffer_content [OF assms(1)] assms(2) by simp
  have "take 4 (drop (readerIndex b) (buffer b)) = take 4 (Buffer_content b)"
    using len by (simp add: Buffer_content_def min_def)
  then have "vec_read (buffer b) (peek b) (peek b + 4) = Inr (be_bytes 4 (unat x))"
    using len Buffer_inv_idx [OF assms(1)] assms(2) by (simp add: vec_read_def peek_def)
  then show ?thesis
    using assms by (simp add: peekInt32_def readableBytes_eq ntoh32_be_bytes)
qed

lemma peekInt64_ok:
  assumes "Buffer_inv b" "Buffer_content b = be_bytes 8 (unat x) @ rest"
  shows "peekInt64 b = Inr x"
proof -
  have len: "8 \<le> writerIndex b - readerIndex b"
    using length_Buffer_content [OF assms(1)] assms(2) by simp
  have "take 8 (drop (readerIndex b) (buffer b)) = take 8 (Buffer_content b)"
    using len by (simp add: Buffer_content_def min_def)
  then have "vec_read (buffer b) (peek b) (peek b + 8) = Inr (be_bytes 8 (unat x))"
    using len Buffer_inv_idx [OF assms(1)] assms(2) by (simp add: vec_read_def peek_def)
  then show ?thesis
    using assms by (simp add: peekInt64_def readableBytes_eq ntoh64_be_bytes)
qed

lemma appendInt32_ok:
  assumes "Buffer_inv b"
  shows "\<exists>b'. appendInt32 x b = Inr b' \<and> Buffer_inv b'
     \<and> Buffer_content b' = Buffer_content b @ be_bytes 4 (unat x)
     \<and> min 8 (prependableBytes b) \<le> prependableBytes b'"
  using Buffer_append_ok [OF assms] by (simp add: appendInt32_def le_bytes_hton)

lemma appendInt64_ok:
  assumes "Buffer_inv b"
  shows "\<exists>b'. appendInt64 x b = Inr b' \<and> Buffer_inv b'
     \<and> Buffer_content b' = Buffer_content b @ be_bytes 8 (unat x)"
  using Buffer_append_ok [OF assms, of "be_bytes 8 (unat x)"]
  by (auto simp: appendInt64_def le_bytes_hton)

section \<open>Properties\<close>

text \<open>C4. A freshly constructed buffer is a faithful byte stream: whatever the schedule of appends
  and reads, no assertion fires and no copy leaves the vector, and the bytes read followed by the
  bytes still pending are exactly the bytes appended, in order.\<close>

theorem Buffer_stream_fifo:
  "\<exists>b b' out. Buffer_ctor = Inr b
     \<and> stream_run Buffer_append retrieve Buffer_content ops b [] = Inr (b', out)
     \<and> Buffer_inv b' \<and> out @ Buffer_content b' = sent ops"
proof -
  obtain b where "Buffer_ctor = Inr b" "Buffer_inv b" "Buffer_content b = []"
    using Buffer_ctor_ok by blast
  then show ?thesis using buf.stream_run_ok [of b ops "[]"] by auto
qed

text \<open>\<^verbatim>\<open>append\<close> on a well-formed buffer of any size succeeds whether it writes in place, moves the
  readable bytes to the front or grows the vector: the invariant holds again, the readable bytes are
  the old ones followed by the data, and the reserved prepend area is not lost.\<close>

theorem Buffer_append_refines:
  assumes "Buffer_inv b"
  shows "\<exists>b'. Buffer_append d b = Inr b' \<and> Buffer_inv b'
     \<and> Buffer_content b' = Buffer_content b @ d
     \<and> min kCheapPrepend (prependableBytes b) \<le> prependableBytes b'"
  using Buffer_append_ok [OF assms] by (simp add: kCheapPrepend_def)

theorem Buffer_append_refines_witness:
  "Buffer_inv \<lparr>buffer = ''........abcd'', readerIndex = 10, writerIndex = 12\<rparr>
   \<and> (\<exists>b'. Buffer_append ''xyz'' \<lparr>buffer = ''........abcd'', readerIndex = 10, writerIndex = 12\<rparr> = Inr b'
        \<and> Buffer_content b' = ''cdxyz'')"
proof -
  have inv: "Buffer_inv \<lparr>buffer = ''........abcd'', readerIndex = 10, writerIndex = 12\<rparr>"
    by (simp add: Buffer_inv_def kCheapPrepend_def)
  show ?thesis using inv Buffer_append_refines [OF inv, of "''xyz''"]
    by (auto simp: Buffer_content_def)
qed

text \<open>C28. \<^verbatim>\<open>readFd\<close> stores everything \<^verbatim>\<open>readv\<close> delivered, also when the data spills over the free
  space into the stack buffer and the vector has to grow: the readable bytes are extended by the
  data in order and the byte count is returned. On an error the buffer is untouched and
  \<^verbatim>\<open>errno\<close> is reported.\<close>

theorem readFd_delivers:
  assumes "Buffer_inv b" and "readv_fits (ReadOk d) b"
  shows "(\<exists>b'. readFd (ReadOk d) e b = Inr (int (length d), e, b') \<and> Buffer_inv b'
            \<and> Buffer_content b' = Buffer_content b @ d)
       \<and> readFd (ReadErr err) e b = Inr (-1, err, b)"
  using readFd_ok [OF assms(1), of d e] by (simp add: readFd_def)

theorem readFd_delivers_witness:
  "\<exists>b'. readFd (ReadOk ''abcdef'') 0 \<lparr>buffer = ''........12..'', readerIndex = 8, writerIndex = 10\<rparr>
          = Inr (6, 0, b') \<and> Buffer_content b' = ''12abcdef''"
proof -
  let ?b = "\<lparr>buffer = ''........12..'', readerIndex = 8, writerIndex = 10\<rparr>"
  have inv: "Buffer_inv ?b" by (simp add: Buffer_inv_def kCheapPrepend_def)
  have fits: "readv_fits (ReadOk ''abcdef'') ?b" by (simp add: readv_fits_def extrabuf_size_def)
  show ?thesis using readFd_delivers [OF inv fits, of 0 0] by (auto simp: Buffer_content_def)
qed

text \<open>Integers written with \<^verbatim>\<open>appendInt32\<close> and \<^verbatim>\<open>appendInt64\<close> into an empty buffer are read back
  unchanged by \<^verbatim>\<open>peekInt32\<close> and \<^verbatim>\<open>peekInt64\<close>, whatever follows them, and travel most significant
  byte first.\<close>

theorem Buffer_int_roundtrip:
  assumes "Buffer_inv b" and "Buffer_content b = []"
  shows "(\<exists>b1 b2. appendInt32 x b = Inr b1 \<and> Buffer_append d b1 = Inr b2 \<and> peekInt32 b2 = Inr x
            \<and> Buffer_content b2 = be_bytes 4 (unat x) @ d)
       \<and> (\<exists>b1 b2. appendInt64 y b = Inr b1 \<and> Buffer_append d b1 = Inr b2 \<and> peekInt64 b2 = Inr y
            \<and> Buffer_content b2 = be_bytes 8 (unat y) @ d)"
proof -
  obtain b1 where b1: "appendInt32 x b = Inr b1" "Buffer_inv b1"
      "Buffer_content b1 = be_bytes 4 (unat x)"
    using appendInt32_ok [OF assms(1), of x] assms(2) by auto
  obtain c1 where c1: "appendInt64 y b = Inr c1" "Buffer_inv c1"
      "Buffer_content c1 = be_bytes 8 (unat y)"
    using appendInt64_ok [OF assms(1), of y] assms(2) by auto
  obtain b2 c2 where "Buffer_append d b1 = Inr b2" "Buffer_inv b2"
      "Buffer_content b2 = be_bytes 4 (unat x) @ d"
    and "Buffer_append d c1 = Inr c2" "Buffer_inv c2" "Buffer_content c2 = be_bytes 8 (unat y) @ d"
    using Buffer_append_ok [OF b1(2), of d] Buffer_append_ok [OF c1(2), of d] b1(3) c1(3) by auto
  then show ?thesis using b1(1) c1(1) peekInt32_ok peekInt64_ok by blast
qed

theorem Buffer_int_roundtrip_witness:
  "\<exists>b b1 b2. Buffer_ctor = Inr b \<and> appendInt32 258 b = Inr b1 \<and> Buffer_append ''!'' b1 = Inr b2
     \<and> peekInt32 b2 = Inr 258"
proof -
  obtain b where b: "Buffer_ctor = Inr b" "Buffer_inv b" "Buffer_content b = []"
    using Buffer_ctor_ok by blast
  show ?thesis using Buffer_int_roundtrip [OF b(2,3), of 258 "''!''"] b(1) by blast
qed

text \<open>\<^verbatim>\<open>findCRLF\<close> finds the first line end of the readable region and nothing else: it returns
  \<^verbatim>\<open>NULL\<close> exactly when no CR LF pair is readable, and otherwise the position of the first pair, after
  which \<^verbatim>\<open>retrieveUntil(crlf + 2)\<close> succeeds and leaves what follows the pair.\<close>

theorem findCRLF_first:
  assumes "Buffer_inv b"
  shows "\<exists>r. findCRLF b = Inr r \<and>
     (case r of
        None \<Rightarrow> \<forall>i. take 2 (drop i (Buffer_content b)) \<noteq> kCRLF
      | Some crlf \<Rightarrow> (\<exists>b'. retrieveUntil (crlf + 2) b = Inr b' \<and> Buffer_inv b'
            \<and> Buffer_content b = take (crlf - peek b) (Buffer_content b) @ kCRLF @ Buffer_content b')
          \<and> (\<forall>i. take 2 (drop i (Buffer_content b)) = kCRLF \<longrightarrow> crlf - peek b \<le> i))"
proof -
  let ?c = "Buffer_content b" and ?i = "std_search (Buffer_content b) kCRLF"
  have first: "\<And>i. i < ?i \<Longrightarrow> take 2 (drop i ?c) \<noteq> kCRLF"
    using std_search_first [of _ ?c kCRLF] by simp
  show ?thesis
  proof (cases "?i = length ?c")
    case True
    have "take 2 (drop i ?c) \<noteq> kCRLF" for i
      using first [of i] True by (cases "i < length ?c") (auto simp: kCRLF_def)
    then show ?thesis using findCRLF_eq [OF assms] True by simp
  next
    case False
    then have f: "findCRLF b = Inr (Some (readerIndex b + ?i))"
      using findCRLF_eq [OF assms] by (simp add: Let_def)
    have "\<forall>i. take 2 (drop i ?c) = kCRLF \<longrightarrow> ?i \<le> i" using first not_less by blast
    then show ?thesis using f retrieveUntil_crlf_ok [OF assms f] by (auto simp: peek_def)
  qed
qed

theorem findCRLF_first_witness:
  "\<exists>r. findCRLF \<lparr>buffer = ''........ab'' @ kCRLF @ ''c'', readerIndex = 8, writerIndex = 13\<rparr> = Inr r
     \<and> r = Some 10"
proof -
  let ?b = "\<lparr>buffer = ''........ab'' @ kCRLF @ ''c'', readerIndex = 8, writerIndex = 13\<rparr>"
  have inv: "Buffer_inv ?b" by (simp add: Buffer_inv_def kCheapPrepend_def)
  obtain r where r: "findCRLF ?b = Inr r" using findCRLF_first [OF inv] by blast
  have "findCRLF ?b = Inr (Some 10)"
    unfolding findCRLF_eq [OF inv] by (simp add: Buffer_content_def kCRLF_def)
  with r show ?thesis by simp
qed

text \<open>\<^verbatim>\<open>shrink\<close> copies the readable bytes to the front of a new vector but never resets the
  indices. It therefore keeps the readable bytes only when they already start at
  \<^verbatim>\<open>kCheapPrepend\<close>; after any byte was consumed it leaves the write index beyond the new vector.\<close>

theorem shrink_breaks_consumed_buffer:
  assumes "Buffer_inv b"
  shows "\<exists>b'. shrink reserve b = Inr b'
     \<and> (readerIndex b = kCheapPrepend \<longrightarrow> Buffer_inv b' \<and> Buffer_content b' = Buffer_content b)
     \<and> (kCheapPrepend + reserve < readerIndex b \<longrightarrow> \<not> Buffer_inv b')"
proof -
  let ?c = "Buffer_content b"
  have len: "readableBytes b = length ?c" by (rule readableBytes_eq [OF assms])
  have rd: "vec_read (buffer b) (peek b) (peek b + readableBytes b) = Inr ?c"
    using vec_read_content [OF assms] Buffer_inv_idx [OF assms]
    by (simp add: readableBytes_def peek_def beginWrite_def)
  define buf where "buf = replicate (8 + length ?c + reserve) (CHR 0x00)"
  have wr: "vec_write buf 8 ?c = Inr (take 8 buf @ ?c @ drop (8 + length ?c) buf)"
    by (rule vec_write_ok) (simp add: buf_def)
  let ?b = "b\<lparr>buffer := take 8 buf @ ?c @ drop (8 + length ?c) buf\<rparr>"
  have sh: "shrink reserve b = Inr ?b"
    using rd wr len by (simp add: shrink_def kCheapPrepend_def buf_def [symmetric])
  have lb: "length (buffer ?b) = 8 + length ?c + reserve" by (simp add: buf_def)
  have w: "writerIndex b = readerIndex b + length ?c"
    using Buffer_inv_idx [OF assms] assms by simp
  have "Buffer_content ?b = ?c" if "readerIndex b = 8"
  proof -
    have "Buffer_content ?b = take (8 - 8) (drop 8 buf) @ ?c"
      by (rule Buffer_content_written [where e = "drop (8 + length ?c) buf"])
        (use that w in \<open>simp_all add: buf_def\<close>)
    then show ?thesis by simp
  qed
  moreover have "Buffer_inv ?b \<longleftrightarrow> readerIndex b \<le> 8 + reserve"
    using w by (simp add: Buffer_inv_def kCheapPrepend_def buf_def del: length_Buffer_content)
  ultimately show ?thesis using sh by (auto simp: kCheapPrepend_def)
qed

theorem shrink_breaks_consumed_buffer_witness:
  "\<exists>b'. shrink 0 \<lparr>buffer = ''........abcd'', readerIndex = 10, writerIndex = 12\<rparr> = Inr b'
     \<and> \<not> Buffer_inv b'"
proof -
  have inv: "Buffer_inv \<lparr>buffer = ''........abcd'', readerIndex = 10, writerIndex = 12\<rparr>"
    by (simp add: Buffer_inv_def kCheapPrepend_def)
  show ?thesis using shrink_breaks_consumed_buffer [OF inv, of 0]
    by (auto simp: kCheapPrepend_def)
qed

end
