(* ===== verification/Std_Map.thy ===== *)
theory Std_Map
  imports Cpp_Prelude "HOL-Library.List_Lexorder" "HOL-Library.Char_ord"
begin

text \<open>
  \<^verbatim>\<open>std::map\<close> as the components use it: a list of pairs kept in increasing key order, which is also
  the order of iteration (strings compare bytewise, as \<^verbatim>\<open>std::string\<close> does). The locale
  \<open>ordered_map\<close> states what the clients rely on (\<^verbatim>\<open>operator[]\<close>, \<^verbatim>\<open>find\<close>, \<^verbatim>\<open>erase\<close> with its count,
  iteration in key order) and proves their lemmas once.
\<close>

fun map_put :: "'k::linorder \<Rightarrow> 'v \<Rightarrow> ('k \<times> 'v) list \<Rightarrow> ('k \<times> 'v) list" where
  "map_put k v [] = [(k, v)]"
| "map_put k v ((k', v') # m) =
     (if k < k' then (k, v) # (k', v') # m
      else if k = k' then (k, v) # m
      else (k', v') # map_put k v m)"

definition map_find :: "('k \<times> 'v) list \<Rightarrow> 'k \<Rightarrow> 'v option" where
  "map_find m k = map_of m k"

text \<open>\<^verbatim>\<open>erase(key)\<close> returns the number of elements removed.\<close>

definition map_erase :: "'k \<Rightarrow> ('k \<times> 'v) list \<Rightarrow> nat \<times> ('k \<times> 'v) list" where
  "map_erase k m = (let m' = filter (\<lambda>(k', _). k' \<noteq> k) m in (length m - length m', m'))"

definition map_ok :: "('k::linorder \<times> 'v) list \<Rightarrow> bool" where
  "map_ok m = (sorted (map fst m) \<and> distinct (map fst m))"

locale ordered_map =
  fixes emp :: "'m"
    and lookup :: "'m \<Rightarrow> 'k::linorder \<Rightarrow> 'v option"
    and put :: "'k \<Rightarrow> 'v \<Rightarrow> 'm \<Rightarrow> 'm"
    and erase :: "'k \<Rightarrow> 'm \<Rightarrow> nat \<times> 'm"
    and items :: "'m \<Rightarrow> ('k \<times> 'v) list"
    and inv :: "'m \<Rightarrow> bool"
  assumes inv_emp: "inv emp"
    and lookup_emp: "lookup emp = (\<lambda>_. None)"
    and inv_put: "inv m \<Longrightarrow> inv (put k v m)"
    and lookup_put: "inv m \<Longrightarrow> lookup (put k v m) = (lookup m)(k \<mapsto> v)"
    and inv_erase: "inv m \<Longrightarrow> inv (snd (erase k m))"
    and lookup_erase: "inv m \<Longrightarrow> lookup (snd (erase k m)) = (lookup m)(k := None)"
    and count_erase: "inv m \<Longrightarrow> fst (erase k m) = (if lookup m k = None then 0 else 1)"
    and items_sorted: "inv m \<Longrightarrow> sorted (map fst (items m)) \<and> distinct (map fst (items m))"
    and items_lookup: "inv m \<Longrightarrow> (k, v) \<in> set (items m) \<longleftrightarrow> lookup m k = Some v"
begin

lemma erase_put_fresh:
  "inv m \<Longrightarrow> lookup m k = None \<Longrightarrow> fst (erase k (put k v m)) = 1
     \<and> lookup (snd (erase k (put k v m))) = lookup m"
  using count_erase [OF inv_put] lookup_erase [OF inv_put] lookup_put by (auto simp: fun_upd_idem)

text \<open>Inserting a sequence of pairs: the last value of a key wins.\<close>

lemma put_all:
  "inv m \<Longrightarrow> inv (fold (\<lambda>(k, v). put k v) kvs m)
     \<and> lookup (fold (\<lambda>(k, v). put k v) kvs m) = lookup m ++ map_of (rev kvs)"
proof (induction kvs arbitrary: m)
  case Nil
  then show ?case by simp
next
  case (Cons kv kvs)
  obtain k v where kv: "kv = (k, v)" by (cases kv)
  have "inv (put k v m)" using Cons.prems by (rule inv_put)
  from Cons.IH [OF this] kv lookup_put [OF Cons.prems] show ?case
    by (auto simp: map_add_def fun_eq_iff split: option.splits)
qed

end

section \<open>The list model satisfies the contract\<close>

lemma fst_map_put: "fst ` set (map_put k v m) = insert k (fst ` set m)"
  by (induction k v m rule: map_put.induct) (simp_all add: insert_commute)

lemma map_ok_Cons: "map_ok ((k, v) # m) \<longleftrightarrow> map_ok m \<and> (\<forall>k' \<in> fst ` set m. k < k')"
  by (auto simp: map_ok_def order_less_le)

lemma map_ok_put: "map_ok m \<Longrightarrow> map_ok (map_put k v m)"
proof (induction m)
  case Nil
  then show ?case by (simp add: map_ok_def)
next
  case (Cons p m)
  obtain k' v' where p: "p = (k', v')" by (cases p)
  from Cons p have IH: "map_ok (map_put k v m)" and lo: "\<forall>x \<in> fst ` set m. k' < x" and m: "map_ok m"
    by (auto simp: map_ok_Cons)
  show ?case
  proof (cases "k < k'")
    case True
    then show ?thesis using p m lo by (auto simp: map_ok_Cons)
  next
    case False
    then show ?thesis using p m lo IH by (auto simp: map_ok_Cons fst_map_put)
  qed
qed

lemma map_of_put: "map_ok m \<Longrightarrow> map_of (map_put k v m) = (map_of m)(k \<mapsto> v)"
proof (induction m)
  case (Cons p m)
  obtain k' v' where p: "p = (k', v')" by (cases p)
  with Cons show ?case by (auto simp: map_ok_Cons fun_eq_iff)
qed simp

lemma filter_key_absent: "k \<notin> fst ` set m \<Longrightarrow> filter (\<lambda>(k', _). k' \<noteq> k) m = m"
  by (induction m) auto

lemma map_of_filter_key: "map_of (filter (\<lambda>(k', _). k' \<noteq> k) m) = (map_of m)(k := None)"
  by (induction m) auto

lemma map_ok_filter: "map_ok m \<Longrightarrow> map_ok (filter P m)"
  by (auto simp: map_ok_def distinct_map_filter sorted_filter)

lemma length_filter_key:
  "map_ok m \<Longrightarrow> length m - length (filter (\<lambda>(k', _). k' \<noteq> k) m) = (if map_of m k = None then 0 else 1)"
proof (induction m)
  case (Cons p m)
  obtain k' v where p: "p = (k', v)" by (cases p)
  show ?case
  proof (cases "k' = k")
    case True
    then have "k \<notin> fst ` set m" using Cons.prems p by (auto simp: map_ok_Cons)
    then show ?thesis using True p filter_key_absent [of k m] by simp
  next
    case False
    have "length (filter (\<lambda>(k', _). k' \<noteq> k) m) \<le> length m" by simp
    with False Cons p show ?thesis by (simp add: map_ok_Cons Suc_diff_le)
  qed
qed simp

interpretation smap: ordered_map "[]" map_find map_put map_erase "\<lambda>m. m" map_ok
proof
  fix m :: "('a \<times> 'b) list" and k v
  assume m: "map_ok m"
  show "map_ok (map_put k v m)" using m by (rule map_ok_put)
  show "map_find (map_put k v m) = (map_find m)(k \<mapsto> v)"
    using map_of_put [OF m] by (simp add: map_find_def fun_eq_iff)
  show "map_ok (snd (map_erase k m))" using m by (simp add: map_erase_def Let_def map_ok_filter)
  show "map_find (snd (map_erase k m)) = (map_find m)(k := None)"
    by (simp add: map_erase_def Let_def map_find_def fun_eq_iff map_of_filter_key)
  show "fst (map_erase k m) = (if map_find m k = None then 0 else 1)"
    using length_filter_key [OF m, of k] by (simp add: map_erase_def Let_def map_find_def)
  show "sorted (map fst m) \<and> distinct (map fst m)" using m by (simp add: map_ok_def)
  show "(k, v) \<in> set m \<longleftrightarrow> map_find m k = Some v"
    using m by (simp add: map_find_def map_ok_def)
qed (simp_all add: map_ok_def map_find_def fun_eq_iff)

lemma dom_map_find: "dom (map_find m) = fst ` set m"
proof -
  have "map_find m = map_of m" by (rule ext) (simp add: map_find_def)
  then show ?thesis by (simp add: dom_map_of_conv_image_fst)
qed

lemmas map_laws = smap.inv_emp smap.lookup_emp smap.inv_put smap.lookup_put
  smap.inv_erase smap.lookup_erase smap.count_erase

section \<open>Ordered sets\<close>

text \<open>\<^verbatim>\<open>std::set\<close>: a strictly increasing list. \<^verbatim>\<open>insert\<close> reports whether the element was new,
  \<^verbatim>\<open>erase(key)\<close> how many elements it removed.\<close>

definition set_insert :: "'a::linorder \<Rightarrow> 'a list \<Rightarrow> bool \<times> 'a list" where
  "set_insert x s = (if x \<in> set s then (False, s) else (True, insort x s))"

definition set_erase :: "'a \<Rightarrow> 'a list \<Rightarrow> nat \<times> 'a list" where
  "set_erase x s = (if x \<in> set s then 1 else 0, removeAll x s)"

definition set_ok :: "'a::linorder list \<Rightarrow> bool" where
  "set_ok s = (sorted s \<and> distinct s)"

lemma set_ok_Nil [simp]: "set_ok []"
  by (simp add: set_ok_def)

lemma set_insert_new:
  "x \<notin> set s \<Longrightarrow> set_ok s \<Longrightarrow> \<exists>s'. set_insert x s = (True, s') \<and> set_ok s' \<and> set s' = insert x (set s)
     \<and> length s' = Suc (length s)"
  by (auto simp: set_insert_def set_ok_def sorted_insort distinct_insort set_insort_key)

lemma set_insert_ok: "set_ok s \<Longrightarrow> set_ok (snd (set_insert x s)) \<and> set (snd (set_insert x s)) = insert x (set s)"
  by (auto simp: set_insert_def set_ok_def sorted_insort distinct_insort set_insort_key)

lemma length_removeAll_distinct: "distinct s \<Longrightarrow> x \<in> set s \<Longrightarrow> Suc (length (removeAll x s)) = length s"
  by (induction s) auto

lemma set_erase_ok:
  "set_ok s \<Longrightarrow> set_ok (snd (set_erase x s)) \<and> set (snd (set_erase x s)) = set s - {x}"
  by (auto simp: set_erase_def set_ok_def removeAll_filter_not_eq sorted_wrt_filter)

lemma set_ok_eqI: "set_ok s \<Longrightarrow> set_ok s' \<Longrightarrow> set s = set s' \<Longrightarrow> s = s'"
  by (auto simp: set_ok_def sorted_distinct_set_unique)

lemma set_ok_length: "set_ok s \<Longrightarrow> length s = card (set s)"
  by (simp add: set_ok_def distinct_card)

lemma set_ok_hd: "set_ok s \<Longrightarrow> x \<in> set s \<Longrightarrow> hd s \<le> x"
  by (cases s) (auto simp: set_ok_def)

end
