(* ===== verification/Http_Message.thy ===== *)
theory Http_Message
  imports Net_Buffer Std_Map
begin

text \<open>
  \<^verbatim>\<open>net/http/HttpRequest.h\<close>, \<^verbatim>\<open>net/http/HttpContext.h\<close>, \<^verbatim>\<open>net/http/HttpContext.cc\<close>,
  \<^verbatim>\<open>net/http/HttpResponse.h\<close> and \<^verbatim>\<open>net/http/HttpResponse.cc\<close>: the incremental request parser over
  a \<open>Buffer\<close> and the response writer. A pair of pointers into a line is a sublist of it. The parser
  loop is a partial function: a run that never leaves the loop is \<open>None\<close>.
\<close>

section \<open>Requests\<close>

datatype Method = kInvalid | kGet | kPost | kHead | kPut | kDelete
datatype Version = kUnknownVersion | kHttp10 | kHttp11

record HttpRequest =
  req_method :: Method
  req_version :: Version
  req_path :: string
  req_query :: string
  req_receiveTime :: int
  req_headers :: "(string \<times> string) list"

definition HttpRequest_ctor :: HttpRequest where
  "HttpRequest_ctor = \<lparr>req_method = kInvalid, req_version = kUnknownVersion, req_path = [], req_query = [],
     req_receiveTime = 0, req_headers = []\<rparr>"

definition setVersion :: "Version \<Rightarrow> HttpRequest \<Rightarrow> HttpRequest" where
  "setVersion v r = r\<lparr>req_version := v\<rparr>"

definition setMethod :: "string \<Rightarrow> HttpRequest \<Rightarrow> (bool \<times> HttpRequest) result" where
  "setMethod m r =
     assertR ''method_ == kInvalid'' (req_method r = kInvalid)
       (let md = (if m = ''GET'' then kGet
                  else if m = ''POST'' then kPost
                  else if m = ''HEAD'' then kHead
                  else if m = ''PUT'' then kPut
                  else if m = ''DELETE'' then kDelete
                  else kInvalid)
        in Inr (md \<noteq> kInvalid, r\<lparr>req_method := md\<rparr>))"

definition methodString :: "HttpRequest \<Rightarrow> string" where
  "methodString r = (case req_method r of kGet \<Rightarrow> ''GET'' | kPost \<Rightarrow> ''POST'' | kHead \<Rightarrow> ''HEAD''
     | kPut \<Rightarrow> ''PUT'' | kDelete \<Rightarrow> ''DELETE'' | kInvalid \<Rightarrow> ''UNKNOWN'')"

definition setPath :: "string \<Rightarrow> HttpRequest \<Rightarrow> HttpRequest" where
  "setPath s r = r\<lparr>req_path := s\<rparr>"

definition setQuery :: "string \<Rightarrow> HttpRequest \<Rightarrow> HttpRequest" where
  "setQuery s r = r\<lparr>req_query := s\<rparr>"

definition setReceiveTime :: "int \<Rightarrow> HttpRequest \<Rightarrow> HttpRequest" where
  "setReceiveTime t r = r\<lparr>req_receiveTime := t\<rparr>"

text \<open>\<^verbatim>\<open>addHeader(start, colon, end)\<close>: \<open>line\<close> is the range \<open>[start, end)\<close> and \<open>colon\<close> an offset in it.
  The two loops skip leading and trailing white space of the value.\<close>

definition addHeader :: "string \<Rightarrow> nat \<Rightarrow> HttpRequest \<Rightarrow> HttpRequest" where
  "addHeader line colon r =
     (let field = take colon line;
          val = dropWhile isspace (drop (colon + 1) line);
          val = rev (dropWhile isspace (rev val))
      in r\<lparr>req_headers := map_put field val (req_headers r)\<rparr>)"

definition getHeader :: "string \<Rightarrow> HttpRequest \<Rightarrow> string" where
  "getHeader field r = (case map_find (req_headers r) field of None \<Rightarrow> [] | Some v \<Rightarrow> v)"

definition HttpRequest_swap :: "HttpRequest \<Rightarrow> HttpRequest \<Rightarrow> HttpRequest \<times> HttpRequest" where
  "HttpRequest_swap r that =
     (r\<lparr>req_method := req_method that, req_version := req_version that, req_path := req_path that, req_query := req_query that,
        req_receiveTime := req_receiveTime that, req_headers := req_headers that\<rparr>,
      that\<lparr>req_method := req_method r, req_version := req_version r, req_path := req_path r, req_query := req_query r,
        req_receiveTime := req_receiveTime r, req_headers := req_headers r\<rparr>)"

section \<open>The parser\<close>

datatype HttpRequestParseState = kExpectRequestLine | kExpectHeaders | kExpectBody | kGotAll

record HttpContext =
  ctx_state :: HttpRequestParseState
  ctx_request :: HttpRequest

definition HttpContext_ctor :: HttpContext where
  "HttpContext_ctor = \<lparr>ctx_state = kExpectRequestLine, ctx_request = HttpRequest_ctor\<rparr>"

definition gotAll :: "HttpContext \<Rightarrow> bool" where
  "gotAll c = (ctx_state c = kGotAll)"

definition HttpContext_reset :: "HttpContext \<Rightarrow> HttpContext" where
  "HttpContext_reset c =
     c\<lparr>ctx_state := kExpectRequestLine,
       ctx_request := fst (HttpRequest_swap (ctx_request c) HttpRequest_ctor)\<rparr>"

definition processRequestLine :: "string \<Rightarrow> HttpContext \<Rightarrow> (bool \<times> HttpContext) result" where
  "processRequestLine line c =
     (let end' = length line; space = std_find (CHR '' '') line in
      if space \<noteq> end' then
        bindR (setMethod (take space line) (ctx_request c)) (\<lambda>(valid, r1).
          if \<not> valid then Inr (False, c\<lparr>ctx_request := r1\<rparr>)
          else
            (let start = space + 1;
                 space = start + std_find (CHR '' '') (drop start line) in
             if space \<noteq> end' then
               (let target = take (space - start) (drop start line);
                    question = start + std_find (CHR ''?'') target;
                    r2 = (if question \<noteq> space
                          then setQuery (take (space - question) (drop question line))
                                 (setPath (take (question - start) (drop start line)) r1)
                          else setPath target r1);
                    start = space + 1 in
                if end' - start = 8 \<and> take 7 (drop start line) = ''HTTP/1.'' then
                  (if line ! (end' - 1) = CHR ''1'' then Inr (True, c\<lparr>ctx_request := setVersion kHttp11 r2\<rparr>)
                   else if line ! (end' - 1) = CHR ''0'' then Inr (True, c\<lparr>ctx_request := setVersion kHttp10 r2\<rparr>)
                   else Inr (False, c\<lparr>ctx_request := r2\<rparr>))
                else Inr (False, c\<lparr>ctx_request := r2\<rparr>))
             else Inr (False, c\<lparr>ctx_request := r1\<rparr>)))
      else Inr (False, c))"

text \<open>
  One round of the loop of \<^verbatim>\<open>parseRequest\<close>; the result is \<^verbatim>\<open>hasMore\<close>, \<^verbatim>\<open>ok\<close>, the context and the
  buffer. In the states \<^verbatim>\<open>kExpectBody\<close> and \<^verbatim>\<open>kGotAll\<close> no branch of the body changes anything.
\<close>

definition parseRequest_body ::
  "int \<Rightarrow> bool \<Rightarrow> HttpContext \<Rightarrow> Buffer \<Rightarrow> (bool \<times> bool \<times> HttpContext \<times> Buffer) result" where
  "parseRequest_body t ok c buf =
     (case ctx_state c of
        kExpectRequestLine \<Rightarrow>
          bindR (findCRLF buf) (\<lambda>crlf'.
            case crlf' of
              None \<Rightarrow> Inr (False, ok, c, buf)
            | Some crlf \<Rightarrow>
                bindR (vec_read (buffer buf) (peek buf) crlf) (\<lambda>line.
                bindR (processRequestLine line c) (\<lambda>(ok', c1).
                  if ok'
                  then bindR (retrieveUntil (crlf + 2) buf) (\<lambda>buf'.
                         Inr (True, ok', c1\<lparr>ctx_request := setReceiveTime t (ctx_request c1),
                                             ctx_state := kExpectHeaders\<rparr>, buf'))
                  else Inr (False, ok', c1, buf))))
      | kExpectHeaders \<Rightarrow>
          bindR (findCRLF buf) (\<lambda>crlf'.
            case crlf' of
              None \<Rightarrow> Inr (False, ok, c, buf)
            | Some crlf \<Rightarrow>
                bindR (vec_read (buffer buf) (peek buf) crlf) (\<lambda>line.
                  let colon = std_find (CHR '':'') line;
                      (c1, hasMore) =
                        (if colon \<noteq> length line
                         then (c\<lparr>ctx_request := addHeader line colon (ctx_request c)\<rparr>, True)
                         else (c\<lparr>ctx_state := kGotAll\<rparr>, False))
                  in bindR (retrieveUntil (crlf + 2) buf) (\<lambda>buf'. Inr (hasMore, ok, c1, buf'))))
      | kExpectBody \<Rightarrow> Inr (True, ok, c, buf)
      | kGotAll \<Rightarrow> Inr (True, ok, c, buf))"

partial_function (option) parseRequest_loop ::
  "int \<Rightarrow> bool \<Rightarrow> HttpContext \<Rightarrow> Buffer \<Rightarrow> (bool \<times> HttpContext \<times> Buffer) result option" where
  "parseRequest_loop t ok c buf =
     (case parseRequest_body t ok c buf of
        Inl e \<Rightarrow> Some (Inl e)
      | Inr (hasMore, ok', c', buf') \<Rightarrow>
          if hasMore then parseRequest_loop t ok' c' buf' else Some (Inr (ok', c', buf')))"

definition parseRequest :: "Buffer \<Rightarrow> int \<Rightarrow> HttpContext \<Rightarrow> (bool \<times> HttpContext \<times> Buffer) result option" where
  "parseRequest buf t c = parseRequest_loop t True c buf"

section \<open>Responses\<close>

datatype HttpStatusCode = kUnknownStatus | k200Ok | k301MovedPermanently | k400BadRequest | k404NotFound

primrec status_value :: "HttpStatusCode \<Rightarrow> int" where
  "status_value kUnknownStatus = 0"
| "status_value k200Ok = 200"
| "status_value k301MovedPermanently = 301"
| "status_value k400BadRequest = 400"
| "status_value k404NotFound = 404"

record HttpResponse =
  resp_headers :: "(string \<times> string) list"
  resp_statusCode :: HttpStatusCode
  resp_statusMessage :: string
  resp_closeConnection :: bool
  resp_body :: string

definition HttpResponse_ctor :: "bool \<Rightarrow> HttpResponse" where
  "HttpResponse_ctor close = \<lparr>resp_headers = [], resp_statusCode = kUnknownStatus, resp_statusMessage = [],
     resp_closeConnection = close, resp_body = []\<rparr>"

definition setStatusCode :: "HttpStatusCode \<Rightarrow> HttpResponse \<Rightarrow> HttpResponse" where
  "setStatusCode code r = r\<lparr>resp_statusCode := code\<rparr>"

definition setStatusMessage :: "string \<Rightarrow> HttpResponse \<Rightarrow> HttpResponse" where
  "setStatusMessage message r = r\<lparr>resp_statusMessage := message\<rparr>"

definition setCloseConnection :: "bool \<Rightarrow> HttpResponse \<Rightarrow> HttpResponse" where
  "setCloseConnection on r = r\<lparr>resp_closeConnection := on\<rparr>"

definition HttpResponse_addHeader :: "string \<Rightarrow> string \<Rightarrow> HttpResponse \<Rightarrow> HttpResponse" where
  "HttpResponse_addHeader key val r = r\<lparr>resp_headers := map_put key val (resp_headers r)\<rparr>"

definition setContentType :: "string \<Rightarrow> HttpResponse \<Rightarrow> HttpResponse" where
  "setContentType contentType r = HttpResponse_addHeader ''Content-Type'' contentType r"

definition setBody :: "string \<Rightarrow> HttpResponse \<Rightarrow> HttpResponse" where
  "setBody b r = r\<lparr>resp_body := b\<rparr>"

text \<open>\<^verbatim>\<open>appendToBuffer\<close> is a sequence of appends: the pieces, in the order of the calls.\<close>

definition response_pieces :: "HttpResponse \<Rightarrow> string list" where
  "response_pieces r =
     [snprintf 32 (''HTTP/1.1 '' @ dec_int (status_value (resp_statusCode r)) @ '' ''),
      resp_statusMessage r, kCRLF]
     @ (if resp_closeConnection r then [''Connection: close'' @ kCRLF]
        else [snprintf 32 (''Content-Length: '' @ dec_nat (length (resp_body r)) @ kCRLF),
              ''Connection: Keep-Alive'' @ kCRLF])
     @ concat (map (\<lambda>(k, v). [k, '': '', v, kCRLF]) (resp_headers r))
     @ [kCRLF, resp_body r]"

definition appendToBuffer :: "HttpResponse \<Rightarrow> Buffer \<Rightarrow> Buffer result" where
  "appendToBuffer r output = foldR Buffer_append (response_pieces r) output"

section \<open>The parser on byte strings\<close>

text \<open>
  The specification of the parser: a function of the pending bytes that consumes one complete line
  at a time. Its recursion is on the number of pending bytes, so it is total.
\<close>

function http_parse :: "int \<Rightarrow> bool \<Rightarrow> HttpContext \<Rightarrow> string \<Rightarrow> (bool \<times> HttpContext \<times> string) result" where
  "http_parse t ok c s =
     (let i = std_search s kCRLF; line = take i s; rest = drop (i + 2) s in
      if i = length s then Inr (ok, c, s)
      else case ctx_state c of
        kExpectRequestLine \<Rightarrow>
          (case processRequestLine line c of
             Inl e \<Rightarrow> Inl e
           | Inr (ok', c1) \<Rightarrow>
               if ok' then http_parse t True (c1\<lparr>ctx_request := setReceiveTime t (ctx_request c1),
                                               ctx_state := kExpectHeaders\<rparr>) rest
               else Inr (False, c1, s))
      | kExpectHeaders \<Rightarrow>
          (let colon = std_find (CHR '':'') line in
           if colon \<noteq> length line
           then http_parse t ok (c\<lparr>ctx_request := addHeader line colon (ctx_request c)\<rparr>) rest
           else Inr (ok, c\<lparr>ctx_state := kGotAll\<rparr>, rest))
      | _ \<Rightarrow> Inr (ok, c, s))"
  by pat_completeness auto
termination
  by (relation "measure (\<lambda>(t, ok, c, s). length s)") (auto dest: std_search_nonempty)

declare http_parse.simps [simp del]

definition parsing :: "HttpContext \<Rightarrow> bool" where
  "parsing c = (ctx_state c = kExpectRequestLine \<or> ctx_state c = kExpectHeaders)"

lemma parsing_update [simp]:
  "parsing (c\<lparr>ctx_request := r, ctx_state := kExpectHeaders\<rparr>)"
  "parsing (c\<lparr>ctx_request := r\<rparr>) = parsing c"
  "\<not> parsing (c\<lparr>ctx_state := kGotAll\<rparr>)"
  by (simp_all add: parsing_def)

lemma vec_read_line:
  assumes "Buffer_inv b" "peek b \<le> crlf" "crlf \<le> beginWrite b"
  shows "vec_read (buffer b) (peek b) crlf = Inr (take (crlf - peek b) (Buffer_content b))"
  using assms Buffer_inv_idx [OF assms(1)]
  by (auto simp: vec_read_def Buffer_content_def peek_def beginWrite_def min_def)

lemma findCRLF_cases:
  assumes "Buffer_inv b"
  obtains (none) "std_search (Buffer_content b) kCRLF = length (Buffer_content b)" "findCRLF b = Inr None"
  | (some) crlf b' where "std_search (Buffer_content b) kCRLF \<noteq> length (Buffer_content b)"
      "findCRLF b = Inr (Some crlf)"
      "vec_read (buffer b) (peek b) crlf = Inr (take (std_search (Buffer_content b) kCRLF) (Buffer_content b))"
      "retrieveUntil (crlf + 2) b = Inr b'" "Buffer_inv b'"
      "Buffer_content b' = drop (std_search (Buffer_content b) kCRLF + 2) (Buffer_content b)"
proof (cases "std_search (Buffer_content b) kCRLF = length (Buffer_content b)")
  case True
  then show ?thesis using none findCRLF_eq [OF assms] by simp
next
  case False
  let ?i = "std_search (Buffer_content b) kCRLF"
  have f: "findCRLF b = Inr (Some (peek b + ?i))"
    using False findCRLF_eq [OF assms] by (simp add: Let_def peek_def)
  obtain b' where b': "retrieveUntil (peek b + ?i + 2) b = Inr b'" "Buffer_inv b'"
      "Buffer_content b' = drop (?i + 2) (Buffer_content b)" "peek b + ?i + 2 \<le> beginWrite b"
    using retrieveUntil_crlf_ok [OF assms f] by auto
  have "vec_read (buffer b) (peek b) (peek b + ?i) = Inr (take ?i (Buffer_content b))"
    using vec_read_line [OF assms, of "peek b + ?i"] b'(4) by simp
  then show ?thesis using some [OF False f _ b'(1-3)] by simp
qed

text \<open>The buffer parser computes what the string parser says, and always leaves its loop.\<close>

lemma parseRequest_loop_refines:
  assumes "Buffer_inv b" "parsing c"
  shows "case http_parse t ok c (Buffer_content b) of
      Inl e \<Rightarrow> parseRequest_loop t ok c b = Some (Inl e)
    | Inr (ok', c', s') \<Rightarrow> \<exists>b'. parseRequest_loop t ok c b = Some (Inr (ok', c', b'))
        \<and> Buffer_inv b' \<and> Buffer_content b' = s'"
  using assms
proof (induction "length (Buffer_content b)" arbitrary: ok c b rule: less_induct)
  case less
  let ?s = "Buffer_content b" and ?i = "std_search (Buffer_content b) kCRLF"
  let ?line = "take ?i ?s"
  from less.prems(1) show ?case
  proof (cases rule: findCRLF_cases)
    case none
    then show ?thesis using less.prems
      by (auto simp: http_parse.simps [of t ok c ?s] parseRequest_loop.simps [of t ok c b]
          parseRequest_body_def parsing_def)
  next
    case (some crlf b')
    have shorter: "length (Buffer_content b') < length ?s"
      using some(1,6) std_search_nonempty [OF some(1)] by simp
    note IH = less.hyps [OF shorter some(5)]
    show ?thesis
    proof (cases "ctx_state c = kExpectRequestLine")
      case True
      show ?thesis
      proof (cases "processRequestLine ?line c")
        case (Inl e)
        then show ?thesis using True some
          by (simp add: http_parse.simps [of t ok c ?s] parseRequest_loop.simps [of t ok c b]
              parseRequest_body_def Let_def)
      next
        case (Inr p)
        obtain ok' c1 where p: "p = (ok', c1)" by (cases p)
        let ?c = "c1\<lparr>ctx_request := setReceiveTime t (ctx_request c1), ctx_state := kExpectHeaders\<rparr>"
        show ?thesis using True some Inr p IH [of ?c True] less.prems(1)
          by (cases ok') (auto simp: http_parse.simps [of t ok c ?s]
              parseRequest_loop.simps [of t ok c b] parseRequest_body_def Let_def split: sum.splits)
      qed
    next
      case False
      then have h: "ctx_state c = kExpectHeaders" using less.prems(2) by (simp add: parsing_def)
      let ?colon = "std_find (CHR '':'') ?line"
      let ?c = "c\<lparr>ctx_request := addHeader ?line ?colon (ctx_request c)\<rparr>"
      show ?thesis using h some less.prems(2) IH [of ?c ok]
        by (cases "?colon = length ?line")
          (auto simp: http_parse.simps [of t ok c ?s] parseRequest_loop.simps [of t ok c b]
              parseRequest_body_def Let_def split: sum.splits)
    qed
  qed
qed

text \<open>Outside the two states that read lines the body of the loop does nothing and asks for
  another round, so a run that returns started in one of them.\<close>

lemma parseRequest_body_idle: "\<not> parsing c \<Longrightarrow> parseRequest_body t ok c b = Inr (True, ok, c, b)"
  by (cases "ctx_state c") (auto simp: parsing_def parseRequest_body_def)

lemma parseRequest_loop_parsing: "parseRequest_loop t ok c b = Some y \<Longrightarrow> parsing c"
proof (rule parseRequest_loop.raw_induct [where P = "\<lambda>t ok c b y. parsing c"])
  fix rec t ok c b y
  assume "\<And>t ok c b y. rec t ok c b = Some y \<Longrightarrow> parsing c"
    and "(case parseRequest_body t ok c b of Inl e \<Rightarrow> Some (Inl e)
      | Inr (hasMore, ok', c', b') \<Rightarrow>
          if hasMore then rec t ok' c' b' else Some (Inr (ok', c', b'))) = Some y"
  then show "parsing c" using parseRequest_body_idle [of c t ok b] by (cases "parsing c") auto
qed

section \<open>Splitting the input\<close>

lemma std_search_shorter:
  "std_search s kCRLF \<noteq> length s \<Longrightarrow> length (drop (std_search s kCRLF + 2) s) < length s"
  using std_search_nonempty [of s kCRLF] by simp

lemma kCRLF_len [simp]: "length kCRLF = 2" "kCRLF \<noteq> []"
  by (simp_all add: kCRLF_def)

lemma http_parse_chunks:
  assumes "http_parse t ok c s1 = Inr (True, c1, r1)" "parsing c1"
  shows "http_parse t ok c (s1 @ s2) = http_parse t True c1 (r1 @ s2)"
  using assms
proof (induction t ok c s1 rule: http_parse.induct)
  case (1 t ok c s)
  let ?i = "std_search s kCRLF"
  show ?case
  proof (cases "?i = length s")
    case True
    then show ?thesis using "1.prems" by (simp add: http_parse.simps [of t ok c s])
  next
    case False
    then have i: "std_search (s @ s2) kCRLF = ?i" by (simp add: std_search_append)
    have room: "?i + 2 \<le> length s" using std_search_room [OF False] by simp
    note u = http_parse.simps [of t ok c s] http_parse.simps [of t ok c "s @ s2"]
    show ?thesis using "1.prems" "1.IH" False i room
      by (auto simp: u Let_def parsing_def split: HttpRequestParseState.splits sum.splits prod.splits if_splits)
  qed
qed

section \<open>Rendering a request\<close>

text \<open>What a client sends: the text of a request, and the requests for which it is unambiguous.\<close>

definition header_line :: "string \<times> string \<Rightarrow> string" where
  "header_line kv = fst kv @ '': '' @ snd kv"

definition render_target :: "HttpRequest \<Rightarrow> string" where
  "render_target r = methodString r @ '' '' @ req_path r @ req_query r @ '' HTTP/1.''
     @ (if req_version r = kHttp11 then ''1'' else ''0'')"

definition render_request :: "HttpRequest \<Rightarrow> string" where
  "render_request r = render_target r @ kCRLF
     @ concat (map (\<lambda>kv. header_line kv @ kCRLF) (req_headers r)) @ kCRLF"

definition trimmed :: "string \<Rightarrow> bool" where
  "trimmed s = (s = [] \<or> \<not> isspace (hd s) \<and> \<not> isspace (last s))"

definition header_ok :: "string \<times> string \<Rightarrow> bool" where
  "header_ok kv = (CHR '':'' \<notin> set (fst kv) \<and> CHR 0x0D \<notin> set (fst kv) \<and> CHR 0x0D \<notin> set (snd kv)
     \<and> trimmed (snd kv))"

definition request_ok :: "HttpRequest \<Rightarrow> bool" where
  "request_ok r = (req_method r \<noteq> kInvalid \<and> req_version r \<noteq> kUnknownVersion
     \<and> set (req_path r) \<inter> {CHR '' '', CHR ''?'', CHR 0x0D} = {}
     \<and> (req_query r = [] \<or> hd (req_query r) = CHR ''?'')
     \<and> set (req_query r) \<inter> {CHR '' '', CHR 0x0D} = {}
     \<and> map_ok (req_headers r) \<and> list_all header_ok (req_headers r))"

lemma std_search_line:
  assumes "CHR 0x0D \<notin> set line"
  shows "std_search (line @ kCRLF @ rest) kCRLF = length line"
proof (rule std_search_unique)
  show "take (length kCRLF) (drop k (line @ kCRLF @ rest)) \<noteq> kCRLF" if "k < length line" for k
  proof -
    have "drop k line = line ! k # drop (Suc k) line" using that by (simp add: Cons_nth_drop_Suc)
    moreover have "line ! k \<noteq> CHR 0x0D" using that assms by (metis nth_mem)
    ultimately show ?thesis by (simp add: kCRLF_def)
  qed
qed simp_all

lemma http_parse_line:
  assumes "CHR 0x0D \<notin> set line"
  shows "http_parse t ok c (line @ kCRLF @ rest) =
     (case ctx_state c of
        kExpectRequestLine \<Rightarrow>
          (case processRequestLine line c of
             Inl e \<Rightarrow> Inl e
           | Inr (ok', c1) \<Rightarrow>
               if ok' then http_parse t True (c1\<lparr>ctx_request := setReceiveTime t (ctx_request c1),
                                               ctx_state := kExpectHeaders\<rparr>) rest
               else Inr (False, c1, line @ kCRLF @ rest))
      | kExpectHeaders \<Rightarrow>
          (let colon = std_find (CHR '':'') line in
           if colon \<noteq> length line
           then http_parse t ok (c\<lparr>ctx_request := addHeader line colon (ctx_request c)\<rparr>) rest
           else Inr (ok, c\<lparr>ctx_state := kGotAll\<rparr>, rest))
      | _ \<Rightarrow> Inr (ok, c, line @ kCRLF @ rest))"
proof -
  let ?s = "line @ kCRLF @ rest"
  have "take (length line) ?s = line" "drop (length line + 2) ?s = rest" "length line \<noteq> length ?s"
    by simp_all
  then show ?thesis
    by (subst http_parse.simps) (simp only: std_search_line [OF assms] Let_def if_False)
qed

lemma trimmed_strip: "trimmed s \<Longrightarrow> rev (dropWhile isspace (rev (dropWhile isspace (CHR '' '' # s)))) = s"
proof (cases s)
  case Nil
  then show ?thesis by (simp add: isspace_def)
next
  case (Cons x xs)
  assume t: "trimmed s"
  then have "dropWhile isspace s = s" using Cons by (simp add: trimmed_def)
  moreover have "dropWhile isspace (rev s) = rev s"
    using t Cons by (cases "rev s") (auto simp: trimmed_def hd_rev [symmetric])
  moreover have "isspace (CHR '' '')" by (simp add: isspace_def)
  ultimately show ?thesis by simp
qed

lemma addHeader_header_line:
  assumes "header_ok kv"
  shows "std_find (CHR '':'') (header_line kv) = length (fst kv)"
    and "addHeader (header_line kv) (length (fst kv)) r
       = r\<lparr>req_headers := map_put (fst kv) (snd kv) (req_headers r)\<rparr>"
proof -
  show "std_find (CHR '':'') (header_line kv) = length (fst kv)"
    using assms by (simp add: header_line_def header_ok_def std_find_append_notin)
  show "addHeader (header_line kv) (length (fst kv)) r
       = r\<lparr>req_headers := map_put (fst kv) (snd kv) (req_headers r)\<rparr>"
    using assms trimmed_strip [of "snd kv"] by (simp add: addHeader_def header_line_def header_ok_def)
qed

lemma map_put_last: "\<forall>k' \<in> fst ` set m. k' < k \<Longrightarrow> map_put k v m = m @ [(k, v)]"
  by (induction m) (auto simp: less_not_sym)

text \<open>The header section: every line is entered into the map, the empty line ends the request.\<close>

lemma http_parse_headers:
  assumes "ctx_state c = kExpectHeaders" "list_all header_ok hs" "map_ok (req_headers (ctx_request c) @ hs)"
  shows "http_parse t ok c (concat (map (\<lambda>kv. header_line kv @ kCRLF) hs) @ kCRLF @ rest)
     = Inr (ok, c\<lparr>ctx_state := kGotAll,
          ctx_request := (ctx_request c)\<lparr>req_headers := req_headers (ctx_request c) @ hs\<rparr>\<rparr>, rest)"
  using assms
proof (induction hs arbitrary: c)
  case Nil
  then show ?case using http_parse_line [of "[]" t ok c rest] by (simp add: std_find_def)
next
  case (Cons kv hs)
  have ok: "header_ok kv" using Cons.prems(2) by simp
  have cr: "CHR 0x0D \<notin> set (header_line kv)" using ok by (simp add: header_ok_def header_line_def)
  let ?m = "req_headers (ctx_request c)"
  have "k' < fst kv" if "k' \<in> fst ` set ?m" for k'
  proof -
    have "fst kv \<notin> fst ` set ?m" using Cons.prems(3) by (simp add: map_ok_def)
    then have "k' \<noteq> fst kv" using that by blast
    moreover have "k' \<le> fst kv" using Cons.prems(3) that by (auto simp: map_ok_def sorted_append)
    ultimately show ?thesis by simp
  qed
  then have put: "map_put (fst kv) (snd kv) ?m = ?m @ [kv]" by (simp add: map_put_last)
  have ne: "std_find (CHR '':'') (header_line kv) \<noteq> length (header_line kv)"
    using addHeader_header_line(1) [OF ok] by (simp add: header_line_def)
  let ?c = "c\<lparr>ctx_request := (ctx_request c)\<lparr>req_headers := ?m @ [kv]\<rparr>\<rparr>"
  show ?case
    using http_parse_line [OF cr, of t ok c] Cons.IH [of ?c] Cons.prems ne addHeader_header_line [OF ok] put
    by simp
qed

text \<open>The request line: the first two spaces separate method, target and version, the first question
  mark separates path and query.\<close>

lemma setMethod_methodString:
  "req_method r \<noteq> kInvalid \<Longrightarrow>
     setMethod (methodString r) HttpRequest_ctor = Inr (True, HttpRequest_ctor\<lparr>req_method := req_method r\<rparr>)"
  by (cases "req_method r") (simp_all add: setMethod_def methodString_def HttpRequest_ctor_def)

lemma methodString_chars: "CHR '' '' \<notin> set (methodString r)" "CHR 0x0D \<notin> set (methodString r)"
  by (cases "req_method r"; simp add: methodString_def)+

lemma processRequestLine_general:
  assumes "CHR '' '' \<notin> set m" "setMethod m (ctx_request c) = Inr (True, r1)"
    and "CHR '' '' \<notin> set target" "length ver = 8" "take 7 ver = ''HTTP/1.''"
  shows "processRequestLine (m @ '' '' @ target @ '' '' @ ver) c =
     (let q = std_find (CHR ''?'') target;
          r2 = (if q \<noteq> length target then setQuery (drop q target) (setPath (take q target) r1)
                else setPath target r1)
      in if last ver = CHR ''1'' then Inr (True, c\<lparr>ctx_request := setVersion kHttp11 r2\<rparr>)
         else if last ver = CHR ''0'' then Inr (True, c\<lparr>ctx_request := setVersion kHttp10 r2\<rparr>)
         else Inr (False, c\<lparr>ctx_request := r2\<rparr>))"
proof -
  let ?line = "m @ '' '' @ target @ '' '' @ ver"
  have s1: "std_find (CHR '' '') ?line = length m" using assms(1) by (simp add: std_find_append_notin)
  have d1: "drop (length m + 1) ?line = target @ '' '' @ ver" by simp
  have s2: "std_find (CHR '' '') (target @ '' '' @ ver) = length target"
    using assms(3) by (simp add: std_find_append_notin)
  have l: "?line ! (length ?line - 1) = last ver"
  proof -
    have "last ?line = last ver" using assms(4) by (cases ver) auto
    then show ?thesis by (simp add: last_conv_nth)
  qed
  have q: "std_find (CHR ''?'') target \<le> length target" by simp
  show ?thesis
    unfolding processRequestLine_def Let_def s1 d1 s2
    using assms l q by (auto simp: Let_def)
qed

lemma processRequestLine_render:
  assumes "request_ok r" "ctx_request c = HttpRequest_ctor"
  shows "processRequestLine (render_target r) c
     = Inr (True, c\<lparr>ctx_request := r\<lparr>req_receiveTime := 0, req_headers := []\<rparr>\<rparr>)"
proof -
  let ?v = "''HTTP/1.'' @ (if req_version r = kHttp11 then ''1'' else ''0'')"
  let ?t = "req_path r @ req_query r"
  have ok: "CHR '' '' \<notin> set ?t" "CHR ''?'' \<notin> set (req_path r)"
    using assms(1) by (auto simp: request_ok_def)
  have sm: "setMethod (methodString r) (ctx_request c)
      = Inr (True, HttpRequest_ctor\<lparr>req_method := req_method r\<rparr>)"
    using assms setMethod_methodString [of r] by (simp add: request_ok_def)
  note p = processRequestLine_general [OF methodString_chars(1) sm ok(1), of ?v]
  have q: "std_find (CHR ''?'') ?t = length (req_path r)"
    using ok(2) assms(1) std_find_notin [OF ok(2)] by (cases "req_query r")
      (auto simp: std_find_append_notin request_ok_def)
  have e: "render_target r = methodString r @ '' '' @ ?t @ '' '' @ ?v" by (simp add: render_target_def)
  show ?thesis using p assms unfolding e q
    by (cases "req_version r") (auto simp: Let_def request_ok_def setQuery_def setPath_def setVersion_def
        HttpRequest_ctor_def)
qed

lemma http_parse_render:
  assumes "request_ok r"
  shows "http_parse t True HttpContext_ctor (render_request r @ rest)
     = Inr (True, \<lparr>ctx_state = kGotAll, ctx_request = r\<lparr>req_receiveTime := t\<rparr>\<rparr>, rest)"
proof -
  have cr: "CHR 0x0D \<notin> set (render_target r)"
    using assms methodString_chars(2) [of r] by (auto simp: request_ok_def render_target_def)
  have p: "processRequestLine (render_target r) HttpContext_ctor
      = Inr (True, HttpContext_ctor\<lparr>ctx_request := r\<lparr>req_receiveTime := 0, req_headers := []\<rparr>\<rparr>)"
    by (rule processRequestLine_render [OF assms]) (simp add: HttpContext_ctor_def)
  let ?h = "concat (map (\<lambda>kv. header_line kv @ kCRLF) (req_headers r))"
  let ?c = "\<lparr>ctx_state = kExpectHeaders, ctx_request = r\<lparr>req_headers := [], req_receiveTime := t\<rparr>\<rparr>"
  have "http_parse t True HttpContext_ctor (render_request r @ rest)
      = http_parse t True ?c (?h @ kCRLF @ rest)"
    using http_parse_line [OF cr, of t True HttpContext_ctor "?h @ kCRLF @ rest"] p
    by (simp add: render_request_def HttpContext_ctor_def setReceiveTime_def)
  also have "\<dots> = Inr (True, \<lparr>ctx_state = kGotAll, ctx_request = r\<lparr>req_receiveTime := t\<rparr>\<rparr>, rest)"
    using http_parse_headers [of ?c "req_headers r" t True rest] assms by (simp add: request_ok_def)
  finally show ?thesis .
qed

lemma http_parse_headers_verdict:
  "http_parse t ok c s = Inr (ok', c', s') \<Longrightarrow> ctx_state c = kExpectHeaders \<Longrightarrow> ok' = ok"
proof (induction "length s" arbitrary: c s rule: less_induct)
  case less
  let ?i = "std_search s kCRLF"
  let ?c = "c\<lparr>ctx_request := addHeader (take ?i s) (std_find (CHR '':'') (take ?i s)) (ctx_request c)\<rparr>"
  show ?case
  proof (cases "?i = length s")
    case True
    then show ?thesis using less.prems by (simp add: http_parse.simps [of t ok c s])
  next
    case False
    note IH = less.hyps [OF std_search_shorter [OF False], of ?c]
    have "http_parse t ok c s =
        (if std_find (CHR '':'') (take ?i s) \<noteq> length (take ?i s) then http_parse t ok ?c (drop (?i + 2) s)
         else Inr (ok, c\<lparr>ctx_state := kGotAll\<rparr>, drop (?i + 2) s))"
      using False less.prems(2) by (subst http_parse.simps) (simp only: Let_def if_False HttpRequestParseState.case)
    then show ?thesis using less.prems IH by (auto split: if_splits)
  qed
qed

lemma setMethod_known:
  "m \<in> {''GET'', ''POST'', ''HEAD'', ''PUT'', ''DELETE''} \<Longrightarrow> req_method r = kInvalid \<Longrightarrow>
     \<exists>r1. setMethod m r = Inr (True, r1) \<and> req_method r1 \<noteq> kInvalid"
  by (auto simp: setMethod_def)

lemma processRequestLine_rejects:
  assumes "processRequestLine line c = Inr (False, c1)" "std_find (CHR '' '') line \<noteq> length line"
    and "setMethod (take (std_find (CHR '' '') line) line) (ctx_request c) = Inr (True, r1)"
    and "req_method r1 \<noteq> kInvalid"
  shows "ctx_state c1 = ctx_state c \<and> req_method (ctx_request c1) \<noteq> kInvalid"
  using assms
  by (auto simp: processRequestLine_def Let_def setQuery_def setPath_def split: if_splits)

lemma processRequestLine_method_set:
  assumes "std_find (CHR '' '') line \<noteq> length line" "req_method (ctx_request c) \<noteq> kInvalid"
  shows "processRequestLine line c = Inl (AssertFail ''method_ == kInvalid'')"
  using assms by (simp add: processRequestLine_def setMethod_def Let_def)

text \<open>The text of a response.\<close>

definition response_text :: "HttpResponse \<Rightarrow> string" where
  "response_text r = ''HTTP/1.1 '' @ dec_int (status_value (resp_statusCode r)) @ '' '' @ resp_statusMessage r @ kCRLF
     @ (if resp_closeConnection r then ''Connection: close'' @ kCRLF
        else ''Content-Length: '' @ dec_nat (length (resp_body r)) @ kCRLF @ ''Connection: Keep-Alive'' @ kCRLF)
     @ concat (map (\<lambda>kv. header_line kv @ kCRLF) (resp_headers r)) @ kCRLF @ resp_body r"

lemma appendToBuffer_ok:
  assumes "Buffer_inv b" and "length (resp_body r) < 10 ^ 13"
  shows "\<exists>b'. appendToBuffer r b = Inr b' \<and> Buffer_inv b' \<and> Buffer_content b' = Buffer_content b @ response_text r"
proof -
  have "length (dec_nat (length (resp_body r))) \<le> 13" by (rule length_dec_nat) (use assms(2) in simp_all)
  then have 1: "snprintf 32 (''Content-Length: '' @ dec_nat (length (resp_body r)) @ kCRLF)
      = ''Content-Length: '' @ dec_nat (length (resp_body r)) @ kCRLF"
    by (intro snprintf_fits) simp
  have "length (dec_int (status_value (resp_statusCode r))) \<le> 3"
    by (cases "resp_statusCode r") (auto simp: dec_int_def intro!: length_dec_nat)
  then have 2: "snprintf 32 (''HTTP/1.1 '' @ dec_int (status_value (resp_statusCode r)) @ '' '')
      = ''HTTP/1.1 '' @ dec_int (status_value (resp_statusCode r)) @ '' ''"
    by (intro snprintf_fits) simp
  have 3: "concat (concat (map (\<lambda>(k, v). [k, '': '', v, kCRLF]) hs)) = concat (map (\<lambda>kv. header_line kv @ kCRLF) hs)"
    for hs by (induction hs) (auto simp: header_line_def)
  show ?thesis using buf.put_all_ok [OF assms(1), of "response_pieces r"]
    unfolding appendToBuffer_def response_pieces_def response_text_def 1 2 by (auto simp: 3)
qed

section \<open>The parser between two pieces\<close>

text \<open>A result that is not ``more bytes wanted'' does not change when more bytes come.\<close>

lemma http_parse_settled:
  "parsing c \<Longrightarrow> ok \<Longrightarrow> case http_parse t ok c p of
     Inl e \<Rightarrow> http_parse t ok c (p @ q) = Inl e
   | Inr (ok1, c1, r) \<Rightarrow> ok1 \<and> parsing c1 \<or> http_parse t ok c (p @ q) = Inr (ok1, c1, r @ q)"
proof (induction t ok c p rule: http_parse.induct)
  case (1 t ok c s)
  let ?i = "std_search s kCRLF"
  show ?case
  proof (cases "?i = length s")
    case True
    then show ?thesis using "1.prems" by (simp add: http_parse.simps [of t True c s])
  next
    case False
    then have i: "std_search (s @ q) kCRLF = ?i" by (simp add: std_search_append)
    have room: "?i + 2 \<le> length s" using std_search_room [OF False] by simp
    note u = http_parse.simps [of t True c s] http_parse.simps [of t True c "s @ q"]
    show ?thesis using "1.prems" "1.IH" False i room
      by (auto simp: u Let_def parsing_def split: HttpRequestParseState.splits sum.splits prod.splits if_splits)
  qed
qed

text \<open>After the request line the time is not looked at.\<close>

lemma http_parse_time: "ctx_state c \<noteq> kExpectRequestLine \<Longrightarrow> http_parse t ok c s = http_parse t' ok c s"
proof (induction t ok c s rule: http_parse.induct)
  case (1 t ok c s)
  note u = http_parse.simps [of t ok c s] http_parse.simps [of t' ok c s]
  show ?case using "1.prems" "1.IH"(2) by (cases "ctx_state c") (simp_all add: u Let_def)
qed

lemma http_parse_state: "http_parse t ok c s = Inr (ok1, c1, r) \<Longrightarrow> ctx_state c \<noteq> kExpectRequestLine \<Longrightarrow> ctx_state c1 \<noteq> kExpectRequestLine"
proof (induction t ok c s rule: http_parse.induct)
  case (1 t ok c s)
  note u = http_parse.simps [of t ok c s]
  show ?case using "1.prems" "1.IH"(2) by (cases "ctx_state c") (auto simp: u Let_def split: if_splits)
qed

text \<open>A parser still waiting for its first line has done nothing.\<close>

lemma http_parse_idle:
  assumes "parsing c" "http_parse t True c p = Inr (True, c1, r)" "ctx_state c1 = kExpectRequestLine"
  shows "c1 = c \<and> r = p"
proof (cases "std_search p kCRLF = length p")
  case True
  then show ?thesis using assms(2) by (simp add: http_parse.simps [of t True c p])
next
  case False
  have st: "ctx_state c = kExpectRequestLine" using http_parse_state [OF assms(2)] assms(3) by blast
  have "ctx_state c' = kExpectRequestLine" if "http_parse t True c' p' = Inr (True, c1, r)" for c' p'
    using http_parse_state [OF that] assms(3) by blast
  then show ?thesis using assms(2) False st
    by (auto simp: http_parse.simps [of t True c p] Let_def split: sum.splits if_splits) fastforce+
qed

text \<open>What a call of \<^verbatim>\<open>parseRequest\<close> gives, with the bytes left in the buffer.\<close>

definition parsed :: "(bool \<times> HttpContext \<times> Buffer) result option \<Rightarrow> (bool \<times> HttpContext \<times> string) result option" where
  "parsed = map_option (map_sum id (\<lambda>(ok, c, b). (ok, c, Buffer_content b)))"

lemma parsed_Inl: "parsed y = Some (Inl e) \<longleftrightarrow> y = Some (Inl e)"
proof (cases y)
  case (Some z)
  then show ?thesis by (cases z) (auto simp: parsed_def)
qed (simp add: parsed_def)

lemma parsed_parse:
  assumes "Buffer_inv b" "parsing c"
  shows "parsed (parseRequest b t c) = Some (http_parse t True c (Buffer_content b))"
  using parseRequest_loop_refines [OF assms, of t True]
  by (auto simp: parsed_def parseRequest_def split: sum.splits prod.splits)

section \<open>Properties\<close>

text \<open>C34. In the states that read lines \<^verbatim>\<open>parseRequest\<close> always returns, never reads outside the
  buffer, and computes exactly the line-wise parser \<open>http_parse\<close> of the readable bytes: the same
  verdict and context, the unconsumed bytes left in the buffer, or the failed assertion of
  \<^verbatim>\<open>setMethod\<close>.\<close>

theorem parseRequest_refines:
  assumes "Buffer_inv b" and "parsing c"
  shows "case http_parse t True c (Buffer_content b) of
      Inl e \<Rightarrow> parseRequest b t c = Some (Inl e)
    | Inr (ok, c', s') \<Rightarrow> \<exists>b'. parseRequest b t c = Some (Inr (ok, c', b'))
        \<and> Buffer_inv b' \<and> Buffer_content b' = s'"
  unfolding parseRequest_def by (rule parseRequest_loop_refines [OF assms])

theorem parseRequest_refines_witness:
  "\<exists>b'. parseRequest \<lparr>buffer = ''........abc'', readerIndex = 8, writerIndex = 11\<rparr> 5 HttpContext_ctor
     = Some (Inr (True, HttpContext_ctor, b')) \<and> Buffer_content b' = ''abc''"
proof -
  let ?b = "\<lparr>buffer = ''........abc'', readerIndex = 8, writerIndex = 11\<rparr>"
  have inv: "Buffer_inv ?b" by (simp add: Buffer_inv_def kCheapPrepend_def)
  have c: "parsing HttpContext_ctor" by (simp add: parsing_def HttpContext_ctor_def)
  have h: "http_parse 5 True HttpContext_ctor (Buffer_content ?b) = Inr (True, HttpContext_ctor, ''abc'')"
    by (subst http_parse.simps) (simp add: Buffer_content_def kCRLF_def)
  show ?thesis using parseRequest_refines [OF inv c, of 5] unfolding h by auto
qed

text \<open>C15. A well-formed request survives the wire: the bytes a client renders, followed by anything,
  are parsed into the same request (method, path, query, version, every header), stamped with the
  receive time, and exactly the bytes behind it are left in the buffer.\<close>

theorem request_roundtrip:
  assumes "request_ok r" and "Buffer_inv b" and "Buffer_content b = render_request r @ rest"
  shows "\<exists>b'. parseRequest b t HttpContext_ctor
       = Some (Inr (True, \<lparr>ctx_state = kGotAll, ctx_request = r\<lparr>req_receiveTime := t\<rparr>\<rparr>, b'))
     \<and> Buffer_inv b' \<and> Buffer_content b' = rest"
proof -
  have "parsing HttpContext_ctor" by (simp add: parsing_def HttpContext_ctor_def)
  from parseRequest_loop_refines [OF assms(2) this, of t True] http_parse_render [OF assms(1)]
  show ?thesis by (simp add: assms(3) parseRequest_def)
qed

theorem request_roundtrip_witness:
  "\<exists>b b' r. Buffer_content b = ''GET /a?b HTTP/1.1'' @ kCRLF @ ''Host: x'' @ kCRLF @ kCRLF @ ''more''
     \<and> parseRequest b 7 HttpContext_ctor = Some (Inr (True, \<lparr>ctx_state = kGotAll, ctx_request = r\<rparr>, b'))
     \<and> req_path r = ''/a'' \<and> req_query r = ''?b'' \<and> getHeader ''Host'' r = ''x''
     \<and> Buffer_content b' = ''more''"
proof -
  let ?r = "\<lparr>req_method = kGet, req_version = kHttp11, req_path = ''/a'', req_query = ''?b'',
     req_receiveTime = 0, req_headers = [(''Host'', ''x'')]\<rparr>"
  have ok: "request_ok ?r" by (simp add: request_ok_def map_ok_def header_ok_def trimmed_def isspace_def)
  have wire: "render_request ?r = ''GET /a?b HTTP/1.1'' @ kCRLF @ ''Host: x'' @ kCRLF @ kCRLF"
    by (simp add: render_request_def render_target_def header_line_def methodString_def)
  obtain b0 where b0: "Buffer_inv b0" "Buffer_content b0 = []" using Buffer_ctor_ok by blast
  obtain b where b: "Buffer_inv b" "Buffer_content b = render_request ?r @ ''more''"
    using Buffer_append_ok [OF b0(1), of "render_request ?r @ ''more''"] b0(2) by auto
  show ?thesis using request_roundtrip [OF ok b, of 7] b(2) [unfolded wire]
    by (auto simp: getHeader_def map_find_def)
qed

text \<open>C36. The parser does not depend on how the input is split. Let any bytes be parsed, in any line
  state, and let then \<open>d\<close> arrive, at any time. If the first call asks for more, the second one gives
  what one call on all the bytes gives, at the time of the second call when the first line was not yet
  complete and at that of the first call otherwise. If the first call ends the request, refuses it or
  fails an assertion, then a call on all the bytes does the same, with \<open>d\<close> behind the bytes left.\<close>

theorem parseRequest_chunks:
  assumes "Buffer_inv b" and "parsing c" and "Buffer_append d b = Inr whole"
  shows "case parseRequest b t c of
       None \<Rightarrow> False
     | Some (Inl e) \<Rightarrow> parseRequest whole t c = Some (Inl e)
     | Some (Inr (ok1, c1, b1)) \<Rightarrow>
         if ok1 \<and> parsing c1
         then \<exists>b2. Buffer_append d b1 = Inr b2
           \<and> parsed (parseRequest b2 t' c1) = parsed (parseRequest whole (if ctx_state c1 = kExpectRequestLine then t' else t) c)
         else parsed (parseRequest whole t c) = Some (Inr (ok1, c1, Buffer_content b1 @ d))"
proof -
  let ?p = "Buffer_content b"
  have whole: "Buffer_inv whole" "Buffer_content whole = ?p @ d" using Buffer_append_ok [OF assms(1), of d] assms(3) by auto
  have all: "parsed (parseRequest whole u c) = Some (http_parse u True c (?p @ d))" for u
    using parsed_parse [OF whole(1) assms(2)] whole(2) by simp
  note settled = http_parse_settled [OF assms(2) TrueI, of t ?p d]
  show ?thesis
  proof (cases "http_parse t True c ?p")
    case (Inl e)
    then have "parseRequest b t c = Some (Inl e)" "parsed (parseRequest whole t c) = Some (Inl e)"
      using parseRequest_loop_refines [OF assms(1,2), of t True] settled all by (auto simp: parseRequest_def)
    then show ?thesis by (simp add: parsed_Inl)
  next
    case (Inr z)
    then obtain ok1 c1 r where z: "http_parse t True c ?p = Inr (ok1, c1, r)" by (cases z) auto
    then obtain b1 where b1: "parseRequest b t c = Some (Inr (ok1, c1, b1))" "Buffer_inv b1" "Buffer_content b1 = r"
      using parseRequest_loop_refines [OF assms(1,2), of t True] by (auto simp: parseRequest_def)
    show ?thesis
    proof (cases "ok1 \<and> parsing c1")
      case False
      then show ?thesis using settled z b1 all by auto
    next
      case True
      obtain b2 where b2: "Buffer_append d b1 = Inr b2" "Buffer_inv b2" "Buffer_content b2 = r @ d"
        using Buffer_append_ok [OF b1(2), of d] b1(3) by auto
      have c1: "http_parse t True c ?p = Inr (True, c1, r)" "parsing c1" using z True by simp_all
      have "http_parse t' True c1 (r @ d) = http_parse (if ctx_state c1 = kExpectRequestLine then t' else t) True c (?p @ d)"
      proof (cases "ctx_state c1 = kExpectRequestLine")
        case True
        then show ?thesis using http_parse_idle [OF assms(2) c1(1)] by simp
      next
        case False
        then show ?thesis using http_parse_chunks [OF c1(1,2), of d] http_parse_time [OF False] by simp
      qed
      then show ?thesis using True b1(1) b2 parsed_parse [OF b2(2) c1(2)] all by simp
    qed
  qed
qed

theorem parseRequest_chunks_witness:
  "\<exists>b b1 b2 whole. Buffer_ctor = Inr b \<and> parseRequest b 5 HttpContext_ctor = Some (Inr (True, HttpContext_ctor, b1))
     \<and> Buffer_append ''GET'' b1 = Inr b2 \<and> Buffer_append ''GET'' b = Inr whole
     \<and> parsed (parseRequest b2 6 HttpContext_ctor) = parsed (parseRequest whole 6 HttpContext_ctor)"
proof -
  obtain b where b: "Buffer_ctor = Inr b" "Buffer_inv b" "Buffer_content b = []"
    using Buffer_ctor_ok by blast
  have c: "parsing HttpContext_ctor" "ctx_state HttpContext_ctor = kExpectRequestLine" by (simp_all add: parsing_def HttpContext_ctor_def)
  have h: "http_parse 5 True HttpContext_ctor (Buffer_content b) = Inr (True, HttpContext_ctor, [])"
    by (subst http_parse.simps) (simp add: b(3))
  obtain b1 where b1: "parseRequest b 5 HttpContext_ctor = Some (Inr (True, HttpContext_ctor, b1))"
    using parseRequest_loop_refines [OF b(2) c(1), of 5 True] unfolding h parseRequest_def by auto
  obtain whole where w: "Buffer_append ''GET'' b = Inr whole" using Buffer_append_ok [OF b(2)] by blast
  from parseRequest_chunks [OF b(2) c(1) w, of 5 6] show ?thesis using b(1) b1 w c by auto
qed

text \<open>C38. \<^verbatim>\<open>parseRequest\<close> must not be entered outside the line states: in \<^verbatim>\<open>kExpectBody\<close> and
  \<^verbatim>\<open>kGotAll\<close> no branch of the loop body clears \<^verbatim>\<open>hasMore\<close>, so it never returns. In the line states
  it always does.\<close>

theorem parseRequest_returns_iff:
  assumes "Buffer_inv b"
  shows "(\<exists>y. parseRequest b t c = Some y) \<longleftrightarrow>
     ctx_state c = kExpectRequestLine \<or> ctx_state c = kExpectHeaders"
proof
  assume "\<exists>y. parseRequest b t c = Some y"
  then show "ctx_state c = kExpectRequestLine \<or> ctx_state c = kExpectHeaders"
    using parseRequest_loop_parsing by (fastforce simp: parseRequest_def parsing_def)
next
  assume "ctx_state c = kExpectRequestLine \<or> ctx_state c = kExpectHeaders"
  then have "parsing c" by (simp add: parsing_def)
  from parseRequest_loop_refines [OF assms this, of t True] show "\<exists>y. parseRequest b t c = Some y"
    by (auto simp: parseRequest_def split: sum.splits prod.splits)
qed

theorem parseRequest_returns_iff_witness:
  "parseRequest \<lparr>buffer = ''........'', readerIndex = 8, writerIndex = 8\<rparr> 0
     \<lparr>ctx_state = kGotAll, ctx_request = HttpRequest_ctor\<rparr> = None"
proof -
  have "Buffer_inv \<lparr>buffer = ''........'', readerIndex = 8, writerIndex = 8\<rparr>"
    by (simp add: Buffer_inv_def kCheapPrepend_def)
  from parseRequest_returns_iff [OF this, of 0 "\<lparr>ctx_state = kGotAll, ctx_request = HttpRequest_ctor\<rparr>"]
  show ?thesis by auto
qed

text \<open>A request line with a known method that is rejected later on (no target, or a version
  other than 1.0 and 1.1) stays in the buffer while the context keeps the method, so that parsing
  again, which the server does as soon as more bytes arrive, fails the assertion of
  \<^verbatim>\<open>setMethod\<close>.\<close>

theorem rejected_line_asserts_on_reparse:
  assumes "Buffer_inv b" and "Buffer_content b = m @ '' '' @ tail @ kCRLF @ rest"
    and "m \<in> {''GET'', ''POST'', ''HEAD'', ''PUT'', ''DELETE''}" and "CHR 0x0D \<notin> set tail"
    and "parseRequest b t HttpContext_ctor = Some (Inr (False, c1, b1))"
    and "Buffer_append d b1 = Inr b2"
  shows "parseRequest b2 t' c1 = Some (Inl (AssertFail ''method_ == kInvalid''))"
proof -
  let ?line = "m @ '' '' @ tail"
  have cr: "CHR 0x0D \<notin> set ?line" using assms(3,4) by auto
  have "CHR '' '' \<notin> set m" using assms(3) by auto
  then have sp: "std_find (CHR '' '') ?line = length m" by (simp add: std_find_append_notin)
  have P: "parsing HttpContext_ctor" and st: "ctx_state HttpContext_ctor = kExpectRequestLine"
    by (simp_all add: parsing_def HttpContext_ctor_def)
  have h: "http_parse t True HttpContext_ctor (?line @ kCRLF @ rest) = Inr (False, c1, Buffer_content b1)"
    and b1: "Buffer_inv b1"
    using parseRequest_loop_refines [OF assms(1) P, of t True] assms(2,5)
    by (auto simp: parseRequest_def split: sum.splits prod.splits)
  from h have r: "processRequestLine ?line HttpContext_ctor = Inr (False, c1)"
    and s1: "Buffer_content b1 = ?line @ kCRLF @ rest"
    unfolding http_parse_line [OF cr]
    by (auto simp: st split: sum.splits if_splits dest!: http_parse_headers_verdict)
  obtain r1 where "setMethod m (ctx_request HttpContext_ctor) = Inr (True, r1)" "req_method r1 \<noteq> kInvalid"
    using setMethod_known [OF assms(3), of "ctx_request HttpContext_ctor"]
    by (auto simp: HttpContext_ctor_def HttpRequest_ctor_def)
  then have c1: "ctx_state c1 = kExpectRequestLine" "req_method (ctx_request c1) \<noteq> kInvalid"
    using processRequestLine_rejects [OF r, unfolded sp] st by auto
  have b2: "Buffer_inv b2" "Buffer_content b2 = ?line @ kCRLF @ rest @ d"
    using Buffer_append_ok [OF b1, of d] assms(6) s1 by auto
  have "http_parse t' True c1 (Buffer_content b2) = Inl (AssertFail ''method_ == kInvalid'')"
    using processRequestLine_method_set [of ?line c1] sp c1 unfolding b2(2) http_parse_line [OF cr] by simp
  with parseRequest_loop_refines [OF b2(1), of c1 t' True] c1(1) show ?thesis
    by (simp add: parseRequest_def parsing_def)
qed

theorem rejected_line_asserts_on_reparse_witness:
  "\<exists>b b1 b2 c1. Buffer_content b = ''GET / HTTP/2.0'' @ kCRLF
     \<and> parseRequest b 1 HttpContext_ctor = Some (Inr (False, c1, b1)) \<and> Buffer_append ''x'' b1 = Inr b2
     \<and> parseRequest b2 2 c1 = Some (Inl (AssertFail ''method_ == kInvalid''))"
proof -
  obtain b0 where b0: "Buffer_inv b0" "Buffer_content b0 = []" using Buffer_ctor_ok by blast
  let ?line = "''GET'' @ '' '' @ ''/ HTTP/2.0''"
  obtain b where b: "Buffer_inv b" "Buffer_content b = ?line @ kCRLF @ []"
    using Buffer_append_ok [OF b0(1), of "?line @ kCRLF"] b0(2) by auto
  have P: "parsing HttpContext_ctor" by (simp add: parsing_def HttpContext_ctor_def)
  have p: "\<exists>c1. processRequestLine ?line HttpContext_ctor = Inr (False, c1)"
    by (simp add: processRequestLine_def std_find_def setMethod_def HttpContext_ctor_def HttpRequest_ctor_def Let_def)
  then obtain c1 where "http_parse 1 True HttpContext_ctor (?line @ kCRLF @ []) = Inr (False, c1, ?line @ kCRLF @ [])"
    using http_parse_line [of ?line 1 True HttpContext_ctor "[]"] by (auto simp: HttpContext_ctor_def)
  then obtain b1 where b1: "parseRequest b 1 HttpContext_ctor = Some (Inr (False, c1, b1))" "Buffer_inv b1"
    using parseRequest_loop_refines [OF b(1) P, of 1 True] unfolding b(2) parseRequest_def by auto
  obtain b2 where b2: "Buffer_append ''x'' b1 = Inr b2" using Buffer_append_ok [OF b1(2)] by blast
  have b': "Buffer_content b = ''GET'' @ '' '' @ ''/ HTTP/2.0'' @ kCRLF @ []" using b(2) by simp
  show ?thesis using rejected_line_asserts_on_reparse [OF b(1) b' _ _ b1(1) b2, of 2] b(2) b1(1) b2
    by auto
qed

text \<open>\<^verbatim>\<open>appendToBuffer\<close> never faults and appends exactly the response text: status line, the
  framing headers, the header map in key order, an empty line and the body. The stated content
  length is the length of the body for every body below ten terabytes.\<close>

theorem appendToBuffer_text:
  assumes "Buffer_inv b" and "length (resp_body r) < 10 ^ 13"
  shows "\<exists>b'. appendToBuffer r b = Inr b' \<and> Buffer_inv b' \<and> Buffer_content b' = Buffer_content b
     @ ''HTTP/1.1 '' @ dec_int (status_value (resp_statusCode r)) @ '' '' @ resp_statusMessage r @ kCRLF
     @ (if resp_closeConnection r then ''Connection: close'' @ kCRLF
        else ''Content-Length: '' @ dec_nat (length (resp_body r)) @ kCRLF @ ''Connection: Keep-Alive'' @ kCRLF)
     @ concat (map (\<lambda>kv. header_line kv @ kCRLF) (resp_headers r)) @ kCRLF @ resp_body r"
  using appendToBuffer_ok [OF assms] by (simp add: response_text_def)

theorem appendToBuffer_text_witness:
  "\<exists>b b'. Buffer_ctor = Inr b
     \<and> appendToBuffer (setBody ''hi'' (setStatusMessage ''OK'' (setStatusCode k200Ok (HttpResponse_ctor False)))) b = Inr b'
     \<and> Buffer_content b' = ''HTTP/1.1 200 OK'' @ kCRLF @ ''Content-Length: 2'' @ kCRLF
          @ ''Connection: Keep-Alive'' @ kCRLF @ kCRLF @ ''hi''"
proof -
  obtain b where b: "Buffer_ctor = Inr b" "Buffer_inv b" "Buffer_content b = []"
    using Buffer_ctor_ok by blast
  let ?r = "setBody ''hi'' (setStatusMessage ''OK'' (setStatusCode k200Ok (HttpResponse_ctor False)))"
  have r: "resp_body ?r = ''hi''" "resp_statusMessage ?r = ''OK''" "resp_statusCode ?r = k200Ok"
      "\<not> resp_closeConnection ?r" "resp_headers ?r = []"
    by (simp_all add: setBody_def setStatusMessage_def setStatusCode_def HttpResponse_ctor_def)
  have d: "dec_int 200 = ''200''" "dec_nat (Suc (Suc 0)) = ''2''" by code_simp+
  obtain b' where "appendToBuffer ?r b = Inr b'" "Buffer_content b' = ''HTTP/1.1 200 OK'' @ kCRLF
      @ ''Content-Length: 2'' @ kCRLF @ ''Connection: Keep-Alive'' @ kCRLF @ kCRLF @ ''hi''"
    using appendToBuffer_text [OF b(2), of ?r] b(3) by (auto simp: r d)
  then show ?thesis using b(1) by blast
qed

end
