(* ===== verification/Base_Timestamp.thy ===== *)
theory Base_Timestamp
  imports Cpp_Prelude
begin

text \<open>
  \<^verbatim>\<open>base/Timestamp.h\<close> and \<^verbatim>\<open>base/Timestamp.cc\<close>: a point in time is the number of microseconds since
  the epoch. The count is an \<^verbatim>\<open>int64_t\<close> that overflows about 290000 years from the epoch; it is an
  \<open>int\<close> here. The argument of \<open>addTime\<close> here is the integer that its floating-point product is
  converted to; \<open>Base_Seconds\<close> has the product.
\<close>

type_synonym Timestamp = int

definition kMicroSecondsPerSecond :: int where "kMicroSecondsPerSecond = 1000 * 1000"

definition Timestamp_ctor :: Timestamp where "Timestamp_ctor = 0"

definition Timestamp_invalid :: Timestamp where "Timestamp_invalid = Timestamp_ctor"

definition Timestamp_swap :: "Timestamp \<Rightarrow> Timestamp \<Rightarrow> Timestamp \<times> Timestamp" where
  "Timestamp_swap t that = (that, t)"

definition Timestamp_valid :: "Timestamp \<Rightarrow> bool" where
  "Timestamp_valid t = (0 < t)"

definition secondsSinceEpoch :: "Timestamp \<Rightarrow> int" where
  "secondsSinceEpoch t = cdiv t kMicroSecondsPerSecond"

definition fromUnixTime :: "int \<Rightarrow> int \<Rightarrow> Timestamp" where
  "fromUnixTime t microseconds = t * kMicroSecondsPerSecond + microseconds"

text \<open>\<^verbatim>\<open>gettimeofday\<close> delivers seconds and microseconds.\<close>

definition Timestamp_now :: "int \<Rightarrow> int \<Rightarrow> Timestamp" where
  "Timestamp_now tv_sec tv_usec = tv_sec * kMicroSecondsPerSecond + tv_usec"

definition Timestamp_less :: "Timestamp \<Rightarrow> Timestamp \<Rightarrow> bool" where
  "Timestamp_less lhs rhs = (lhs < rhs)"

definition Timestamp_eq :: "Timestamp \<Rightarrow> Timestamp \<Rightarrow> bool" where
  "Timestamp_eq lhs rhs = (lhs = rhs)"

definition addTime :: "Timestamp \<Rightarrow> int \<Rightarrow> Timestamp" where
  "addTime timestamp delta = timestamp + delta"

definition Timestamp_toString :: "Timestamp \<Rightarrow> string" where
  "Timestamp_toString t =
     (let seconds = cdiv t kMicroSecondsPerSecond;
          microseconds = cmod t kMicroSecondsPerSecond
      in snprintf 32 (dec_int seconds @ ''.'' @ dec_pad 6 microseconds))"

lemma fromUnixTime_split:
  "0 \<le> t \<Longrightarrow> 0 \<le> us \<Longrightarrow> us < kMicroSecondsPerSecond \<Longrightarrow>
     secondsSinceEpoch (fromUnixTime t us) = t \<and> cmod (fromUnixTime t us) kMicroSecondsPerSecond = us"
  by (simp add: secondsSinceEpoch_def fromUnixTime_def kMicroSecondsPerSecond_def)

end
