(* ===== verification/Net_Timer.thy ===== *)
theory Net_Timer
  imports Base_Timestamp Std_Map "HOL-Library.Product_Lexorder"
begin

text \<open>
  \<^verbatim>\<open>net/Timer.h\<close>, \<^verbatim>\<open>net/Timer.cc\<close>, \<^verbatim>\<open>net/TimerId.h\<close>, \<^verbatim>\<open>net/TimerQueue.h\<close> and
  \<^verbatim>\<open>net/TimerQueue.cc\<close>. Timers are heap objects: the queue owns a heap (address to \<open>Timer\<close>), the set
  \<^verbatim>\<open>timers_\<close> of (expiration, address) and the set \<^verbatim>\<open>activeTimers_\<close> of (address, sequence). An access
  through an address that is not allocated is the fault \<open>DanglingPointer\<close>. \<^verbatim>\<open>operator new\<close> is an
  argument \<open>alloc\<close>: given the addresses in use it returns a new one or throws. A user callback is an
  argument too: it reads the queue and answers with the calls it makes on it. \<open>addTimer\<close> and
  \<open>TimerQueue_cancel\<close> are the calls of the loop thread. Those of other threads are cut where \<^verbatim>\<open>runInLoop\<close> gives the
  functor to the loop (\<open>addTimer_queued\<close>, \<open>addTimer_return\<close>, \<open>cancel_queued\<close>), so that the loop can run it in
  between; \<open>tt_exec\<close> schedules them with the loop.
\<close>

section \<open>Timers\<close>

record Timer =
  tm_callback :: nat
  tm_expiration :: Timestamp
  tm_interval :: int
  tm_repeat :: bool
  tm_sequence :: int

definition Timer_ctor :: "nat \<Rightarrow> Timestamp \<Rightarrow> int \<Rightarrow> bool \<Rightarrow> int \<Rightarrow> Timer \<times> int" where
  "Timer_ctor cb when us positive numCreated =
     (let seq = numCreated + 1
      in (\<lparr>tm_callback = cb, tm_expiration = when, tm_interval = us, tm_repeat = positive,
           tm_sequence = seq\<rparr>, seq))"

definition restart :: "Timestamp \<Rightarrow> Timer \<Rightarrow> Timer" where
  "restart now t = (if tm_repeat t then t\<lparr>tm_expiration := addTime now (tm_interval t)\<rparr>
                    else t\<lparr>tm_expiration := Timestamp_invalid\<rparr>)"

type_synonym TimerId = "nat \<times> int"

section \<open>The timer descriptor\<close>

definition howMuchTimeFromNow :: "Timestamp \<Rightarrow> Timestamp \<Rightarrow> int \<times> int" where
  "howMuchTimeFromNow now when =
     (let microseconds = when - now;
          microseconds = (if microseconds < 100 then 100 else microseconds)
      in (cdiv microseconds kMicroSecondsPerSecond, cmod microseconds kMicroSecondsPerSecond * 1000))"

section \<open>The queue\<close>

record TimerQueue =
  tq_thread :: nat
  tq_timerfd :: "(int \<times> int) option"
  tq_timers :: "(Timestamp \<times> nat) list"
  tq_calling :: bool
  tq_active :: "(nat \<times> int) list"
  tq_canceling :: "(nat \<times> int) list"
  tq_heap :: "(nat \<times> Timer) list"
  tq_created :: int

definition UINTPTR_MAX :: nat where "UINTPTR_MAX = 2 ^ 64 - 1"

definition createTimerfd :: "int \<Rightarrow> int result" where
  "createTimerfd fd = (if fd < 0 then Inl (LogFatal ''Failed in timerfd_create'') else Inr fd)"

definition TimerQueue_ctor :: "nat \<Rightarrow> int \<Rightarrow> TimerQueue result" where
  "TimerQueue_ctor loop_thread fd =
     bindR (createTimerfd fd) (\<lambda>_.
       Inr \<lparr>tq_thread = loop_thread, tq_timerfd = None, tq_timers = [], tq_calling = False, tq_active = [],
            tq_canceling = [], tq_heap = [], tq_created = 0\<rparr>)"

definition tq_assertInLoopThread :: "nat \<Rightarrow> TimerQueue \<Rightarrow> 'a result \<Rightarrow> 'a result" where
  "tq_assertInLoopThread tid q k =
     (if tid = tq_thread q then k else Inl (LogFatal ''EventLoop::abortNotInLoopThread''))"

definition tq_deref :: "nat \<Rightarrow> TimerQueue \<Rightarrow> (Timer \<Rightarrow> 'a result) \<Rightarrow> 'a result" where
  "tq_deref a q k = (case map_find (tq_heap q) a of None \<Rightarrow> Inl DanglingPointer | Some t \<Rightarrow> k t)"

definition resetTimerfd :: "Timestamp \<Rightarrow> Timestamp \<Rightarrow> TimerQueue \<Rightarrow> TimerQueue" where
  "resetTimerfd now expiration q = q\<lparr>tq_timerfd := Some (howMuchTimeFromNow now expiration)\<rparr>"

definition sizes_agree :: "TimerQueue \<Rightarrow> bool" where
  "sizes_agree q = (length (tq_timers q) = length (tq_active q))"

definition TimerQueue_insert :: "nat \<Rightarrow> nat \<Rightarrow> TimerQueue \<Rightarrow> (bool \<times> TimerQueue) result" where
  "TimerQueue_insert tid timer q =
     tq_assertInLoopThread tid q
     (assertR ''timers_.size() == activeTimers_.size()'' (sizes_agree q)
     (tq_deref timer q (\<lambda>t.
       let when = tm_expiration t;
           earliestChanged = (tq_timers q = [] \<or> when < fst (hd (tq_timers q)));
           (fresh, timers') = set_insert (when, timer) (tq_timers q)
       in assertR ''result.second'' fresh
         (let q1 = q\<lparr>tq_timers := timers'\<rparr>;
              (fresh, active') = set_insert (timer, tm_sequence t) (tq_active q1)
          in assertR ''result.second'' fresh
            (let q2 = q1\<lparr>tq_active := active'\<rparr>
             in assertR ''timers_.size() == activeTimers_.size()'' (sizes_agree q2)
                  (Inr (earliestChanged, q2)))))))"

definition addTimerInLoop :: "Timestamp \<Rightarrow> nat \<Rightarrow> nat \<Rightarrow> TimerQueue \<Rightarrow> TimerQueue result" where
  "addTimerInLoop now tid timer q =
     tq_assertInLoopThread tid q
     (bindR (TimerQueue_insert tid timer q) (\<lambda>(earliestChanged, q1).
       tq_deref timer q1 (\<lambda>t.
         Inr (if earliestChanged then resetTimerfd now (tm_expiration t) q1 else q1))))"

text \<open>\<^verbatim>\<open>new Timer(cb, when, interval)\<close>; the caller of \<^verbatim>\<open>addTimer\<close> may be any thread.\<close>

definition Timer_new :: "(nat list \<Rightarrow> nat option) \<Rightarrow> nat \<Rightarrow> Timestamp \<Rightarrow> int \<Rightarrow> bool \<Rightarrow> TimerQueue
    \<Rightarrow> (nat \<times> TimerQueue) result" where
  "Timer_new alloc cb when us positive q =
     (case alloc (map fst (tq_heap q)) of
        None \<Rightarrow> Inl BadAlloc
      | Some a \<Rightarrow>
          (let (t, created) = Timer_ctor cb when us positive (tq_created q)
           in Inr (a, q\<lparr>tq_heap := map_put a t (tq_heap q), tq_created := created\<rparr>)))"

text \<open>\<^verbatim>\<open>addTimer\<close> called in the loop thread: \<^verbatim>\<open>runInLoop\<close> runs \<^verbatim>\<open>addTimerInLoop\<close> at once.\<close>

definition addTimer :: "(nat list \<Rightarrow> nat option) \<Rightarrow> Timestamp \<Rightarrow> nat \<Rightarrow> nat \<Rightarrow> Timestamp \<Rightarrow> int \<Rightarrow> bool
    \<Rightarrow> TimerQueue \<Rightarrow> (TimerId \<times> TimerQueue) result" where
  "addTimer alloc now tid cb when us positive q =
     bindR (Timer_new alloc cb when us positive q) (\<lambda>(timer, q1).
     bindR (addTimerInLoop now tid timer q1) (\<lambda>q2.
       tq_deref timer q2 (\<lambda>t. Inr ((timer, tm_sequence t), q2))))"

definition cancelInLoop :: "nat \<Rightarrow> TimerId \<Rightarrow> TimerQueue \<Rightarrow> TimerQueue result" where
  "cancelInLoop tid timerId q =
     tq_assertInLoopThread tid q
     (assertR ''timers_.size() == activeTimers_.size()'' (sizes_agree q)
     (bindR
       (if timerId \<in> set (tq_active q) then
          tq_deref (fst timerId) q (\<lambda>t.
            let (n, timers') = set_erase (tm_expiration t, fst timerId) (tq_timers q)
            in assertR ''n == 1'' (n = 1)
              (Inr (q\<lparr>tq_timers := timers',
                      tq_heap := snd (map_erase (fst timerId) (tq_heap q)),
                      tq_active := snd (set_erase timerId (tq_active q))\<rparr>)))
        else if tq_calling q then Inr (q\<lparr>tq_canceling := snd (set_insert timerId (tq_canceling q))\<rparr>)
        else Inr q)
       (\<lambda>q'. assertR ''timers_.size() == activeTimers_.size()'' (sizes_agree q') (Inr q'))))"

text \<open>\<^verbatim>\<open>cancel\<close> called in the loop thread: \<^verbatim>\<open>runInLoop\<close> runs \<^verbatim>\<open>cancelInLoop\<close> at once.\<close>

definition TimerQueue_cancel :: "nat \<Rightarrow> TimerId \<Rightarrow> TimerQueue \<Rightarrow> TimerQueue result" where
  "TimerQueue_cancel tid timerId q = cancelInLoop tid timerId q"

text \<open>
  The same calls from another thread. \<^verbatim>\<open>runInLoop\<close> then puts the functor into the pending functors of
  the loop and returns; the loop runs it in its next round. What is left of \<^verbatim>\<open>addTimer\<close> after that is
  the read of \<^verbatim>\<open>timer->sequence()\<close>, through a pointer to the timer this call created: \<open>tt_adding\<close>
  holds, for every thread between the two, that timer (its address and its sequence number).
\<close>

datatype timer_functor = AddTimerInLoop nat | CancelInLoop TimerId

record timer_threads =
  tt_queue :: TimerQueue
  tt_pending :: "timer_functor list"
  tt_adding :: "nat \<Rightarrow> TimerId option"

definition addTimer_queued :: "(nat list \<Rightarrow> nat option) \<Rightarrow> nat \<Rightarrow> nat \<Rightarrow> Timestamp \<Rightarrow> int \<Rightarrow> bool
    \<Rightarrow> timer_threads \<Rightarrow> timer_threads result" where
  "addTimer_queued alloc caller cb when us positive s =
     bindR (Timer_new alloc cb when us positive (tt_queue s)) (\<lambda>(timer, q).
       Inr (s\<lparr>tt_queue := q, tt_pending := tt_pending s @ [AddTimerInLoop timer],
              tt_adding := (tt_adding s)(caller \<mapsto> (timer, tq_created q))\<rparr>))"

text \<open>The read faults when the timer is deleted, even if another one has been allocated there.\<close>

definition addTimer_return :: "nat \<Rightarrow> timer_threads \<Rightarrow> (TimerId \<times> timer_threads) result" where
  "addTimer_return caller s =
     (case tt_adding s caller of
        None \<Rightarrow> Inl DanglingPointer
      | Some (timer, created) \<Rightarrow> tq_deref timer (tt_queue s) (\<lambda>t.
          if tm_sequence t = created then Inr ((timer, tm_sequence t), s\<lparr>tt_adding := (tt_adding s)(caller := None)\<rparr>)
          else Inl DanglingPointer))"

definition cancel_queued :: "TimerId \<Rightarrow> timer_threads \<Rightarrow> timer_threads" where
  "cancel_queued timerId s = s\<lparr>tt_pending := tt_pending s @ [CancelInLoop timerId]\<rparr>"

primrec run_timer_functor :: "Timestamp \<Rightarrow> nat \<Rightarrow> timer_functor \<Rightarrow> TimerQueue \<Rightarrow> TimerQueue result" where
  "run_timer_functor now tid (AddTimerInLoop timer) q = addTimerInLoop now tid timer q"
| "run_timer_functor now tid (CancelInLoop timerId) q = cancelInLoop tid timerId q"

text \<open>\<^verbatim>\<open>lower_bound(sentry)\<close> ends the range of entries below (\<open>now\<close>, \<^verbatim>\<open>UINTPTR_MAX\<close>).\<close>

definition getExpired :: "Timestamp \<Rightarrow> TimerQueue \<Rightarrow> ((Timestamp \<times> nat) list \<times> TimerQueue) result" where
  "getExpired now q =
     assertR ''timers_.size() == activeTimers_.size()'' (sizes_agree q)
     (let sentry = (now, UINTPTR_MAX);
          expired = takeWhile (\<lambda>e. e < sentry) (tq_timers q);
          rest = dropWhile (\<lambda>e. e < sentry) (tq_timers q)
      in assertR ''it == timers_.end() || now < it->first'' (rest = [] \<or> now < fst (hd rest))
        (bindR (foldR (\<lambda>entry q1. tq_deref (snd entry) q1 (\<lambda>t.
                   let (n, active') = set_erase (snd entry, tm_sequence t) (tq_active q1)
                   in assertR ''n == 1'' (n = 1) (Inr (q1\<lparr>tq_active := active'\<rparr>))))
                 expired (q\<lparr>tq_timers := rest\<rparr>))
          (\<lambda>q2. assertR ''timers_.size() == activeTimers_.size()'' (sizes_agree q2)
                  (Inr (expired, q2)))))"

definition TimerQueue_reset1 :: "nat \<Rightarrow> Timestamp \<Rightarrow> Timestamp \<times> nat \<Rightarrow> TimerQueue \<Rightarrow> TimerQueue result" where
  "TimerQueue_reset1 tid now entry q =
     tq_deref (snd entry) q (\<lambda>t.
       if tm_repeat t \<and> (snd entry, tm_sequence t) \<notin> set (tq_canceling q) then
         bindR (TimerQueue_insert tid (snd entry)
                  (q\<lparr>tq_heap := map_put (snd entry) (restart now t) (tq_heap q)\<rparr>)) (\<lambda>(_, q'). Inr q')
       else Inr (q\<lparr>tq_heap := snd (map_erase (snd entry) (tq_heap q))\<rparr>))"

definition TimerQueue_reset :: "Timestamp \<Rightarrow> nat \<Rightarrow> (Timestamp \<times> nat) list \<Rightarrow> Timestamp \<Rightarrow> TimerQueue
    \<Rightarrow> TimerQueue result" where
  "TimerQueue_reset clock tid expired now q =
     bindR (foldR (TimerQueue_reset1 tid now) expired q) (\<lambda>q1.
     bindR (if tq_timers q1 \<noteq> [] then tq_deref (snd (hd (tq_timers q1))) q1 (\<lambda>t. Inr (tm_expiration t))
            else Inr Timestamp_ctor) (\<lambda>nextExpire.
       Inr (if Timestamp_valid nextExpire then resetTimerfd clock nextExpire q1 else q1)))"

text \<open>What a user callback can do to the queue: the calls it makes, each with its clock reading.\<close>

datatype timer_action =
    AddTimer Timestamp nat Timestamp int bool
  | CancelTimer TimerId

primrec timer_act :: "(nat list \<Rightarrow> nat option) \<Rightarrow> nat \<Rightarrow> timer_action \<Rightarrow> TimerQueue \<Rightarrow> TimerQueue result" where
  "timer_act alloc tid (AddTimer now cb when us positive) q =
     bindR (addTimer alloc now tid cb when us positive q) (\<lambda>(_, q'). Inr q')"
| "timer_act alloc tid (CancelTimer timerId) q = TimerQueue_cancel tid timerId q"

definition Timer_run :: "(nat list \<Rightarrow> nat option) \<Rightarrow> (nat \<Rightarrow> TimerQueue \<Rightarrow> timer_action list) \<Rightarrow> nat
    \<Rightarrow> Timestamp \<times> nat \<Rightarrow> TimerQueue \<Rightarrow> TimerQueue result" where
  "Timer_run alloc cb tid entry q =
     tq_deref (snd entry) q (\<lambda>t. foldR (timer_act alloc tid) (cb (tm_callback t) q) q)"

definition TimerQueue_handleRead :: "(nat list \<Rightarrow> nat option) \<Rightarrow> (nat \<Rightarrow> TimerQueue \<Rightarrow> timer_action list)
    \<Rightarrow> nat \<Rightarrow> Timestamp \<Rightarrow> Timestamp \<Rightarrow> TimerQueue \<Rightarrow> TimerQueue result" where
  "TimerQueue_handleRead alloc cb tid now clock q =
     tq_assertInLoopThread tid q
     (bindR (getExpired now q) (\<lambda>(expired, q1).
      bindR (foldR (Timer_run alloc cb tid) expired (q1\<lparr>tq_calling := True, tq_canceling := []\<rparr>)) (\<lambda>q2.
        TimerQueue_reset clock tid expired now (q2\<lparr>tq_calling := False\<rparr>))))"

definition TimerQueue_dtor :: "TimerQueue \<Rightarrow> TimerQueue result" where
  "TimerQueue_dtor q = foldR (\<lambda>entry q. tq_deref (snd entry) q (\<lambda>_.
     Inr (q\<lparr>tq_heap := snd (map_erase (snd entry) (tq_heap q))\<rparr>))) (tq_timers q) q"

section \<open>The class invariant\<close>

text \<open>
  \<open>E\<close> is the set of detached timers: allocated, but not in the queue (taken out by \<^verbatim>\<open>getExpired\<close>
  and not yet reset, or created by another thread and not yet inserted). Both sets of the queue
  hold exactly the other timers.
\<close>

definition tq_dom :: "TimerQueue \<Rightarrow> nat set" where
  "tq_dom q = dom (map_find (tq_heap q))"

definition tq_at :: "TimerQueue \<Rightarrow> nat \<Rightarrow> Timer" where
  "tq_at q a = the (map_find (tq_heap q) a)"

definition tq_entry :: "TimerQueue \<Rightarrow> nat \<Rightarrow> Timestamp \<times> nat" where
  "tq_entry q a = (tm_expiration (tq_at q a), a)"

definition tq_key :: "TimerQueue \<Rightarrow> nat \<Rightarrow> nat \<times> int" where
  "tq_key q a = (a, tm_sequence (tq_at q a))"

definition TQ_inv :: "nat set \<Rightarrow> TimerQueue \<Rightarrow> bool" where
  "TQ_inv E q = (map_ok (tq_heap q) \<and> set_ok (tq_timers q) \<and> set_ok (tq_active q) \<and> set_ok (tq_canceling q)
     \<and> E \<subseteq> tq_dom q
     \<and> set (tq_timers q) = tq_entry q ` (tq_dom q - E)
     \<and> set (tq_active q) = tq_key q ` (tq_dom q - E)
     \<and> (\<forall>a \<in> tq_dom q. a < UINTPTR_MAX \<and> tm_sequence (tq_at q a) \<le> tq_created q)
     \<and> inj_on (\<lambda>a. tm_sequence (tq_at q a)) (tq_dom q))"

definition fresh_alloc :: "(nat list \<Rightarrow> nat option) \<Rightarrow> bool" where
  "fresh_alloc alloc = (\<forall>used a. alloc used = Some a \<longrightarrow> a \<notin> set used \<and> a < UINTPTR_MAX)"

lemma TQ_invD:
  assumes "TQ_inv E q"
  shows "map_ok (tq_heap q)" "set_ok (tq_timers q)" "set_ok (tq_active q)" "set_ok (tq_canceling q)"
    "E \<subseteq> tq_dom q" "set (tq_timers q) = tq_entry q ` (tq_dom q - E)"
    "set (tq_active q) = tq_key q ` (tq_dom q - E)"
    "\<And>a. a \<in> tq_dom q \<Longrightarrow> a < UINTPTR_MAX" "\<And>a. a \<in> tq_dom q \<Longrightarrow> tm_sequence (tq_at q a) \<le> tq_created q"
    "inj_on (\<lambda>a. tm_sequence (tq_at q a)) (tq_dom q)"
  using assms unfolding TQ_inv_def by blast+

lemma tq_key_eq: "tq_key q a = tq_key q' b \<longleftrightarrow> a = b \<and> tm_sequence (tq_at q a) = tm_sequence (tq_at q' b)"
  by (auto simp: tq_key_def)

lemma fst_tq_key [simp]: "fst (tq_key q a) = a"
  by (simp add: tq_key_def)

lemma sizes_agree_inv: "TQ_inv E q \<Longrightarrow> sizes_agree q"
proof -
  assume inv: "TQ_inv E q"
  have "card (tq_entry q ` (tq_dom q - E)) = card (tq_dom q - E)"
    by (rule card_image) (auto simp: inj_on_def tq_entry_def)
  moreover have "card (tq_key q ` (tq_dom q - E)) = card (tq_dom q - E)"
    by (rule card_image) (auto simp: inj_on_def tq_key_def)
  ultimately show ?thesis
    using TQ_invD(2,3,6,7) [OF inv] by (simp add: sizes_agree_def set_ok_length)
qed

lemma tq_deref_at: "a \<in> tq_dom q \<Longrightarrow> tq_deref a q k = k (tq_at q a)"
  by (auto simp: tq_deref_def tq_dom_def tq_at_def)

lemma tq_upd [simp]:
  "tq_dom (q\<lparr>tq_timers := x\<rparr>) = tq_dom q" "tq_at (q\<lparr>tq_timers := x\<rparr>) = tq_at q"
  "tq_dom (q\<lparr>tq_active := y\<rparr>) = tq_dom q" "tq_at (q\<lparr>tq_active := y\<rparr>) = tq_at q"
  "tq_dom (q\<lparr>tq_calling := c\<rparr>) = tq_dom q" "tq_at (q\<lparr>tq_calling := c\<rparr>) = tq_at q"
  "tq_dom (q\<lparr>tq_canceling := z\<rparr>) = tq_dom q" "tq_at (q\<lparr>tq_canceling := z\<rparr>) = tq_at q"
  "tq_dom (q\<lparr>tq_timerfd := f\<rparr>) = tq_dom q" "tq_at (q\<lparr>tq_timerfd := f\<rparr>) = tq_at q"
  "tq_dom (q\<lparr>tq_created := n\<rparr>) = tq_dom q" "tq_at (q\<lparr>tq_created := n\<rparr>) = tq_at q"
  by (simp_all add: tq_dom_def tq_at_def fun_eq_iff)

lemma tq_entry_upd [simp]:
  "tq_entry (q\<lparr>tq_timers := x\<rparr>) = tq_entry q" "tq_key (q\<lparr>tq_timers := x\<rparr>) = tq_key q"
  "tq_entry (q\<lparr>tq_active := y\<rparr>) = tq_entry q" "tq_key (q\<lparr>tq_active := y\<rparr>) = tq_key q"
  "tq_entry (q\<lparr>tq_calling := c\<rparr>) = tq_entry q" "tq_key (q\<lparr>tq_calling := c\<rparr>) = tq_key q"
  "tq_entry (q\<lparr>tq_canceling := z\<rparr>) = tq_entry q" "tq_key (q\<lparr>tq_canceling := z\<rparr>) = tq_key q"
  "tq_entry (q\<lparr>tq_timerfd := f\<rparr>) = tq_entry q" "tq_key (q\<lparr>tq_timerfd := f\<rparr>) = tq_key q"
  by (simp_all add: tq_entry_def tq_key_def fun_eq_iff)

text \<open>Changes outside the heap and the two sets keep the invariant.\<close>

lemma TQ_inv_irrelevant [simp]:
  "TQ_inv E (q\<lparr>tq_calling := c\<rparr>) = TQ_inv E q"
  "TQ_inv E (q\<lparr>tq_timerfd := f\<rparr>) = TQ_inv E q"
  by (simp_all add: TQ_inv_def)

lemma TQ_inv_canceling: "TQ_inv E q \<Longrightarrow> set_ok c \<Longrightarrow> TQ_inv E (q\<lparr>tq_canceling := c\<rparr>)"
  by (simp add: TQ_inv_def)

subsection \<open>Insertion\<close>

lemma insert_eq:
  assumes "TQ_inv E q" "a \<in> E" "tid = tq_thread q"
  defines "q' \<equiv> q\<lparr>tq_timers := insort (tq_entry q a) (tq_timers q), tq_active := insort (tq_key q a) (tq_active q)\<rparr>"
  shows "TimerQueue_insert tid a q
       = Inr (tq_timers q = [] \<or> tm_expiration (tq_at q a) < fst (hd (tq_timers q)), q')"
    and "TQ_inv (E - {a}) q'"
proof -
  have a: "a \<in> tq_dom q" using TQ_invD(5) [OF assms(1)] assms(2) by blast
  have n1: "tq_entry q a \<notin> set (tq_timers q)" and n2: "tq_key q a \<notin> set (tq_active q)"
    using TQ_invD(6,7) [OF assms(1)] assms(2) by (auto simp: tq_entry_def tq_key_def)
  have d: "tq_dom q - (E - {a}) = insert a (tq_dom q - E)" using a by blast
  show inv: "TQ_inv (E - {a}) q'"
    using assms(1) n1 n2 unfolding TQ_inv_def q'_def
    by (auto simp: d set_ok_def sorted_insort distinct_insort set_insort_key)
  have "sizes_agree q'" by (rule sizes_agree_inv [OF inv])
  then show "TimerQueue_insert tid a q
       = Inr (tq_timers q = [] \<or> tm_expiration (tq_at q a) < fst (hd (tq_timers q)), q')"
    using sizes_agree_inv [OF assms(1)] n1 n2 assms(3)
    by (simp add: TimerQueue_insert_def tq_assertInLoopThread_def tq_deref_at [OF a] set_insert_def
        Let_def tq_entry_def tq_key_def q'_def)
qed

subsection \<open>Allocation and deletion\<close>

lemma tq_heap_put:
  assumes "map_ok (tq_heap q)"
  shows "tq_dom (q\<lparr>tq_heap := map_put a t (tq_heap q)\<rparr>) = insert a (tq_dom q)"
    and "tq_at (q\<lparr>tq_heap := map_put a t (tq_heap q)\<rparr>) = (tq_at q)(a := t)"
  using assms by (auto simp: tq_dom_def tq_at_def map_laws fun_eq_iff)

lemma tq_heap_erase:
  assumes "map_ok (tq_heap q)"
  shows "tq_dom (q\<lparr>tq_heap := snd (map_erase a (tq_heap q))\<rparr>) = tq_dom q - {a}"
    and "b \<noteq> a \<Longrightarrow> tq_at (q\<lparr>tq_heap := snd (map_erase a (tq_heap q))\<rparr>) b = tq_at q b"
  using assms by (auto simp: tq_dom_def tq_at_def map_laws fun_eq_iff split: if_splits)

lemma tq_image_cong:
  assumes "\<And>a. a \<in> A \<Longrightarrow> tq_at q' a = tq_at q a"
  shows "tq_entry q' ` A = tq_entry q ` A" "tq_key q' ` A = tq_key q ` A"
  using assms by (auto simp: tq_entry_def tq_key_def intro!: image_cong)

text \<open>A change of the heap that leaves the queued timers alone.\<close>

lemma TQ_inv_heap:
  assumes "TQ_inv E q" "tq_timers q' = tq_timers q" "tq_active q' = tq_active q" "tq_canceling q' = tq_canceling q"
    and "map_ok (tq_heap q')" "E' \<subseteq> tq_dom q'" "tq_dom q' - E' = tq_dom q - E"
    and "\<And>a. a \<in> tq_dom q - E \<Longrightarrow> tq_at q' a = tq_at q a"
    and "\<And>a. a \<in> tq_dom q' \<Longrightarrow> a < UINTPTR_MAX \<and> tm_sequence (tq_at q' a) \<le> tq_created q'"
    and "inj_on (\<lambda>a. tm_sequence (tq_at q' a)) (tq_dom q')"
  shows "TQ_inv E' q'"
proof -
  have "tq_entry q' ` (tq_dom q - E) = tq_entry q ` (tq_dom q - E)"
    by (rule tq_image_cong) (rule assms(8))
  moreover have "tq_key q' ` (tq_dom q - E) = tq_key q ` (tq_dom q - E)"
    by (rule tq_image_cong) (rule assms(8))
  ultimately show ?thesis using assms(1-7,9,10) by (simp add: TQ_inv_def)
qed

text \<open>Storing a timer at a detached or unused address, deleting a detached timer.\<close>

lemma TQ_inv_put:
  assumes "TQ_inv E q" "a \<in> E \<or> a \<notin> tq_dom q" "a < UINTPTR_MAX" "tm_sequence t \<le> n" "tq_created q \<le> n"
    and "\<And>b. b \<in> tq_dom q \<Longrightarrow> b \<noteq> a \<Longrightarrow> tm_sequence (tq_at q b) \<noteq> tm_sequence t"
  shows "TQ_inv (insert a E) (q\<lparr>tq_heap := map_put a t (tq_heap q), tq_created := n\<rparr>)"
proof -
  define q' where "q' = q\<lparr>tq_heap := map_put a t (tq_heap q), tq_created := n\<rparr>"
  note D = TQ_invD [OF assms(1)]
  have at: "tq_dom q' = insert a (tq_dom q)" "tq_at q' = (tq_at q)(a := t)" "tq_created q' = n"
    using tq_heap_put [OF D(1)] by (simp_all add: q'_def)
  have "TQ_inv (insert a E) q'"
  proof (rule TQ_inv_heap [OF assms(1)])
    show "tq_dom q' - insert a E = tq_dom q - E" "insert a E \<subseteq> tq_dom q'"
      using assms(2) D(5) at(1) by blast+
    show "tq_at q' b = tq_at q b" if "b \<in> tq_dom q - E" for b using that assms(2) by (auto simp: at)
    show "b < UINTPTR_MAX \<and> tm_sequence (tq_at q' b) \<le> tq_created q'" if "b \<in> tq_dom q'" for b
      using that assms(3-5) D(8,9) [of b] by (auto simp: at)
    show "inj_on (\<lambda>b. tm_sequence (tq_at q' b)) (tq_dom q')"
      using D(10) assms(6) unfolding at inj_on_def by (auto; metis)
  qed (simp_all add: q'_def map_laws D(1))
  then show ?thesis by (simp add: q'_def)
qed

lemma TQ_inv_delete:
  assumes "TQ_inv E q" "a \<in> E"
  shows "TQ_inv (E - {a}) (q\<lparr>tq_heap := snd (map_erase a (tq_heap q))\<rparr>)"
proof -
  define q' where "q' = q\<lparr>tq_heap := snd (map_erase a (tq_heap q))\<rparr>"
  note D = TQ_invD [OF assms(1)]
  have dom: "tq_dom q' = tq_dom q - {a}" and at: "\<And>b. b \<noteq> a \<Longrightarrow> tq_at q' b = tq_at q b"
    using tq_heap_erase [OF D(1)] by (simp_all add: q'_def)
  have "TQ_inv (E - {a}) q'"
  proof (rule TQ_inv_heap [OF assms(1)])
    show "tq_dom q' - (E - {a}) = tq_dom q - E" "E - {a} \<subseteq> tq_dom q'" using assms(2) D(5) dom by blast+
    show "tq_at q' b = tq_at q b" if "b \<in> tq_dom q - E" for b using that assms(2) by (intro at) auto
    show "b < UINTPTR_MAX \<and> tm_sequence (tq_at q' b) \<le> tq_created q'" if "b \<in> tq_dom q'" for b
      using that D(8,9) [of b] at [of b] dom by (simp add: q'_def)
    show "inj_on (\<lambda>b. tm_sequence (tq_at q' b)) (tq_dom q')"
      using D(10) by (auto simp: dom at inj_on_def)
  qed (simp_all add: q'_def map_laws D(1))
  then show ?thesis by (simp add: q'_def)
qed

text \<open>Taking timers out of both sets.\<close>

lemma TQ_inv_detach:
  assumes "TQ_inv E q" "A \<subseteq> tq_dom q - E" "set_ok ts" "set ts = set (tq_timers q) - tq_entry q ` A"
    and "set_ok acs" "set acs = set (tq_active q) - tq_key q ` A"
  shows "TQ_inv (E \<union> A) (q\<lparr>tq_timers := ts, tq_active := acs\<rparr>)"
proof -
  note D = TQ_invD [OF assms(1)]
  have "tq_entry q ` (tq_dom q - E) - tq_entry q ` A = tq_entry q ` (tq_dom q - (E \<union> A))"
    using assms(2) by (auto simp: tq_entry_def)
  moreover have "tq_key q ` (tq_dom q - E) - tq_key q ` A = tq_key q ` (tq_dom q - (E \<union> A))"
    using assms(2) by (auto simp: tq_key_eq)
  ultimately show ?thesis using D assms(2-6) unfolding TQ_inv_def by auto
qed

subsection \<open>What a call from a callback leaves in place\<close>

definition tq_keys :: "TimerQueue \<Rightarrow> (nat \<times> int) set" where
  "tq_keys q = tq_key q ` tq_dom q"

definition tq_step :: "nat set \<Rightarrow> TimerQueue \<Rightarrow> TimerQueue \<Rightarrow> bool" where
  "tq_step E q q' = (TQ_inv E q' \<and> tq_thread q' = tq_thread q \<and> tq_calling q' = tq_calling q
     \<and> (\<forall>a \<in> E. tq_at q' a = tq_at q a) \<and> set (tq_canceling q) \<subseteq> set (tq_canceling q')
     \<and> tq_created q \<le> tq_created q' \<and> (\<forall>k \<in> tq_keys q'. k \<in> tq_keys q \<or> tq_created q < snd k))"

lemma tq_step_refl: "TQ_inv E q \<Longrightarrow> tq_step E q q"
  by (simp add: tq_step_def)

lemma tq_step_trans: "tq_step E q1 q2 \<Longrightarrow> tq_step E q2 q3 \<Longrightarrow> tq_step E q1 q3"
  unfolding tq_step_def by (fastforce intro: order_trans)

lemma addTimer_ok:
  assumes "fresh_alloc alloc" "TQ_inv E q" "tid = tq_thread q"
  shows "outcome (\<lambda>e. e = BadAlloc) (\<lambda>(i, q'). tq_step E q q' \<and> i \<in> set (tq_active q')
       \<and> snd i = tq_created q + 1 \<and> (when, fst i) \<in> set (tq_timers q')
       \<and> set (tq_timers q') = insert (when, fst i) (set (tq_timers q)))
     (addTimer alloc now tid cb when us positive q)"
proof (cases "alloc (map fst (tq_heap q))")
  case None
  then show ?thesis by (simp add: addTimer_def Timer_new_def)
next
  case (Some a)
  note D = TQ_invD [OF assms(2)]
  define t where "t = fst (Timer_ctor cb when us positive (tq_created q))"
  have t: "tm_expiration t = when" "tm_sequence t = tq_created q + 1"
    by (simp_all add: t_def Timer_ctor_def Let_def)
  define q1 where "q1 = q\<lparr>tq_heap := map_put a t (tq_heap q), tq_created := tq_created q + 1\<rparr>"
  have ax: "a \<notin> tq_dom q" "a < UINTPTR_MAX"
    using assms(1) Some unfolding fresh_alloc_def tq_dom_def dom_map_find by (metis set_map)+
  have new: "Timer_new alloc cb when us positive q = Inr (a, q1)"
    using Some by (simp add: Timer_new_def Timer_ctor_def Let_def t_def q1_def)
  have inv: "TQ_inv (insert a E) q1"
    unfolding q1_def by (rule TQ_inv_put [OF assms(2)]) (use ax D(9) t in fastforce)+
  have aE: "a \<notin> E" using ax(1) D(5) by blast
  have at: "tq_dom q1 = insert a (tq_dom q)" "tq_at q1 = (tq_at q)(a := t)"
    using tq_heap_put [OF D(1)] by (simp_all add: q1_def)
  have q1: "tq_timers q1 = tq_timers q" "tq_active q1 = tq_active q" "tq_thread q1 = tq_thread q"
    "tq_calling q1 = tq_calling q" "tq_canceling q1 = tq_canceling q" "tq_created q1 = tq_created q + 1"
    by (simp_all add: q1_def)
  define q' where "q' = q1\<lparr>tq_timers := insort (tq_entry q1 a) (tq_timers q1),
      tq_active := insort (tq_key q1 a) (tq_active q1)\<rparr>"
  have th: "tid = tq_thread q1" using assms(3) q1 by simp
  note ins = insert_eq [OF inv insertI1 th, folded q'_def]
  have inv': "TQ_inv E q'" using ins(2) aE by simp
  have at': "tq_at q' = (tq_at q)(a := t)" "tq_dom q' = insert a (tq_dom q)"
    using at by (simp_all add: q'_def)
  have key: "tq_key q' a = (a, tq_created q + 1)" "tq_key q1 a = (a, tq_created q + 1)" "tq_entry q1 a = (when, a)"
    by (simp_all add: tq_key_def tq_entry_def at at' t)
  have keys: "\<forall>k \<in> tq_keys q'. k \<in> tq_keys q \<or> tq_created q < snd k"
    using key(1) by (auto simp: tq_keys_def at' tq_key_def)
  have res: "\<exists>f. addTimer alloc now tid cb when us positive q = Inr (tq_key q' a, q'\<lparr>tq_timerfd := f\<rparr>)"
  proof -
    have a: "a \<in> tq_dom q'" using at'(2) by simp
    define f where "f = (if tq_timers q1 = [] \<or> when < fst (hd (tq_timers q1))
        then Some (howMuchTimeFromNow now (tm_expiration (tq_at q' a))) else tq_timerfd q')"
    have "addTimerInLoop now tid a q1 = Inr (q'\<lparr>tq_timerfd := f\<rparr>)"
      unfolding addTimerInLoop_def ins(1) using th
      by (simp add: tq_assertInLoopThread_def tq_deref_at [OF a] resetTimerfd_def f_def at t)
    then show ?thesis unfolding addTimer_def new using a
      by (intro exI [of _ f]) (simp add: tq_deref_at tq_key_def)
  qed
  have fields: "set (tq_timers q') = insert (when, a) (set (tq_timers q))"
    "tq_key q' a \<in> set (tq_active q')" "tq_thread q' = tq_thread q" "tq_calling q' = tq_calling q"
    "tq_canceling q' = tq_canceling q" "tq_created q' = tq_created q + 1"
    by (simp_all add: q'_def q1 key set_insort_key tq_key_def)
  have step: "tq_step E q (q'\<lparr>tq_timerfd := f\<rparr>)" for f
    using inv' keys aE fields by (auto simp: tq_step_def at' tq_keys_def)
  obtain f where f: "addTimer alloc now tid cb when us positive q = Inr (tq_key q' a, q'\<lparr>tq_timerfd := f\<rparr>)"
    using res by blast
  show ?thesis unfolding f using step fields by (simp add: key)
qed

subsection \<open>Cancellation\<close>

text \<open>What a cancellation leaves: the timer is gone, or it is being run and marked.\<close>

definition canceled :: "nat set \<Rightarrow> nat \<times> int \<Rightarrow> TimerQueue \<Rightarrow> bool" where
  "canceled E i q = (\<forall>a \<in> tq_dom q. tq_key q a = i \<longrightarrow> a \<in> E \<and> i \<in> set (tq_canceling q))"

lemma TQ_inv_cancel:
  assumes "TQ_inv E q" "a \<in> tq_dom q - E"
  defines "q' \<equiv> q\<lparr>tq_timers := removeAll (tq_entry q a) (tq_timers q),
      tq_heap := snd (map_erase a (tq_heap q)), tq_active := removeAll (tq_key q a) (tq_active q)\<rparr>"
  shows "TQ_inv E q'" and "tq_dom q' = tq_dom q - {a}" and "b \<noteq> a \<Longrightarrow> tq_at q' b = tq_at q b"
proof -
  note D = TQ_invD [OF assms(1)]
  let ?q1 = "q\<lparr>tq_timers := removeAll (tq_entry q a) (tq_timers q), tq_active := removeAll (tq_key q a) (tq_active q)\<rparr>"
  have 1: "TQ_inv (E \<union> {a}) ?q1"
    by (rule TQ_inv_detach [OF assms(1)])
      (use assms(2) D(2,3) set_erase_ok [of "tq_timers q"] set_erase_ok [of "tq_active q"] in \<open>auto simp: set_erase_def\<close>)
  have q': "q' = ?q1\<lparr>tq_heap := snd (map_erase a (tq_heap ?q1))\<rparr>" by (simp add: q'_def)
  have "E \<union> {a} - {a} = E" using assms(2) by blast
  then show "TQ_inv E q'" using TQ_inv_delete [OF 1, of a] by (simp add: q')
  show "tq_dom q' = tq_dom q - {a}" "b \<noteq> a \<Longrightarrow> tq_at q' b = tq_at q b"
    using tq_heap_erase(1) [of ?q1 a] tq_heap_erase(2) [of ?q1 b a] D(1) by (simp_all add: q')
qed

lemma cancelInLoop_ok:
  assumes "TQ_inv E q" "tid = tq_thread q"
  shows "total (\<lambda>q'. tq_step E q q' \<and> (E = {} \<or> tq_calling q \<longrightarrow> canceled E i q')
       \<and> set (tq_active q') = set (tq_active q) - {i} \<and> tq_dom q' = {a \<in> tq_dom q. a \<in> E \<or> tq_key q a \<noteq> i}
       \<and> tq_created q' = tq_created q) (cancelInLoop tid i q)"
proof (cases "i \<in> set (tq_active q)")
  case True
  note D = TQ_invD [OF assms(1)]
  then obtain a where a: "a \<in> tq_dom q - E" "i = tq_key q a" using True by auto
  define q' where "q' = q\<lparr>tq_timers := removeAll (tq_entry q a) (tq_timers q),
      tq_heap := snd (map_erase a (tq_heap q)), tq_active := removeAll (tq_key q a) (tq_active q)\<rparr>"
  note C = TQ_inv_cancel [OF assms(1) a(1), folded q'_def]
  have ent: "tq_entry q a \<in> set (tq_timers q)" using a D(6) by blast
  have "sizes_agree q'" by (rule sizes_agree_inv [OF C(1)])
  then have res: "cancelInLoop tid i q = Inr q'"
    using True assms(2) sizes_agree_inv [OF assms(1)] a ent
    by (simp add: cancelInLoop_def tq_assertInLoopThread_def tq_deref_at tq_entry_def set_erase_def q'_def)
  have keys: "tq_key q' b = tq_key q b" if "b \<noteq> a" for b using C(3) [OF that] by (simp add: tq_key_def)
  have "tq_keys q' \<subseteq> tq_keys q" using keys unfolding tq_keys_def C(2) by fastforce
  moreover have "\<forall>b \<in> E. tq_at q' b = tq_at q b" using C(3) a(1) by (metis Diff_iff)
  moreover have "tq_thread q' = tq_thread q" "tq_calling q' = tq_calling q" "tq_canceling q' = tq_canceling q"
    "tq_created q' = tq_created q" by (simp_all add: q'_def)
  ultimately have step: "tq_step E q q'" using C(1) unfolding tq_step_def by auto
  have "canceled E i q'" using C(2) a keys by (auto simp: canceled_def tq_key_eq)
  moreover have "tq_dom q' = {b \<in> tq_dom q. b \<in> E \<or> tq_key q b \<noteq> i}" using C(2) a by (auto simp: tq_key_eq)
  moreover have "set (tq_active q') = set (tq_active q) - {i}" "tq_created q' = tq_created q"
    using a(2) by (simp_all add: q'_def)
  ultimately show ?thesis unfolding res using step by auto
next
  case False
  note D = TQ_invD [OF assms(1)]
  have live: "tq_key q a \<noteq> i" if "a \<in> tq_dom q" "a \<notin> E" for a using that False D(7) by auto
  let ?q = "if tq_calling q then q\<lparr>tq_canceling := snd (set_insert i (tq_canceling q))\<rparr> else q"
  have inv: "TQ_inv E ?q" using assms(1) set_insert_ok [OF D(4), of i] by (simp add: TQ_inv_canceling)
  have res: "cancelInLoop tid i q = Inr ?q"
    using False assms(2) sizes_agree_inv [OF assms(1)] sizes_agree_inv [OF inv]
    by (cases "tq_calling q") (simp_all add: cancelInLoop_def tq_assertInLoopThread_def)
  have "i \<in> set (tq_canceling ?q)" "set (tq_canceling q) \<subseteq> set (tq_canceling ?q)" if "tq_calling q"
    using that set_insert_ok [OF D(4), of i] by auto
  then show ?thesis using live False inv
    by (auto simp: res tq_step_def tq_keys_def canceled_def)
qed

subsection \<open>Callbacks\<close>

lemma timer_act_ok:
  assumes "fresh_alloc alloc" "TQ_inv E q" "tid = tq_thread q"
  shows "outcome (\<lambda>e. e = BadAlloc) (tq_step E q) (timer_act alloc tid act q)"
proof (cases act)
  case (AddTimer now cb w us positive)
  have "outcome (\<lambda>e. e = BadAlloc) (\<lambda>(_, q'). tq_step E q q') (addTimer alloc now tid cb w us positive q)"
    using addTimer_ok [OF assms] by (rule outcome_mono) auto
  then show ?thesis unfolding AddTimer timer_act.simps
    by (rule outcome_bind_rule) auto
next
  case (CancelTimer i)
  show ?thesis unfolding CancelTimer timer_act.simps TimerQueue_cancel_def
    using cancelInLoop_ok [OF assms(2,3), of i] by (auto intro!: outcome_weaken_fault elim!: outcome_mono)
qed

lemma timer_acts_ok:
  assumes "fresh_alloc alloc" "TQ_inv E q" "tid = tq_thread q"
  shows "outcome (\<lambda>e. e = BadAlloc) (tq_step E q) (foldR (timer_act alloc tid) acts q)"
proof (rule outcome_foldR_inv)
  show "tq_step E q q" by (rule tq_step_refl [OF assms(2)])
next
  fix act q1
  assume s: "tq_step E q q1"
  then have "TQ_inv E q1" "tid = tq_thread q1" using assms(3) by (auto simp: tq_step_def)
  from timer_act_ok [OF assms(1) this] show "outcome (\<lambda>e. e = BadAlloc) (tq_step E q) (timer_act alloc tid act q1)"
    by (rule outcome_mono) (rule tq_step_trans [OF s])
qed

lemma Timer_run_ok:
  assumes "fresh_alloc alloc" "TQ_inv E q" "tid = tq_thread q" "snd entry \<in> E"
  shows "outcome (\<lambda>e. e = BadAlloc) (tq_step E q) (Timer_run alloc cb tid entry q)"
proof -
  have "snd entry \<in> tq_dom q" using assms(4) TQ_invD(5) [OF assms(2)] by blast
  then show ?thesis using timer_acts_ok [OF assms(1-3)] by (simp add: Timer_run_def tq_deref_at)
qed

lemma Timer_runs_ok:
  assumes "fresh_alloc alloc" "TQ_inv E q" "tid = tq_thread q" "snd ` set entries \<subseteq> E"
  shows "outcome (\<lambda>e. e = BadAlloc) (tq_step E q) (foldR (Timer_run alloc cb tid) entries q)"
proof (rule outcome_foldR_inv)
  show "tq_step E q q" by (rule tq_step_refl [OF assms(2)])
next
  fix entry q1
  assume s: "tq_step E q q1" and e: "entry \<in> set entries"
  then have "TQ_inv E q1" "tid = tq_thread q1" "snd entry \<in> E" using assms(3,4) by (auto simp: tq_step_def)
  from Timer_run_ok [OF assms(1) this] show "outcome (\<lambda>e. e = BadAlloc) (tq_step E q) (Timer_run alloc cb tid entry q1)"
    by (rule outcome_mono) (rule tq_step_trans [OF s])
qed

subsection \<open>Expiry\<close>

lemma takeWhile_sorted:
  assumes "sorted xs" "\<And>x y. x \<in> set xs \<Longrightarrow> y \<in> set xs \<Longrightarrow> x \<le> y \<Longrightarrow> P y \<Longrightarrow> P x"
  shows "takeWhile P xs = filter P xs \<and> dropWhile P xs = filter (\<lambda>x. \<not> P x) xs"
  using assms
proof (induction xs)
  case (Cons x xs)
  show ?case
  proof (cases "P x")
    case True
    have "takeWhile P xs = filter P xs \<and> dropWhile P xs = filter (\<lambda>x. \<not> P x) xs"
      by (rule Cons.IH) (use Cons.prems(1) in simp, meson Cons.prems(2) list.set_intros(2))
    then show ?thesis using True by simp
  next
    case False
    then have "\<forall>y \<in> set xs. \<not> P y" using Cons.prems by (metis list.set_intros sorted_simps(2))
    then show ?thesis using False by (auto simp: filter_empty_conv filter_id_conv)
  qed
qed simp

lemma expired_filter:
  assumes "TQ_inv E q"
  shows "takeWhile (\<lambda>e. e < (now, UINTPTR_MAX)) (tq_timers q) = filter (\<lambda>e. fst e \<le> now) (tq_timers q)"
    and "dropWhile (\<lambda>e. e < (now, UINTPTR_MAX)) (tq_timers q) = filter (\<lambda>e. now < fst e) (tq_timers q)"
proof -
  note D = TQ_invD [OF assms]
  let ?P = "\<lambda>e. e < (now, UINTPTR_MAX)"
  have P: "?P e \<longleftrightarrow> fst e \<le> now" if "e \<in> set (tq_timers q)" for e
    using that D(6,8) by (auto simp: tq_entry_def less_prod_def)
  have t: "takeWhile ?P (tq_timers q) = filter ?P (tq_timers q)
      \<and> dropWhile ?P (tq_timers q) = filter (\<lambda>e. \<not> ?P e) (tq_timers q)"
    using D(2) by (intro takeWhile_sorted) (simp add: set_ok_def, rule order.strict_trans1)
  have "filter ?P (tq_timers q) = filter (\<lambda>e. fst e \<le> now) (tq_timers q)"
    by (rule filter_cong) (use P in auto)
  then show "takeWhile ?P (tq_timers q) = filter (\<lambda>e. fst e \<le> now) (tq_timers q)" using t by simp
  have "filter (\<lambda>e. \<not> ?P e) (tq_timers q) = filter (\<lambda>e. now < fst e) (tq_timers q)"
    by (rule filter_cong) (use P in auto)
  then show "dropWhile ?P (tq_timers q) = filter (\<lambda>e. now < fst e) (tq_timers q)" using t by simp
qed

lemma getExpired_ok:
  assumes "TQ_inv F q"
  shows "total (\<lambda>(expired, q'). expired = filter (\<lambda>e. fst e \<le> now) (tq_timers q)
       \<and> (\<exists>acs. q' = q\<lparr>tq_timers := filter (\<lambda>e. now < fst e) (tq_timers q), tq_active := acs\<rparr>)
       \<and> TQ_inv (F \<union> snd ` set expired) q' \<and> F \<inter> snd ` set expired = {}) (getExpired now q)"
proof -
  note D = TQ_invD [OF assms]
  let ?ex = "filter (\<lambda>e. fst e \<le> now) (tq_timers q)" and ?rest = "filter (\<lambda>e. now < fst e) (tq_timers q)"
  let ?q = "q\<lparr>tq_timers := ?rest\<rparr>"
  let ?f = "\<lambda>entry q1. tq_deref (snd entry) q1 (\<lambda>t.
      let (n, active') = set_erase (snd entry, tm_sequence t) (tq_active q1)
      in assertR ''n == 1'' (n = 1) (Inr (q1\<lparr>tq_active := active'\<rparr>)))"
  let ?I = "\<lambda>ys s. \<exists>acs. s = ?q\<lparr>tq_active := acs\<rparr> \<and> set_ok acs
      \<and> set acs = set (tq_active q) - tq_key q ` snd ` set ys"
  have ents: "snd ` set ?ex \<subseteq> tq_dom q - F" "tq_entry q ` snd ` set ?ex = set ?ex"
    using D(6) by (auto simp: tq_entry_def image_iff)
  have fold: "total (?I ?ex) (foldR ?f ?ex ?q)"
  proof (rule outcome_foldR)
    show "?I [] ?q" using D(3) by (intro exI [of _ "tq_active q"]) simp
  next
    fix ys x s
    assume I: "?I ys s" and "\<exists>zs. ?ex = ys @ x # zs"
    then obtain zs where ex: "?ex = ys @ x # zs" by blast
    from I obtain acs where acs: "s = ?q\<lparr>tq_active := acs\<rparr>" "set_ok acs"
      "set acs = set (tq_active q) - tq_key q ` snd ` set ys" by blast
    have x: "x \<in> set ?ex" unfolding ex by simp
    then have xd: "snd x \<in> tq_dom s" using ents(1) acs(1) by auto
    have "distinct ?ex" using D(2) by (simp add: set_ok_def)
    then have nx: "x \<notin> set ys" unfolding ex by simp
    have "snd x \<notin> snd ` set ys"
    proof
      assume "snd x \<in> snd ` set ys"
      then obtain y where y: "y \<in> set ys" "snd y = snd x" by auto
      then have "y \<in> set ?ex" unfolding ex by simp
      then have "y = x" using x y(2) D(6) by (auto simp: tq_entry_def)
      with y nx show False by simp
    qed
    then have "tq_key q (snd x) \<notin> tq_key q ` snd ` set ys" by (metis imageE fst_tq_key)
    moreover have "tq_key q (snd x) \<in> set (tq_active q)" using ents(1) x D(7) by blast
    ultimately have "tq_key q (snd x) \<in> set acs" using acs(3) by blast
    then have "?f x s = Inr (?q\<lparr>tq_active := removeAll (tq_key q (snd x)) acs\<rparr>)"
      using acs(1) xd by (simp add: tq_deref_at set_erase_def tq_key_def)
    moreover have "set (removeAll (tq_key q (snd x)) acs) = set (tq_active q) - tq_key q ` snd ` set (ys @ [x])"
      using acs(3) by (simp, blast)
    moreover have "set_ok (removeAll (tq_key q (snd x)) acs)"
      using set_erase_ok [OF acs(2), of "tq_key q (snd x)"] by (simp add: set_erase_def)
    ultimately show "total (?I (ys @ [x])) (?f x s)" unfolding total_iff by blast
  qed
  have hd: "?rest = [] \<or> now < fst (hd ?rest)"
    by (cases ?rest) (auto dest: filter_eq_ConsD)
  from fold obtain q2 acs where q2: "foldR ?f ?ex ?q = Inr q2" "q2 = ?q\<lparr>tq_active := acs\<rparr>"
    "set_ok acs" "set acs = set (tq_active q) - tq_key q ` snd ` set ?ex"
    unfolding total_iff by blast
  have inv: "TQ_inv (F \<union> snd ` set ?ex) (q\<lparr>tq_timers := ?rest, tq_active := acs\<rparr>)"
    by (rule TQ_inv_detach [OF assms])
      (use ents q2(3,4) D(2) in \<open>auto simp: set_ok_def sorted_wrt_filter\<close>)
  have "sizes_agree q2" using sizes_agree_inv [OF inv] q2(2) by simp
  then have "getExpired now q = Inr (?ex, q2)"
    unfolding getExpired_def Let_def expired_filter [OF assms] using hd q2(1) sizes_agree_inv [OF assms]
    by (simp add: Let_def)
  then show ?thesis using inv q2(2) ents(1) by auto
qed

subsection \<open>Re-arming\<close>

definition tq_keep :: "TimerQueue \<Rightarrow> nat \<Rightarrow> bool" where
  "tq_keep q a = (tm_repeat (tq_at q a) \<and> tq_key q a \<notin> set (tq_canceling q))"

text \<open>The timers after \<^verbatim>\<open>reset\<close> has handled those of \<open>R\<close>: the kept ones restarted, the others deleted.\<close>

definition reset_state :: "Timestamp \<Rightarrow> nat set \<Rightarrow> TimerQueue \<Rightarrow> TimerQueue \<Rightarrow> bool" where
  "reset_state now R q q' = (tq_dom q' = tq_dom q - {a \<in> R. \<not> tq_keep q a}
     \<and> (\<forall>a \<in> tq_dom q'. tq_at q' a = (if a \<in> R then restart now (tq_at q a) else tq_at q a))
     \<and> tq_thread q' = tq_thread q \<and> tq_canceling q' = tq_canceling q \<and> tq_created q' = tq_created q
     \<and> tq_calling q' = tq_calling q)"

lemma tm_restart [simp]: "tm_sequence (restart now t) = tm_sequence t" "tm_repeat (restart now t) = tm_repeat t"
  by (simp_all add: restart_def)

lemma reset1_ok:
  assumes "TQ_inv E q'" "snd entry \<in> E" "tid = tq_thread q" "reset_state now R q q'" "snd entry \<notin> R"
  shows "total (\<lambda>q''. TQ_inv (E - {snd entry}) q'' \<and> reset_state now (insert (snd entry) R) q q'')
     (TimerQueue_reset1 tid now entry q')"
proof -
  let ?a = "snd entry"
  note D = TQ_invD [OF assms(1)] and R = assms(4) [unfolded reset_state_def]
  have a: "?a \<in> tq_dom q'" using D(5) assms(2) by blast
  then have same: "tq_at q' ?a = tq_at q ?a" "tq_key q' ?a = tq_key q ?a" using R assms(5) by (auto simp: tq_key_def)
  then have keep: "tq_keep q' ?a = tq_keep q ?a" using R by (simp add: tq_keep_def)
  show ?thesis
  proof (cases "tq_keep q ?a")
    case True
    define q1 where "q1 = q'\<lparr>tq_heap := map_put ?a (restart now (tq_at q' ?a)) (tq_heap q')\<rparr>"
    have "TQ_inv (insert ?a E) (q'\<lparr>tq_heap := map_put ?a (restart now (tq_at q' ?a)) (tq_heap q'),
        tq_created := tq_created q'\<rparr>)"
      by (rule TQ_inv_put [OF assms(1)]) (use assms(2) D(8,9,10) a in \<open>auto simp: inj_on_def\<close>)
    then have inv1: "TQ_inv E q1" using assms(2) by (simp add: q1_def insert_absorb)
    have th: "tid = tq_thread q1" using assms(3) R by (simp add: q1_def)
    have at1: "tq_dom q1 = tq_dom q'" "tq_at q1 = (tq_at q')(?a := restart now (tq_at q' ?a))"
      using tq_heap_put [OF D(1)] a by (auto simp: q1_def)
    define q2 where "q2 = q1\<lparr>tq_timers := insort (tq_entry q1 ?a) (tq_timers q1),
        tq_active := insort (tq_key q1 ?a) (tq_active q1)\<rparr>"
    note ins = insert_eq [OF inv1 assms(2) th, folded q2_def]
    have "TimerQueue_reset1 tid now entry q' = Inr q2"
      using keep True ins(1) unfolding tq_keep_def
      by (simp add: TimerQueue_reset1_def tq_deref_at [OF a] q1_def tq_key_def)
    moreover have "reset_state now (insert ?a R) q q2"
      using R True at1 same by (auto simp: reset_state_def q2_def) (auto simp: q1_def)
    ultimately show ?thesis using ins(2) by simp
  next
    case False
    define q2 where "q2 = q'\<lparr>tq_heap := snd (map_erase ?a (tq_heap q'))\<rparr>"
    have "TimerQueue_reset1 tid now entry q' = Inr q2"
      using keep False unfolding tq_keep_def
      by (auto simp: TimerQueue_reset1_def tq_deref_at [OF a] q2_def tq_key_def)
    moreover have "TQ_inv (E - {?a}) q2" unfolding q2_def by (rule TQ_inv_delete [OF assms(1,2)])
    moreover have "reset_state now (insert ?a R) q q2"
      using R False tq_heap_erase(1) [OF D(1), of ?a] tq_heap_erase(2) [OF D(1), of _ ?a] a by (auto simp: reset_state_def q2_def)
    ultimately show ?thesis by simp
  qed
qed

lemma reset_ok:
  assumes "TQ_inv (F \<union> snd ` set expired) q" "F \<inter> snd ` set expired = {}" "distinct (map snd expired)" "tid = tq_thread q"
  shows "total (\<lambda>q'. TQ_inv F q' \<and> reset_state now (snd ` set expired) q q'
       \<and> (tq_timers q' \<noteq> [] \<and> 0 < fst (hd (tq_timers q')) \<longrightarrow>
            tq_timerfd q' = Some (howMuchTimeFromNow clock (fst (hd (tq_timers q'))))))
     (TimerQueue_reset clock tid expired now q)"
proof -
  let ?A = "snd ` set expired"
  let ?I = "\<lambda>ys q'. TQ_inv (F \<union> ?A - snd ` set ys) q' \<and> reset_state now (snd ` set ys) q q'"
  have fold: "total (?I expired) (foldR (TimerQueue_reset1 tid now) expired q)"
  proof (rule outcome_foldR [where I = ?I])
    show "?I [] q" using assms(1) by (simp add: reset_state_def)
  next
    fix ys x q'
    assume I: "?I ys q'" and "\<exists>zs. expired = ys @ x # zs"
    then obtain zs where ex: "expired = ys @ x # zs" by blast
    have nx: "snd x \<notin> snd ` set ys" and xA: "snd x \<in> ?A" using assms(3) ex by auto
    have eq: "F \<union> ?A - snd ` set ys - {snd x} = F \<union> ?A - snd ` set (ys @ [x])"
      "insert (snd x) (snd ` set ys) = snd ` set (ys @ [x])" by auto
    have xE: "snd x \<in> F \<union> ?A - snd ` set ys" using nx xA by blast
    from I show "total (?I (ys @ [x])) (TimerQueue_reset1 tid now x q')"
      using reset1_ok [OF _ xE assms(4) _ nx, of q' now, unfolded eq] by blast
  qed
  obtain q1 where q1: "foldR (TimerQueue_reset1 tid now) expired q = Inr q1" "TQ_inv F q1"
    "reset_state now ?A q q1" using fold unfolding total_iff by (auto simp: Un_Diff Diff_triv assms(2))
  define q' where "q' = (if tq_timers q1 \<noteq> [] \<and> 0 < fst (hd (tq_timers q1))
      then resetTimerfd clock (fst (hd (tq_timers q1))) q1 else q1)"
  have head: "tq_deref (snd (hd (tq_timers q1))) q1 k = k (tq_at q1 (snd (hd (tq_timers q1))))
      \<and> tm_expiration (tq_at q1 (snd (hd (tq_timers q1)))) = fst (hd (tq_timers q1))"
    if "tq_timers q1 \<noteq> []" for k :: "Timer \<Rightarrow> Timestamp result"
  proof -
    have "hd (tq_timers q1) \<in> tq_entry q1 ` tq_dom q1" using that TQ_invD(6) [OF q1(2)] hd_in_set by blast
    then show ?thesis by (auto simp: tq_deref_at tq_entry_def)
  qed
  have "TimerQueue_reset clock tid expired now q = Inr q'"
    using q1(1) head by (auto simp: TimerQueue_reset_def q'_def Timestamp_valid_def Timestamp_ctor_def)
  then show ?thesis using q1(2,3) by (auto simp: q'_def resetTimerfd_def reset_state_def)
qed

subsection \<open>The handler\<close>

abbreviation tq_expired :: "Timestamp \<Rightarrow> TimerQueue \<Rightarrow> (Timestamp \<times> nat) list" where
  "tq_expired now q \<equiv> filter (\<lambda>e. fst e \<le> now) (tq_timers q)"

text \<open>The queue in which the callbacks start; \<open>F\<close> are timers of other threads, not yet inserted.\<close>

definition calling_state :: "nat set \<Rightarrow> nat \<Rightarrow> Timestamp \<Rightarrow> TimerQueue \<Rightarrow> TimerQueue \<Rightarrow> bool" where
  "calling_state F tid now q q1 = (TQ_inv (F \<union> snd ` set (tq_expired now q)) q1 \<and> F \<inter> snd ` set (tq_expired now q) = {}
     \<and> tq_dom q1 = tq_dom q \<and> tq_at q1 = tq_at q \<and> tq_created q1 = tq_created q
     \<and> tq_calling q1 \<and> tq_canceling q1 = [] \<and> tq_thread q1 = tid)"

lemma handleRead_start:
  assumes "TQ_inv F q" "tid = tq_thread q"
  obtains q1 where "calling_state F tid now q q1"
    and "\<And>alloc cb clock. TimerQueue_handleRead alloc cb tid now clock q =
       bindR (foldR (Timer_run alloc cb tid) (tq_expired now q) q1)
         (\<lambda>q2. TimerQueue_reset clock tid (tq_expired now q) now (q2\<lparr>tq_calling := False\<rparr>))"
proof -
  let ?ex = "tq_expired now q"
  obtain acs where ge: "getExpired now q
        = Inr (?ex, q\<lparr>tq_timers := filter (\<lambda>e. now < fst e) (tq_timers q), tq_active := acs\<rparr>)"
      "TQ_inv (F \<union> snd ` set ?ex) (q\<lparr>tq_timers := filter (\<lambda>e. now < fst e) (tq_timers q), tq_active := acs\<rparr>)"
      "F \<inter> snd ` set ?ex = {}"
    using getExpired_ok [OF assms(1), of now] unfolding total_iff by auto
  define q1 where "q1 = q\<lparr>tq_timers := filter (\<lambda>e. now < fst e) (tq_timers q), tq_active := acs,
      tq_calling := True, tq_canceling := []\<rparr>"
  have "TQ_inv (F \<union> snd ` set ?ex) q1"
    unfolding q1_def by (rule TQ_inv_canceling) (use ge(2) in simp_all)
  then have "calling_state F tid now q q1" using assms(2) ge(3) by (simp add: calling_state_def q1_def)
  moreover have "TimerQueue_handleRead alloc cb tid now clock q = bindR (foldR (Timer_run alloc cb tid) ?ex q1)
      (\<lambda>q2. TimerQueue_reset clock tid ?ex now (q2\<lparr>tq_calling := False\<rparr>))" for alloc cb clock
    using assms(2) ge(1) by (simp add: TimerQueue_handleRead_def tq_assertInLoopThread_def q1_def)
  ultimately show thesis by (rule that)
qed

definition handled :: "nat set \<Rightarrow> Timestamp \<Rightarrow> Timestamp \<Rightarrow> TimerQueue \<Rightarrow> TimerQueue \<Rightarrow> TimerQueue \<Rightarrow> bool" where
  "handled F now clock q q2 q' = (TQ_inv F q' \<and> reset_state now (snd ` set (tq_expired now q)) (q2\<lparr>tq_calling := False\<rparr>) q'
     \<and> (tq_timers q' \<noteq> [] \<and> 0 < fst (hd (tq_timers q')) \<longrightarrow>
          tq_timerfd q' = Some (howMuchTimeFromNow clock (fst (hd (tq_timers q'))))))"

lemma handleRead_finish:
  assumes "TQ_inv F q" "calling_state F tid now q q1" "tq_step (F \<union> snd ` set (tq_expired now q)) q1 q2"
  shows "total (handled F now clock q q2)
     (TimerQueue_reset clock tid (tq_expired now q) now (q2\<lparr>tq_calling := False\<rparr>))"
proof -
  have "distinct (tq_timers q)" "inj_on snd (set (tq_expired now q))"
    using TQ_invD(2,6) [OF assms(1)] by (auto simp: set_ok_def inj_on_def tq_entry_def)
  then have dist: "distinct (map snd (tq_expired now q))" by (simp add: distinct_map)
  have "TQ_inv (F \<union> snd ` set (tq_expired now q)) (q2\<lparr>tq_calling := False\<rparr>)" "F \<inter> snd ` set (tq_expired now q) = {}" "tid = tq_thread (q2\<lparr>tq_calling := False\<rparr>)"
    using assms(2,3) by (simp_all add: tq_step_def calling_state_def)
  from reset_ok [OF this(1,2) dist this(3)] show ?thesis
    by (rule outcome_mono) (simp add: handled_def)
qed

lemma handleRead_split:
  assumes "fresh_alloc alloc" "TQ_inv F q" "tid = tq_thread q"
  shows "outcome (\<lambda>e. e = BadAlloc) (\<lambda>q'. \<exists>q1 q2. calling_state F tid now q q1
       \<and> foldR (Timer_run alloc cb tid) (tq_expired now q) q1 = Inr q2
       \<and> tq_step (F \<union> snd ` set (tq_expired now q)) q1 q2 \<and> handled F now clock q q2 q')
     (TimerQueue_handleRead alloc cb tid now clock q)"
proof -
  obtain q1 where q1: "calling_state F tid now q q1"
    and hr: "TimerQueue_handleRead alloc cb tid now clock q = bindR (foldR (Timer_run alloc cb tid) (tq_expired now q) q1)
         (\<lambda>q2. TimerQueue_reset clock tid (tq_expired now q) now (q2\<lparr>tq_calling := False\<rparr>))"
    using handleRead_start [OF assms(2,3), of now] by metis
  have run: "outcome (\<lambda>e. e = BadAlloc) (tq_step (F \<union> snd ` set (tq_expired now q)) q1)
      (foldR (Timer_run alloc cb tid) (tq_expired now q) q1)"
    using q1 by (intro Timer_runs_ok [OF assms(1)]) (auto simp: calling_state_def)
  show ?thesis
  proof (cases "foldR (Timer_run alloc cb tid) (tq_expired now q) q1")
    case (Inl e)
    then show ?thesis using run by (simp add: hr)
  next
    case (Inr q2)
    then have s: "tq_step (F \<union> snd ` set (tq_expired now q)) q1 q2" using run by simp
    then show ?thesis unfolding hr Inr bindR_simps
      using handleRead_finish [OF assms(2) q1 s, of clock] q1 Inr
      by (auto intro!: outcome_weaken_fault elim!: outcome_mono)
  qed
qed

subsection \<open>The destructor\<close>

text \<open>The destructor deletes every timer once: nothing is leaked.\<close>

lemma TimerQueue_dtor_frees:
  assumes "TQ_inv {} q"
  shows "total (\<lambda>q'. tq_dom q' = {}) (TimerQueue_dtor q)"
proof -
  note D = TQ_invD [OF assms]
  let ?I = "\<lambda>ys q'. map_ok (tq_heap q') \<and> tq_dom q' = tq_dom q - snd ` set ys"
  have all: "snd ` set (tq_timers q) = tq_dom q" using D(6) by (auto simp: tq_entry_def image_iff)
  have "total (?I (tq_timers q)) (TimerQueue_dtor q)"
    unfolding TimerQueue_dtor_def
  proof (rule outcome_foldR [where I = ?I])
    show "?I [] q" using D(1) by simp
  next
    fix ys x q'
    assume I: "?I ys q'" and "\<exists>zs. tq_timers q = ys @ x # zs"
    then obtain zs where ts: "tq_timers q = ys @ x # zs" by blast
    have inj: "inj_on snd (set (tq_timers q))" using D(6) by (auto simp: inj_on_def tq_entry_def)
    have "x \<notin> set ys" using D(2) ts by (auto simp: set_ok_def)
    then have "snd x \<notin> snd ` set ys" using inj by (auto simp: ts inj_on_def image_iff)
    moreover have "snd x \<in> tq_dom q" using all ts by (metis image_eqI in_set_conv_decomp)
    ultimately have "snd x \<in> tq_dom q'" using I by blast
    then show "total (?I (ys @ [x])) (tq_deref (snd x) q' (\<lambda>_.
        Inr (q'\<lparr>tq_heap := snd (map_erase (snd x) (tq_heap q'))\<rparr>)))"
      using I tq_heap_erase(1) [of q' "snd x"] by (auto simp: tq_deref_at map_laws)
  qed
  then show ?thesis using all by (auto elim!: outcome_mono)
qed

subsection \<open>Schedules\<close>

datatype timer_call = Act timer_action | Tick Timestamp Timestamp

primrec tq_exec :: "(nat list \<Rightarrow> nat option) \<Rightarrow> (nat \<Rightarrow> TimerQueue \<Rightarrow> timer_action list) \<Rightarrow> nat
    \<Rightarrow> timer_call \<Rightarrow> TimerQueue \<Rightarrow> TimerQueue result" where
  "tq_exec alloc cb tid (Act act) q = timer_act alloc tid act q"
| "tq_exec alloc cb tid (Tick now clock) q = TimerQueue_handleRead alloc cb tid now clock q"

definition dead :: "nat \<times> int \<Rightarrow> TimerQueue \<Rightarrow> bool" where
  "dead i q = (i \<notin> tq_keys q \<and> snd i \<le> tq_created q)"

lemma dead_step: "tq_step E q q' \<Longrightarrow> dead i q \<Longrightarrow> dead i q'"
  by (force simp: tq_step_def dead_def)

lemma keys_reset_state: "reset_state now R q q' \<Longrightarrow> tq_keys q' \<subseteq> tq_keys q"
  by (auto simp: reset_state_def tq_keys_def tq_key_def)

lemma active_keys: "TQ_inv E q \<Longrightarrow> set (tq_active q) \<subseteq> tq_keys q"
  using TQ_invD(7) by (fastforce simp: tq_keys_def)

lemma handleRead_ok:
  assumes "fresh_alloc alloc" "TQ_inv F q" "tid = tq_thread q"
  shows "outcome (\<lambda>e. e = BadAlloc)
     (\<lambda>q'. TQ_inv F q' \<and> tq_thread q' = tq_thread q \<and> (\<forall>i. dead i q \<longrightarrow> dead i q'))
     (TimerQueue_handleRead alloc cb tid now clock q)"
  using handleRead_split [OF assms, of now cb clock]
proof (rule outcome_mono, elim exE conjE)
  fix q' q1 q2
  assume c: "calling_state F tid now q q1" and st: "tq_step (F \<union> snd ` set (tq_expired now q)) q1 q2"
    and hd: "handled F now clock q q2 q'"
  note h = c [unfolded calling_state_def] and r = hd [unfolded handled_def]
  have k: "tq_keys q1 = tq_keys q" "tq_keys (q2\<lparr>tq_calling := False\<rparr>) = tq_keys q2"
    using h by (simp_all add: tq_keys_def tq_key_def)
  have "dead i q'" if "dead i q" for i
  proof -
    have "dead i q1" using that k h by (simp add: dead_def)
    then have "dead i q2" by (rule dead_step [OF st])
    moreover have "tq_keys q' \<subseteq> tq_keys q2" using keys_reset_state r k(2) by metis
    moreover have "tq_created q' = tq_created q2" using r by (simp add: reset_state_def)
    ultimately show ?thesis by (auto simp: dead_def)
  qed
  moreover have "tq_thread q' = tq_thread q" using h st r assms(3) by (simp add: tq_step_def reset_state_def)
  ultimately show "TQ_inv F q' \<and> tq_thread q' = tq_thread q \<and> (\<forall>i. dead i q \<longrightarrow> dead i q')"
    using r by blast
qed

lemma tq_exec_ok:
  assumes "fresh_alloc alloc" "TQ_inv F q" "tid = tq_thread q"
  shows "outcome (\<lambda>e. e = BadAlloc)
     (\<lambda>q'. TQ_inv F q' \<and> tq_thread q' = tq_thread q \<and> (\<forall>i. dead i q \<longrightarrow> dead i q'))
     (tq_exec alloc cb tid call q)"
proof (cases call)
  case (Act act)
  show ?thesis unfolding Act tq_exec.simps
    using timer_act_ok [OF assms]
  proof (rule outcome_mono)
    show "TQ_inv F q' \<and> tq_thread q' = tq_thread q \<and> (\<forall>i. dead i q \<longrightarrow> dead i q')"
      if "tq_step F q q'" for q'
      using that dead_step [OF that] by (simp add: tq_step_def)
  qed
next
  case (Tick now clock)
  then show ?thesis using handleRead_ok [OF assms] by simp
qed

lemma tq_execs_ok:
  assumes "fresh_alloc alloc" "TQ_inv F q" "tid = tq_thread q"
  shows "outcome (\<lambda>e. e = BadAlloc)
     (\<lambda>q'. TQ_inv F q' \<and> tq_thread q' = tq_thread q \<and> (\<forall>i. dead i q \<longrightarrow> dead i q'))
     (foldR (tq_exec alloc cb tid) calls q)"
proof (rule outcome_foldR_inv)
  fix call q1
  assume I: "TQ_inv F q1 \<and> tq_thread q1 = tq_thread q \<and> (\<forall>i. dead i q \<longrightarrow> dead i q1)"
  then have "TQ_inv F q1" "tid = tq_thread q1" using assms(3) by simp_all
  from tq_exec_ok [OF assms(1) this] show "outcome (\<lambda>e. e = BadAlloc)
     (\<lambda>q'. TQ_inv F q' \<and> tq_thread q' = tq_thread q \<and> (\<forall>i. dead i q \<longrightarrow> dead i q')) (tq_exec alloc cb tid call q1)"
    by (rule outcome_mono) (use I in auto)
qed (use assms in simp)

subsection \<open>Calls from other threads\<close>

text \<open>
  A schedule of the loop and the other threads. A thread is in at most one call of \<^verbatim>\<open>addTimer\<close>, so a
  second start before its return is not a step (the state stays), nor is a return without a start. A
  start touches the heap and the pending functors only; the steps of the loop are taken whole.
\<close>

datatype thread_call =
    InLoop timer_call
  | StartAdd nat nat Timestamp int bool
  | ReturnAdd nat
  | QueueCancel TimerId
  | RunPending Timestamp

primrec tt_exec :: "(nat list \<Rightarrow> nat option) \<Rightarrow> (nat \<Rightarrow> TimerQueue \<Rightarrow> timer_action list) \<Rightarrow> nat
    \<Rightarrow> thread_call \<Rightarrow> timer_threads \<Rightarrow> timer_threads result" where
  "tt_exec alloc cb tid (InLoop call) s =
     bindR (tq_exec alloc cb tid call (tt_queue s)) (\<lambda>q. Inr (s\<lparr>tt_queue := q\<rparr>))"
| "tt_exec alloc cb tid (StartAdd caller c when us positive) s =
     (if caller = tid \<or> tt_adding s caller \<noteq> None then Inr s
      else addTimer_queued alloc caller c when us positive s)"
| "tt_exec alloc cb tid (ReturnAdd caller) s =
     (if tt_adding s caller = None then Inr s else bindR (addTimer_return caller s) (\<lambda>(_, s'). Inr s'))"
| "tt_exec alloc cb tid (QueueCancel timerId) s = Inr (cancel_queued timerId s)"
| "tt_exec alloc cb tid (RunPending now) s =
     (case tt_pending s of
        [] \<Rightarrow> Inr s
      | f # fs \<Rightarrow> bindR (run_timer_functor now tid f (tt_queue s)) (\<lambda>q. Inr (s\<lparr>tt_queue := q, tt_pending := fs\<rparr>)))"

definition tt_start :: "TimerQueue \<Rightarrow> timer_threads" where
  "tt_start q = \<lparr>tt_queue = q, tt_pending = [], tt_adding = (\<lambda>_. None)\<rparr>"

text \<open>The timers whose insertion is pending are the detached ones, each pending once.\<close>

definition awaited :: "timer_functor list \<Rightarrow> nat list" where
  "awaited fs = concat (map (\<lambda>f. case f of AddTimerInLoop a \<Rightarrow> [a] | CancelInLoop _ \<Rightarrow> []) fs)"

lemma awaited_simps [simp]:
  "awaited [] = []" "awaited (AddTimerInLoop a # fs) = a # awaited fs" "awaited (CancelInLoop i # fs) = awaited fs"
  "awaited (fs @ gs) = awaited fs @ awaited gs"
  by (simp_all add: awaited_def)

definition tt_inv :: "nat \<Rightarrow> timer_threads \<Rightarrow> bool" where
  "tt_inv tid s = (TQ_inv (set (awaited (tt_pending s))) (tt_queue s) \<and> distinct (awaited (tt_pending s))
     \<and> tq_thread (tt_queue s) = tid)"

lemma addTimerInLoop_ok:
  assumes "TQ_inv E q" "a \<in> E" "tid = tq_thread q"
  shows "total (\<lambda>q'. TQ_inv (E - {a}) q' \<and> tq_thread q' = tq_thread q) (addTimerInLoop now tid a q)"
proof -
  have "a \<in> tq_dom q" using TQ_invD(5) [OF assms(1)] assms(2) by blast
  then show ?thesis using insert_eq [OF assms]
    by (simp add: addTimerInLoop_def tq_assertInLoopThread_def tq_deref_at resetTimerfd_def assms(3))
qed

lemma tt_queued_ok:
  assumes "fresh_alloc alloc" "tt_inv tid s"
  shows "outcome (\<lambda>e. e = BadAlloc) (tt_inv tid) (addTimer_queued alloc caller cb when us positive s)"
proof (cases "alloc (map fst (tq_heap (tt_queue s)))")
  case None
  then show ?thesis by (simp add: addTimer_queued_def Timer_new_def)
next
  case (Some a)
  let ?q = "tt_queue s" and ?E = "set (awaited (tt_pending s))"
  define t where "t = fst (Timer_ctor cb when us positive (tq_created ?q))"
  define q1 where "q1 = ?q\<lparr>tq_heap := map_put a t (tq_heap ?q), tq_created := tq_created ?q + 1\<rparr>"
  have inv: "TQ_inv ?E ?q" "distinct (awaited (tt_pending s))" "tq_thread ?q = tid" using assms(2) by (auto simp: tt_inv_def)
  note D = TQ_invD [OF inv(1)]
  have t: "tm_sequence t = tq_created ?q + 1" by (simp add: t_def Timer_ctor_def Let_def)
  have ax: "a \<notin> tq_dom ?q" "a < UINTPTR_MAX"
    using assms(1) Some unfolding fresh_alloc_def tq_dom_def dom_map_find by (metis set_map)+
  have "TQ_inv (insert a ?E) q1"
    unfolding q1_def by (rule TQ_inv_put [OF inv(1)]) (use ax D(9) t in fastforce)+
  moreover have "a \<notin> ?E" using ax(1) D(5) by blast
  moreover have "tq_thread q1 = tid" using inv(3) by (simp add: q1_def)
  moreover have "Timer_new alloc cb when us positive ?q = Inr (a, q1)"
    using Some by (simp add: Timer_new_def Timer_ctor_def Let_def t_def q1_def)
  ultimately show ?thesis using inv by (simp add: addTimer_queued_def tt_inv_def insert_commute)
qed

text \<open>One step keeps the invariant; only the return of \<^verbatim>\<open>addTimer\<close> may use a deleted timer.\<close>

definition deleted_while_adding :: "nat \<Rightarrow> timer_threads \<Rightarrow> bool" where
  "deleted_while_adding caller s = (\<exists>i. tt_adding s caller = Some i \<and> i \<notin> tq_keys (tt_queue s))"

lemma addTimer_return_cases:
  assumes "tt_adding s caller = Some i"
  shows "addTimer_return caller s = (if deleted_while_adding caller s then Inl DanglingPointer
     else Inr (i, s\<lparr>tt_adding := (tt_adding s)(caller := None)\<rparr>))"
proof -
  obtain a n where i: "i = (a, n)" by (cases i)
  show ?thesis
  proof (cases "a \<in> tq_dom (tt_queue s)")
    case True
    then have "(a, n) \<in> tq_keys (tt_queue s) \<longleftrightarrow> tm_sequence (tq_at (tt_queue s) a) = n"
      by (auto simp: tq_keys_def tq_key_def)
    then show ?thesis using assms True
      by (auto simp: addTimer_return_def i tq_deref_at deleted_while_adding_def)
  next
    case False
    then have "(a, n) \<notin> tq_keys (tt_queue s)" by (auto simp: tq_keys_def tq_key_def)
    then show ?thesis using assms False
      by (auto simp: addTimer_return_def i tq_deref_def tq_dom_def deleted_while_adding_def domIff)
  qed
qed

lemma tt_exec_ok:
  assumes "fresh_alloc alloc" "tt_inv tid s"
  shows "outcome (\<lambda>e. e = BadAlloc \<or> e = DanglingPointer \<and> (\<exists>caller. call = ReturnAdd caller \<and> deleted_while_adding caller s))
     (tt_inv tid) (tt_exec alloc cb tid call s)"
proof (cases call)
  case (InLoop c)
  have "TQ_inv (set (awaited (tt_pending s))) (tt_queue s)" "tid = tq_thread (tt_queue s)"
    using assms(2) by (auto simp: tt_inv_def)
  from tq_exec_ok [OF assms(1) this, of cb c] show ?thesis using assms(2) unfolding InLoop tt_exec.simps
    by (cases "tq_exec alloc cb tid c (tt_queue s)") (auto simp: tt_inv_def)
next
  case (StartAdd caller c w us positive)
  from tt_queued_ok [OF assms, of caller c w us positive] show ?thesis using assms(2) unfolding StartAdd
    by (cases "addTimer_queued alloc caller c w us positive s") auto
next
  case (ReturnAdd caller)
  then show ?thesis using assms(2) addTimer_return_cases [of s caller]
    by (cases "tt_adding s caller") (auto simp: tt_inv_def)
next
  case (QueueCancel i)
  then show ?thesis using assms(2) by (simp add: cancel_queued_def tt_inv_def)
next
  case (RunPending now)
  show ?thesis
  proof (cases "tt_pending s")
    case Nil
    then show ?thesis using assms(2) RunPending by simp
  next
    case (Cons f fs)
    have inv: "TQ_inv (set (awaited (tt_pending s))) (tt_queue s)" "tid = tq_thread (tt_queue s)"
      and d: "distinct (awaited (tt_pending s))" using assms(2) by (auto simp: tt_inv_def)
    have "total (\<lambda>q. TQ_inv (set (awaited fs)) q \<and> tq_thread q = tid) (run_timer_functor now tid f (tt_queue s))"
    proof (cases f)
      case (AddTimerInLoop a)
      then have "set (awaited (tt_pending s)) - {a} = set (awaited fs)" "a \<in> set (awaited (tt_pending s))"
        using d Cons by auto
      then show ?thesis using addTimerInLoop_ok [OF inv(1) _ inv(2), of a now] inv(2) AddTimerInLoop
        by (auto elim!: outcome_mono)
    next
      case (CancelInLoop i)
      then show ?thesis using cancelInLoop_ok [OF inv, of i] inv(2) Cons
        by (auto simp: tq_step_def elim!: outcome_mono)
    qed
    then show ?thesis using Cons d RunPending
      by (cases "run_timer_functor now tid f (tt_queue s)"; cases f) (auto simp: tt_inv_def)
  qed
qed

lemma tt_execs_ok:
  assumes "fresh_alloc alloc" "tt_inv tid s"
  shows "outcome (\<lambda>e. e = BadAlloc \<or> e = DanglingPointer \<and> (\<exists>before caller rest s'. calls = before @ ReturnAdd caller # rest
       \<and> foldR (tt_exec alloc cb tid) before s = Inr s' \<and> deleted_while_adding caller s'))
     (tt_inv tid) (foldR (tt_exec alloc cb tid) calls s)"
  using assms(2)
proof (induction calls arbitrary: s)
  case (Cons c cs)
  note one = tt_exec_ok [OF assms(1) Cons.prems, of c cb]
  show ?case
  proof (cases "tt_exec alloc cb tid c s")
    case (Inl e)
    then show ?thesis using one by (auto intro!: exI [of _ "[]"])
  next
    case (Inr s1)
    then have "tt_inv tid s1" using one by simp
    from Cons.IH [OF this] have IH: "outcome (\<lambda>e. e = BadAlloc \<or> e = DanglingPointer \<and> (\<exists>before caller rest s'. cs = before @ ReturnAdd caller # rest
       \<and> foldR (tt_exec alloc cb tid) before s1 = Inr s' \<and> deleted_while_adding caller s'))
     (tt_inv tid) (foldR (tt_exec alloc cb tid) cs s1)" .
    have run: "foldR (tt_exec alloc cb tid) (c # before) s = foldR (tt_exec alloc cb tid) before s1" for before
      using Inr by simp
    have "\<exists>before caller rest s'. c # cs = before @ ReturnAdd caller # rest
       \<and> foldR (tt_exec alloc cb tid) before s = Inr s' \<and> deleted_while_adding caller s'"
      if "\<exists>before caller rest s'. cs = before @ ReturnAdd caller # rest
       \<and> foldR (tt_exec alloc cb tid) before s1 = Inr s' \<and> deleted_while_adding caller s'"
    proof -
      from that obtain before caller rest s' where "cs = before @ ReturnAdd caller # rest"
        "foldR (tt_exec alloc cb tid) before s1 = Inr s'" "deleted_while_adding caller s'" by blast
      then show ?thesis
        by (intro exI [of _ "c # before"] exI [of _ caller] exI [of _ rest] exI [of _ s']) (simp add: Inr)
    qed
    then show ?thesis using IH by (cases "foldR (tt_exec alloc cb tid) cs s1") (auto simp: Inr)
  qed
qed simp

subsection \<open>Cancellation from a callback\<close>

lemma canceled_step:
  assumes "tq_step E q q'" "canceled E i q" "snd i \<le> tq_created q"
  shows "canceled E i q'"
  unfolding canceled_def
proof (intro ballI impI)
  fix a
  assume a: "a \<in> tq_dom q'" "tq_key q' a = i"
  then have "i \<in> tq_keys q'" by (auto simp: tq_keys_def)
  then have "i \<in> tq_keys q" using assms(1,3) by (force simp: tq_step_def)
  then obtain b where b: "b \<in> tq_dom q" "tq_key q b = i" by (auto simp: tq_keys_def)
  then have "b = a" using a(2) by (metis fst_tq_key)
  then show "a \<in> E \<and> i \<in> set (tq_canceling q')" using assms(1,2) b by (auto simp: canceled_def tq_step_def)
qed

lemma acts_cancel:
  assumes "fresh_alloc alloc" "TQ_inv E q" "tid = tq_thread q" "tq_calling q" "snd i \<le> tq_created q"
    and "CancelTimer i \<in> set acts"
  shows "outcome (\<lambda>e. e = BadAlloc) (canceled E i) (foldR (timer_act alloc tid) acts q)"
proof -
  let ?I = "\<lambda>ys q'. tq_step E q q' \<and> (CancelTimer i \<in> set ys \<longrightarrow> canceled E i q')"
  have "outcome (\<lambda>e. e = BadAlloc) (?I acts) (foldR (timer_act alloc tid) acts q)"
  proof (rule outcome_foldR [where I = ?I])
    show "?I [] q" using tq_step_refl [OF assms(2)] by simp
  next
    fix ys act q1
    assume I: "?I ys q1"
    then have q1: "TQ_inv E q1" "tid = tq_thread q1" "tq_calling q1" "snd i \<le> tq_created q1"
      using assms(3-5) by (auto simp: tq_step_def)
    have "canceled E i q2" if "act \<noteq> CancelTimer i" "CancelTimer i \<in> set (ys @ [act])" "tq_step E q1 q2" for q2
      using that I canceled_step [OF that(3) _ q1(4)] by auto
    moreover have "outcome (\<lambda>e. e = BadAlloc) (\<lambda>q2. tq_step E q1 q2 \<and> (act = CancelTimer i \<longrightarrow> canceled E i q2))
        (timer_act alloc tid act q1)"
    proof (cases "act = CancelTimer i")
      case True
      then show ?thesis using cancelInLoop_ok [OF q1(1,2), of i] q1(3)
        by (auto simp: TimerQueue_cancel_def intro!: outcome_weaken_fault elim!: outcome_mono)
    next
      case False
      then show ?thesis using timer_act_ok [OF assms(1) q1(1,2), of act] by simp
    qed
    ultimately show "outcome (\<lambda>e. e = BadAlloc) (?I (ys @ [act])) (timer_act alloc tid act q1)"
      using I tq_step_trans by (elim outcome_mono) blast
  qed
  then show ?thesis using assms(6) by (auto elim!: outcome_mono)
qed

lemma runs_cancel:
  assumes "fresh_alloc alloc" "TQ_inv E q" "tid = tq_thread q" "tq_calling q" "snd i \<le> tq_created q"
    and "snd ` set entries \<subseteq> E" "e \<in> set entries"
    and "\<And>q'. CancelTimer i \<in> set (cb (tm_callback (tq_at q (snd e))) q')"
  shows "outcome (\<lambda>e. e = BadAlloc) (\<lambda>q'. tq_step E q q' \<and> canceled E i q')
     (foldR (Timer_run alloc cb tid) entries q)"
proof -
  let ?I = "\<lambda>ys q'. tq_step E q q' \<and> (e \<in> set ys \<longrightarrow> canceled E i q')"
  have "outcome (\<lambda>e. e = BadAlloc) (?I entries) (foldR (Timer_run alloc cb tid) entries q)"
  proof (rule outcome_foldR [where I = ?I])
    show "?I [] q" using tq_step_refl [OF assms(2)] by simp
  next
    fix ys x q1
    assume I: "?I ys q1" and "\<exists>zs. entries = ys @ x # zs"
    then have xE: "snd x \<in> E" using assms(6) by auto
    from I have q1: "TQ_inv E q1" "tid = tq_thread q1" "tq_calling q1" "snd i \<le> tq_created q1"
      "tq_at q1 (snd x) = tq_at q (snd x)" "snd x \<in> tq_dom q1"
      using assms(3-5) xE TQ_invD(5) [of E q1] by (auto simp: tq_step_def)
    have step: "outcome (\<lambda>e. e = BadAlloc) (tq_step E q1) (Timer_run alloc cb tid x q1)"
      by (rule Timer_run_ok [OF assms(1) q1(1,2) xE])
    show "outcome (\<lambda>e. e = BadAlloc) (?I (ys @ [x])) (Timer_run alloc cb tid x q1)"
    proof (cases "x = e")
      case True
      then have "outcome (\<lambda>e. e = BadAlloc) (canceled E i) (Timer_run alloc cb tid x q1)"
        using acts_cancel [OF assms(1) q1(1-4)] assms(8) q1(5,6) by (simp add: Timer_run_def tq_deref_at)
      then show ?thesis using step I tq_step_trans
        by (cases "Timer_run alloc cb tid x q1") auto
    next
      case False
      have "?I (ys @ [x]) q2" if "tq_step E q1 q2" for q2
        using that I canceled_step [OF that _ q1(4)] False tq_step_trans [of E q q1 q2] by auto
      then show ?thesis by (rule outcome_mono [OF step])
    qed
  qed
  then show ?thesis using assms(7) by (auto elim!: outcome_mono)
qed

text \<open>An allocator that returns the least address above all used ones, as long as there is one.\<close>

definition bump_alloc :: "nat list \<Rightarrow> nat option" where
  "bump_alloc used = (let a = Suc (fold max used 0) in if a < UINTPTR_MAX then Some a else None)"

lemma fold_max_ge: "(m::nat) \<le> fold max xs m \<and> (\<forall>x \<in> set xs. x \<le> fold max xs m)"
  by (induction xs arbitrary: m) (auto intro: order_trans max.cobounded1 max.cobounded2,
    meson max.cobounded1 max.cobounded2 order_trans, meson max.cobounded1 max.cobounded2 order_trans)

lemma fresh_bump_alloc: "fresh_alloc bump_alloc"
  using fold_max_ge [where m = 0] by (fastforce simp: fresh_alloc_def bump_alloc_def Let_def split: if_splits)

section \<open>Properties\<close>

lemma TimerQueue_ctor_inv: "0 \<le> fd \<Longrightarrow> \<exists>q. TimerQueue_ctor tid fd = Inr q \<and> TQ_inv {} q \<and> tq_thread q = tid
    \<and> tq_dom q = {}"
  by (simp add: TimerQueue_ctor_def createTimerfd_def TQ_inv_def tq_dom_def map_laws tq_entry_def tq_key_def)

text \<open>C9. The two sets of the queue never diverge, and the only use of a deleted timer there can be is
  one read in \<^verbatim>\<open>addTimer\<close>. Take any schedule on a new queue: in the loop thread \<^verbatim>\<open>addTimer\<close>, \<^verbatim>\<open>cancel\<close> and
  expirations of the descriptor, with callbacks that add and cancel timers in any way; in other threads
  \<^verbatim>\<open>addTimer\<close> and \<^verbatim>\<open>cancel\<close>, whose functors the loop runs later. No assertion fails, and the queue stays
  consistent with the timers still to be inserted. The schedule stops only when the allocator fails,
  or when a thread that called \<^verbatim>\<open>addTimer\<close> reads \<^verbatim>\<open>timer->sequence()\<close> after the loop has already run and
  deleted its timer; calls in the loop thread alone never do.\<close>

theorem TimerQueue_never_faults:
  assumes "fresh_alloc alloc" and "0 \<le> fd"
  shows "\<exists>q0. TimerQueue_ctor tid fd = Inr q0
     \<and> (case foldR (tt_exec alloc cb tid) calls (tt_start q0) of
          Inr s \<Rightarrow> TQ_inv (set (awaited (tt_pending s))) (tt_queue s)
        | Inl e \<Rightarrow> e = BadAlloc
            \<or> e = DanglingPointer \<and> (\<exists>before caller rest s i. calls = before @ ReturnAdd caller # rest
                \<and> foldR (tt_exec alloc cb tid) before (tt_start q0) = Inr s
                \<and> tt_adding s caller = Some i \<and> i \<notin> tq_keys (tt_queue s)))"
proof -
  obtain q0 where q0: "TimerQueue_ctor tid fd = Inr q0" "TQ_inv {} q0" "tid = tq_thread q0"
    using TimerQueue_ctor_inv [OF assms(2), of tid] by auto
  have "tt_inv tid (tt_start q0)" using q0(2,3) by (simp add: tt_inv_def tt_start_def)
  from tt_execs_ok [OF assms(1) this, of calls cb] show ?thesis
    unfolding deleted_while_adding_def
    by (intro exI [of _ q0] conjI q0(1)) (cases "foldR (tt_exec alloc cb tid) calls (tt_start q0)"; auto simp: tt_inv_def)
qed

theorem TimerQueue_never_faults_witness:
  "\<exists>q0. TimerQueue_ctor 7 5 = Inr q0
     \<and> (case foldR (tt_exec bump_alloc (\<lambda>c q. [CancelTimer (c, 1)]) 7)
            [StartAdd 9 1 10 5 True, InLoop (Act (AddTimer 0 1 10 5 True)), RunPending 3, InLoop (Tick 20 21), ReturnAdd 9]
            (tt_start q0) of
          Inr s \<Rightarrow> TQ_inv (set (awaited (tt_pending s))) (tt_queue s)
        | Inl e \<Rightarrow> e = BadAlloc \<or> e = DanglingPointer)"
proof -
  let ?cb = "\<lambda>c q. [CancelTimer (c, 1)]"
  let ?calls = "[StartAdd 9 1 10 5 True, InLoop (Act (AddTimer 0 1 10 5 True)), RunPending 3, InLoop (Tick 20 21), ReturnAdd 9]"
  obtain q0 where q0: "TimerQueue_ctor 7 5 = Inr q0" and r: "case foldR (tt_exec bump_alloc ?cb 7) ?calls (tt_start q0) of
        Inr s \<Rightarrow> TQ_inv (set (awaited (tt_pending s))) (tt_queue s)
      | Inl e \<Rightarrow> e = BadAlloc
          \<or> e = DanglingPointer \<and> (\<exists>before caller rest s i. ?calls = before @ ReturnAdd caller # rest
              \<and> foldR (tt_exec bump_alloc ?cb 7) before (tt_start q0) = Inr s
              \<and> tt_adding s caller = Some i \<and> i \<notin> tq_keys (tt_queue s))"
    using TimerQueue_never_faults [OF fresh_bump_alloc, of 5 7 ?calls ?cb] by auto
  show ?thesis using r
    by (intro exI [of _ q0] conjI q0) (cases "foldR (tt_exec bump_alloc ?cb 7) ?calls (tt_start q0)"; auto)
qed

text \<open>That read is reachable: thread 9 adds a one-shot timer, the loop inserts it, runs it and deletes
  it, and only then \<^verbatim>\<open>addTimer\<close> goes on in thread 9.\<close>

theorem addTimer_reads_deleted_timer:
  "\<exists>q0. TimerQueue_ctor 7 5 = Inr q0
     \<and> foldR (tt_exec bump_alloc (\<lambda>_ _. []) 7) [StartAdd 9 1 10 0 False, RunPending 3, InLoop (Tick 20 21), ReturnAdd 9]
         (tt_start q0) = Inl DanglingPointer"
  by (simp add: TimerQueue_ctor_def createTimerfd_def tt_start_def addTimer_queued_def Timer_new_def bump_alloc_def
      UINTPTR_MAX_def Timer_ctor_def addTimerInLoop_def TimerQueue_insert_def tq_assertInLoopThread_def tq_deref_def
      map_find_def sizes_agree_def set_insert_def resetTimerfd_def TimerQueue_handleRead_def getExpired_def
      set_erase_def Timer_run_def TimerQueue_reset_def TimerQueue_reset1_def map_erase_def addTimer_return_def
      Timestamp_valid_def Timestamp_ctor_def less_prod_def Let_def)

text \<open>\<^verbatim>\<open>getExpired\<close> takes out exactly the timers whose time has come, in order of expiration,
  equal times included, and leaves exactly the later ones.\<close>

theorem getExpired_splits:
  assumes "TQ_inv {} q"
  shows "\<exists>expired q'. getExpired now q = Inr (expired, q') \<and> sorted expired
     \<and> set expired = {e \<in> set (tq_timers q). fst e \<le> now} \<and> expired @ tq_timers q' = tq_timers q
     \<and> (\<forall>e \<in> set (tq_timers q'). now < fst e) \<and> TQ_inv (snd ` set expired) q'"
proof -
  let ?ex = "filter (\<lambda>e. fst e \<le> now) (tq_timers q)"
  obtain q' where q': "getExpired now q = Inr (?ex, q')" "TQ_inv (snd ` set ?ex) q'"
      "tq_timers q' = filter (\<lambda>e. now < fst e) (tq_timers q)"
    using getExpired_ok [OF assms, of now] unfolding total_iff by auto
  have "?ex @ tq_timers q' = tq_timers q"
    unfolding q'(3) expired_filter [OF assms, symmetric] by (rule takeWhile_dropWhile_id)
  moreover have "sorted ?ex" using TQ_invD(2) [OF assms] by (simp add: set_ok_def sorted_wrt_filter)
  ultimately show ?thesis using q' by (intro exI [of _ ?ex] exI [of _ q']) auto
qed

definition two_timers :: TimerQueue where
  "two_timers = \<lparr>tq_thread = 7, tq_timerfd = None, tq_timers = [(10, 1), (30, 2)], tq_calling = False,
     tq_active = [(1, 1), (2, 2)], tq_canceling = [],
     tq_heap = [(1, \<lparr>tm_callback = 0, tm_expiration = 10, tm_interval = 5, tm_repeat = True, tm_sequence = 1\<rparr>),
                (2, \<lparr>tm_callback = 1, tm_expiration = 30, tm_interval = 0, tm_repeat = False, tm_sequence = 2\<rparr>)],
     tq_created = 2\<rparr>"

lemma two_timers_inv: "TQ_inv {} two_timers"
proof -
  have d: "tq_dom two_timers = {1, 2}" by (simp add: tq_dom_def dom_map_find two_timers_def)
  show ?thesis unfolding TQ_inv_def d
    by (simp add: two_timers_def map_ok_def set_ok_def tq_entry_def tq_key_def tq_at_def map_find_def
        UINTPTR_MAX_def less_prod_def less_eq_prod_def)
qed

theorem getExpired_splits_witness:
  "\<exists>expired q'. getExpired 20 two_timers = Inr (expired, q') \<and> set expired = {(10, 1)}"
  using getExpired_splits [OF two_timers_inv, of 20] by (auto simp: two_timers_def)



text \<open>The delay programmed into the timer descriptor is a valid \<^verbatim>\<open>timespec\<close> of at least 100
  microseconds, and otherwise exactly the time left.\<close>

theorem howMuchTimeFromNow_bounds:
  "case howMuchTimeFromNow now w of (sec, nsec) \<Rightarrow>
     0 \<le> sec \<and> 0 \<le> nsec \<and> nsec < 10 ^ 9 \<and> sec * 10 ^ 9 + nsec = max 100 (w - now) * 1000"
proof -
  define us where "us = max 100 (w - now)"
  have h: "howMuchTimeFromNow now w = (us div 1000000, us mod 1000000 * 1000)"
    by (auto simp: howMuchTimeFromNow_def us_def kMicroSecondsPerSecond_def Let_def max_def)
  have "0 \<le> us" by (simp add: us_def)
  define s r where "s = us div 1000000" and "r = us mod 1000000"
  have "0 \<le> s" "0 \<le> r" "r < 1000000" "us = s * 1000000 + r"
    using \<open>0 \<le> us\<close> by (simp_all add: s_def r_def pos_imp_zdiv_nonneg_iff)
  then show ?thesis unfolding h us_def [symmetric] s_def [symmetric] r_def [symmetric] prod.case by simp
qed

text \<open>C31. Cancelling from inside a callback works for the timers being run, too: if the callback of
  an expired timer cancels an identifier, that timer is gone when the handler returns, even when it
  has expired in the same round and would repeat (a timer that cancels itself included).\<close>

theorem cancel_in_callback:
  assumes "fresh_alloc alloc" and "TQ_inv {} q" and "tid = tq_thread q" and "snd i \<le> tq_created q"
    and "(t, a) \<in> set (tq_timers q)" and "t \<le> now"
    and "\<forall>q'. CancelTimer i \<in> set (cb (tm_callback (tq_at q a)) q')"
  shows "outcome (\<lambda>e. e = BadAlloc) (\<lambda>q'. TQ_inv {} q' \<and> i \<notin> set (tq_active q') \<and> i \<notin> tq_keys q')
     (TimerQueue_handleRead alloc cb tid now clock q)"
proof -
  let ?ex = "tq_expired now q" and ?E = "snd ` set (tq_expired now q)"
  obtain q1 where q1: "calling_state {} tid now q q1"
    and hr: "TimerQueue_handleRead alloc cb tid now clock q = bindR (foldR (Timer_run alloc cb tid) ?ex q1)
         (\<lambda>q2. TimerQueue_reset clock tid ?ex now (q2\<lparr>tq_calling := False\<rparr>))"
    using handleRead_start [OF assms(2,3), of now] by metis
  note c = q1 [unfolded calling_state_def]
  have run: "outcome (\<lambda>e. e = BadAlloc) (\<lambda>q2. tq_step ?E q1 q2 \<and> canceled ?E i q2)
      (foldR (Timer_run alloc cb tid) ?ex q1)"
    by (rule runs_cancel [OF assms(1), where e = "(t, a)"]) (use c assms(4-7) in auto)
  have fin: "outcome (\<lambda>e. e = BadAlloc) (\<lambda>q'. TQ_inv {} q' \<and> i \<notin> set (tq_active q') \<and> i \<notin> tq_keys q')
      (TimerQueue_reset clock tid ?ex now (q2\<lparr>tq_calling := False\<rparr>))"
    if q2: "tq_step ?E q1 q2 \<and> canceled ?E i q2" for q2
  proof -
    have "i \<notin> tq_keys q'" if "handled {} now clock q q2 q'" for q'
    proof
      assume "i \<in> tq_keys q'"
      then obtain b where b: "b \<in> tq_dom q'" "tq_key q' b = i" by (auto simp: tq_keys_def)
      have r: "reset_state now ?E (q2\<lparr>tq_calling := False\<rparr>) q'" using that by (simp add: handled_def)
      then have bd: "b \<in> tq_dom q2" "b \<in> ?E \<longrightarrow> tq_keep q2 b" "tq_key q2 b = i"
        using b by (auto simp: reset_state_def tq_keep_def tq_key_def)
      then show False using q2 by (auto simp: canceled_def tq_keep_def)
    qed
    then have "TQ_inv {} q' \<and> i \<notin> set (tq_active q') \<and> i \<notin> tq_keys q'" if "handled {} now clock q q2 q'" for q'
      using that active_keys [of "{}" q'] by (auto simp: handled_def)
    moreover have "tq_step ?E q1 q2" using q2 by simp
    ultimately show ?thesis
      by (intro outcome_mono [OF outcome_weaken_fault [OF handleRead_finish [OF assms(2) q1]]]) auto
  qed
  show ?thesis unfolding hr by (rule outcome_bind_rule [OF run fin])
qed

theorem cancel_in_callback_witness:
  "outcome (\<lambda>e. e = BadAlloc) (\<lambda>q'. TQ_inv {} q' \<and> (1, 1) \<notin> set (tq_active q') \<and> (1, 1) \<notin> tq_keys q')
     (TimerQueue_handleRead bump_alloc (\<lambda>c q. [CancelTimer (1, 1)]) 7 15 16 two_timers)"
proof -
  have q: "7 = tq_thread two_timers" "snd (1::nat, 1::int) \<le> tq_created two_timers"
    "(10, 1) \<in> set (tq_timers two_timers)" "(10::int) \<le> 15" by (simp_all add: two_timers_def)
  show ?thesis by (rule cancel_in_callback [OF fresh_bump_alloc two_timers_inv q]) simp
qed

text \<open>C32. When no callback touches the queue, an expiration leaves exactly the later timers and,
  counted from the time of the expiration, the next round of every repeating one; one-shot timers
  are gone; and the descriptor is armed for the earliest of them.\<close>

theorem handleRead_rearms:
  assumes "TQ_inv {} q" and "tid = tq_thread q" and "0 < now" and "\<forall>a \<in> tq_dom q. 0 \<le> tm_interval (tq_at q a)"
  shows "\<exists>q'. TimerQueue_handleRead alloc (\<lambda>_ _. []) tid now clock q = Inr q' \<and> TQ_inv {} q'
     \<and> set (tq_timers q') = {e \<in> set (tq_timers q). now < fst e}
          \<union> {(now + tm_interval (tq_at q a), a) | t a. (t, a) \<in> set (tq_timers q) \<and> t \<le> now \<and> tm_repeat (tq_at q a)}
     \<and> (tq_timers q' \<noteq> [] \<longrightarrow> tq_timerfd q' = Some (howMuchTimeFromNow clock (fst (hd (tq_timers q')))))"
proof -
  let ?ex = "tq_expired now q" and ?E = "snd ` set (tq_expired now q)"
  obtain q1 where q1: "calling_state {} tid now q q1"
    and hr: "\<And>alloc cb clock. TimerQueue_handleRead alloc cb tid now clock q = bindR (foldR (Timer_run alloc cb tid) ?ex q1)
         (\<lambda>q2. TimerQueue_reset clock tid ?ex now (q2\<lparr>tq_calling := False\<rparr>))"
    using handleRead_start [OF assms(1,2), of now] by metis
  note c = q1 [unfolded calling_state_def]
  note D = TQ_invD [OF assms(1)]
  have sub: "?E \<subseteq> tq_dom q" using c TQ_invD(5) [of ?E q1] by auto
  have "foldR (Timer_run alloc (\<lambda>_ _. []) tid) es q1 = Inr q1" if "snd ` set es \<subseteq> tq_dom q1" for es
    using that by (induction es) (auto simp: Timer_run_def tq_deref_at)
  then have run: "foldR (Timer_run alloc (\<lambda>_ _. []) tid) ?ex q1 = Inr q1" using sub c by simp
  obtain q' where q': "TimerQueue_handleRead alloc (\<lambda>_ _. []) tid now clock q = Inr q'" "handled {} now clock q q1 q'"
    using handleRead_finish [OF assms(1) q1 tq_step_refl, of clock] c unfolding hr run total_iff by auto
  have r: "tq_dom q' = tq_dom q - {a \<in> ?E. \<not> tm_repeat (tq_at q a)}"
    "\<And>a. a \<in> tq_dom q' \<Longrightarrow> tq_at q' a = (if a \<in> ?E then restart now (tq_at q a) else tq_at q a)"
    using q'(2) c by (auto simp: handled_def reset_state_def tq_keep_def)
  have inE: "a \<in> ?E \<longleftrightarrow> tm_expiration (tq_at q a) \<le> now" if "a \<in> tq_dom q" for a
    using that D(6) by (force simp: tq_entry_def image_iff)
  have inv': "TQ_inv {} q'" using q'(2) by (simp add: handled_def)
  have timers: "set (tq_timers q') = {e \<in> set (tq_timers q). now < fst e}
      \<union> {(now + tm_interval (tq_at q a), a) | t a. (t, a) \<in> set (tq_timers q) \<and> t \<le> now \<and> tm_repeat (tq_at q a)}"
  proof -
    have "tq_entry q' a = (if a \<in> ?E then (now + tm_interval (tq_at q a), a) else tq_entry q a)" if "a \<in> tq_dom q'" for a
      using that r by (auto simp: tq_entry_def restart_def addTime_def)
    then show ?thesis unfolding TQ_invD(6) [OF inv'] D(6) using inE r(1)
      by (auto simp: tq_entry_def image_iff)
  qed
  have pos: "0 < fst (hd (tq_timers q'))" if "tq_timers q' \<noteq> []"
  proof -
    have "hd (tq_timers q') \<in> set (tq_timers q')" using that by simp
    then show ?thesis unfolding timers using assms(3,4) D(6) by (force simp: tq_entry_def)
  qed
  show ?thesis using q' inv' timers pos by (auto simp: handled_def)
qed

theorem handleRead_rearms_witness:
  "\<exists>q'. TimerQueue_handleRead bump_alloc (\<lambda>_ _. []) 7 20 21 two_timers = Inr q'
     \<and> set (tq_timers q') = {(30, 2), (25, 1)}"
proof -
  have d: "tq_dom two_timers = {1, 2}" by (simp add: tq_dom_def dom_map_find two_timers_def)
  have q: "7 = tq_thread two_timers" "\<forall>a \<in> tq_dom two_timers. 0 \<le> tm_interval (tq_at two_timers a)"
    unfolding d by (simp_all add: two_timers_def tq_at_def map_find_def)
  have a: "tm_interval (tq_at two_timers 1) = 5" "tm_repeat (tq_at two_timers 1)"
    "set (tq_timers two_timers) = {(10, 1), (30, 2)}"
    by (simp_all add: two_timers_def tq_at_def map_find_def)
  have e: "{e \<in> {(10::int, 1::nat), (30, 2)}. 20 < fst e} \<union> {(20 + tm_interval (tq_at two_timers a), a) | t a.
      (t, a) \<in> {(10::int, 1::nat), (30, 2)} \<and> t \<le> 20 \<and> tm_repeat (tq_at two_timers a)} = {(30, 2), (25, 1)}"
    using a(1,2) by auto
  show ?thesis using handleRead_rearms [OF two_timers_inv q(1) _ q(2), of 20 bump_alloc 21]
    unfolding a(3) e by auto
qed

end
