(* ===== verification/Net_Poller.thy ===== *)
theory Net_Poller
  imports Std_Map "HOL-Library.Word"
begin

text \<open>
  \<^verbatim>\<open>net/Channel.h\<close>, \<^verbatim>\<open>net/Channel.cc\<close>, \<^verbatim>\<open>net/Poller.h\<close>, \<^verbatim>\<open>net/Poller.cc\<close> and the two pollers of
  \<^verbatim>\<open>net/poller/\<close>. Channels are objects at addresses (a function from addresses to \<open>Channel\<close>); a poller
  is a record extending the base class with the state of the derived one. The kernel side of
  \<^verbatim>\<open>epoll\<close> is the interest list it keeps, with the documented answers of \<^verbatim>\<open>epoll_ctl\<close>; what
  \<^verbatim>\<open>epoll_wait\<close> and \<^verbatim>\<open>poll\<close> report is an argument. The locale \<open>poller\<close> is the contract of the
  abstract base class, and both implementations interpret it.
\<close>

unbundle bit_operations_syntax

section \<open>Channels\<close>

definition POLLIN :: "32 word" where "POLLIN = 0x001"
definition POLLPRI :: "32 word" where "POLLPRI = 0x002"
definition POLLOUT :: "32 word" where "POLLOUT = 0x004"
definition POLLERR :: "32 word" where "POLLERR = 0x008"
definition POLLHUP :: "32 word" where "POLLHUP = 0x010"
definition POLLNVAL :: "32 word" where "POLLNVAL = 0x020"
definition POLLRDHUP :: "32 word" where "POLLRDHUP = 0x2000"
definition EPOLLET :: "32 word" where "EPOLLET = 0x80000000"

definition kNoneEvent :: "32 word" where "kNoneEvent = 0"
definition kReadEvent :: "32 word" where "kReadEvent = POLLIN OR POLLPRI"
definition kWriteEvent :: "32 word" where "kWriteEvent = POLLOUT"
definition kEdgeTrigger :: "32 word" where "kEdgeTrigger = EPOLLET"

lemmas event_bits = POLLIN_def POLLPRI_def POLLOUT_def POLLERR_def POLLHUP_def POLLNVAL_def
  POLLRDHUP_def EPOLLET_def kNoneEvent_def kReadEvent_def kWriteEvent_def kEdgeTrigger_def

text \<open>The callbacks are the owner's: a channel knows which of them are set.\<close>

record Channel =
  ch_fd :: int
  ch_events :: "32 word"
  ch_revents :: "32 word"
  ch_index :: int
  ch_tied :: bool
  ch_eventHandling :: bool
  ch_addedToLoop :: bool
  ch_readCallback :: bool
  ch_writeCallback :: bool
  ch_errorCallback :: bool
  ch_closeCallback :: bool

definition Channel_ctor :: "int \<Rightarrow> Channel" where
  "Channel_ctor fdArg = \<lparr>ch_fd = fdArg, ch_events = 0, ch_revents = 0, ch_index = -1, ch_tied = False,
     ch_eventHandling = False, ch_addedToLoop = False, ch_readCallback = False, ch_writeCallback = False,
     ch_errorCallback = False, ch_closeCallback = False\<rparr>"

definition isNoneEvent :: "Channel \<Rightarrow> bool" where
  "isNoneEvent c = (ch_events c = kNoneEvent)"

definition isWriting :: "Channel \<Rightarrow> bool" where
  "isWriting c = (ch_events c AND kWriteEvent \<noteq> 0)"

datatype event_callback = CloseCallback | ErrorCallback | ReadCallback | WriteCallback

text \<open>The callbacks \<^verbatim>\<open>handleEventWithGuard\<close> invokes, in order. \<^verbatim>\<open>eventHandling_\<close> is true around them.\<close>

definition handleEventWithGuard :: "Channel \<Rightarrow> event_callback list" where
  "handleEventWithGuard c =
     (let r = ch_revents c in
      (if r AND POLLHUP \<noteq> 0 \<and> \<not> (r AND POLLIN \<noteq> 0) \<and> ch_closeCallback c then [CloseCallback] else [])
      @ (if r AND (POLLERR OR POLLNVAL) \<noteq> 0 \<and> ch_errorCallback c then [ErrorCallback] else [])
      @ (if r AND (POLLIN OR POLLPRI OR POLLRDHUP) \<noteq> 0 \<and> ch_readCallback c then [ReadCallback] else [])
      @ (if r AND POLLOUT \<noteq> 0 \<and> ch_writeCallback c then [WriteCallback] else []))"

text \<open>\<open>alive\<close>: the object the channel is tied to still exists.\<close>

definition handleEvent :: "bool \<Rightarrow> Channel \<Rightarrow> event_callback list" where
  "handleEvent alive c =
     (if ch_tied c then (if alive then handleEventWithGuard c else []) else handleEventWithGuard c)"

definition eventsToString :: "int \<Rightarrow> 32 word \<Rightarrow> string" where
  "eventsToString fd ev = dec_int fd @ '': ''
     @ (if ev AND POLLIN \<noteq> 0 then ''IN '' else [])
     @ (if ev AND POLLPRI \<noteq> 0 then ''PRI '' else [])
     @ (if ev AND POLLOUT \<noteq> 0 then ''OUT '' else [])
     @ (if ev AND POLLHUP \<noteq> 0 then ''HUP '' else [])
     @ (if ev AND POLLRDHUP \<noteq> 0 then ''RDHUP '' else [])
     @ (if ev AND POLLERR \<noteq> 0 then ''ERR '' else [])
     @ (if ev AND POLLNVAL \<noteq> 0 then ''NVAL '' else [])"

section \<open>The base class\<close>

record Poller =
  po_channels :: "(int \<times> nat) list"
  po_thread :: nat
  po_chan :: "nat \<Rightarrow> Channel"

definition po_assertInLoopThread :: "nat \<Rightarrow> 'a Poller_scheme \<Rightarrow> 'b result \<Rightarrow> 'b result" where
  "po_assertInLoopThread tid p k =
     (if tid = po_thread p then k else Inl (LogFatal ''EventLoop::abortNotInLoopThread''))"

definition hasChannel :: "nat \<Rightarrow> nat \<Rightarrow> 'a Poller_scheme \<Rightarrow> bool result" where
  "hasChannel tid ch p = po_assertInLoopThread tid p
     (Inr (map_find (po_channels p) (ch_fd (po_chan p ch)) = Some ch))"

definition set_chan :: "nat \<Rightarrow> Channel \<Rightarrow> 'a Poller_scheme \<Rightarrow> 'a Poller_scheme" where
  "set_chan ch c p = p\<lparr>po_chan := (po_chan p)(ch := c)\<rparr>"

definition set_index :: "nat \<Rightarrow> int \<Rightarrow> 'a Poller_scheme \<Rightarrow> 'a Poller_scheme" where
  "set_index ch idx p = set_chan ch ((po_chan p ch)\<lparr>ch_index := idx\<rparr>) p"

definition set_revents :: "nat \<Rightarrow> 32 word \<Rightarrow> 'a Poller_scheme \<Rightarrow> 'a Poller_scheme" where
  "set_revents ch revt p = set_chan ch ((po_chan p ch)\<lparr>ch_revents := revt\<rparr>) p"

text \<open>\<^verbatim>\<open>Channel::update\<close> and \<^verbatim>\<open>Channel::remove\<close> go through the loop to the virtual functions of its
  poller, here the arguments \<open>upd\<close> and \<open>rem\<close>.\<close>

definition Channel_update :: "(nat \<Rightarrow> 'a Poller_scheme \<Rightarrow> 'a Poller_scheme result) \<Rightarrow> nat \<Rightarrow> 'a Poller_scheme
    \<Rightarrow> 'a Poller_scheme result" where
  "Channel_update upd ch p = upd ch (set_chan ch ((po_chan p ch)\<lparr>ch_addedToLoop := True\<rparr>) p)"

definition set_events :: "nat \<Rightarrow> 32 word \<Rightarrow> 'a Poller_scheme \<Rightarrow> 'a Poller_scheme" where
  "set_events ch ev p = set_chan ch ((po_chan p ch)\<lparr>ch_events := ev\<rparr>) p"

definition enableReading :: "(nat \<Rightarrow> 'a Poller_scheme \<Rightarrow> 'a Poller_scheme result) \<Rightarrow> nat \<Rightarrow> 'a Poller_scheme
    \<Rightarrow> 'a Poller_scheme result" where
  "enableReading upd ch p = Channel_update upd ch (set_events ch (ch_events (po_chan p ch) OR kReadEvent) p)"

definition disableAll :: "(nat \<Rightarrow> 'a Poller_scheme \<Rightarrow> 'a Poller_scheme result) \<Rightarrow> nat \<Rightarrow> 'a Poller_scheme
    \<Rightarrow> 'a Poller_scheme result" where
  "disableAll upd ch p = Channel_update upd ch (set_events ch kNoneEvent p)"

definition enableWriting :: "(nat \<Rightarrow> 'a Poller_scheme \<Rightarrow> 'a Poller_scheme result) \<Rightarrow> nat \<Rightarrow> 'a Poller_scheme
    \<Rightarrow> 'a Poller_scheme result" where
  "enableWriting upd ch p = Channel_update upd ch (set_events ch (ch_events (po_chan p ch) OR kWriteEvent) p)"

definition disableWriting :: "(nat \<Rightarrow> 'a Poller_scheme \<Rightarrow> 'a Poller_scheme result) \<Rightarrow> nat \<Rightarrow> 'a Poller_scheme
    \<Rightarrow> 'a Poller_scheme result" where
  "disableWriting upd ch p = Channel_update upd ch (set_events ch (ch_events (po_chan p ch) AND NOT kWriteEvent) p)"

definition enableET :: "(nat \<Rightarrow> 'a Poller_scheme \<Rightarrow> 'a Poller_scheme result) \<Rightarrow> nat \<Rightarrow> 'a Poller_scheme
    \<Rightarrow> 'a Poller_scheme result" where
  "enableET upd ch p = Channel_update upd ch (set_events ch (ch_events (po_chan p ch) OR kEdgeTrigger) p)"

definition disableET :: "(nat \<Rightarrow> 'a Poller_scheme \<Rightarrow> 'a Poller_scheme result) \<Rightarrow> nat \<Rightarrow> 'a Poller_scheme
    \<Rightarrow> 'a Poller_scheme result" where
  "disableET upd ch p = Channel_update upd ch (set_events ch (ch_events (po_chan p ch) AND NOT kEdgeTrigger) p)"

definition Channel_remove :: "(nat \<Rightarrow> 'a Poller_scheme \<Rightarrow> 'a Poller_scheme result) \<Rightarrow> nat \<Rightarrow> 'a Poller_scheme
    \<Rightarrow> 'a Poller_scheme result" where
  "Channel_remove rem ch p =
     assertR ''isNoneEvent()'' (isNoneEvent (po_chan p ch))
       (rem ch (set_chan ch ((po_chan p ch)\<lparr>ch_addedToLoop := False\<rparr>) p))"

definition Channel_dtor :: "nat \<Rightarrow> nat \<Rightarrow> 'a Poller_scheme \<Rightarrow> unit result" where
  "Channel_dtor tid ch p =
     assertR ''!eventHandling_'' (\<not> ch_eventHandling (po_chan p ch))
     (assertR ''!addedToLoop_'' (\<not> ch_addedToLoop (po_chan p ch))
       (if tid = po_thread p
        then bindR (hasChannel tid ch p) (\<lambda>has. assertR ''!loop_->hasChannel(this)'' (\<not> has) (Inr ()))
        else Inr ()))"

section \<open>EPollPoller\<close>

record EPollPoller = Poller +
  ep_eventsSize :: nat
  ep_kernel :: "(int \<times> (32 word \<times> nat)) list"

definition kInitEventListSize :: nat where "kInitEventListSize = 16"
definition kNew :: int where "kNew = -1"
definition kAdded :: int where "kAdded = 1"
definition kDeleted :: int where "kDeleted = 2"

datatype epoll_op = EPOLL_CTL_ADD | EPOLL_CTL_MOD | EPOLL_CTL_DEL

primrec operationToString :: "epoll_op \<Rightarrow> string" where
  "operationToString EPOLL_CTL_ADD = ''ADD''"
| "operationToString EPOLL_CTL_DEL = ''DEL''"
| "operationToString EPOLL_CTL_MOD = ''MOD''"

definition EPollPoller_ctor :: "nat \<Rightarrow> int \<Rightarrow> (nat \<Rightarrow> Channel) \<Rightarrow> EPollPoller result" where
  "EPollPoller_ctor loop_thread epollfd chan =
     (if epollfd < 0 then Inl (LogFatal ''EPollPoller::EPollPoller'')
      else Inr \<lparr>po_channels = [], po_thread = loop_thread, po_chan = chan,
                ep_eventsSize = kInitEventListSize, ep_kernel = []\<rparr>)"

text \<open>\<^verbatim>\<open>epoll_ctl\<close>: adding a registered descriptor and changing or deleting an unregistered one fail.\<close>

definition epoll_ctl :: "epoll_op \<Rightarrow> int \<Rightarrow> 32 word \<times> nat \<Rightarrow> (int \<times> (32 word \<times> nat)) list
    \<Rightarrow> (int \<times> (32 word \<times> nat)) list option" where
  "epoll_ctl operation fd event k =
     (case operation of
        EPOLL_CTL_ADD \<Rightarrow> if map_find k fd = None then Some (map_put fd event k) else None
      | EPOLL_CTL_MOD \<Rightarrow> if map_find k fd \<noteq> None then Some (map_put fd event k) else None
      | EPOLL_CTL_DEL \<Rightarrow> if map_find k fd \<noteq> None then Some (snd (map_erase fd k)) else None)"

definition EPollPoller_update :: "epoll_op \<Rightarrow> nat \<Rightarrow> EPollPoller \<Rightarrow> EPollPoller result" where
  "EPollPoller_update operation ch p =
     (let event = (ch_events (po_chan p ch), ch); fd = ch_fd (po_chan p ch) in
      case epoll_ctl operation fd event (ep_kernel p) of
        Some k \<Rightarrow> Inr (p\<lparr>ep_kernel := k\<rparr>)
      | None \<Rightarrow> if operation = EPOLL_CTL_DEL then Inr p
                else Inl (LogFatal (''epoll_ctl op ='' @ operationToString operation @ '' fd ='' @ dec_int fd)))"

definition EPollPoller_updateChannel :: "nat \<Rightarrow> nat \<Rightarrow> EPollPoller \<Rightarrow> EPollPoller result" where
  "EPollPoller_updateChannel tid ch p =
     po_assertInLoopThread tid p
     (let index = ch_index (po_chan p ch); fd = ch_fd (po_chan p ch) in
      if index = kNew \<or> index = kDeleted then
        bindR (if index = kNew
               then assertR ''channels_.find(fd) == channels_.end()'' (map_find (po_channels p) fd = None)
                      (Inr (p\<lparr>po_channels := map_put fd ch (po_channels p)\<rparr>))
               else assertR ''channels_.find(fd) != channels_.end()'' (map_find (po_channels p) fd \<noteq> None)
                     (assertR ''channels_[fd] == channel'' (map_find (po_channels p) fd = Some ch) (Inr p)))
          (\<lambda>p1. EPollPoller_update EPOLL_CTL_ADD ch (set_index ch kAdded p1))
      else
        assertR ''channels_.find(fd) != channels_.end()'' (map_find (po_channels p) fd \<noteq> None)
        (assertR ''channels_[fd] == channel'' (map_find (po_channels p) fd = Some ch)
        (assertR ''index == kAdded'' (index = kAdded)
          (if isNoneEvent (po_chan p ch)
           then bindR (EPollPoller_update EPOLL_CTL_DEL ch p) (\<lambda>p1. Inr (set_index ch kDeleted p1))
           else EPollPoller_update EPOLL_CTL_MOD ch p))))"

definition EPollPoller_removeChannel :: "nat \<Rightarrow> nat \<Rightarrow> EPollPoller \<Rightarrow> EPollPoller result" where
  "EPollPoller_removeChannel tid ch p =
     po_assertInLoopThread tid p
     (let fd = ch_fd (po_chan p ch); index = ch_index (po_chan p ch) in
      assertR ''channels_.find(fd) != channels_.end()'' (map_find (po_channels p) fd \<noteq> None)
      (assertR ''channels_[fd] == channel'' (map_find (po_channels p) fd = Some ch)
      (assertR ''channel->isNoneEvent()'' (isNoneEvent (po_chan p ch))
      (assertR ''index == kAdded || index == kDeleted'' (index = kAdded \<or> index = kDeleted)
        (let (n, channels') = map_erase fd (po_channels p) in
         assertR ''n == 1'' (n = 1)
           (bindR (if index = kAdded then EPollPoller_update EPOLL_CTL_DEL ch (p\<lparr>po_channels := channels'\<rparr>)
                   else Inr (p\<lparr>po_channels := channels'\<rparr>))
              (\<lambda>p1. Inr (set_index ch kNew p1))))))))"

text \<open>\<open>events\<close> is what \<^verbatim>\<open>epoll_wait\<close> stored at the front of the event list.\<close>

definition EPollPoller_fillActiveChannels :: "(32 word \<times> nat) list \<Rightarrow> EPollPoller
    \<Rightarrow> (nat list \<times> EPollPoller) result" where
  "EPollPoller_fillActiveChannels events p =
     assertR ''numEvents <= events_.size()'' (length events \<le> ep_eventsSize p)
       (foldR (\<lambda>(ev, ch) (active, p1).
          assertR ''it != channels_.end()'' (map_find (po_channels p1) (ch_fd (po_chan p1 ch)) \<noteq> None)
          (assertR ''it->second == channel'' (map_find (po_channels p1) (ch_fd (po_chan p1 ch)) = Some ch)
            (Inr (active @ [ch], set_revents ch ev p1))))
        events ([], p))"

text \<open>\<open>None\<close> is a failed \<^verbatim>\<open>epoll_wait\<close>, which is only logged.\<close>

definition EPollPoller_poll :: "(32 word \<times> nat) list option \<Rightarrow> EPollPoller \<Rightarrow> (nat list \<times> EPollPoller) result" where
  "EPollPoller_poll events p =
     (case events of
        None \<Rightarrow> Inr ([], p)
      | Some es \<Rightarrow>
          if es \<noteq> [] then
            bindR (EPollPoller_fillActiveChannels es p) (\<lambda>(active, p1).
              Inr (active, if length es = ep_eventsSize p1
                           then p1\<lparr>ep_eventsSize := ep_eventsSize p1 * 2\<rparr> else p1))
          else Inr ([], p))"

section \<open>PollPoller\<close>

record pollfd =
  pfd_fd :: int
  pfd_events :: "16 word"
  pfd_revents :: "16 word"

record PollPoller = Poller +
  pp_pollfds :: "pollfd list"

definition PollPoller_ctor :: "nat \<Rightarrow> (nat \<Rightarrow> Channel) \<Rightarrow> PollPoller" where
  "PollPoller_ctor loop_thread chan =
     \<lparr>po_channels = [], po_thread = loop_thread, po_chan = chan, pp_pollfds = []\<rparr>"

text \<open>An access to \<open>pollfds_[idx]\<close>.\<close>

definition pollfd_at :: "int \<Rightarrow> PollPoller \<Rightarrow> (pollfd \<Rightarrow> 'b result) \<Rightarrow> 'b result" where
  "pollfd_at idx p k = (if 0 \<le> idx \<and> nat idx < length (pp_pollfds p) then k (pp_pollfds p ! nat idx)
                        else Inl OutOfBounds)"

definition PollPoller_updateChannel :: "nat \<Rightarrow> nat \<Rightarrow> PollPoller \<Rightarrow> PollPoller result" where
  "PollPoller_updateChannel tid ch p =
     po_assertInLoopThread tid p
     (let c = po_chan p ch; fd = ch_fd c in
      if ch_index c < 0 then
        assertR ''channels_.find(channel->fd()) == channels_.end()'' (map_find (po_channels p) fd = None)
          (let p1 = p\<lparr>pp_pollfds := pp_pollfds p @ [\<lparr>pfd_fd = fd, pfd_events = ucast (ch_events c), pfd_revents = 0\<rparr>]\<rparr>;
               p2 = set_index ch (int (length (pp_pollfds p1)) - 1) p1
           in Inr (p2\<lparr>po_channels := map_put fd ch (po_channels p2)\<rparr>))
      else
        assertR ''channels_.find(channel->fd()) != channels_.end()'' (map_find (po_channels p) fd \<noteq> None)
        (assertR ''channels_[channel->fd()] == channel'' (map_find (po_channels p) fd = Some ch)
          (let idx = ch_index c in
           assertR ''0 <= idx && idx < pollfds_.size()'' (0 \<le> idx \<and> idx < int (length (pp_pollfds p)))
             (pollfd_at idx p (\<lambda>pfd.
               assertR ''pfd.fd == channel->fd() || pfd.fd == -channel->fd()-1''
                 (pfd_fd pfd = fd \<or> pfd_fd pfd = - fd - 1)
                 (let pfd' = \<lparr>pfd_fd = (if isNoneEvent c then - fd - 1 else fd),
                              pfd_events = ucast (ch_events c), pfd_revents = 0\<rparr>
                  in Inr (p\<lparr>pp_pollfds := (pp_pollfds p)[nat idx := pfd']\<rparr>)))))))"

text \<open>\<^verbatim>\<open>iter_swap\<close> with the last entry and \<^verbatim>\<open>pop_back\<close>: the last entry replaces the removed one.\<close>

definition PollPoller_removeChannel :: "nat \<Rightarrow> nat \<Rightarrow> PollPoller \<Rightarrow> PollPoller result" where
  "PollPoller_removeChannel tid ch p =
     po_assertInLoopThread tid p
     (let c = po_chan p ch; fd = ch_fd c in
      assertR ''channels_.find(channel->fd()) != channels_.end()'' (map_find (po_channels p) fd \<noteq> None)
      (assertR ''channels_[channel->fd()] == channel'' (map_find (po_channels p) fd = Some ch)
      (assertR ''channel->isNoneEvent()'' (isNoneEvent c)
      (let idx = ch_index c in
       assertR ''0 <= idx && idx < pollfds_.size()'' (0 \<le> idx \<and> idx < int (length (pp_pollfds p)))
       (pollfd_at idx p (\<lambda>pfd.
         assertR ''pfd.fd == -channel->fd()-1 && pfd.events == channel->events()''
           (pfd_fd pfd = - fd - 1 \<and> sint (pfd_events pfd) = sint (ch_events c))
           (let (n, channels') = map_erase fd (po_channels p) in
            assertR ''n == 1'' (n = 1)
              (let p1 = p\<lparr>po_channels := channels'\<rparr>; pfds = pp_pollfds p1 in
               if nat idx = length pfds - 1 then Inr (p1\<lparr>pp_pollfds := butlast pfds\<rparr>)
               else
                 (let channelAtEnd = pfd_fd (last pfds);
                      channelAtEnd = (if channelAtEnd < 0 then - channelAtEnd - 1 else channelAtEnd);
                      pfds' = pfds[nat idx := last pfds, length pfds - 1 := pfds ! nat idx]
                  in case map_find (po_channels p1) channelAtEnd of
                       None \<Rightarrow> Inl DanglingPointer
                     | Some ch' \<Rightarrow> Inr ((set_index ch' idx p1)\<lparr>pp_pollfds := butlast pfds'\<rparr>))))))))))"

text \<open>The entries from some position on, with the number of events still to be found.\<close>

fun PollPoller_fill :: "pollfd list \<Rightarrow> nat \<Rightarrow> nat list \<Rightarrow> PollPoller \<Rightarrow> (nat list \<times> PollPoller) result" where
  "PollPoller_fill [] numEvents active p = Inr (active, p)"
| "PollPoller_fill (pfd # pfds) numEvents active p =
     (if numEvents = 0 then Inr (active, p)
      else if 0 < sint (pfd_revents pfd) then
        (case map_find (po_channels p) (pfd_fd pfd) of
           None \<Rightarrow> Inl (AssertFail ''ch != channels_.end()'')
         | Some ch \<Rightarrow>
             assertR ''channel->fd() == pfd->fd'' (ch_fd (po_chan p ch) = pfd_fd pfd)
               (PollPoller_fill pfds (numEvents - 1) (active @ [ch]) (set_revents ch (scast (pfd_revents pfd)) p)))
      else PollPoller_fill pfds numEvents active p)"

definition PollPoller_fillActiveChannels :: "nat \<Rightarrow> PollPoller \<Rightarrow> (nat list \<times> PollPoller) result" where
  "PollPoller_fillActiveChannels numEvents p = PollPoller_fill (pp_pollfds p) numEvents [] p"

text \<open>\<open>report\<close> is what \<^verbatim>\<open>poll(2)\<close> answers: the result and the returned events of every entry.\<close>

definition PollPoller_poll :: "(int \<times> 16 word list) \<Rightarrow> PollPoller \<Rightarrow> (nat list \<times> PollPoller) result" where
  "PollPoller_poll report p =
     (let numEvents = fst report;
          p1 = p\<lparr>pp_pollfds := map2 (\<lambda>pfd r. pfd\<lparr>pfd_revents := r\<rparr>) (pp_pollfds p) (snd report)\<rparr>
      in if 0 < numEvents then PollPoller_fillActiveChannels (nat numEvents) p1 else Inr ([], p1))"

datatype default_poller = UsePoll PollPoller | UseEPoll EPollPoller

definition newDefaultPoller :: "bool \<Rightarrow> nat \<Rightarrow> int \<Rightarrow> (nat \<Rightarrow> Channel) \<Rightarrow> default_poller result" where
  "newDefaultPoller WEB_USE_POLL loop_thread epollfd chan =
     (if WEB_USE_POLL then Inr (UsePoll (PollPoller_ctor loop_thread chan))
      else bindR (EPollPoller_ctor loop_thread epollfd chan) (\<lambda>p. Inr (UseEPoll p)))"

section \<open>The contract of a poller\<close>

text \<open>What a poller may change of the channels: the index it keeps in them.\<close>

definition same_but_index :: "Channel \<Rightarrow> Channel \<Rightarrow> bool" where
  "same_but_index c c' = (c'\<lparr>ch_index := 0\<rparr> = c\<lparr>ch_index := 0\<rparr>)"

lemma same_but_index_refl [simp]: "same_but_index c c" "same_but_index c (c\<lparr>ch_index := i\<rparr>)"
  by (simp_all add: same_but_index_def)

lemma same_but_indexD:
  assumes "same_but_index c c'"
  shows "ch_fd c' = ch_fd c" "ch_events c' = ch_events c" "ch_addedToLoop c' = ch_addedToLoop c"
proof -
  have e: "c'\<lparr>ch_index := 0\<rparr> = c\<lparr>ch_index := 0\<rparr>" using assms by (simp add: same_but_index_def)
  show "ch_fd c' = ch_fd c" using arg_cong [OF e, of ch_fd] by simp
  show "ch_events c' = ch_events c" using arg_cong [OF e, of ch_events] by simp
  show "ch_addedToLoop c' = ch_addedToLoop c" using arg_cong [OF e, of ch_addedToLoop] by simp
qed

text \<open>A channel may be updated when it is registered, or when it is new, asks for some event, and its
  descriptor is not registered by another one.\<close>

definition updatable :: "'a Poller_scheme \<Rightarrow> nat \<Rightarrow> bool" where
  "updatable p ch = (let fd = ch_fd (po_chan p ch) in 0 \<le> fd \<and>
     (map_find (po_channels p) fd = Some ch \<or> map_find (po_channels p) fd = None \<and> ch_index (po_chan p ch) = -1
       \<and> ch_events (po_chan p ch) \<noteq> 0))"

text \<open>Every other channel that is not registered is left as it is.\<close>

definition unregistered_kept :: "nat \<Rightarrow> 'a Poller_scheme \<Rightarrow> 'a Poller_scheme \<Rightarrow> bool" where
  "unregistered_kept ch p p' = (\<forall>c. c \<noteq> ch \<and> (\<forall>fd. map_find (po_channels p) fd \<noteq> Some c) \<longrightarrow> po_chan p' c = po_chan p c)"

text \<open>
  The contract. \<open>interest p fd\<close> is what the kernel watches the descriptor for (\<open>None\<close> when it does not
  watch it at all; a descriptor watched for the empty mask still reports errors and hang-ups).
  \<open>watches again ev\<close> is what it watches a registered channel with the events \<open>ev\<close> for; \<open>again\<close> says
  that the channel, already disabled, was disabled once more (an odd number of times).
\<close>

locale poller =
  fixes inv :: "'a Poller_scheme \<Rightarrow> bool"
    and watches :: "bool \<Rightarrow> 32 word \<Rightarrow> 'm option"
    and interest :: "'a Poller_scheme \<Rightarrow> int \<Rightarrow> 'm option"
    and disarmed :: "'a Poller_scheme \<Rightarrow> int \<Rightarrow> bool"
    and upd :: "nat \<Rightarrow> 'a Poller_scheme \<Rightarrow> 'a Poller_scheme result"
    and rem :: "nat \<Rightarrow> 'a Poller_scheme \<Rightarrow> 'a Poller_scheme result"
  assumes inv_fd: "inv p \<Longrightarrow> map_find (po_channels p) fd = Some ch \<Longrightarrow> ch_fd (po_chan p ch) = fd"
    and set_chan_ok: "inv p \<Longrightarrow> ch_fd c = ch_fd (po_chan p ch) \<Longrightarrow> ch_index c = ch_index (po_chan p ch) \<Longrightarrow>
      inv (set_chan ch c p) \<and> interest (set_chan ch c p) = interest p \<and> disarmed (set_chan ch c p) = disarmed p"
    and upd_ok: "inv p \<Longrightarrow> updatable p ch \<Longrightarrow> fd = ch_fd (po_chan p ch) \<Longrightarrow>
      (map_find (po_channels p) fd = Some ch \<Longrightarrow> interest p fd = watches again old) \<Longrightarrow>
      \<exists>p'. upd ch p = Inr p' \<and> inv p' \<and> map_find (po_channels p') = (map_find (po_channels p))(fd \<mapsto> ch)
        \<and> interest p' = (interest p)(fd := watches (map_find (po_channels p) fd = Some ch
             \<and> ch_events (po_chan p ch) = 0 \<and> old = 0 \<and> \<not> again) (ch_events (po_chan p ch)))
        \<and> (\<forall>fd'. fd' \<noteq> fd \<longrightarrow> disarmed p' fd' = disarmed p fd')
        \<and> (map_find (po_channels p) fd = Some ch \<and> ch_events (po_chan p ch) = 0 \<longrightarrow> disarmed p' fd)
        \<and> (\<forall>c. same_but_index (po_chan p c) (po_chan p' c)) \<and> unregistered_kept ch p p'"
    and rem_ok: "inv p \<Longrightarrow> map_find (po_channels p) fd = Some ch \<Longrightarrow> ch_events (po_chan p ch) = 0 \<Longrightarrow> disarmed p fd \<Longrightarrow>
      \<exists>p'. rem ch p = Inr p' \<and> inv p' \<and> map_find (po_channels p') = (map_find (po_channels p))(fd := None)
        \<and> interest p' = (interest p)(fd := None)
        \<and> (\<forall>fd'. fd' \<noteq> fd \<longrightarrow> disarmed p' fd' = disarmed p fd')
        \<and> (\<forall>c. same_but_index (po_chan p c) (po_chan p' c)) \<and> unregistered_kept ch p p'"

text \<open>
  The owner's view: a table of watched descriptors. \<open>Watch ch ev\<close> is any of the enable and disable
  calls (they set \<^verbatim>\<open>events_\<close> and call \<^verbatim>\<open>update\<close>), \<open>Unwatch ch\<close> is \<^verbatim>\<open>remove\<close>. An owner keeps to the
  protocol: it registers a new channel for some event, under a free descriptor, and removes it only
  after \<^verbatim>\<open>disableAll\<close>. The table notes the descriptors whose channel was disabled again while it was
  disabled.
\<close>

datatype channel_call = Watch nat "32 word" | Unwatch nat

primrec channel_exec :: "(nat \<Rightarrow> 'a Poller_scheme \<Rightarrow> 'a Poller_scheme result) \<Rightarrow> (nat \<Rightarrow> 'a Poller_scheme \<Rightarrow> 'a Poller_scheme result)
    \<Rightarrow> channel_call \<Rightarrow> 'a Poller_scheme \<Rightarrow> 'a Poller_scheme result" where
  "channel_exec upd rem (Watch ch ev) p = Channel_update upd ch (set_events ch ev p)"
| "channel_exec upd rem (Unwatch ch) p = Channel_remove rem ch p"

record watch_table =
  wt_watched :: "int \<Rightarrow> (nat \<times> 32 word) option"
  wt_used :: "nat set"
  wt_again :: "int set"

text \<open>Disabling a disabled channel enters the note or takes it back; any other update takes it back.\<close>

definition disabled_again :: "int \<Rightarrow> 32 word \<Rightarrow> 32 word \<Rightarrow> int set \<Rightarrow> int set" where
  "disabled_again fd old ev A = (if ev = 0 \<and> old = 0 \<and> fd \<notin> A then insert fd A else A - {fd})"

lemma disabled_again_iff [simp]:
  "fd' \<in> disabled_again fd old ev A \<longleftrightarrow> (if fd' = fd then ev = 0 \<and> old = 0 \<and> fd \<notin> A else fd' \<in> A)"
  by (auto simp: disabled_again_def)

primrec protocol :: "(nat \<Rightarrow> int) \<Rightarrow> channel_call \<Rightarrow> watch_table \<Rightarrow> watch_table option" where
  "protocol fdof (Watch ch ev) w =
     (case wt_watched w (fdof ch) of
        Some (ch', old) \<Rightarrow>
          if ch' = ch then Some (w\<lparr>wt_watched := (wt_watched w)(fdof ch \<mapsto> (ch, ev)),
                                  wt_again := disabled_again (fdof ch) old ev (wt_again w)\<rparr>)
          else None
      | None \<Rightarrow> if ch \<notin> wt_used w \<and> ev \<noteq> 0 \<and> 0 \<le> fdof ch
                then Some (w\<lparr>wt_watched := (wt_watched w)(fdof ch \<mapsto> (ch, ev)), wt_used := insert ch (wt_used w),
                             wt_again := wt_again w - {fdof ch}\<rparr>)
                else None)"
| "protocol fdof (Unwatch ch) w =
     (if wt_watched w (fdof ch) = Some (ch, 0)
      then Some (w\<lparr>wt_watched := (wt_watched w)(fdof ch := None), wt_again := wt_again w - {fdof ch}\<rparr>) else None)"

fun protocol_run :: "(nat \<Rightarrow> int) \<Rightarrow> channel_call list \<Rightarrow> watch_table \<Rightarrow> watch_table option" where
  "protocol_run fdof [] w = Some w"
| "protocol_run fdof (c # cs) w = (case protocol fdof c w of None \<Rightarrow> None | Some w' \<Rightarrow> protocol_run fdof cs w')"

lemma set_chan_simps [simp]:
  "po_chan (set_chan ch c p) = (po_chan p)(ch := c)" "po_channels (set_chan ch c p) = po_channels p"
  "po_thread (set_chan ch c p) = po_thread p" "set_chan ch c (set_chan ch c' p) = set_chan ch c p"
  by (simp_all add: set_chan_def)

context poller
begin

definition refines :: "(nat \<Rightarrow> int) \<Rightarrow> watch_table \<Rightarrow> 'a Poller_scheme \<Rightarrow> bool" where
  "refines fdof w p = (inv p \<and> (\<forall>ch. ch_fd (po_chan p ch) = fdof ch)
     \<and> map_find (po_channels p) = (\<lambda>fd. map_option fst (wt_watched w fd))
     \<and> (\<forall>fd. interest p fd = (case wt_watched w fd of None \<Rightarrow> None | Some (_, ev) \<Rightarrow> watches (fd \<in> wt_again w) ev))
     \<and> (\<forall>fd ch ev. wt_watched w fd = Some (ch, ev) \<longrightarrow> 0 \<le> fd \<and> fdof ch = fd \<and> ch \<in> wt_used w
          \<and> ch_events (po_chan p ch) = ev \<and> (ev = 0 \<longrightarrow> disarmed p fd))
     \<and> (\<forall>ch. ch \<notin> wt_used w \<longrightarrow> ch_index (po_chan p ch) = -1))"

lemma refinesD:
  assumes "refines fdof w p"
  shows "inv p" "ch_fd (po_chan p ch) = fdof ch" "map_find (po_channels p) fd = map_option fst (wt_watched w fd)"
    "interest p fd = (case wt_watched w fd of None \<Rightarrow> None | Some (_, ev) \<Rightarrow> watches (fd \<in> wt_again w) ev)"
    "wt_watched w fd = Some (ch, ev) \<Longrightarrow> 0 \<le> fd \<and> fdof ch = fd \<and> ch \<in> wt_used w
       \<and> ch_events (po_chan p ch) = ev \<and> (ev = 0 \<longrightarrow> disarmed p fd)"
    "ch \<notin> wt_used w \<Longrightarrow> ch_index (po_chan p ch) = -1"
  using assms unfolding refines_def by (simp_all add: fun_eq_iff)

text \<open>A call that leaves the other descriptors alone and treats its own as the protocol does.\<close>

lemma refines_step:
  assumes R: "refines fdof w p" and fd: "fdof ch = fd"
    and inv': "inv p'" and chans: "map_find (po_channels p') = (map_find (po_channels p))(fd := map_option fst e)"
    and int: "interest p' = (interest p)(fd := (case e of None \<Rightarrow> None | Some (_, ev) \<Rightarrow> watches (fd \<in> wt_again w') ev))"
    and dis: "\<forall>fd'. fd' \<noteq> fd \<longrightarrow> disarmed p' fd' = disarmed p fd'"
    and same: "\<And>c. c \<noteq> ch \<Longrightarrow> same_but_index (po_chan p c) (po_chan p' c)" "ch_fd (po_chan p' ch) = fd"
    and kept: "\<And>c. c \<noteq> ch \<Longrightarrow> \<forall>fd. map_find (po_channels p) fd \<noteq> Some c \<Longrightarrow> po_chan p' c = po_chan p c"
    and w': "wt_watched w' = (wt_watched w)(fd := e)" "wt_used w' = insert ch (wt_used w)"
    "\<And>fd'. fd' \<noteq> fd \<Longrightarrow> fd' \<in> wt_again w' \<longleftrightarrow> fd' \<in> wt_again w"
    and own: "\<And>c ev. e = Some (c, ev) \<Longrightarrow> c = ch \<and> 0 \<le> fd \<and> ch_events (po_chan p' ch) = ev \<and> (ev = 0 \<longrightarrow> disarmed p' fd)"
  shows "refines fdof w' p'"
  unfolding refines_def
proof (intro conjI allI impI)
  note D = refinesD [OF R]
  show "inv p'" by (rule inv')
  show "ch_fd (po_chan p' c) = fdof c" for c
    using same_but_indexD(1) [OF same(1), of c] same(2) fd D(2) by (cases "c = ch") auto
  show "map_find (po_channels p') = (\<lambda>fd. map_option fst (wt_watched w' fd))"
    by (auto simp: fun_eq_iff chans w' D(3))
  show "interest p' fd' = (case wt_watched w' fd' of None \<Rightarrow> None | Some (_, ev) \<Rightarrow> watches (fd' \<in> wt_again w') ev)" for fd'
    by (cases "fd' = fd") (auto simp: int w' D(4) split: option.splits)
  show "ch_index (po_chan p' c) = -1" if "c \<notin> wt_used w'" for c
  proof -
    have c: "c \<noteq> ch" "c \<notin> wt_used w" using that w' by auto
    have "map_find (po_channels p) fd' \<noteq> Some c" for fd'
      using D(5) [of fd' c] c(2) unfolding D(3) by (cases "wt_watched w fd'") auto
    then show ?thesis using kept [OF c(1)] D(6) [OF c(2)] by simp
  qed
  fix fd' c ev
  assume e: "wt_watched w' fd' = Some (c, ev)"
  have "(0 \<le> fd' \<and> fdof c = fd' \<and> c \<in> wt_used w') \<and> ch_events (po_chan p' c) = ev \<and> (ev = 0 \<longrightarrow> disarmed p' fd')"
  proof (cases "fd' = fd")
    case True
    then show ?thesis using own [of c ev] e fd by (auto simp: w')
  next
    case False
    then have d: "0 \<le> fd' \<and> fdof c = fd' \<and> c \<in> wt_used w \<and> ch_events (po_chan p c) = ev \<and> (ev = 0 \<longrightarrow> disarmed p fd')"
      using D(5) [of fd' c ev] e by (simp add: w')
    then have "c \<noteq> ch" using False fd by auto
    then show ?thesis using d False dis same_but_indexD(2) [OF same(1), of c] by (auto simp: w')
  qed
  then show "0 \<le> fd'" "fdof c = fd'" "c \<in> wt_used w'" "ch_events (po_chan p' c) = ev" "ev = 0 \<Longrightarrow> disarmed p' fd'"
    by auto
qed

lemma watch_refines:
  assumes "refines fdof w p" "protocol fdof (Watch ch ev) w = Some w'"
  shows "\<exists>p'. channel_exec upd rem (Watch ch ev) p = Inr p' \<and> refines fdof w' p'"
proof -
  note D = refinesD [OF assms(1)]
  let ?fd = "fdof ch" and ?c = "(po_chan p ch)\<lparr>ch_events := ev, ch_addedToLoop := True\<rparr>"
  define p1 where "p1 = set_chan ch ?c p"
  have s: "inv p1" "interest p1 = interest p" "disarmed p1 = disarmed p"
    using set_chan_ok [of p ?c ch] D(1) by (simp_all add: p1_def)
  have fd: "ch_fd (po_chan p1 ch) = ?fd" "ch_events (po_chan p1 ch) = ev" "po_channels p1 = po_channels p"
    using D(2) by (simp_all add: p1_def)
  have w': "wt_watched w' = (wt_watched w)(?fd \<mapsto> (ch, ev))" "wt_used w' = insert ch (wt_used w)" "0 \<le> ?fd"
    and reg: "map_find (po_channels p) ?fd = Some ch \<or> map_find (po_channels p) ?fd = None \<and> ch \<notin> wt_used w \<and> ev \<noteq> 0"
    using assms(2) D(5) [of ?fd ch] by (auto simp: D(3) split: option.splits if_splits)
  define old where "old = (case wt_watched w ?fd of Some (_, old) \<Rightarrow> old | None \<Rightarrow> 1)"
  have ag: "fd' \<in> wt_again w' \<longleftrightarrow> (if fd' = ?fd then map_find (po_channels p) ?fd = Some ch \<and> ev = 0 \<and> old = 0 \<and> ?fd \<notin> wt_again w
       else fd' \<in> wt_again w)" for fd'
    using assms(2) by (auto simp: D(3) old_def split: option.splits if_splits)
  have int: "interest p1 ?fd = watches (?fd \<in> wt_again w) old" if "map_find (po_channels p1) ?fd = Some ch"
    using that fd(3) D(4) [of ?fd] s(2) by (auto simp: D(3) old_def split: option.splits)
  have up: "updatable p1 ch" using reg w'(3) D(6) [of ch] fd by (auto simp: updatable_def p1_def)
  obtain p' where p': "upd ch p1 = Inr p'" "inv p'" "map_find (po_channels p') = (map_find (po_channels p))(?fd \<mapsto> ch)"
      "interest p' = (interest p)(?fd := watches (?fd \<in> wt_again w') ev)" "\<forall>fd'. fd' \<noteq> ?fd \<longrightarrow> disarmed p' fd' = disarmed p fd'"
      "map_find (po_channels p) ?fd = Some ch \<and> ev = 0 \<longrightarrow> disarmed p' ?fd"
      "\<forall>c. same_but_index (po_chan p1 c) (po_chan p' c)" "unregistered_kept ch p1 p'"
    using upd_ok [OF s(1) up fd(1) [symmetric] int] fd s ag [of ?fd] by (auto simp: D(3))
  have ex: "channel_exec upd rem (Watch ch ev) p = Inr p'"
    using p'(1) by (simp add: Channel_update_def set_events_def p1_def)
  have own: "ch_fd (po_chan p' ch) = ?fd" "ch_events (po_chan p' ch) = ev"
    using same_but_indexD [OF p'(7) [rule_format, of ch]] fd by simp_all
  have "refines fdof w' p'"
  proof (rule refines_step [OF assms(1) refl p'(2), where e = "Some (ch, ev)"])
    show "same_but_index (po_chan p c) (po_chan p' c)" if "c \<noteq> ch" for c
      using p'(7) [rule_format, of c] that by (simp add: p1_def)
    show "po_chan p' c = po_chan p c" if "c \<noteq> ch" "\<forall>fd. map_find (po_channels p) fd \<noteq> Some c" for c
      using p'(8) that by (simp add: unregistered_kept_def p1_def)
    show "fd' \<in> wt_again w' \<longleftrightarrow> fd' \<in> wt_again w" if "fd' \<noteq> ?fd" for fd' using ag [of fd'] that by simp
  qed (use p' own w' reg in auto)
  with ex show ?thesis by blast
qed

lemma unwatch_refines:
  assumes "refines fdof w p" "protocol fdof (Unwatch ch) w = Some w'"
  shows "\<exists>p'. channel_exec upd rem (Unwatch ch) p = Inr p' \<and> refines fdof w' p'"
proof -
  note D = refinesD [OF assms(1)]
  let ?fd = "fdof ch" and ?c = "(po_chan p ch)\<lparr>ch_addedToLoop := False\<rparr>"
  define p1 where "p1 = set_chan ch ?c p"
  have s: "inv p1" "interest p1 = interest p" "disarmed p1 = disarmed p"
    using set_chan_ok [of p ?c ch] D(1) by (simp_all add: p1_def)
  have w: "wt_watched w ?fd = Some (ch, 0)" and w': "w' = w\<lparr>wt_watched := (wt_watched w)(?fd := None), wt_again := wt_again w - {?fd}\<rparr>"
    using assms(2) by (auto split: if_splits)
  have o: "ch_events (po_chan p ch) = 0" "disarmed p ?fd" "ch \<in> wt_used w" "map_find (po_channels p) ?fd = Some ch"
    using D(5) [OF w] D(3) [of ?fd] w by auto
  have pre: "map_find (po_channels p1) ?fd = Some ch" "ch_events (po_chan p1 ch) = 0" "disarmed p1 ?fd"
    using o s by (simp_all add: p1_def)
  obtain p' where p': "rem ch p1 = Inr p'" "inv p'" "map_find (po_channels p') = (map_find (po_channels p))(?fd := None)"
      "interest p' = (interest p)(?fd := None)" "\<forall>fd'. fd' \<noteq> ?fd \<longrightarrow> disarmed p' fd' = disarmed p fd'"
      "\<forall>c. same_but_index (po_chan p1 c) (po_chan p' c)" "unregistered_kept ch p1 p'"
    using rem_ok [OF s(1) pre] s by (auto simp: p1_def)
  have ex: "channel_exec upd rem (Unwatch ch) p = Inr p'"
    using p'(1) o(1) by (simp add: Channel_remove_def isNoneEvent_def kNoneEvent_def p1_def)
  have "refines fdof w' p'"
  proof (rule refines_step [OF assms(1) refl p'(2), where e = None])
    show "same_but_index (po_chan p c) (po_chan p' c)" if "c \<noteq> ch" for c
      using p'(6) [rule_format, of c] that by (simp add: p1_def)
    show "po_chan p' c = po_chan p c" if "c \<noteq> ch" "\<forall>fd. map_find (po_channels p) fd \<noteq> Some c" for c
      using p'(7) that by (simp add: unregistered_kept_def p1_def)
    show "ch_fd (po_chan p' ch) = ?fd"
      using same_but_indexD [OF p'(6) [rule_format, of ch]] D(2) by (simp add: p1_def)
  qed (use p' w' o in \<open>auto simp: insert_absorb\<close>)
  with ex show ?thesis by blast
qed

lemma run_refines:
  "refines fdof w p \<Longrightarrow> protocol_run fdof calls w = Some w' \<Longrightarrow>
     \<exists>p'. foldR (channel_exec upd rem) calls p = Inr p' \<and> refines fdof w' p'"
proof (induction calls arbitrary: w p)
  case Nil
  then show ?case by simp
next
  case (Cons c cs)
  then obtain w1 where w1: "protocol fdof c w = Some w1" "protocol_run fdof cs w1 = Some w'"
    by (auto split: option.splits)
  obtain p1 where "channel_exec upd rem c p = Inr p1" "refines fdof w1 p1"
    using watch_refines [OF Cons.prems(1)] unwatch_refines [OF Cons.prems(1)] w1(1) by (cases c; blast)
  with Cons.IH [OF this(2) w1(2)] show ?case by auto
qed

end

section \<open>EPollPoller satisfies the contract\<close>

definition EP_inv :: "EPollPoller \<Rightarrow> bool" where
  "EP_inv p = (map_ok (po_channels p) \<and> map_ok (ep_kernel p)
     \<and> (\<forall>fd ch. map_find (po_channels p) fd = Some ch \<longrightarrow> ch_fd (po_chan p ch) = fd
          \<and> (if map_find (ep_kernel p) fd = None then ch_index (po_chan p ch) = kDeleted
             else ch_index (po_chan p ch) = kAdded \<and> (\<exists>ev. map_find (ep_kernel p) fd = Some (ev, ch))))
     \<and> (\<forall>fd. map_find (po_channels p) fd = None \<longrightarrow> map_find (ep_kernel p) fd = None))"

definition ep_interest :: "EPollPoller \<Rightarrow> int \<Rightarrow> 32 word option" where
  "ep_interest p fd = map_option fst (map_find (ep_kernel p) fd)"

text \<open>The kernel gets the whole mask. A disabled channel is taken out of the interest list, but the
  next \<^verbatim>\<open>updateChannel\<close> finds \<^verbatim>\<open>kDeleted\<close> and adds it again, whatever its events are.\<close>

definition ep_watches :: "bool \<Rightarrow> 32 word \<Rightarrow> 32 word option" where
  "ep_watches again ev = (if ev = 0 \<and> \<not> again then None else Some ev)"

lemma EP_invD:
  assumes "EP_inv p"
  shows "map_ok (po_channels p)" "map_ok (ep_kernel p)"
    "map_find (po_channels p) fd = Some ch \<Longrightarrow> ch_fd (po_chan p ch) = fd"
    "map_find (po_channels p) fd = Some ch \<Longrightarrow> (if map_find (ep_kernel p) fd = None then ch_index (po_chan p ch) = kDeleted
             else ch_index (po_chan p ch) = kAdded \<and> (\<exists>ev. map_find (ep_kernel p) fd = Some (ev, ch)))"
    "map_find (po_channels p) fd = None \<Longrightarrow> map_find (ep_kernel p) fd = None"
  using assms unfolding EP_inv_def by blast+

lemmas index_consts = kNew_def kAdded_def kDeleted_def

text \<open>One call of \<^verbatim>\<open>updateChannel\<close> or \<^verbatim>\<open>removeChannel\<close> changes the two tables at one descriptor.\<close>

lemma EP_inv_step:
  assumes "EP_inv p" "ch_fd (po_chan p ch) = fd"
    and "map_ok (po_channels p')" "map_ok (ep_kernel p')"
    and "map_find (po_channels p') = (map_find (po_channels p))(fd := r)"
    and "map_find (ep_kernel p') = (map_find (ep_kernel p))(fd := k)"
    and "po_chan p' = (po_chan p)(ch := (po_chan p ch)\<lparr>ch_index := i\<rparr>)"
    and "r = None \<and> k = None \<or> r = Some ch \<and> (k = None \<and> i = kDeleted \<or> (\<exists>ev. k = Some (ev, ch)) \<and> i = kAdded)"
  shows "EP_inv p'"
  unfolding EP_inv_def
proof (intro conjI allI impI)
  note D = EP_invD [OF assms(1)]
  fix fd' c
  show "map_ok (po_channels p')" "map_ok (ep_kernel p')" by (fact assms)+
  show "map_find (ep_kernel p') fd' = None" if "map_find (po_channels p') fd' = None"
    using that D(5) [of fd'] assms(5,6,8) by (auto split: if_splits)
  assume c: "map_find (po_channels p') fd' = Some c"
  show "ch_fd (po_chan p' c) = fd'"
    using c D(3) [of fd' c] assms(2,5,7,8) by (auto split: if_splits)
  show "if map_find (ep_kernel p') fd' = None then ch_index (po_chan p' c) = kDeleted
        else ch_index (po_chan p' c) = kAdded \<and> (\<exists>ev. map_find (ep_kernel p') fd' = Some (ev, c))"
  proof (cases "fd' = fd")
    case True
    then show ?thesis using c assms(5-8) by (auto split: if_splits)
  next
    case False
    then have "map_find (po_channels p) fd' = Some c" "c \<noteq> ch" using c assms(2,5) D(3) [of fd' c] by auto
    then show ?thesis using False D(4) [of fd' c] assms(6,7) by auto
  qed
qed

lemma EP_update_ok:
  assumes "EP_inv p" "updatable p ch" "fd = ch_fd (po_chan p ch)"
  shows "\<exists>p' i. EPollPoller_updateChannel (po_thread p) ch p = Inr p' \<and> EP_inv p'
     \<and> map_find (po_channels p') = (map_find (po_channels p))(fd \<mapsto> ch)
     \<and> ep_interest p' = (ep_interest p)(fd := if ch_events (po_chan p ch) = 0 \<and> ep_interest p fd \<noteq> None then None
          else Some (ch_events (po_chan p ch)))
     \<and> po_chan p' = (po_chan p)(ch := (po_chan p ch)\<lparr>ch_index := i\<rparr>) \<and> po_thread p' = po_thread p"
proof -
  note D = EP_invD [OF assms(1)]
  let ?c = "po_chan p ch" and ?ev = "(ch_events (po_chan p ch), ch)"
  let ?add = "(set_index ch kAdded (p\<lparr>po_channels := map_put fd ch (po_channels p)\<rparr>))\<lparr>ep_kernel := map_put fd ?ev (ep_kernel p)\<rparr>"
  let ?readd = "(set_index ch kAdded p)\<lparr>ep_kernel := map_put fd ?ev (ep_kernel p)\<rparr>"
  let ?mod = "p\<lparr>ep_kernel := map_put fd ?ev (ep_kernel p)\<rparr>"
  let ?del = "set_index ch kDeleted (p\<lparr>ep_kernel := snd (map_erase fd (ep_kernel p))\<rparr>)"
  consider (new) "map_find (po_channels p) fd = None" "ch_index ?c = -1" "map_find (ep_kernel p) fd = None"
    | (deleted) "map_find (po_channels p) fd = Some ch" "ch_index ?c = kDeleted" "map_find (ep_kernel p) fd = None"
    | (added) ev where "map_find (po_channels p) fd = Some ch" "ch_index ?c = kAdded" "map_find (ep_kernel p) fd = Some (ev, ch)"
    using assms(2,3) D(4) [of fd ch] D(5) [of fd] by (auto simp: updatable_def Let_def split: if_splits)
  then show ?thesis
  proof cases
    case new
    have "EPollPoller_updateChannel (po_thread p) ch p = Inr ?add"
      using new assms(3) by (simp add: EPollPoller_updateChannel_def po_assertInLoopThread_def index_consts
          EPollPoller_update_def epoll_ctl_def Let_def set_index_def set_chan_def)
    moreover have "EP_inv ?add"
      by (rule EP_inv_step [OF assms(1) assms(3) [symmetric]])
        (use new D(1,2) assms(3) in \<open>auto simp: map_laws set_index_def set_chan_def fun_eq_iff\<close>)
    ultimately show ?thesis using D(1,2) new(3)
      by (intro exI [of _ ?add] exI [of _ kAdded]) (auto simp: map_laws set_index_def set_chan_def ep_interest_def fun_eq_iff)
  next
    case deleted
    have "EPollPoller_updateChannel (po_thread p) ch p = Inr ?readd"
      using deleted assms(3) by (simp add: EPollPoller_updateChannel_def po_assertInLoopThread_def index_consts
          EPollPoller_update_def epoll_ctl_def Let_def set_index_def set_chan_def)
    moreover have "EP_inv ?readd"
      by (rule EP_inv_step [OF assms(1) assms(3) [symmetric]])
        (use deleted D(1,2) assms(3) in \<open>auto simp: map_laws set_index_def set_chan_def fun_eq_iff\<close>)
    ultimately show ?thesis using D(1,2) deleted
      by (intro exI [of _ ?readd] exI [of _ kAdded]) (auto simp: map_laws set_index_def set_chan_def ep_interest_def fun_eq_iff)
  next
    case added
    show ?thesis
    proof (cases "ch_events ?c = 0")
      case True
      have "EPollPoller_updateChannel (po_thread p) ch p = Inr ?del"
        using added assms(3) True by (simp add: EPollPoller_updateChannel_def po_assertInLoopThread_def index_consts
            EPollPoller_update_def epoll_ctl_def Let_def set_index_def set_chan_def isNoneEvent_def kNoneEvent_def)
      moreover have "EP_inv ?del"
        by (rule EP_inv_step [OF assms(1) assms(3) [symmetric]])
          (use added D(1,2) assms(3) in \<open>auto simp: map_laws set_index_def set_chan_def fun_eq_iff\<close>)
      ultimately show ?thesis using D(1,2) added True
        by (intro exI [of _ ?del] exI [of _ kDeleted]) (auto simp: map_laws set_index_def set_chan_def ep_interest_def fun_eq_iff)
    next
      case False
      have "EPollPoller_updateChannel (po_thread p) ch p = Inr ?mod"
        using added assms(3) False by (simp add: EPollPoller_updateChannel_def po_assertInLoopThread_def index_consts
            EPollPoller_update_def epoll_ctl_def Let_def isNoneEvent_def kNoneEvent_def)
      moreover have "EP_inv ?mod"
        by (rule EP_inv_step [OF assms(1) assms(3) [symmetric], where i = "ch_index ?c"])
          (use added D(1,2) assms(3) in \<open>auto simp: map_laws fun_eq_iff\<close>)
      ultimately show ?thesis using D(1,2) added False
        by (intro exI [of _ ?mod] exI [of _ "ch_index ?c"]) (auto simp: map_laws ep_interest_def fun_eq_iff)
    qed
  qed
qed

lemma EP_remove_ok:
  assumes "EP_inv p" "map_find (po_channels p) fd = Some ch" "ch_events (po_chan p ch) = 0"
  shows "\<exists>p'. EPollPoller_removeChannel (po_thread p) ch p = Inr p' \<and> EP_inv p'
     \<and> map_find (po_channels p') = (map_find (po_channels p))(fd := None)
     \<and> ep_interest p' = (ep_interest p)(fd := None)
     \<and> po_chan p' = (po_chan p)(ch := (po_chan p ch)\<lparr>ch_index := kNew\<rparr>) \<and> po_thread p' = po_thread p"
proof -
  note D = EP_invD [OF assms(1)]
  have fd: "ch_fd (po_chan p ch) = fd" using D(3) assms(2) by blast
  have n: "fst (map_erase fd (po_channels p)) = 1" using smap.count_erase [OF D(1), of fd] assms(2) by simp
  then obtain chs where er: "map_erase fd (po_channels p) = (1, chs)" by (cases "map_erase fd (po_channels p)") auto
  have chs: "map_ok chs" "map_find chs = (map_find (po_channels p))(fd := None)"
    using smap.inv_erase [OF D(1), of fd] smap.lookup_erase [OF D(1), of fd] er by simp_all
  let ?k = "if map_find (ep_kernel p) fd = None then ep_kernel p else snd (map_erase fd (ep_kernel p))"
  let ?p = "set_index ch kNew (p\<lparr>po_channels := chs, ep_kernel := ?k\<rparr>)"
  have k: "map_ok ?k" "map_find ?k = (map_find (ep_kernel p))(fd := None)"
    using D(2) by (auto simp: map_laws)
  have idx: "ch_index (po_chan p ch) = (if map_find (ep_kernel p) fd = None then kDeleted else kAdded)"
    using D(4) [OF assms(2)] by (auto split: if_splits)
  have "EPollPoller_removeChannel (po_thread p) ch p = Inr ?p"
    using assms(2,3) fd er idx by (auto simp: EPollPoller_removeChannel_def po_assertInLoopThread_def index_consts
        EPollPoller_update_def epoll_ctl_def Let_def isNoneEvent_def kNoneEvent_def set_index_def set_chan_def)
  moreover have "EP_inv ?p"
    by (rule EP_inv_step [OF assms(1) fd, where r = None and k = None and i = kNew])
      (use chs k in \<open>auto simp: set_index_def set_chan_def\<close>)
  moreover have "ep_interest ?p = (ep_interest p)(fd := None)"
    using k(2) by (auto simp: ep_interest_def set_index_def set_chan_def fun_eq_iff)
  ultimately show ?thesis using chs by (intro exI [of _ ?p]) (auto simp: set_index_def set_chan_def)
qed

definition EP_inv_in :: "nat \<Rightarrow> EPollPoller \<Rightarrow> bool" where
  "EP_inv_in tid p = (EP_inv p \<and> po_thread p = tid)"

interpretation epoll: poller "EP_inv_in tid" ep_watches ep_interest "\<lambda>_ _. True"
    "EPollPoller_updateChannel tid" "EPollPoller_removeChannel tid"
proof (unfold_locales, goal_cases)
  case (1 p fd ch)
  then show ?case using EP_invD(3) by (auto simp: EP_inv_in_def)
next
  case (2 p c ch)
  then show ?case by (auto simp: EP_inv_in_def EP_inv_def set_chan_def ep_interest_def fun_eq_iff)
next
  case (3 p ch fd again old)
  then have i: "EP_inv p" "po_thread p = tid" by (simp_all add: EP_inv_in_def)
  have "(if ch_events (po_chan p ch) = 0 \<and> ep_interest p fd \<noteq> None then None else Some (ch_events (po_chan p ch)))
      = ep_watches (map_find (po_channels p) fd = Some ch \<and> ch_events (po_chan p ch) = 0 \<and> old = 0 \<and> \<not> again)
          (ch_events (po_chan p ch))"
    using 3(2-4) by (auto simp: ep_watches_def updatable_def Let_def split: if_splits)
  with EP_update_ok [OF i(1) 3(2,3)] i(2) show ?case
    by (force simp: EP_inv_in_def unregistered_kept_def)
next
  case (4 p fd ch)
  then have "EP_inv p" "po_thread p = tid" by (simp_all add: EP_inv_in_def)
  from EP_remove_ok [OF this(1) 4(2,3)] this(2) show ?case
    by (force simp: EP_inv_in_def unregistered_kept_def)
qed

section \<open>PollPoller satisfies the contract\<close>

definition pp_entry :: "PollPoller \<Rightarrow> nat \<Rightarrow> pollfd" where
  "pp_entry p ch = pp_pollfds p ! nat (ch_index (po_chan p ch))"

definition PP_slot :: "PollPoller \<Rightarrow> int \<Rightarrow> nat \<Rightarrow> bool" where
  "PP_slot p fd ch = (ch_fd (po_chan p ch) = fd \<and> 0 \<le> fd \<and> 0 \<le> ch_index (po_chan p ch)
     \<and> nat (ch_index (po_chan p ch)) < length (pp_pollfds p)
     \<and> (pfd_fd (pp_entry p ch) = fd \<or> pfd_fd (pp_entry p ch) = - fd - 1))"

definition PP_inv :: "PollPoller \<Rightarrow> bool" where
  "PP_inv p = (map_ok (po_channels p)
     \<and> (\<forall>fd ch. map_find (po_channels p) fd = Some ch \<longrightarrow> PP_slot p fd ch)
     \<and> (\<forall>i < length (pp_pollfds p). \<exists>fd ch. map_find (po_channels p) fd = Some ch \<and> ch_index (po_chan p ch) = int i))"

definition pp_interest :: "PollPoller \<Rightarrow> int \<Rightarrow> 16 word option" where
  "pp_interest p fd = (case map_find (po_channels p) fd of None \<Rightarrow> None
     | Some ch \<Rightarrow> if pfd_fd (pp_entry p ch) = fd then Some (pfd_events (pp_entry p ch)) else None)"

text \<open>The kernel gets the low sixteen bits of the mask, and never sees a disabled channel.\<close>

definition pp_watches :: "bool \<Rightarrow> 32 word \<Rightarrow> 16 word option" where
  "pp_watches again ev = (if ev = 0 then None else Some (ucast ev))"

definition pp_disarmed :: "PollPoller \<Rightarrow> int \<Rightarrow> bool" where
  "pp_disarmed p fd = (case map_find (po_channels p) fd of None \<Rightarrow> True
     | Some ch \<Rightarrow> pfd_fd (pp_entry p ch) = - fd - 1 \<and> pfd_events (pp_entry p ch) = 0)"

lemma PP_invD:
  assumes "PP_inv p"
  shows "map_ok (po_channels p)" "map_find (po_channels p) fd = Some ch \<Longrightarrow> PP_slot p fd ch"
    "i < length (pp_pollfds p) \<Longrightarrow> \<exists>fd ch. map_find (po_channels p) fd = Some ch \<and> ch_index (po_chan p ch) = int i"
  using assms unfolding PP_inv_def by blast+

text \<open>The entry tells the descriptor, so two registered channels never share a position.\<close>

lemma PP_slot_inj:
  "PP_slot p fd ch \<Longrightarrow> PP_slot p fd' ch' \<Longrightarrow> ch_index (po_chan p ch) = ch_index (po_chan p ch') \<Longrightarrow> fd = fd'"
  by (auto simp: PP_slot_def pp_entry_def)

text \<open>A descriptor whose channel and entry are as before is treated as before.\<close>

lemma pp_same:
  assumes "map_find (po_channels p') fd = map_find (po_channels p) fd"
    and "\<And>ch. map_find (po_channels p) fd = Some ch \<Longrightarrow> pp_entry p' ch = pp_entry p ch"
  shows "pp_interest p' fd = pp_interest p fd" "pp_disarmed p' fd = pp_disarmed p fd"
  using assms by (auto simp: pp_interest_def pp_disarmed_def split: option.splits)

lemma PP_update_new:
  assumes "PP_inv p" "map_find (po_channels p) fd = None" "ch_index (po_chan p ch) = -1" "fd = ch_fd (po_chan p ch)" "0 \<le> fd"
  shows "\<exists>p' i. PollPoller_updateChannel (po_thread p) ch p = Inr p' \<and> PP_inv p'
     \<and> map_find (po_channels p') = (map_find (po_channels p))(fd \<mapsto> ch)
     \<and> pp_interest p' = (pp_interest p)(fd := Some (ucast (ch_events (po_chan p ch))))
     \<and> (\<forall>fd'. fd' \<noteq> fd \<longrightarrow> pp_disarmed p' fd' = pp_disarmed p fd')
     \<and> po_chan p' = (po_chan p)(ch := (po_chan p ch)\<lparr>ch_index := i\<rparr>) \<and> po_thread p' = po_thread p"
proof -
  note D = PP_invD [OF assms(1)]
  let ?n = "length (pp_pollfds p)"
  define pfd where "pfd = \<lparr>pfd_fd = fd, pfd_events = ucast (ch_events (po_chan p ch)), pfd_revents = 0\<rparr>"
  define p' where "p' = (set_index ch (int ?n) (p\<lparr>pp_pollfds := pp_pollfds p @ [pfd]\<rparr>))\<lparr>po_channels := map_put fd ch (po_channels p)\<rparr>"
  have res: "PollPoller_updateChannel (po_thread p) ch p = Inr p'"
    using assms(2-4) by (simp add: PollPoller_updateChannel_def po_assertInLoopThread_def Let_def p'_def pfd_def
        set_index_def set_chan_def)
  have f: "pp_pollfds p' = pp_pollfds p @ [pfd]" "po_chan p' = (po_chan p)(ch := (po_chan p ch)\<lparr>ch_index := int ?n\<rparr>)"
    "map_find (po_channels p') = (map_find (po_channels p))(fd \<mapsto> ch)" "po_thread p' = po_thread p" "map_ok (po_channels p')"
    using D(1) by (simp_all add: p'_def set_index_def set_chan_def map_laws)
  have other: "c \<noteq> ch" "pp_entry p' c = pp_entry p c" if "map_find (po_channels p) fd' = Some c" for fd' c
    using D(2) [OF that] assms(3) by (auto simp: PP_slot_def pp_entry_def f nth_append)
  have own: "pp_entry p' ch = pfd" by (simp add: pp_entry_def f)
  have slot: "PP_slot p' fd' c" if "map_find (po_channels p') fd' = Some c" for fd' c
  proof (cases "fd' = fd")
    case True
    then show ?thesis using that own assms(4,5) by (auto simp: f PP_slot_def pfd_def)
  next
    case False
    then have o: "map_find (po_channels p) fd' = Some c" using that by (simp add: f)
    from D(2) [OF o] other [OF o] show ?thesis by (auto simp: PP_slot_def f)
  qed
  have cover: "\<exists>fd' c. map_find (po_channels p') fd' = Some c \<and> ch_index (po_chan p' c) = int i" if "i < length (pp_pollfds p')" for i
  proof (cases "i = ?n")
    case True
    then show ?thesis by (intro exI [of _ fd] exI [of _ ch]) (simp add: f)
  next
    case False
    then have "i < ?n" using that by (simp add: f)
    then obtain fd' c where o: "map_find (po_channels p) fd' = Some c" "ch_index (po_chan p c) = int i"
      using D(3) [of i] by blast
    then show ?thesis using other(1) [OF o(1)] assms(2) by (intro exI [of _ fd'] exI [of _ c]) (auto simp: f)
  qed
  have inv: "PP_inv p'" unfolding PP_inv_def using slot cover f(5) by blast
  have sm: "pp_interest p' fd' = pp_interest p fd'" "pp_disarmed p' fd' = pp_disarmed p fd'" if "fd' \<noteq> fd" for fd'
    using pp_same [of p' fd' p] other(2) that by (simp_all add: f)
  have "pp_interest p' = (pp_interest p)(fd := Some (ucast (ch_events (po_chan p ch))))"
    using sm(1) own by (auto simp: fun_eq_iff pp_interest_def [of p' fd] f pfd_def)
  then show ?thesis using res inv f sm(2) by (intro exI [of _ p'] exI [of _ "int ?n"]) auto
qed

lemma PP_update_old:
  assumes "PP_inv p" "map_find (po_channels p) fd = Some ch"
  shows "\<exists>p'. PollPoller_updateChannel (po_thread p) ch p = Inr p' \<and> PP_inv p'
     \<and> po_channels p' = po_channels p
     \<and> pp_interest p' = (pp_interest p)(fd := pp_watches again (ch_events (po_chan p ch)))
     \<and> (\<forall>fd'. fd' \<noteq> fd \<longrightarrow> pp_disarmed p' fd' = pp_disarmed p fd')
     \<and> (ch_events (po_chan p ch) = 0 \<longrightarrow> pp_disarmed p' fd)
     \<and> po_chan p' = po_chan p \<and> po_thread p' = po_thread p"
proof -
  note D = PP_invD [OF assms(1)]
  let ?c = "po_chan p ch" and ?i = "nat (ch_index (po_chan p ch))"
  have slot: "PP_slot p fd ch" by (rule D(2) [OF assms(2)])
  note S = slot [unfolded PP_slot_def]
  define pfd where "pfd = \<lparr>pfd_fd = (if isNoneEvent ?c then - fd - 1 else fd), pfd_events = ucast (ch_events ?c), pfd_revents = (0::16 word)\<rparr>"
  define p' where "p' = p\<lparr>pp_pollfds := (pp_pollfds p)[?i := pfd]\<rparr>"
  have "ch_index ?c < int (length (pp_pollfds p))" using S by linarith
  then have res: "PollPoller_updateChannel (po_thread p) ch p = Inr p'"
    using assms(2) S by (auto simp: PollPoller_updateChannel_def po_assertInLoopThread_def Let_def p'_def pfd_def
        pollfd_at_def pp_entry_def)
  have f: "po_channels p' = po_channels p" "po_chan p' = po_chan p" "po_thread p' = po_thread p"
    "length (pp_pollfds p') = length (pp_pollfds p)" by (simp_all add: p'_def)
  have own: "pp_entry p' ch = pfd" using S by (simp add: pp_entry_def p'_def)
  have other: "pp_entry p' c = pp_entry p c" if "map_find (po_channels p) fd' = Some c" "fd' \<noteq> fd" for fd' c
  proof -
    have "ch_index (po_chan p c) \<noteq> ch_index ?c" using PP_slot_inj [OF D(2) [OF that(1)] slot] that(2) by blast
    moreover have "0 \<le> ch_index (po_chan p c)" using D(2) [OF that(1)] by (simp add: PP_slot_def)
    ultimately show ?thesis using S by (simp add: pp_entry_def p'_def nat_eq_iff nth_list_update)
  qed
  have inv: "PP_inv p'"
    unfolding PP_inv_def f
  proof (intro conjI allI impI)
    show "PP_slot p' fd' c" if "map_find (po_channels p) fd' = Some c" for fd' c
      using D(2) [OF that] other [OF that] own that assms(2)
      by (cases "fd' = fd") (auto simp: PP_slot_def f pfd_def)
  qed (use D in auto)
  have sm: "pp_interest p' fd' = pp_interest p fd'" "pp_disarmed p' fd' = pp_disarmed p fd'" if "fd' \<noteq> fd" for fd'
    using pp_same [of p' fd' p] other that by (simp_all add: f)
  have "pp_interest p' fd = pp_watches again (ch_events ?c)" "ch_events ?c = 0 \<longrightarrow> pp_disarmed p' fd"
    using own assms(2) S by (auto simp: pp_interest_def pp_disarmed_def pp_watches_def f pfd_def isNoneEvent_def kNoneEvent_def)
  then show ?thesis using res inv f sm by (intro exI [of _ p']) (auto simp: fun_eq_iff)
qed

text \<open>Removal. The position of the removed channel is taken over by the last entry.\<close>

lemma PP_last_channel:
  assumes "PP_inv p" "pp_pollfds p \<noteq> []"
  obtains fdE chE where "map_find (po_channels p) fdE = Some chE"
    "ch_index (po_chan p chE) = int (length (pp_pollfds p) - 1)"
    "(if pfd_fd (last (pp_pollfds p)) < 0 then - pfd_fd (last (pp_pollfds p)) - 1 else pfd_fd (last (pp_pollfds p))) = fdE"
proof -
  have "length (pp_pollfds p) - 1 < length (pp_pollfds p)" using assms(2) by simp
  from PP_invD(3) [OF assms(1) this] obtain fdE chE where
    e: "map_find (po_channels p) fdE = Some chE" "ch_index (po_chan p chE) = int (length (pp_pollfds p) - 1)" by blast
  have "pp_entry p chE = last (pp_pollfds p)" using e(2) assms(2) by (simp add: pp_entry_def last_conv_nth nat_diff_distrib)
  then have "pfd_fd (last (pp_pollfds p)) = fdE \<or> pfd_fd (last (pp_pollfds p)) = - fdE - 1" "0 \<le> fdE"
    using PP_invD(2) [OF assms(1) e(1)] by (auto simp: PP_slot_def)
  then have "(if pfd_fd (last (pp_pollfds p)) < 0 then - pfd_fd (last (pp_pollfds p)) - 1 else pfd_fd (last (pp_pollfds p))) = fdE"
    by auto
  with e show thesis by (rule that)
qed

text \<open>The poller after a removal: \<open>chE\<close> is the channel of the last entry.\<close>

lemma PP_remove_eq:
  assumes "PP_inv p" "map_find (po_channels p) fd = Some ch" "ch_events (po_chan p ch) = 0" "pp_disarmed p fd"
  defines "n \<equiv> length (pp_pollfds p)" and "i \<equiv> nat (ch_index (po_chan p ch))"
  obtains p' fdE chE where "PollPoller_removeChannel (po_thread p) ch p = Inr p'"
    "map_ok (po_channels p')" "map_find (po_channels p') = (map_find (po_channels p))(fd := None)"
    "po_thread p' = po_thread p" "map_find (po_channels p) fdE = Some chE" "ch_index (po_chan p chE) = int (n - 1)"
    "po_chan p' = (if chE = ch then po_chan p else (po_chan p)(chE := (po_chan p chE)\<lparr>ch_index := int i\<rparr>))"
    "length (pp_pollfds p') = n - 1" "\<And>j. j < n - 1 \<Longrightarrow> pp_pollfds p' ! j = (if j = i then last (pp_pollfds p) else pp_pollfds p ! j)"
proof -
  note D = PP_invD [OF assms(1)]
  have slot: "PP_slot p fd ch" by (rule D(2) [OF assms(2)])
  note S = slot [unfolded PP_slot_def]
  have i: "i < n" "int i = ch_index (po_chan p ch)" and ne: "pp_pollfds p \<noteq> []" using S by (auto simp: i_def n_def)
  obtain fdE chE where E: "map_find (po_channels p) fdE = Some chE" "ch_index (po_chan p chE) = int (n - 1)"
    "(if pfd_fd (last (pp_pollfds p)) < 0 then - pfd_fd (last (pp_pollfds p)) - 1 else pfd_fd (last (pp_pollfds p))) = fdE"
    using PP_last_channel [OF assms(1) ne] by (metis n_def)
  have n1: "fst (map_erase fd (po_channels p)) = 1" using smap.count_erase [OF D(1), of fd] assms(2) by simp
  then obtain chs where er: "map_erase fd (po_channels p) = (1, chs)" by (cases "map_erase fd (po_channels p)") auto
  have chs: "map_ok chs" "map_find chs = (map_find (po_channels p))(fd := None)"
    using smap.inv_erase [OF D(1), of fd] smap.lookup_erase [OF D(1), of fd] er by simp_all
  have pfd: "pfd_fd (pp_pollfds p ! i) = - fd - 1" "pfd_events (pp_pollfds p ! i) = 0"
    using assms(2,4) by (auto simp: pp_disarmed_def pp_entry_def i_def)
  have lt: "0 \<le> ch_index (po_chan p ch)" "ch_index (po_chan p ch) < int n" using i by linarith+
  show thesis
  proof (cases "i = n - 1")
    case True
    have "chE = ch"
    proof -
      have "fdE = fd" using PP_slot_inj [OF D(2) [OF E(1)] slot] E(2) True i(2) by simp
      then show ?thesis using E(1) assms(2) by simp
    qed
    let ?p = "p\<lparr>po_channels := chs, pp_pollfds := butlast (pp_pollfds p)\<rparr>"
    have "PollPoller_removeChannel (po_thread p) ch p = Inr ?p"
      using assms(2,3) S er pfd lt True i by (simp add: PollPoller_removeChannel_def po_assertInLoopThread_def Let_def
          isNoneEvent_def kNoneEvent_def pollfd_at_def n_def i_def)
    then show ?thesis using that [of ?p fdE chE] chs E \<open>chE = ch\<close> True by (auto simp: n_def nth_butlast)
  next
    case False
    then have "fdE \<noteq> fd" using E(1,2) assms(2) i by auto
    then have "chE \<noteq> ch" using D(2) [OF E(1)] S by (auto simp: PP_slot_def)
    let ?pfds = "butlast ((pp_pollfds p)[i := last (pp_pollfds p), n - 1 := pp_pollfds p ! i])"
    let ?p = "(set_index chE (int i) (p\<lparr>po_channels := chs\<rparr>))\<lparr>pp_pollfds := ?pfds\<rparr>"
    have "PollPoller_removeChannel (po_thread p) ch p = Inr ?p"
      using assms(2,3) S er pfd lt False E(1,3) chs(2) \<open>fdE \<noteq> fd\<close>
      by (simp add: PollPoller_removeChannel_def po_assertInLoopThread_def Let_def
          isNoneEvent_def kNoneEvent_def pollfd_at_def n_def i_def)
    then show ?thesis using that [of ?p fdE chE] chs E \<open>chE \<noteq> ch\<close> False i
      by (auto simp: n_def nth_butlast nth_list_update set_index_def set_chan_def)
  qed
qed

lemma PP_remove_ok:
  assumes "PP_inv p" "map_find (po_channels p) fd = Some ch" "ch_events (po_chan p ch) = 0" "pp_disarmed p fd"
  shows "\<exists>p' chE i. PollPoller_removeChannel (po_thread p) ch p = Inr p' \<and> PP_inv p'
     \<and> map_find (po_channels p') = (map_find (po_channels p))(fd := None)
     \<and> pp_interest p' = (pp_interest p)(fd := None)
     \<and> (\<forall>fd'. fd' \<noteq> fd \<longrightarrow> pp_disarmed p' fd' = pp_disarmed p fd')
     \<and> (\<exists>fdE. map_find (po_channels p) fdE = Some chE)
     \<and> po_chan p' = (po_chan p)(chE := (po_chan p chE)\<lparr>ch_index := i\<rparr>) \<and> po_thread p' = po_thread p"
proof -
  note D = PP_invD [OF assms(1)]
  let ?n = "length (pp_pollfds p)" and ?i = "nat (ch_index (po_chan p ch))"
  have slot: "PP_slot p fd ch" by (rule D(2) [OF assms(2)])
  then have i: "?i < ?n" "int ?i = ch_index (po_chan p ch)" and nn: "0 \<le> ch_index (po_chan p ch)"
    by (auto simp: PP_slot_def)
  obtain p' fdE chE where E: "PollPoller_removeChannel (po_thread p) ch p = Inr p'"
    "map_ok (po_channels p')" "map_find (po_channels p') = (map_find (po_channels p))(fd := None)"
    "po_thread p' = po_thread p" "map_find (po_channels p) fdE = Some chE" "ch_index (po_chan p chE) = int (?n - 1)"
    "po_chan p' = (if chE = ch then po_chan p else (po_chan p)(chE := (po_chan p chE)\<lparr>ch_index := int ?i\<rparr>))"
    "length (pp_pollfds p') = ?n - 1" "\<And>j. j < ?n - 1 \<Longrightarrow> pp_pollfds p' ! j = (if j = ?i then last (pp_pollfds p) else pp_pollfds p ! j)"
    using PP_remove_eq [OF assms] by metis
  have ne: "pp_pollfds p \<noteq> []" using i by auto
  have kept: "c \<noteq> ch \<and> ch_fd (po_chan p' c) = ch_fd (po_chan p c) \<and> 0 \<le> ch_index (po_chan p' c)
      \<and> nat (ch_index (po_chan p' c)) < ?n - 1 \<and> pp_entry p' c = pp_entry p c"
    if c: "map_find (po_channels p) fd' = Some c" "fd' \<noteq> fd" for fd' c
  proof -
    have sl: "PP_slot p fd' c" by (rule D(2) [OF c(1)])
    have cn: "c \<noteq> ch" using sl slot c(2) by (auto simp: PP_slot_def)
    have ni: "ch_index (po_chan p c) \<noteq> ch_index (po_chan p ch)" using PP_slot_inj [OF sl slot] c(2) by blast
    show ?thesis
    proof (cases "c = chE")
      case True
      have "int ?i \<noteq> int (?n - 1)" using ni E(6) True unfolding i(2) by simp
      then have "?i < ?n - 1" using i(1) by linarith
      then show ?thesis using cn True E(6,7) E(9) [of ?i] ne nn by (auto simp: pp_entry_def last_conv_nth nat_diff_distrib)
    next
      case False
      have "ch_index (po_chan p c) \<noteq> int (?n - 1)"
        using PP_slot_inj [OF sl D(2) [OF E(5)]] E(6) False c(1) E(5) by auto
      then have "nat (ch_index (po_chan p c)) < ?n - 1" "nat (ch_index (po_chan p c)) \<noteq> ?i"
        using sl ni nn by (auto simp: PP_slot_def eq_nat_nat_iff)
      then show ?thesis using cn False sl E(7) E(9) by (auto simp: pp_entry_def PP_slot_def)
    qed
  qed
  have inv: "PP_inv p'"
    unfolding PP_inv_def
  proof (intro conjI allI impI)
    show "map_ok (po_channels p')" by (rule E(2))
    show "PP_slot p' fd' c" if "map_find (po_channels p') fd' = Some c" for fd' c
    proof -
      have o: "map_find (po_channels p) fd' = Some c" "fd' \<noteq> fd" using that E(3) by (auto split: if_splits)
      show ?thesis using kept [OF o] D(2) [OF o(1)] E(8) by (auto simp: PP_slot_def)
    qed
    show "\<exists>fd' c. map_find (po_channels p') fd' = Some c \<and> ch_index (po_chan p' c) = int j" if "j < length (pp_pollfds p')" for j
    proof (cases "j = ?i")
      case True
      then have "chE \<noteq> ch" using that E(6,8) i by auto
      then have "fdE \<noteq> fd" using E(5) assms(2) by auto
      then show ?thesis using E(3,5,7) True \<open>chE \<noteq> ch\<close> by (intro exI [of _ fdE] exI [of _ chE]) simp
    next
      case False
      have "j < ?n" using that E(8) by simp
      from D(3) [OF this] obtain fd' c where o: "map_find (po_channels p) fd' = Some c" "ch_index (po_chan p c) = int j" by blast
      have "fd' \<noteq> fd" using o assms(2) False i by auto
      moreover have "c \<noteq> chE" using o(2) E(6) that E(8) by auto
      ultimately show ?thesis using o E(3,7) by (intro exI [of _ fd'] exI [of _ c]) auto
    qed
  qed
  have sm: "pp_interest p' fd' = pp_interest p fd'" "pp_disarmed p' fd' = pp_disarmed p fd'" if "fd' \<noteq> fd" for fd'
    using pp_same [of p' fd' p] kept that E(3) by simp_all
  have "pp_interest p' = (pp_interest p)(fd := None)"
    using sm(1) by (auto simp: fun_eq_iff pp_interest_def [of p' fd] E(3))
  moreover have "\<exists>i. po_chan p' = (po_chan p)(chE := (po_chan p chE)\<lparr>ch_index := i\<rparr>)"
  proof (cases "chE = ch")
    case True
    then show ?thesis using E(7) by (intro exI [of _ "ch_index (po_chan p chE)"]) (simp add: fun_eq_iff)
  qed (use E(7) in auto)
  ultimately show ?thesis using E inv sm(2) by blast
qed

definition PP_inv_in :: "nat \<Rightarrow> PollPoller \<Rightarrow> bool" where
  "PP_inv_in tid p = (PP_inv p \<and> po_thread p = tid)"

interpretation ppoll: poller "PP_inv_in tid" pp_watches pp_interest pp_disarmed
    "PollPoller_updateChannel tid" "PollPoller_removeChannel tid"
proof (unfold_locales, goal_cases)
  case (1 p fd ch)
  then show ?case using PP_invD(2) by (auto simp: PP_inv_in_def PP_slot_def)
next
  case (2 p c ch)
  have e: "pp_entry (set_chan ch c p) = pp_entry p"
    using 2(3) by (auto simp: pp_entry_def set_chan_def fun_eq_iff)
  then have "PP_slot (set_chan ch c p) = PP_slot p"
    using 2 by (auto simp: PP_slot_def set_chan_def fun_eq_iff)
  then show ?case using 2 e
    by (auto simp: PP_inv_in_def PP_inv_def set_chan_def pp_interest_def pp_disarmed_def fun_eq_iff split: option.splits) metis+
next
  case (3 p ch fd again old)
  then have i: "PP_inv p" "po_thread p = tid" by (simp_all add: PP_inv_in_def)
  consider "map_find (po_channels p) fd = Some ch" | "map_find (po_channels p) fd = None" "ch_index (po_chan p ch) = -1" "ch_events (po_chan p ch) \<noteq> 0"
    using 3(2,3) by (auto simp: updatable_def Let_def)
  then show ?case
  proof cases
    case 1
    from PP_update_old [OF i(1) this, of "map_find (po_channels p) fd = Some ch \<and> ch_events (po_chan p ch) = 0
        \<and> old = 0 \<and> \<not> again"] i(2) 1 show ?thesis
      by (auto simp: PP_inv_in_def unregistered_kept_def fun_upd_idem)
  next
    case 2
    have "0 \<le> fd" using 3(2,3) by (simp add: updatable_def Let_def)
    from PP_update_new [OF i(1) 2(1,2) 3(3) this] i(2) 2 show ?thesis
      by (force simp: PP_inv_in_def unregistered_kept_def pp_watches_def)
  qed
next
  case (4 p fd ch)
  then have i: "PP_inv p" "po_thread p = tid" by (simp_all add: PP_inv_in_def)
  from PP_remove_ok [OF i(1) 4(2-4)] i(2) show ?case
    by (force simp: PP_inv_in_def unregistered_kept_def)
qed

section \<open>Delivery of events\<close>

lemma EPoll_fill_ok:
  assumes "EP_inv p" "\<forall>(ev, ch) \<in> set es. \<exists>fd ev'. map_find (ep_kernel p) fd = Some (ev', ch)"
    and "length es \<le> ep_eventsSize p"
  shows "\<exists>p'. EPollPoller_fillActiveChannels es p = Inr (map snd es, p') \<and> EP_inv p'
     \<and> po_channels p' = po_channels p \<and> ep_kernel p' = ep_kernel p \<and> ep_eventsSize p' = ep_eventsSize p
     \<and> po_chan p' = fold (\<lambda>(ev, ch) chan. chan(ch := (chan ch)\<lparr>ch_revents := ev\<rparr>)) es (po_chan p)"
proof -
  note D = EP_invD [OF assms(1)]
  let ?f = "\<lambda>(ev, ch) (active, p1).
      assertR ''it != channels_.end()'' (map_find (po_channels p1) (ch_fd (po_chan p1 ch)) \<noteq> None)
      (assertR ''it->second == channel'' (map_find (po_channels p1) (ch_fd (po_chan p1 ch)) = Some ch)
        (Inr (active @ [ch], set_revents ch ev p1)))"
  let ?I = "\<lambda>ys (active, q). active = map snd ys \<and> EP_inv q \<and> po_channels q = po_channels p \<and> ep_kernel q = ep_kernel p
      \<and> ep_eventsSize q = ep_eventsSize p
      \<and> po_chan q = fold (\<lambda>(ev, ch) chan. chan(ch := (chan ch)\<lparr>ch_revents := ev\<rparr>)) ys (po_chan p)"
  have "total (?I es) (foldR ?f es ([], p))"
  proof (rule outcome_foldR [where I = ?I])
    show "?I [] ([], p)" using assms(1) by simp
  next
    fix ys x s
    assume I: "?I ys s" and "\<exists>zs. es = ys @ x # zs"
    then have "x \<in> set es" by auto
    obtain ev ch where x: "x = (ev, ch)" by (cases x)
    obtain active q where s: "s = (active, q)" by (cases s)
    from assms(2) \<open>x \<in> set es\<close> x obtain fd ev' where k: "map_find (ep_kernel p) fd = Some (ev', ch)" by blast
    have q: "EP_inv q" "po_channels q = po_channels p" "ep_kernel q = ep_kernel p" using I s by auto
    have "map_find (po_channels q) fd = Some ch"
      using k EP_invD(4,5) [OF q(1), of fd] q by (cases "map_find (po_channels q) fd") auto
    then have "map_find (po_channels q) (ch_fd (po_chan q ch)) = Some ch" using EP_invD(3) [OF q(1), of fd ch] by simp
    moreover have "EP_inv (set_revents ch ev q)"
      using q(1) by (auto simp: set_revents_def set_chan_def EP_inv_def)
    ultimately show "total (?I (ys @ [x])) (?f x s)"
      using I s x by (auto simp: set_revents_def set_chan_def)
  qed
  then show ?thesis using assms(3) by (auto simp: total_iff EPollPoller_fillActiveChannels_def)
qed

text \<open>\<open>ready\<close>: the entries with a returned event. The scan stops after the last of them.\<close>

definition ready :: "pollfd list \<Rightarrow> pollfd list" where
  "ready pfds = filter (\<lambda>pfd. 0 < sint (pfd_revents pfd)) pfds"

lemma Poll_fill_ok:
  assumes "\<forall>pfd \<in> set (ready pfds). \<exists>ch. map_find (po_channels p) (pfd_fd pfd) = Some ch \<and> ch_fd (po_chan p ch) = pfd_fd pfd"
  shows "\<exists>p'. PollPoller_fill pfds (length (ready pfds)) active p
       = Inr (active @ map (\<lambda>pfd. the (map_find (po_channels p) (pfd_fd pfd))) (ready pfds), p')
     \<and> po_channels p' = po_channels p \<and> pp_pollfds p' = pp_pollfds p \<and> po_thread p' = po_thread p
     \<and> (\<forall>c. \<exists>r. po_chan p' c = (po_chan p c)\<lparr>ch_revents := r\<rparr>)
     \<and> (\<forall>c. c \<notin> (\<lambda>pfd. the (map_find (po_channels p) (pfd_fd pfd))) ` set (ready pfds) \<longrightarrow> po_chan p' c = po_chan p c)
     \<and> (distinct (map (\<lambda>pfd. the (map_find (po_channels p) (pfd_fd pfd))) (ready pfds)) \<longrightarrow>
          (\<forall>pfd \<in> set (ready pfds). ch_revents (po_chan p' (the (map_find (po_channels p) (pfd_fd pfd)))) = scast (pfd_revents pfd)))"
  using assms
proof (induction pfds arbitrary: active p)
  case Nil
  have "\<forall>c. \<exists>r. po_chan p c = (po_chan p c)\<lparr>ch_revents := r\<rparr>"
  proof
    fix c show "\<exists>r. po_chan p c = (po_chan p c)\<lparr>ch_revents := r\<rparr>" by (intro exI [of _ "ch_revents (po_chan p c)"]) simp
  qed
  then show ?case by (simp add: ready_def)
next
  case (Cons pfd pfds)
  show ?case
  proof (cases "0 < sint (pfd_revents pfd)")
    case False
    have r: "ready (pfd # pfds) = ready pfds" using False by (simp add: ready_def)
    have skip: "PollPoller_fill (pfd # pfds) n active p = PollPoller_fill pfds n active p" for n
      using False by (cases pfds) auto
    show ?thesis unfolding r skip by (rule Cons.IH) (use Cons.prems r in simp)
  next
    case True
    have r: "ready (pfd # pfds) = pfd # ready pfds" using True by (simp add: ready_def)
    obtain ch where ch: "map_find (po_channels p) (pfd_fd pfd) = Some ch" "ch_fd (po_chan p ch) = pfd_fd pfd"
      using Cons.prems r by auto
    let ?p = "set_revents ch (scast (pfd_revents pfd)) p"
    have "\<forall>x \<in> set (ready pfds). \<exists>c. map_find (po_channels ?p) (pfd_fd x) = Some c \<and> ch_fd (po_chan ?p c) = pfd_fd x"
      using Cons.prems r by (fastforce simp: set_revents_def)
    from Cons.IH [OF this, of "active @ [ch]"] obtain p' where p': "PollPoller_fill pfds (length (ready pfds)) (active @ [ch]) ?p
       = Inr (active @ [ch] @ map (\<lambda>pfd. the (map_find (po_channels p) (pfd_fd pfd))) (ready pfds), p')"
      "po_channels p' = po_channels p" "pp_pollfds p' = pp_pollfds p" "po_thread p' = po_thread p"
      "\<forall>c. \<exists>r. po_chan p' c = (po_chan ?p c)\<lparr>ch_revents := r\<rparr>"
      "\<forall>c. c \<notin> (\<lambda>pfd. the (map_find (po_channels p) (pfd_fd pfd))) ` set (ready pfds) \<longrightarrow> po_chan p' c = po_chan ?p c"
      "distinct (map (\<lambda>pfd. the (map_find (po_channels p) (pfd_fd pfd))) (ready pfds)) \<longrightarrow>
          (\<forall>pfd \<in> set (ready pfds). ch_revents (po_chan p' (the (map_find (po_channels p) (pfd_fd pfd)))) = scast (pfd_revents pfd))"
      by (auto simp: set_revents_def set_chan_def)
    have "\<exists>r. po_chan p' c = (po_chan p c)\<lparr>ch_revents := r\<rparr>" for c
      using p'(5) [rule_format, of c] by (auto simp: set_revents_def split: if_splits)
    moreover have "PollPoller_fill (pfd # pfds) (length (ready (pfd # pfds))) active p
        = Inr (active @ map (\<lambda>pfd. the (map_find (po_channels p) (pfd_fd pfd))) (ready (pfd # pfds)), p')"
      using True ch p'(1) by (simp add: r)
    moreover have "ch_revents (po_chan p' ch) = scast (pfd_revents pfd)"
      if "ch \<notin> (\<lambda>pfd. the (map_find (po_channels p) (pfd_fd pfd))) ` set (ready pfds)"
      using p'(6) that by (simp add: set_revents_def)
    ultimately show ?thesis using p'(2-4,6,7) ch by (intro exI [of _ p']) (auto simp: r set_revents_def)
  qed
qed

text \<open>An entry with a non-negative descriptor belongs to the channel registered under it.\<close>

lemma PP_poll_slot:
  assumes "PP_inv p" "i < length (pp_pollfds p)" "0 \<le> pfd_fd (pp_pollfds p ! i)"
  shows "\<exists>ch. map_find (po_channels p) (pfd_fd (pp_pollfds p ! i)) = Some ch \<and> ch_index (po_chan p ch) = int i
     \<and> ch_fd (po_chan p ch) = pfd_fd (pp_pollfds p ! i)"
proof -
  obtain fd ch where c: "map_find (po_channels p) fd = Some ch" "ch_index (po_chan p ch) = int i"
    using PP_invD(3) [OF assms(1,2)] by blast
  then have "PP_slot p fd ch" using PP_invD(2) [OF assms(1)] by blast
  then have "fd = pfd_fd (pp_pollfds p ! i)" using c(2) assms(3) by (auto simp: PP_slot_def pp_entry_def)
  then show ?thesis using c \<open>PP_slot p fd ch\<close> by (auto simp: PP_slot_def)
qed

text \<open>So \<open>pp_interest\<close> is what the kernel finds in the array: the entries with that descriptor.\<close>

lemma pp_interest_entries:
  assumes "PP_inv p" "0 \<le> fd"
  shows "pp_interest p fd = Some ev \<longleftrightarrow> (\<exists>pfd \<in> set (pp_pollfds p). pfd_fd pfd = fd \<and> pfd_events pfd = ev)"
proof
  assume "pp_interest p fd = Some ev"
  then obtain ch where c: "map_find (po_channels p) fd = Some ch" "pfd_fd (pp_entry p ch) = fd" "pfd_events (pp_entry p ch) = ev"
    by (auto simp: pp_interest_def split: option.splits if_splits)
  then show "\<exists>pfd \<in> set (pp_pollfds p). pfd_fd pfd = fd \<and> pfd_events pfd = ev"
    using PP_invD(2) [OF assms(1) c(1)] by (intro bexI [of _ "pp_entry p ch"]) (auto simp: PP_slot_def pp_entry_def)
next
  assume "\<exists>pfd \<in> set (pp_pollfds p). pfd_fd pfd = fd \<and> pfd_events pfd = ev"
  then obtain i where i: "i < length (pp_pollfds p)" "pfd_fd (pp_pollfds p ! i) = fd" "pfd_events (pp_pollfds p ! i) = ev"
    by (metis in_set_conv_nth)
  then show "pp_interest p fd = Some ev" using PP_poll_slot [OF assms(1) i(1)] assms(2)
    by (auto simp: pp_interest_def pp_entry_def)
qed

text \<open>Returned events, in the entries and in the channels, do not matter for the invariant.\<close>

lemma PP_inv_revents:
  assumes "PP_inv p" "po_channels q = po_channels p" "length (pp_pollfds q) = length (pp_pollfds p)"
    and "\<And>i. i < length (pp_pollfds p) \<Longrightarrow> pfd_fd (pp_pollfds q ! i) = pfd_fd (pp_pollfds p ! i)"
    and "\<forall>c. \<exists>r. po_chan q c = (po_chan p c)\<lparr>ch_revents := r\<rparr>"
  shows "PP_inv q"
proof -
  have c: "ch_fd (po_chan q c) = ch_fd (po_chan p c)" "ch_index (po_chan q c) = ch_index (po_chan p c)" for c
    using assms(5) [rule_format, of c] by auto
  have "PP_slot p fd ch \<Longrightarrow> PP_slot q fd ch" for fd ch
    using assms(3,4) c by (auto simp: PP_slot_def pp_entry_def)
  then show ?thesis using assms(1-3) c by (simp add: PP_inv_def)
qed

lemma word_and_or_eq_0: "(w :: 32 word) AND (a OR b) = 0 \<longleftrightarrow> w AND a = 0 \<and> w AND b = 0"
  by (simp add: bit.conj_disj_distrib or_eq_0_iff)

lemma event_bit [simp]:
  "w AND POLLIN = 0 \<longleftrightarrow> \<not> bit w 0" "w AND POLLPRI = 0 \<longleftrightarrow> \<not> bit w 1" "w AND POLLOUT = 0 \<longleftrightarrow> \<not> bit w 2"
  "w AND POLLERR = 0 \<longleftrightarrow> \<not> bit w 3" "w AND POLLHUP = 0 \<longleftrightarrow> \<not> bit w 4" "w AND POLLNVAL = 0 \<longleftrightarrow> \<not> bit w 5"
  "w AND POLLRDHUP = 0 \<longleftrightarrow> \<not> bit w 13"
  using and_exp_eq_0_iff_not_bit [of w 0] and_exp_eq_0_iff_not_bit [of w 1] and_exp_eq_0_iff_not_bit [of w 2]
    and_exp_eq_0_iff_not_bit [of w 3] and_exp_eq_0_iff_not_bit [of w 4] and_exp_eq_0_iff_not_bit [of w 5]
    and_exp_eq_0_iff_not_bit [of w 13]
  by (simp_all add: POLLIN_def POLLPRI_def POLLOUT_def POLLERR_def POLLHUP_def POLLNVAL_def POLLRDHUP_def)

section \<open>Properties\<close>

definition fresh_channels :: "(nat \<Rightarrow> int) \<Rightarrow> nat \<Rightarrow> Channel" where
  "fresh_channels fdof ch = Channel_ctor (fdof ch)"

definition no_watches :: watch_table where
  "no_watches = \<lparr>wt_watched = (\<lambda>_. None), wt_used = {}, wt_again = {}\<rparr>"



text \<open>What the exception looks like: after \<^verbatim>\<open>enableReading\<close> and two \<^verbatim>\<open>disableAll\<close> the descriptor is in the
  interest list of \<^verbatim>\<open>epoll\<close>, which has found \<^verbatim>\<open>kDeleted\<close> and added it for no event, but its entry for
  \<^verbatim>\<open>poll\<close> carries a negative descriptor.\<close>

theorem disabled_twice_differs:
  assumes "0 \<le> fd" and "0 \<le> epollfd"
  shows "\<exists>e0 e p. EPollPoller_ctor tid epollfd (fresh_channels (\<lambda>_. fd)) = Inr e0
     \<and> foldR (channel_exec (EPollPoller_updateChannel tid) (EPollPoller_removeChannel tid))
         [Watch 0 kReadEvent, Watch 0 0, Watch 0 0] e0 = Inr e
     \<and> foldR (channel_exec (PollPoller_updateChannel tid) (PollPoller_removeChannel tid))
         [Watch 0 kReadEvent, Watch 0 0, Watch 0 0] (PollPoller_ctor tid (fresh_channels (\<lambda>_. fd))) = Inr p
     \<and> map_find (ep_kernel e) fd = Some (0, 0)
     \<and> pp_pollfds p = [\<lparr>pfd_fd = - fd - 1, pfd_events = 0, pfd_revents = 0\<rparr>]"
  using assms by (simp add: EPollPoller_ctor_def PollPoller_ctor_def fresh_channels_def Channel_update_def
      set_events_def EPollPoller_updateChannel_def PollPoller_updateChannel_def
      po_assertInLoopThread_def Channel_ctor_def map_find_def map_erase_def index_consts
      EPollPoller_update_def epoll_ctl_def isNoneEvent_def event_bits pollfd_at_def set_index_def set_chan_def Let_def)

theorem disabled_twice_differs_witness:
  "\<exists>e0 e. EPollPoller_ctor 1 3 (fresh_channels (\<lambda>_. 7)) = Inr e0
     \<and> foldR (channel_exec (EPollPoller_updateChannel 1) (EPollPoller_removeChannel 1))
         [Watch 0 kReadEvent, Watch 0 0, Watch 0 0] e0 = Inr e \<and> map_find (ep_kernel e) 7 = Some (0, 0)"
  using disabled_twice_differs [of 7 3 1] by auto

text \<open>Whatever descriptors the kernel reports among those registered, \<^verbatim>\<open>EPollPoller::poll\<close> returns
  exactly their channels, in the order of the report, each with its reported events stored; no
  assertion fails, the registrations are untouched, and a full event list is doubled.\<close>

theorem EPollPoller_poll_delivers:
  assumes "EP_inv p" and "\<forall>(ev, ch) \<in> set es. \<exists>fd ev'. map_find (ep_kernel p) fd = Some (ev', ch)"
    and "length es \<le> ep_eventsSize p" and "distinct (map snd es)"
  shows "\<exists>p'. EPollPoller_poll (Some es) p = Inr (map snd es, p') \<and> EP_inv p'
     \<and> po_channels p' = po_channels p \<and> ep_kernel p' = ep_kernel p
     \<and> (\<forall>(ev, ch) \<in> set es. po_chan p' ch = (po_chan p ch)\<lparr>ch_revents := ev\<rparr>)
     \<and> (\<forall>ch. ch \<notin> snd ` set es \<longrightarrow> po_chan p' ch = po_chan p ch)
     \<and> ep_eventsSize p' = (if es \<noteq> [] \<and> length es = ep_eventsSize p then 2 * ep_eventsSize p else ep_eventsSize p)"
proof -
  have fold: "(\<forall>(ev, ch) \<in> set es. fold (\<lambda>(ev, ch) chan. chan(ch := (chan ch)\<lparr>ch_revents := ev\<rparr>)) es c ch = (c ch)\<lparr>ch_revents := ev\<rparr>)
      \<and> (\<forall>ch. ch \<notin> snd ` set es \<longrightarrow> fold (\<lambda>(ev, ch) chan. chan(ch := (chan ch)\<lparr>ch_revents := ev\<rparr>)) es c ch = c ch)"
    if "distinct (map snd es)" for es and c :: "nat \<Rightarrow> Channel"
    using that
  proof (induction es arbitrary: c)
    case (Cons x es)
    obtain ev ch where x: "x = (ev, ch)" by (cases x)
    let ?c = "c(ch := (c ch)\<lparr>ch_revents := ev\<rparr>)"
    have n: "ch \<notin> snd ` set es" "distinct (map snd es)" using Cons.prems x by auto
    from Cons.IH [OF n(2), of ?c] n(1) show ?case by (fastforce simp: x)
  qed simp
  obtain p' where p': "EPollPoller_fillActiveChannels es p = Inr (map snd es, p')" "EP_inv p'"
      "po_channels p' = po_channels p" "ep_kernel p' = ep_kernel p" "ep_eventsSize p' = ep_eventsSize p"
      "po_chan p' = fold (\<lambda>(ev, ch) chan. chan(ch := (chan ch)\<lparr>ch_revents := ev\<rparr>)) es (po_chan p)"
    using EPoll_fill_ok [OF assms(1-3)] by blast
  have ch: "\<forall>(ev, ch) \<in> set es. po_chan p' ch = (po_chan p ch)\<lparr>ch_revents := ev\<rparr>"
    "\<forall>ch. ch \<notin> snd ` set es \<longrightarrow> po_chan p' ch = po_chan p ch"
    using fold [OF assms(4), of "po_chan p"] by (simp_all add: p'(6))
  show ?thesis
  proof (cases "es = []")
    case True
    then show ?thesis using assms(1) by (simp add: EPollPoller_poll_def)
  next
    case False
    let ?q = "if length es = ep_eventsSize p' then p'\<lparr>ep_eventsSize := ep_eventsSize p' * 2\<rparr> else p'"
    have "EPollPoller_poll (Some es) p = Inr (map snd es, ?q)" using p'(1) False by (simp add: EPollPoller_poll_def)
    moreover have "EP_inv ?q" using p'(2) by (simp add: EP_inv_def)
    ultimately show ?thesis using p'(3-5) ch False by (intro exI [of _ ?q]) auto
  qed
qed

definition one_watched :: EPollPoller where
  "one_watched = \<lparr>po_channels = [(5, 0)], po_thread = 1, po_chan = (\<lambda>ch. (Channel_ctor 5)\<lparr>ch_events := kReadEvent, ch_index := kAdded\<rparr>),
     ep_eventsSize = 16, ep_kernel = [(5, (kReadEvent, 0))]\<rparr>"

theorem EPollPoller_poll_delivers_witness:
  "\<exists>p'. EPollPoller_poll (Some [(POLLIN, 0)]) one_watched = Inr ([0], p') \<and> ch_revents (po_chan p' 0) = POLLIN"
proof -
  have inv: "EP_inv one_watched"
    by (auto simp: EP_inv_def one_watched_def map_ok_def map_find_def Channel_ctor_def split: if_splits)
  have k: "\<forall>(ev, ch) \<in> set [(POLLIN, 0)]. \<exists>fd ev'. map_find (ep_kernel one_watched) fd = Some (ev', ch)"
    by (auto simp: one_watched_def map_find_def)
  have l: "length [(POLLIN, 0::nat)] \<le> ep_eventsSize one_watched" by (simp add: one_watched_def)
  show ?thesis using EPollPoller_poll_delivers [OF inv k l] by auto
qed

text \<open>The dispatch of a channel: the close callback exactly for a hang-up without readable data,
  the error callback for errors and invalid descriptors, the read callback for input, priority data
  and a half-closed peer, the write callback for writability, each at most once and in this order;
  and nothing at all once the object the channel is tied to is gone.\<close>

theorem handleEvent_dispatch:
  "(CloseCallback \<in> set (handleEvent alive c) \<longleftrightarrow> (ch_tied c \<longrightarrow> alive) \<and> ch_closeCallback c
      \<and> bit (ch_revents c) 4 \<and> \<not> bit (ch_revents c) 0)
   \<and> (ErrorCallback \<in> set (handleEvent alive c) \<longleftrightarrow> (ch_tied c \<longrightarrow> alive) \<and> ch_errorCallback c
      \<and> (bit (ch_revents c) 3 \<or> bit (ch_revents c) 5))
   \<and> (ReadCallback \<in> set (handleEvent alive c) \<longleftrightarrow> (ch_tied c \<longrightarrow> alive) \<and> ch_readCallback c
      \<and> (bit (ch_revents c) 0 \<or> bit (ch_revents c) 1 \<or> bit (ch_revents c) 13))
   \<and> (WriteCallback \<in> set (handleEvent alive c) \<longleftrightarrow> (ch_tied c \<longrightarrow> alive) \<and> ch_writeCallback c \<and> bit (ch_revents c) 2)
   \<and> sorted (map (\<lambda>cb. case cb of CloseCallback \<Rightarrow> 0::nat | ErrorCallback \<Rightarrow> 1 | ReadCallback \<Rightarrow> 2 | WriteCallback \<Rightarrow> 3)
        (handleEvent alive c)) \<and> distinct (handleEvent alive c)"
  by (auto simp: handleEvent_def handleEventWithGuard_def Let_def word_and_or_eq_0)

theorem handleEvent_dispatch_witness:
  "handleEvent True ((Channel_ctor 3)\<lparr>ch_revents := POLLIN OR POLLHUP, ch_readCallback := True, ch_closeCallback := True\<rparr>)
     = [ReadCallback]"
proof -
  let ?c = "(Channel_ctor 3)\<lparr>ch_revents := POLLIN OR POLLHUP, ch_readCallback := True, ch_closeCallback := True\<rparr>"
  have f: "bit (ch_revents ?c) 0" "\<not> ch_errorCallback ?c" "\<not> ch_writeCallback ?c" "\<not> ch_tied ?c" "ch_readCallback ?c"
    by (simp_all add: Channel_ctor_def POLLIN_def POLLHUP_def)
  have "set (handleEvent True ?c) = {ReadCallback}" "distinct (handleEvent True ?c)"
    using handleEvent_dispatch [of True ?c] f by (auto simp: set_eq_iff) (metis event_callback.exhaust)+
  then show ?thesis by (cases "handleEvent True ?c"; cases "tl (handleEvent True ?c)") auto
qed

text \<open>\<^verbatim>\<open>PollPoller::poll\<close> delivers exactly the channels of the entries the kernel returned events
  for, with those events, and keeps the registrations: entries parked under a negative descriptor
  are never mistaken for a channel.\<close>

theorem PollPoller_poll_delivers:
  assumes "PP_inv p" and "length rs = length (pp_pollfds p)"
    and "\<forall>i < length rs. rs ! i = 0 \<or> 0 < sint (rs ! i)"
    and "\<forall>i < length rs. pfd_fd (pp_pollfds p ! i) < 0 \<longrightarrow> rs ! i = 0"
  shows "\<exists>p' active. PollPoller_poll (int (length (filter (\<lambda>r. r \<noteq> 0) rs)), rs) p = Inr (active, p') \<and> PP_inv p'
     \<and> po_channels p' = po_channels p
     \<and> set active = {ch. \<exists>fd. map_find (po_channels p) fd = Some ch \<and> rs ! nat (ch_index (po_chan p ch)) \<noteq> 0}
     \<and> (\<forall>ch \<in> set active. ch_revents (po_chan p' ch) = scast (rs ! nat (ch_index (po_chan p ch))))"
proof -
  note D = PP_invD [OF assms(1)]
  define pfds where "pfds = map2 (\<lambda>pfd r. pfd\<lparr>pfd_revents := r\<rparr>) (pp_pollfds p) rs"
  define p1 where "p1 = p\<lparr>pp_pollfds := pfds\<rparr>"
  define idx where "idx = filter (\<lambda>i. rs ! i \<noteq> 0) [0..<length rs]"
  define ci where "ci i = the (map_find (po_channels p) (pfd_fd (pp_pollfds p ! i)))" for i
  have nth: "i < length rs \<Longrightarrow> pfds ! i = (pp_pollfds p ! i)\<lparr>pfd_revents := rs ! i\<rparr>" and len: "length pfds = length rs" for i
    using assms(2) by (simp_all add: pfds_def)
  have pos: "i < length rs \<Longrightarrow> 0 < sint (rs ! i) \<longleftrightarrow> rs ! i \<noteq> 0" for i using assms(3) by force
  have rdy: "ready pfds = map (\<lambda>i. pfds ! i) idx"
  proof -
    have "ready pfds = filter (\<lambda>pfd. 0 < sint (pfd_revents pfd)) (map (\<lambda>i. pfds ! i) [0..<length pfds])"
      by (simp add: ready_def map_nth)
    also have "\<dots> = map (\<lambda>i. pfds ! i) (filter (\<lambda>i. 0 < sint (pfd_revents (pfds ! i))) [0..<length rs])"
      by (simp add: filter_map o_def len)
    also have "filter (\<lambda>i. 0 < sint (pfd_revents (pfds ! i))) [0..<length rs] = idx"
      unfolding idx_def by (rule filter_cong) (simp_all add: nth pos)
    finally show ?thesis .
  qed
  have "length (filter (\<lambda>r. r \<noteq> 0) rs) = length (filter (\<lambda>r. r \<noteq> 0) (map (\<lambda>i. rs ! i) [0..<length rs]))"
    by (simp add: map_nth)
  then have num: "length (filter (\<lambda>r. r \<noteq> 0) rs) = length (ready pfds)" by (simp add: rdy filter_map o_def idx_def)
  have own: "map_find (po_channels p) (pfd_fd (pp_pollfds p ! i)) = Some (ci i) \<and> nat (ch_index (po_chan p (ci i))) = i
      \<and> ch_fd (po_chan p (ci i)) = pfd_fd (pp_pollfds p ! i)" if "i \<in> set idx" for i
  proof -
    have i: "i < length (pp_pollfds p)" "0 \<le> pfd_fd (pp_pollfds p ! i)"
      using that assms(2,4) by (auto simp: idx_def not_less [symmetric])
    from PP_poll_slot [OF assms(1) this] show ?thesis by (auto simp: ci_def)
  qed
  have chs: "map (\<lambda>pfd. the (map_find (po_channels p1) (pfd_fd pfd))) (ready pfds) = map ci idx"
    by (auto simp: rdy p1_def ci_def idx_def nth)
  have ok: "\<forall>pfd \<in> set (ready pfds). \<exists>ch. map_find (po_channels p1) (pfd_fd pfd) = Some ch \<and> ch_fd (po_chan p1 ch) = pfd_fd pfd"
    using own by (auto simp: rdy p1_def idx_def nth)
  obtain p' where p': "PollPoller_fill pfds (length (ready pfds)) [] p1 = Inr (map ci idx, p')"
     "po_channels p' = po_channels p" "pp_pollfds p' = pfds" "\<forall>c. \<exists>r. po_chan p' c = (po_chan p c)\<lparr>ch_revents := r\<rparr>"
     "distinct (map ci idx) \<longrightarrow> (\<forall>pfd \<in> set (ready pfds). ch_revents (po_chan p' (the (map_find (po_channels p1) (pfd_fd pfd)))) = scast (pfd_revents pfd))"
    using Poll_fill_ok [OF ok, of "[]"] unfolding chs by (auto simp: p1_def)
  have "inj_on ci (set idx)" by (rule inj_on_inverseI [where g = "\<lambda>c. nat (ch_index (po_chan p c))"]) (use own in blast)
  then have dist: "distinct (map ci idx)" by (simp add: distinct_map idx_def)
  have rev: "ch_revents (po_chan p' (ci i)) = scast (rs ! i)" if "i \<in> set idx" for i
    using p'(5) dist that by (auto simp: rdy p1_def ci_def idx_def nth)
  have poll: "PollPoller_poll (int (length (filter (\<lambda>r. r \<noteq> 0) rs)), rs) p = Inr (map ci idx, if idx = [] then p1 else p')"
    using p'(1) unfolding num
    by (auto simp: PollPoller_poll_def Let_def pfds_def [symmetric] p1_def [symmetric] PollPoller_fillActiveChannels_def rdy)
      (simp_all add: p1_def)
  have same: "PP_inv q" if "po_channels q = po_channels p" "pp_pollfds q = pfds" "\<forall>c. \<exists>r. po_chan q c = (po_chan p c)\<lparr>ch_revents := r\<rparr>" for q
    by (rule PP_inv_revents [OF assms(1) that(1) _ _ that(3)]) (use that(2) len assms(2) nth in simp_all)
  have "\<forall>c. \<exists>r. po_chan p1 c = (po_chan p c)\<lparr>ch_revents := r\<rparr>"
  proof
    show "\<exists>r. po_chan p1 c = (po_chan p c)\<lparr>ch_revents := r\<rparr>" for c
      by (intro exI [of _ "ch_revents (po_chan p c)"]) (simp add: p1_def)
  qed
  then have "PP_inv (if idx = [] then p1 else p')" using same [of p'] same [of p1] p'(2-4) by (simp add: p1_def)
  moreover have "set (map ci idx) = {ch. \<exists>fd. map_find (po_channels p) fd = Some ch \<and> rs ! nat (ch_index (po_chan p ch)) \<noteq> 0}"
  proof (intro equalityI subsetI)
    fix ch
    assume "ch \<in> set (map ci idx)"
    then obtain i where "i \<in> set idx" "ch = ci i" by auto
    then show "ch \<in> {ch. \<exists>fd. map_find (po_channels p) fd = Some ch \<and> rs ! nat (ch_index (po_chan p ch)) \<noteq> 0}"
      using own [of i] by (auto simp: idx_def)
  next
    fix ch
    assume "ch \<in> {ch. \<exists>fd. map_find (po_channels p) fd = Some ch \<and> rs ! nat (ch_index (po_chan p ch)) \<noteq> 0}"
    then obtain fd where c: "map_find (po_channels p) fd = Some ch" "rs ! nat (ch_index (po_chan p ch)) \<noteq> 0" by blast
    let ?i = "nat (ch_index (po_chan p ch))"
    have "PP_slot p fd ch" by (rule D(2) [OF c(1)])
    then have "?i < length rs" "pfd_fd (pp_pollfds p ! ?i) = fd"
      using assms(2,4) c(2) by (auto simp: PP_slot_def pp_entry_def)
    then have "?i \<in> set idx" "ci ?i = ch" using c by (auto simp: idx_def ci_def)
    then show "ch \<in> set (map ci idx)" by force
  qed
  moreover have "\<forall>ch \<in> set (map ci idx). ch_revents (po_chan (if idx = [] then p1 else p') ch) = scast (rs ! nat (ch_index (po_chan p ch)))"
    using rev own by auto
  moreover have "po_channels (if idx = [] then p1 else p') = po_channels p" using p'(2) by (simp add: p1_def)
  ultimately show ?thesis using poll by blast
qed

definition one_polled :: PollPoller where
  "one_polled = \<lparr>po_channels = [(5, 0)], po_thread = 1, po_chan = (\<lambda>ch. (Channel_ctor 5)\<lparr>ch_events := kReadEvent, ch_index := 0\<rparr>),
     pp_pollfds = [\<lparr>pfd_fd = 5, pfd_events = 3, pfd_revents = 0\<rparr>]\<rparr>"

theorem PollPoller_poll_delivers_witness:
  "\<exists>p' active. PollPoller_poll (1, [1]) one_polled = Inr (active, p') \<and> set active = {0} \<and> ch_revents (po_chan p' 0) = 1"
proof -
  have inv: "PP_inv one_polled"
    by (auto simp: PP_inv_def PP_slot_def pp_entry_def one_polled_def map_ok_def map_find_def Channel_ctor_def)
  have a: "{ch. \<exists>fd. map_find (po_channels one_polled) fd = Some ch \<and> [1 :: 16 word] ! nat (ch_index (po_chan one_polled ch)) \<noteq> 0} = {0}"
    by (auto simp: one_polled_def map_find_def Channel_ctor_def)
  have s: "0 < sint (1 :: 16 word)" "scast (1 :: 16 word) = (1 :: 32 word)" by simp_all
  show ?thesis using PollPoller_poll_delivers [OF inv, of "[1]"] s unfolding a
    by (auto simp: one_polled_def Channel_ctor_def)
qed

text \<open>The two pollers differ for an owner that leaves the protocol: a new channel whose first
  update asks for no event is registered by both, but only \<^verbatim>\<open>EPollPoller\<close> lets it be removed again;
  \<^verbatim>\<open>PollPoller\<close> parks the entry under its plain descriptor, and \<^verbatim>\<open>removeChannel\<close> then fails its
  assertion.\<close>

theorem empty_registration_differs:
  assumes "0 \<le> fd" and "0 \<le> epollfd"
  shows "(\<exists>e0 e1 e2. EPollPoller_ctor tid epollfd (\<lambda>_. Channel_ctor fd) = Inr e0
        \<and> disableAll (EPollPoller_updateChannel tid) 0 e0 = Inr e1 \<and> Channel_remove (EPollPoller_removeChannel tid) 0 e1 = Inr e2)
     \<and> (\<exists>p1. disableAll (PollPoller_updateChannel tid) 0 (PollPoller_ctor tid (\<lambda>_. Channel_ctor fd)) = Inr p1
        \<and> Channel_remove (PollPoller_removeChannel tid) 0 p1
            = Inl (AssertFail ''pfd.fd == -channel->fd()-1 && pfd.events == channel->events()''))"
  using assms by (simp add: EPollPoller_ctor_def PollPoller_ctor_def disableAll_def Channel_update_def Channel_remove_def
      set_events_def EPollPoller_updateChannel_def EPollPoller_removeChannel_def PollPoller_updateChannel_def
      PollPoller_removeChannel_def po_assertInLoopThread_def Channel_ctor_def map_find_def map_erase_def index_consts
      EPollPoller_update_def epoll_ctl_def isNoneEvent_def kNoneEvent_def pollfd_at_def set_index_def set_chan_def Let_def)

theorem empty_registration_differs_witness:
  "\<exists>p1. disableAll (PollPoller_updateChannel 1) 0 (PollPoller_ctor 1 (\<lambda>_. Channel_ctor 7)) = Inr p1
     \<and> \<not> is_ok (Channel_remove (PollPoller_removeChannel 1) 0 p1)"
  using empty_registration_differs [of 7 3 1] by auto

end
