(* ===== verification/Step_System.thy ===== *)
theory Step_System
  imports Main
begin

text \<open>
  Step relations and their invariants. Components whose operations interleave (threads, callbacks,
  the peer of a connection) are step relations; the locale \<open>step_invariant\<close> is the proof obligation
  of an inductive invariant and gives it for every reachable state.
\<close>

inductive reach :: "('s \<Rightarrow> 's \<Rightarrow> bool) \<Rightarrow> 's \<Rightarrow> 's \<Rightarrow> bool" for step :: "'s \<Rightarrow> 's \<Rightarrow> bool" where
  reach_refl: "reach step s s"
| reach_step: "reach step s s' \<Longrightarrow> step s' s'' \<Longrightarrow> reach step s s''"

lemma reach_trans: "reach step s' s'' \<Longrightarrow> reach step s s' \<Longrightarrow> reach step s s''"
  by (induction rule: reach.induct) (auto intro: reach.intros)

lemma reach_one: "step s s' \<Longrightarrow> reach step s s'"
  by (rule reach_step [OF reach_refl])

locale step_invariant =
  fixes step :: "'s \<Rightarrow> 's \<Rightarrow> bool" and I :: "'s \<Rightarrow> bool"
  assumes preserved: "I s \<Longrightarrow> step s s' \<Longrightarrow> I s'"
begin

lemma invariant: "reach step s s' \<Longrightarrow> I s \<Longrightarrow> I s'"
  by (induction rule: reach.induct) (auto intro: preserved)

end

end
