(* ===== verification/Net_EventLoop.thy ===== *)
theory Net_EventLoop
  imports Net_Timer Net_Poller Step_System
begin

text \<open>
  \<^verbatim>\<open>net/EventLoop.h\<close> and \<^verbatim>\<open>net/EventLoop.cc\<close>: the loop of one thread, its queue of pending functors,
  which other threads fill, and the eventfd that wakes the loop up. The functions model the member
  functions; the relation \<open>el_step\<close> interleaves the loop thread, piece by piece, with any number of
  other threads. Functors and event handlers are user code: an argument \<open>body\<close> says which of the
  loop's functions a functor calls.
\<close>

section \<open>State and member functions\<close>

datatype el_phase =
    Idle            \<comment> \<open>\<^verbatim>\<open>loop()\<close> is not running\<close>
  | Polling         \<comment> \<open>in \<^verbatim>\<open>poller_->poll\<close>\<close>
  | Handling        \<comment> \<open>in the loop over \<^verbatim>\<open>activeChannels_\<close>\<close>
  | Running "nat list"  \<comment> \<open>in \<^verbatim>\<open>doPendingFunctors\<close>, the functors still to be run\<close>

record EventLoop =
  el_looping :: bool
  el_quit :: bool
  el_callingPendingFunctors :: bool
  el_threadId :: nat
  el_pollReturnTime :: int
  el_pendingFunctors :: "nat list"
  el_wakeupFd :: nat
  el_phase :: el_phase

text \<open>\<open>other\<close>: the loop object this thread already has (\<^verbatim>\<open>t_loopInThisThread\<close>).\<close>

definition createEventfd :: "int \<Rightarrow> int result" where
  "createEventfd evtfd = (if evtfd < 0 then Inl (LogFatal ''Failed in eventfd'') else Inr evtfd)"

definition EventLoop_ctor :: "nat \<Rightarrow> int \<Rightarrow> bool \<Rightarrow> EventLoop result" where
  "EventLoop_ctor tid evtfd other =
     bindR (createEventfd evtfd) (\<lambda>_.
       if other then Inl (LogFatal ''Another EventLoop exists in this thread'')
       else Inr \<lparr>el_looping = False, el_quit = False, el_callingPendingFunctors = False, el_threadId = tid,
                 el_pollReturnTime = 0, el_pendingFunctors = [], el_wakeupFd = 0, el_phase = Idle\<rparr>)"

definition EventLoop_dtor :: "EventLoop \<Rightarrow> unit result" where
  "EventLoop_dtor l = assertR ''!looping_'' (\<not> el_looping l) (Inr ())"

definition isInLoopThread :: "nat \<Rightarrow> EventLoop \<Rightarrow> bool" where
  "isInLoopThread tid l = (el_threadId l = tid)"

definition abortNotInLoopThread :: "'a result" where
  "abortNotInLoopThread = Inl (LogFatal ''EventLoop::abortNotInLoopThread'')"

definition assertInLoopThread :: "nat \<Rightarrow> EventLoop \<Rightarrow> 'a result \<Rightarrow> 'a result" where
  "assertInLoopThread tid l k = (if \<not> isInLoopThread tid l then abortNotInLoopThread else k)"

text \<open>Writing to the eventfd adds one to its counter, reading it takes the whole value.\<close>

definition wakeup :: "EventLoop \<Rightarrow> EventLoop" where
  "wakeup l = l\<lparr>el_wakeupFd := el_wakeupFd l + 1\<rparr>"

definition EventLoop_handleRead :: "EventLoop \<Rightarrow> EventLoop" where
  "EventLoop_handleRead l = l\<lparr>el_wakeupFd := 0\<rparr>"

text \<open>\<^verbatim>\<open>queueInLoop\<close> and \<^verbatim>\<open>quit\<close> consist of the locked update and the wakeup that may follow it.\<close>

definition queue_push :: "nat \<Rightarrow> EventLoop \<Rightarrow> EventLoop" where
  "queue_push cb l = l\<lparr>el_pendingFunctors := el_pendingFunctors l @ [cb]\<rparr>"

definition queueInLoop :: "nat \<Rightarrow> nat \<Rightarrow> EventLoop \<Rightarrow> EventLoop" where
  "queueInLoop tid cb l =
     (let l1 = queue_push cb l in
      if \<not> isInLoopThread tid l1 \<or> el_callingPendingFunctors l1 then wakeup l1 else l1)"

definition quit_set :: "EventLoop \<Rightarrow> EventLoop" where
  "quit_set l = l\<lparr>el_quit := True\<rparr>"

definition EventLoop_quit :: "nat \<Rightarrow> EventLoop \<Rightarrow> EventLoop" where
  "EventLoop_quit tid l = (let l1 = quit_set l in if \<not> isInLoopThread tid l1 then wakeup l1 else l1)"

text \<open>What user code calls; \<^verbatim>\<open>runInLoop\<close> in the loop thread runs the functor on the spot.\<close>

datatype el_call = RunInLoop nat | QueueInLoop nat | Quit

text \<open>A functor running on the spot: its calls, to a nesting depth \<open>n\<close>. The trace collects the
  functors executed.\<close>

fun call_run :: "(nat \<Rightarrow> el_call list) \<Rightarrow> nat \<Rightarrow> nat \<Rightarrow> el_call \<Rightarrow> EventLoop \<times> nat list \<Rightarrow> (EventLoop \<times> nat list) option"
  and runInLoop_calls :: "(nat \<Rightarrow> el_call list) \<Rightarrow> nat \<Rightarrow> nat \<Rightarrow> el_call list \<Rightarrow> EventLoop \<times> nat list \<Rightarrow> (EventLoop \<times> nat list) option" where
  "call_run body tid n (QueueInLoop cb) (l, tr) = Some (queueInLoop tid cb l, tr)"
| "call_run body tid n Quit (l, tr) = Some (EventLoop_quit tid l, tr)"
| "call_run body tid 0 (RunInLoop cb) (l, tr) = (if isInLoopThread tid l then None else Some (queueInLoop tid cb l, tr))"
| "call_run body tid (Suc n) (RunInLoop cb) (l, tr) =
     (if isInLoopThread tid l then runInLoop_calls body tid n (body cb) (l, tr @ [cb]) else Some (queueInLoop tid cb l, tr))"
| "runInLoop_calls body tid n [] s = Some s"
| "runInLoop_calls body tid n (c # cs) s =
     (case call_run body tid n c s of None \<Rightarrow> None | Some s' \<Rightarrow> runInLoop_calls body tid n cs s')"

definition runInLoop :: "(nat \<Rightarrow> el_call list) \<Rightarrow> nat \<Rightarrow> nat \<Rightarrow> nat \<Rightarrow> EventLoop \<times> nat list \<Rightarrow> (EventLoop \<times> nat list) option" where
  "runInLoop body tid n cb s = call_run body tid n (RunInLoop cb) s"

section \<open>The loop, piece by piece\<close>

definition loop_enter :: "nat \<Rightarrow> EventLoop \<Rightarrow> EventLoop result" where
  "loop_enter tid l =
     assertR ''!looping_'' (\<not> el_looping l)
       (assertInLoopThread tid l (Inr (l\<lparr>el_looping := True, el_quit := False, el_phase := Polling\<rparr>)))"

definition loop_poll_returns :: "int \<Rightarrow> EventLoop \<Rightarrow> EventLoop" where
  "loop_poll_returns now l = l\<lparr>el_pollReturnTime := now, el_phase := Handling\<rparr>"

text \<open>\<^verbatim>\<open>doPendingFunctors\<close>: take the whole queue under the lock, run it, and look at \<^verbatim>\<open>quit_\<close>.\<close>

definition doPendingFunctors_swap :: "EventLoop \<Rightarrow> EventLoop" where
  "doPendingFunctors_swap l = l\<lparr>el_callingPendingFunctors := True, el_pendingFunctors := [],
     el_phase := Running (el_pendingFunctors l)\<rparr>"

definition doPendingFunctors_done :: "EventLoop \<Rightarrow> EventLoop" where
  "doPendingFunctors_done l = l\<lparr>el_callingPendingFunctors := False,
     el_phase := (if el_quit l then Idle else Polling), el_looping := (if el_quit l then False else el_looping l)\<rparr>"

text \<open>The timer functions go straight to the queue of the loop.\<close>

definition runAt :: "(nat list \<Rightarrow> nat option) \<Rightarrow> Timestamp \<Rightarrow> nat \<Rightarrow> Timestamp \<Rightarrow> nat \<Rightarrow> TimerQueue \<Rightarrow> (TimerId \<times> TimerQueue) result" where
  "runAt alloc now tid time cb q = addTimer alloc now tid cb time 0 False q"

definition runAfter :: "(nat list \<Rightarrow> nat option) \<Rightarrow> Timestamp \<Rightarrow> nat \<Rightarrow> int \<Rightarrow> nat \<Rightarrow> TimerQueue \<Rightarrow> (TimerId \<times> TimerQueue) result" where
  "runAfter alloc now tid delay cb q = (let time = addTime now delay in runAt alloc now tid time cb q)"

definition runEvery :: "(nat list \<Rightarrow> nat option) \<Rightarrow> Timestamp \<Rightarrow> nat \<Rightarrow> int \<Rightarrow> bool \<Rightarrow> nat \<Rightarrow> TimerQueue \<Rightarrow> (TimerId \<times> TimerQueue) result" where
  "runEvery alloc now tid interval positive cb q =
     (let time = addTime now interval in addTimer alloc now tid cb time interval positive q)"

definition EventLoop_cancel :: "nat \<Rightarrow> TimerId \<Rightarrow> TimerQueue \<Rightarrow> TimerQueue result" where
  "EventLoop_cancel tid timerId q = TimerQueue_cancel tid timerId q"

text \<open>Channel management: the owner check, the thread check, then the poller.\<close>

definition EventLoop_updateChannel :: "nat \<Rightarrow> bool \<Rightarrow> EventLoop \<Rightarrow> (nat \<Rightarrow> 'p \<Rightarrow> 'p result) \<Rightarrow> nat \<Rightarrow> 'p \<Rightarrow> 'p result" where
  "EventLoop_updateChannel tid owned l upd ch p =
     assertR ''channel->ownerLoop()==this'' owned (assertInLoopThread tid l (upd ch p))"

definition EventLoop_removeChannel :: "nat \<Rightarrow> bool \<Rightarrow> EventLoop \<Rightarrow> (nat \<Rightarrow> 'p \<Rightarrow> 'p result) \<Rightarrow> nat \<Rightarrow> 'p \<Rightarrow> 'p result" where
  "EventLoop_removeChannel tid owned l rem ch p =
     assertR ''channel->ownerLoop() == this'' owned (assertInLoopThread tid l (rem ch p))"

definition EventLoop_hasChannel :: "nat \<Rightarrow> bool \<Rightarrow> EventLoop \<Rightarrow> nat \<Rightarrow> 'a Poller_scheme \<Rightarrow> bool result" where
  "EventLoop_hasChannel tid owned l ch p =
     assertR ''channel->ownerLoop() == this'' owned (assertInLoopThread tid l (hasChannel tid ch p))"

section \<open>Interleavings\<close>

text \<open>
  A configuration is the loop, the functors executed by \<^verbatim>\<open>doPendingFunctors\<close> so far, all functors
  ever queued, the number of other threads that have pushed a functor (or set \<^verbatim>\<open>quit_\<close>) and not
  yet written to the eventfd, and those of the pending functors that the loop thread queued while it
  was not in \<^verbatim>\<open>loop()\<close>. The calls of a running functor or handler that touch the loop are
  steps of their own, so a functor may make any of them, in any number.
\<close>

record el_config =
  c_loop :: EventLoop
  c_done :: "nat list"
  c_queued :: "nat list"
  c_waking :: nat
  c_early :: "nat list"

inductive el_step :: "el_config \<Rightarrow> el_config \<Rightarrow> bool" where
  enter: "loop_enter (el_threadId (c_loop c)) (c_loop c) = Inr l \<Longrightarrow> el_phase (c_loop c) = Idle \<Longrightarrow>
     el_step c (c\<lparr>c_loop := l\<rparr>)"
| poll_returns: "el_phase (c_loop c) = Polling \<Longrightarrow> el_step c (c\<lparr>c_loop := loop_poll_returns now (c_loop c)\<rparr>)"
| wakeup_handled: "el_phase (c_loop c) = Handling \<Longrightarrow> el_step c (c\<lparr>c_loop := EventLoop_handleRead (c_loop c)\<rparr>)"
| swap: "el_phase (c_loop c) = Handling \<Longrightarrow> el_step c (c\<lparr>c_loop := doPendingFunctors_swap (c_loop c), c_early := []\<rparr>)"
| run: "el_phase (c_loop c) = Running (f # fs) \<Longrightarrow>
     el_step c (c\<lparr>c_loop := (c_loop c)\<lparr>el_phase := Running fs\<rparr>, c_done := c_done c @ [f]\<rparr>)"
| finish: "el_phase (c_loop c) = Running [] \<Longrightarrow> el_step c (c\<lparr>c_loop := doPendingFunctors_done (c_loop c)\<rparr>)"
| own_queue: "tid = el_threadId (c_loop c) \<Longrightarrow> el_phase (c_loop c) = Handling \<or> (\<exists>fs. el_phase (c_loop c) = Running fs) \<Longrightarrow>
     el_step c (c\<lparr>c_loop := queueInLoop tid f (c_loop c), c_queued := c_queued c @ [f]\<rparr>)"
| early_queue: "tid = el_threadId (c_loop c) \<Longrightarrow> el_phase (c_loop c) = Idle \<Longrightarrow>
     el_step c (c\<lparr>c_loop := queueInLoop tid f (c_loop c), c_queued := c_queued c @ [f], c_early := c_early c @ [f]\<rparr>)"
| own_quit: "tid = el_threadId (c_loop c) \<Longrightarrow> el_phase (c_loop c) \<noteq> Polling \<Longrightarrow>
     el_step c (c\<lparr>c_loop := EventLoop_quit tid (c_loop c)\<rparr>)"
| other_push: "el_step c (c\<lparr>c_loop := queue_push f (c_loop c), c_queued := c_queued c @ [f], c_waking := c_waking c + 1\<rparr>)"
| other_quit: "el_step c (c\<lparr>c_loop := quit_set (c_loop c), c_waking := c_waking c + 1\<rparr>)"
| other_wakeup: "c_waking c = Suc n \<Longrightarrow> el_step c (c\<lparr>c_loop := wakeup (c_loop c), c_waking := n\<rparr>)"

inductive_cases el_step_cases: "el_step c c'"

definition el_init :: "EventLoop \<Rightarrow> el_config" where
  "el_init l = \<lparr>c_loop = l, c_done = [], c_queued = [], c_waking = 0, c_early = []\<rparr>"

definition running :: "EventLoop \<Rightarrow> nat list" where
  "running l = (case el_phase l of Running fs \<Rightarrow> fs | _ \<Rightarrow> [])"

lemmas el_defs = loop_enter_def loop_poll_returns_def EventLoop_handleRead_def doPendingFunctors_swap_def
  doPendingFunctors_done_def queueInLoop_def queue_push_def EventLoop_quit_def quit_set_def wakeup_def
  isInLoopThread_def assertInLoopThread_def abortNotInLoopThread_def Let_def

text \<open>The invariant: the flags follow the phase, the queue is a FIFO, and whoever left something for
  a blocked loop has woken it up or is about to, apart from the loop thread outside \<^verbatim>\<open>loop()\<close>.\<close>

definition el_inv :: "el_config \<Rightarrow> bool" where
  "el_inv c = (let l = c_loop c in
     (el_looping l \<longleftrightarrow> el_phase l \<noteq> Idle)
     \<and> (el_callingPendingFunctors l \<longleftrightarrow> (\<exists>fs. el_phase l = Running fs))
     \<and> c_done c @ running l @ el_pendingFunctors l = c_queued c
     \<and> (el_phase l \<noteq> Handling \<and> el_pendingFunctors l \<noteq> c_early c \<longrightarrow> 0 < el_wakeupFd l \<or> 0 < c_waking c)
     \<and> (el_phase l = Polling \<and> el_quit l \<longrightarrow> 0 < el_wakeupFd l \<or> 0 < c_waking c))"

interpretation el: step_invariant el_step el_inv
proof
  fix c c'
  assume I: "el_inv c" and s: "el_step c c'"
  note inv = I [unfolded el_inv_def Let_def running_def]
  from s show "el_inv c'"
  proof (cases rule: el_step.cases)
    case (enter l)
    then show ?thesis using inv by (auto simp: el_inv_def running_def el_defs assertR_def split: if_splits)
  next
    case (poll_returns now)
    then show ?thesis using inv by (simp add: el_inv_def running_def el_defs)
  next
    case wakeup_handled
    then show ?thesis using inv by (simp add: el_inv_def running_def el_defs)
  next
    case swap
    then show ?thesis using inv by (simp add: el_inv_def running_def el_defs)
  next
    case (run f fs)
    then show ?thesis using inv by (simp add: el_inv_def running_def)
  next
    case finish
    then show ?thesis using inv by (simp add: el_inv_def running_def el_defs)
  next
    case (own_queue tid f)
    then show ?thesis using inv by (auto simp: el_inv_def running_def el_defs)
  next
    case (early_queue tid f)
    then show ?thesis using inv by (auto simp: el_inv_def running_def el_defs)
  next
    case (own_quit tid)
    then show ?thesis using inv by (auto simp: el_inv_def running_def el_defs)
  next
    case (other_push f)
    then show ?thesis using inv by (cases "el_phase (c_loop c)") (simp_all add: el_inv_def running_def el_defs)
  next
    case other_quit
    then show ?thesis using inv by (simp add: el_inv_def running_def el_defs)
  next
    case (other_wakeup n)
    then show ?thesis using inv by (simp add: el_inv_def running_def el_defs)
  qed
qed

lemma el_init_inv: "EventLoop_ctor tid evtfd False = Inr l \<Longrightarrow> el_inv (el_init l)"
  by (auto simp: EventLoop_ctor_def createEventfd_def el_inv_def el_init_def running_def split: if_splits)

section \<open>Properties\<close>

text \<open>C18. Functors are executed exactly once and in the order they were queued, whatever threads
  queue them and whatever the functors and handlers do in between: at every moment the functors
  executed so far, those of the round being run and the pending ones are, in this order, all that
  were ever queued.\<close>

theorem functors_fifo:
  assumes "EventLoop_ctor tid evtfd False = Inr l" and "reach el_step (el_init l) c"
  shows "c_done c @ running (c_loop c) @ el_pendingFunctors (c_loop c) = c_queued c"
  using el.invariant [OF assms(2) el_init_inv [OF assms(1)]] by (simp add: el_inv_def Let_def)

theorem functors_fifo_witness:
  "\<exists>l c. EventLoop_ctor 1 3 False = Inr l \<and> reach el_step (el_init l) c \<and> c_queued c = [7]
     \<and> c_done c @ running (c_loop c) @ el_pendingFunctors (c_loop c) = c_queued c"
proof -
  obtain l where l: "EventLoop_ctor 1 3 False = Inr l" by (simp add: EventLoop_ctor_def createEventfd_def)
  have r: "reach el_step (el_init l) ((el_init l)\<lparr>c_loop := queue_push 7 (c_loop (el_init l)),
      c_queued := c_queued (el_init l) @ [7], c_waking := c_waking (el_init l) + 1\<rparr>)" (is "reach _ _ ?c")
    by (rule reach_one) (rule other_push)
  have "c_queued ?c = [7]" by (simp add: el_init_def)
  with functors_fifo [OF l r] l r show ?thesis by blast
qed

text \<open>C17. No wakeup is lost. Any number of threads push functors, call \<^verbatim>\<open>quit\<close> and write to the eventfd
  at any time, and so does the loop thread, in its handlers and functors and outside \<^verbatim>\<open>loop()\<close>. Whenever
  the loop is blocked in the poller although a functor is pending or \<^verbatim>\<open>quit_\<close> is set, and no thread is
  about to write to the eventfd, the eventfd is readable, so that the poller returns. The one exception
  is stated exactly: \<^verbatim>\<open>quit_\<close> is not set and all pending functors were queued by the loop thread itself
  while it was not in \<^verbatim>\<open>loop()\<close>, where \<^verbatim>\<open>queueInLoop\<close> does not write to the eventfd.\<close>

theorem no_lost_wakeup:
  assumes "EventLoop_ctor tid evtfd False = Inr l" and "reach el_step (el_init l) c"
    and "el_phase (c_loop c) = Polling" and "el_pendingFunctors (c_loop c) \<noteq> [] \<or> el_quit (c_loop c)"
    and "c_waking c = 0"
  shows "0 < el_wakeupFd (c_loop c)
     \<or> \<not> el_quit (c_loop c) \<and> el_pendingFunctors (c_loop c) = c_early c"
  using el.invariant [OF assms(2) el_init_inv [OF assms(1)]] assms(3-5) by (auto simp: el_inv_def Let_def)

theorem no_lost_wakeup_witness:
  "\<exists>l c. EventLoop_ctor 1 3 False = Inr l \<and> reach el_step (el_init l) c \<and> el_phase (c_loop c) = Polling
     \<and> el_pendingFunctors (c_loop c) = [7] \<and> c_waking c = 0 \<and> 0 < el_wakeupFd (c_loop c)"
proof -
  obtain l where l: "EventLoop_ctor 1 3 False = Inr l" by (simp add: EventLoop_ctor_def createEventfd_def)
  have l0: "l = \<lparr>el_looping = False, el_quit = False, el_callingPendingFunctors = False, el_threadId = 1,
      el_pollReturnTime = 0, el_pendingFunctors = [], el_wakeupFd = 0, el_phase = Idle\<rparr>"
    using l by (simp add: EventLoop_ctor_def createEventfd_def)
  let ?c1 = "(el_init l)\<lparr>c_loop := l\<lparr>el_looping := True, el_quit := False, el_phase := Polling\<rparr>\<rparr>"
  let ?c2 = "?c1\<lparr>c_loop := queue_push 7 (c_loop ?c1), c_queued := c_queued ?c1 @ [7], c_waking := c_waking ?c1 + 1\<rparr>"
  let ?c3 = "?c2\<lparr>c_loop := wakeup (c_loop ?c2), c_waking := 0\<rparr>"
  have "el_step (el_init l) ?c1" by (rule enter) (simp_all add: el_init_def l0 el_defs)
  moreover have "el_step ?c1 ?c2" by (rule other_push)
  moreover have "el_step ?c2 ?c3" by (rule other_wakeup) (simp add: el_init_def)
  ultimately have r: "reach el_step (el_init l) ?c3" by (blast intro: reach.intros)
  have f: "el_phase (c_loop ?c3) = Polling" "el_pendingFunctors (c_loop ?c3) = [7]" "c_waking ?c3 = 0"
    by (simp_all add: el_defs l0)
  have "el_pendingFunctors (c_loop ?c3) \<noteq> [] \<or> el_quit (c_loop ?c3)" using f(2) by simp
  from no_lost_wakeup [OF l r f(1) this f(3)] have "0 < el_wakeupFd (c_loop ?c3)" unfolding f(2) by (simp add: el_init_def)
  with l r f show ?thesis by blast
qed

text \<open>A functor queued by the loop thread itself before \<^verbatim>\<open>loop()\<close> is entered is not announced:
  the loop then blocks in its first poll with the functor pending and the eventfd silent (it is run
  only after an unrelated event or the poll timeout). A \<^verbatim>\<open>quit()\<close> that comes before \<^verbatim>\<open>loop()\<close> is lost
  altogether.\<close>

theorem before_loop_is_lost:
  assumes "EventLoop_ctor tid evtfd False = Inr l"
  shows "(\<exists>l'. loop_enter tid (queueInLoop tid f l) = Inr l' \<and> el_phase l' = Polling
        \<and> el_pendingFunctors l' = [f] \<and> el_wakeupFd l' = 0)
     \<and> (\<exists>l'. loop_enter tid (EventLoop_quit tid' l) = Inr l' \<and> el_phase l' = Polling \<and> \<not> el_quit l')"
  using assms by (auto simp: EventLoop_ctor_def createEventfd_def el_defs split: if_splits)

theorem before_loop_is_lost_witness:
  "\<exists>l l'. EventLoop_ctor 1 3 False = Inr l \<and> loop_enter 1 (queueInLoop 1 9 l) = Inr l'
     \<and> el_pendingFunctors l' = [9] \<and> el_wakeupFd l' = 0"
proof -
  obtain l where l: "EventLoop_ctor 1 3 False = Inr l" by (simp add: EventLoop_ctor_def createEventfd_def)
  show ?thesis using before_loop_is_lost [OF l, of 9] l by blast
qed

end
