(* ===== verification/Net_Tcp.thy ===== *)
theory Net_Tcp
  imports Net_Buffer Net_EventLoop
begin

text \<open>
  \<^verbatim>\<open>net/TcpConnection.h\<close>, \<^verbatim>\<open>net/TcpConnection.cc\<close> and the connection management of
  \<^verbatim>\<open>net/TcpServer.cc\<close>. A connection keeps its state, its two buffers and its channel; the functions
  return the updated connection. Calls that leave it are recorded: the calls on the poller
  (\<open>tc_calls\<close>), the functors given to the loop (\<open>tc_queue\<close>), the bytes the socket accepted
  (\<open>tc_written\<close>) and the callbacks and socket operations (\<open>tc_trace\<close>). The answers of \<^verbatim>\<open>read\<close> and
  \<^verbatim>\<open>write\<close> are arguments. The second half composes a connection with its loop, its server and its
  users: every callback of the connection is the last thing its caller does, so what a callback
  calls is simply a later step.
\<close>

unbundle bit_operations_syntax

section \<open>The connection\<close>

datatype StateE = kConnecting | kConnected | kDisconnecting | kDisconnected

datatype tcp_functor = FSend string | FShutdown | FForceClose | FWriteComplete | FHighWaterMark nat | FDestroy

text \<open>\<open>EvShutdownWrite n\<close> records how many bytes were still unsent when the write side was shut.\<close>

datatype tcp_event = EvConnection StateE | EvMessage Timestamp | EvClose | EvShutdownWrite nat | EvError

record TcpConnection =
  tc_thread :: nat
  tc_name :: string
  tc_state :: StateE
  tc_events :: "32 word"
  tc_inputBuffer :: Buffer
  tc_outputBuffer :: Buffer
  tc_highWaterMark :: nat
  tc_hasHighWaterMarkCallback :: bool
  tc_hasWriteCompleteCallback :: bool
  tc_calls :: "channel_call list"
  tc_queue :: "tcp_functor list"
  tc_written :: string
  tc_trace :: "tcp_event list"

text \<open>\<^verbatim>\<open>highWaterMark_\<close> is not initialised by the constructor: its value is an argument.\<close>

definition TcpConnection_ctor :: "nat \<Rightarrow> string \<Rightarrow> nat \<Rightarrow> TcpConnection result" where
  "TcpConnection_ctor loop_thread nameArg garbage =
     bindR Buffer_ctor (\<lambda>inb. bindR Buffer_ctor (\<lambda>outb.
       Inr \<lparr>tc_thread = loop_thread, tc_name = nameArg, tc_state = kConnecting, tc_events = 0,
            tc_inputBuffer = inb, tc_outputBuffer = outb, tc_highWaterMark = garbage,
            tc_hasHighWaterMarkCallback = False, tc_hasWriteCompleteCallback = False, tc_calls = [], tc_queue = [],
            tc_written = [], tc_trace = []\<rparr>))"

definition connected :: "TcpConnection \<Rightarrow> bool" where
  "connected c = (tc_state c = kConnected)"

definition setHighWaterMarkCallback :: "nat \<Rightarrow> TcpConnection \<Rightarrow> TcpConnection" where
  "setHighWaterMarkCallback hwm c = c\<lparr>tc_hasHighWaterMarkCallback := True, tc_highWaterMark := hwm\<rparr>"

definition setWriteCompleteCallback :: "bool \<Rightarrow> TcpConnection \<Rightarrow> TcpConnection" where
  "setWriteCompleteCallback nonempty c = c\<lparr>tc_hasWriteCompleteCallback := nonempty\<rparr>"

definition setState :: "StateE \<Rightarrow> TcpConnection \<Rightarrow> TcpConnection" where
  "setState s c = c\<lparr>tc_state := s\<rparr>"

definition tc_assertInLoopThread :: "nat \<Rightarrow> TcpConnection \<Rightarrow> 'a result \<Rightarrow> 'a result" where
  "tc_assertInLoopThread tid c k =
     (if tid = tc_thread c then k else Inl (LogFatal ''EventLoop::abortNotInLoopThread''))"

text \<open>Its channel: the calls of \<^verbatim>\<open>enableReading\<close> and its relatives, and the queries.\<close>

definition tc_watch :: "32 word \<Rightarrow> TcpConnection \<Rightarrow> TcpConnection" where
  "tc_watch ev c = c\<lparr>tc_events := ev, tc_calls := tc_calls c @ [Watch 0 ev]\<rparr>"

definition tc_isWriting :: "TcpConnection \<Rightarrow> bool" where
  "tc_isWriting c = (tc_events c AND kWriteEvent \<noteq> 0)"

definition tc_emit :: "tcp_event \<Rightarrow> TcpConnection \<Rightarrow> TcpConnection" where
  "tc_emit e c = c\<lparr>tc_trace := tc_trace c @ [e]\<rparr>"

definition tc_queueInLoop :: "tcp_functor \<Rightarrow> TcpConnection \<Rightarrow> TcpConnection" where
  "tc_queueInLoop f c = c\<lparr>tc_queue := tc_queue c @ [f]\<rparr>"

definition handleError :: "TcpConnection \<Rightarrow> TcpConnection" where
  "handleError c = tc_emit EvError c"

definition handleClose :: "nat \<Rightarrow> TcpConnection \<Rightarrow> TcpConnection result" where
  "handleClose tid c =
     tc_assertInLoopThread tid c
     (assertR ''state_ == kConnected || state_ == kDisconnecting'' (tc_state c = kConnected \<or> tc_state c = kDisconnecting)
       (Inr (tc_emit EvClose (tc_watch kNoneEvent c))))"

definition TcpConnection_handleRead :: "nat \<Rightarrow> Timestamp \<Rightarrow> io_read \<Rightarrow> TcpConnection \<Rightarrow> TcpConnection result" where
  "TcpConnection_handleRead tid receiveTime r c =
     bindR (readFd r 0 (tc_inputBuffer c)) (\<lambda>(n, savedErrno, b).
       let c1 = c\<lparr>tc_inputBuffer := b\<rparr> in
       if n > 0 then Inr (tc_emit (EvMessage receiveTime) c1)
       else if n = 0 then handleClose tid c1
       else Inr (handleError c1))"

definition connectEstablished :: "nat \<Rightarrow> TcpConnection \<Rightarrow> TcpConnection result" where
  "connectEstablished tid c =
     tc_assertInLoopThread tid c
     (assertR ''state_ == kConnecting'' (tc_state c = kConnecting)
       (let c1 = setState kConnected c;
            c2 = tc_watch (tc_events c1 OR kReadEvent) c1
        in Inr (tc_emit (EvConnection (tc_state c2)) c2)))"

definition connectDestroyed :: "nat \<Rightarrow> TcpConnection \<Rightarrow> TcpConnection result" where
  "connectDestroyed tid c =
     tc_assertInLoopThread tid c
     (assertR ''state_ == kConnected || state_ == kDisconnecting'' (tc_state c = kConnected \<or> tc_state c = kDisconnecting)
       (let c1 = setState kDisconnected c;
            c2 = tc_watch kNoneEvent c1;
            c3 = tc_emit (EvConnection (tc_state c2)) c2
        in Inr (c3\<lparr>tc_calls := tc_calls c3 @ [Unwatch 0]\<rparr>)))"

definition shutdownInLoop :: "nat \<Rightarrow> TcpConnection \<Rightarrow> TcpConnection result" where
  "shutdownInLoop tid c =
     tc_assertInLoopThread tid c
       (Inr (if \<not> tc_isWriting c then tc_emit (EvShutdownWrite (readableBytes (tc_outputBuffer c))) c else c))"

definition shutdown :: "nat \<Rightarrow> TcpConnection \<Rightarrow> TcpConnection result" where
  "shutdown tid c =
     (if tc_state c = kConnected
      then let c1 = setState kDisconnecting c in
           if tid = tc_thread c1 then shutdownInLoop tid c1 else Inr (tc_queueInLoop FShutdown c1)
      else Inr c)"

text \<open>\<open>w\<close> is the answer of \<^verbatim>\<open>write(2)\<close>: the number of bytes taken, or \<open>None\<close> for \<open>-1\<close>.\<close>

definition sendInLoop_write :: "nat option \<Rightarrow> string \<Rightarrow> TcpConnection \<Rightarrow> nat \<times> TcpConnection" where
  "sendInLoop_write w message c =
     (if \<not> tc_isWriting c \<and> readableBytes (tc_outputBuffer c) = 0 then
        (case w of
           Some n \<Rightarrow>
             (n, let c' = c\<lparr>tc_written := tc_written c @ take n message\<rparr> in
                 if n < length message then c'
                 else if tc_hasWriteCompleteCallback c' then tc_queueInLoop FWriteComplete c' else c')
         | None \<Rightarrow> (0, c))
      else (0, c))"

definition sendInLoop_rest :: "string \<Rightarrow> TcpConnection \<Rightarrow> TcpConnection result" where
  "sendInLoop_rest rest c =
     (let oldLen = readableBytes (tc_outputBuffer c);
          remaining = length rest;
          c1 = (if tc_highWaterMark c \<le> oldLen + remaining \<and> oldLen < tc_highWaterMark c \<and> tc_hasHighWaterMarkCallback c
                then tc_queueInLoop (FHighWaterMark (oldLen + remaining)) c else c)
      in bindR (Buffer_append rest (tc_outputBuffer c1)) (\<lambda>b.
           let c2 = c1\<lparr>tc_outputBuffer := b\<rparr>
           in Inr (if \<not> tc_isWriting c2 then tc_watch (tc_events c2 OR kWriteEvent) c2 else c2)))"

definition sendInLoop :: "nat \<Rightarrow> nat option \<Rightarrow> string \<Rightarrow> TcpConnection \<Rightarrow> TcpConnection result" where
  "sendInLoop tid w message c =
     tc_assertInLoopThread tid c
     (let (nwrote, c1) = sendInLoop_write w message c
      in if nwrote < length message then sendInLoop_rest (drop nwrote message) c1 else Inr c1)"

definition TcpConnection_send :: "nat \<Rightarrow> nat option \<Rightarrow> string \<Rightarrow> TcpConnection \<Rightarrow> TcpConnection result" where
  "TcpConnection_send tid w message c =
     (if tc_state c = kConnected
      then if tid = tc_thread c then sendInLoop tid w message c else Inr (tc_queueInLoop (FSend message) c)
      else Inr c)"

text \<open>\<^verbatim>\<open>send(Buffer*)\<close> takes everything out of the given buffer.\<close>

definition TcpConnection_sendBuffer :: "nat \<Rightarrow> nat option \<Rightarrow> Buffer \<Rightarrow> TcpConnection \<Rightarrow> (Buffer \<times> TcpConnection) result" where
  "TcpConnection_sendBuffer tid w buf c =
     (if tc_state c = kConnected
      then bindR (retrieveAsString buf) (\<lambda>(message, buf').
             bindR (if tid = tc_thread c then sendInLoop tid w message c else Inr (tc_queueInLoop (FSend message) c))
               (\<lambda>c'. Inr (buf', c')))
      else Inr (buf, c))"

definition TcpConnection_handleWrite :: "nat \<Rightarrow> nat option \<Rightarrow> TcpConnection \<Rightarrow> TcpConnection result" where
  "TcpConnection_handleWrite tid w c =
     tc_assertInLoopThread tid c
     (if tc_isWriting c then
        bindR (vec_read (buffer (tc_outputBuffer c)) (peek (tc_outputBuffer c))
                 (peek (tc_outputBuffer c) + readableBytes (tc_outputBuffer c))) (\<lambda>bytes.
          (case w of
             Some n \<Rightarrow>
               if 0 < n then
                 bindR (retrieve n (tc_outputBuffer c)) (\<lambda>b.
                   let c1 = c\<lparr>tc_outputBuffer := b, tc_written := tc_written c @ take n bytes\<rparr> in
                   if readableBytes b = 0 then
                     (let c2 = tc_watch (tc_events c1 AND NOT kWriteEvent) c1;
                          c3 = (if tc_hasWriteCompleteCallback c2 then tc_queueInLoop FWriteComplete c2 else c2)
                      in if tc_state c3 = kDisconnecting then shutdownInLoop tid c3 else Inr c3)
                   else Inr c1)
               else Inr c
           | None \<Rightarrow> Inr c))
      else Inr c)"

definition forceCloseInLoop :: "nat \<Rightarrow> TcpConnection \<Rightarrow> TcpConnection result" where
  "forceCloseInLoop tid c =
     tc_assertInLoopThread tid c
       (if tc_state c = kConnected \<or> tc_state c = kDisconnecting then handleClose tid c else Inr c)"

definition forceClose :: "TcpConnection \<Rightarrow> TcpConnection" where
  "forceClose c =
     (if tc_state c = kConnected \<or> tc_state c = kDisconnecting
      then tc_queueInLoop FForceClose (setState kDisconnecting c) else c)"

definition defaultMessageCallback :: "TcpConnection \<Rightarrow> TcpConnection" where
  "defaultMessageCallback c = c\<lparr>tc_inputBuffer := retrieveAll (tc_inputBuffer c)\<rparr>"

text \<open>A functor reaching the front of the loop's queue. The write-complete and high-water callbacks
  are user code.\<close>

primrec run_functor :: "nat \<Rightarrow> nat option \<Rightarrow> tcp_functor \<Rightarrow> TcpConnection \<Rightarrow> TcpConnection result" where
  "run_functor tid w (FSend message) c = sendInLoop tid w message c"
| "run_functor tid w FShutdown c = shutdownInLoop tid c"
| "run_functor tid w FForceClose c = forceCloseInLoop tid c"
| "run_functor tid w FWriteComplete c = Inr c"
| "run_functor tid w (FHighWaterMark n) c = Inr c"
| "run_functor tid w FDestroy c = connectDestroyed tid c"

section \<open>The connection in its environment\<close>

text \<open>
  The connection, the callbacks of the current event still to be run, whether the server has it in
  its map, the number of \<^verbatim>\<open>removeConnectionInLoop\<close> calls under way, and all bytes given to
  \<^verbatim>\<open>sendInLoop\<close> so far.
\<close>

record tcp_sys =
  s_conn :: TcpConnection
  s_todo :: "event_callback list"
  s_inMap :: bool
  s_removals :: nat
  s_sent :: string

datatype tcp_label =
    LEstablish
  | LPoll "32 word"                        \<comment> \<open>the poller reports events of the channel\<close>
  | LDispatch Timestamp io_read "nat option"  \<comment> \<open>the next callback of the event\<close>
  | LFunctor "nat option"                  \<comment> \<open>the next functor of the loop\<close>
  | LSend nat "nat option" string          \<comment> \<open>any thread calls \<^verbatim>\<open>send\<close>\<close>
  | LShutdown nat
  | LForceClose
  | LConsume nat                           \<comment> \<open>the user takes bytes from the input buffer\<close>
  | LRemove                                \<comment> \<open>the server's \<^verbatim>\<open>removeConnectionInLoop\<close>\<close>

definition tcp_channel :: "32 word \<Rightarrow> TcpConnection \<Rightarrow> Channel" where
  "tcp_channel revents c = (Channel_ctor 0)\<lparr>ch_events := tc_events c, ch_revents := revents, ch_readCallback := True,
     ch_writeCallback := True, ch_errorCallback := True, ch_closeCallback := True\<rparr>"

text \<open>
  When the poller can report events: when the channel watches for some, or when \<^verbatim>\<open>EPollPoller\<close> has it
  registered for none. It has after an even number of \<^verbatim>\<open>disableAll\<close> in a row (\<^verbatim>\<open>handleClose\<close> and
  \<^verbatim>\<open>connectDestroyed\<close> each call it): the second one finds \<^verbatim>\<open>kDeleted\<close> and adds the descriptor again.
  The kernel then still reports errors and hang-ups.
\<close>

definition redisabled :: "TcpConnection \<Rightarrow> bool" where
  "redisabled c = (let n = length (takeWhile (\<lambda>call. call = Watch 0 0) (rev (tc_calls c))) in 0 < n \<and> even n)"

definition reported :: "32 word \<Rightarrow> TcpConnection \<Rightarrow> bool" where
  "reported revents c = (tc_events c \<noteq> 0 \<or> redisabled c \<and> revents AND NOT (POLLERR OR POLLHUP) = 0)"

text \<open>When a step can happen. The kernel takes no more bytes than it is offered and delivers no more
  than there is room for.\<close>

definition write_fits :: "nat option \<Rightarrow> nat \<Rightarrow> bool" where
  "write_fits w n = (case w of None \<Rightarrow> True | Some k \<Rightarrow> k \<le> n)"

primrec tcp_enabled :: "tcp_label \<Rightarrow> tcp_sys \<Rightarrow> bool" where
  "tcp_enabled LEstablish s = (tc_state (s_conn s) = kConnecting \<and> s_inMap s)"
| "tcp_enabled (LPoll revents) s = (s_todo s = [] \<and> reported revents (s_conn s))"
| "tcp_enabled (LDispatch t r w) s = (s_todo s \<noteq> [] \<and> readv_fits r (tc_inputBuffer (s_conn s))
     \<and> write_fits w (length (Buffer_content (tc_outputBuffer (s_conn s)))))"
| "tcp_enabled (LFunctor w) s = (s_todo s = [] \<and> tc_queue (s_conn s) \<noteq> []
     \<and> (case hd (tc_queue (s_conn s)) of FSend m \<Rightarrow> write_fits w (length m) | _ \<Rightarrow> True))"
| "tcp_enabled (LSend tid w m) s = write_fits w (length m)"
| "tcp_enabled (LShutdown tid) s = True"
| "tcp_enabled LForceClose s = True"
| "tcp_enabled (LConsume n) s = (tc_state (s_conn s) \<noteq> kConnecting \<and> n \<le> length (Buffer_content (tc_inputBuffer (s_conn s))))"
| "tcp_enabled LRemove s = (0 < s_removals s)"

definition closes :: "TcpConnection \<Rightarrow> nat" where
  "closes c = count_list (tc_trace c) EvClose"

text \<open>The close callback of a connection is \<^verbatim>\<open>TcpServer::removeConnection\<close>.\<close>

definition with_conn :: "tcp_sys \<Rightarrow> TcpConnection \<Rightarrow> tcp_sys" where
  "with_conn s c = s\<lparr>s_conn := c, s_removals := s_removals s + (closes c - closes (s_conn s))\<rparr>"

primrec dispatch :: "event_callback \<Rightarrow> nat \<Rightarrow> Timestamp \<Rightarrow> io_read \<Rightarrow> nat option \<Rightarrow> TcpConnection \<Rightarrow> TcpConnection result" where
  "dispatch CloseCallback tid t r w c = handleClose tid c"
| "dispatch ErrorCallback tid t r w c = Inr (handleError c)"
| "dispatch ReadCallback tid t r w c = TcpConnection_handleRead tid t r c"
| "dispatch WriteCallback tid t r w c = TcpConnection_handleWrite tid w c"

definition removeConnectionInLoop :: "tcp_sys \<Rightarrow> tcp_sys result" where
  "removeConnectionInLoop s =
     assertR ''n==1'' (s_inMap s)
       (Inr (s\<lparr>s_inMap := False, s_removals := s_removals s - 1, s_conn := tc_queueInLoop FDestroy (s_conn s)\<rparr>))"

primrec tcp_exec :: "tcp_label \<Rightarrow> tcp_sys \<Rightarrow> tcp_sys result" where
  "tcp_exec LEstablish s = bindR (connectEstablished (tc_thread (s_conn s)) (s_conn s)) (\<lambda>c. Inr (with_conn s c))"
| "tcp_exec (LPoll revents) s = Inr (s\<lparr>s_todo := handleEvent True (tcp_channel revents (s_conn s))\<rparr>)"
| "tcp_exec (LDispatch t r w) s =
     bindR (dispatch (hd (s_todo s)) (tc_thread (s_conn s)) t r w (s_conn s))
       (\<lambda>c. Inr ((with_conn s c)\<lparr>s_todo := tl (s_todo s)\<rparr>))"
| "tcp_exec (LFunctor w) s =
     (let f = hd (tc_queue (s_conn s)); c0 = (s_conn s)\<lparr>tc_queue := tl (tc_queue (s_conn s))\<rparr> in
      bindR (run_functor (tc_thread c0) w f c0)
       (\<lambda>c. Inr ((with_conn s c)\<lparr>s_sent := s_sent s @ (case f of FSend m \<Rightarrow> m | _ \<Rightarrow> [])\<rparr>)))"
| "tcp_exec (LSend tid w m) s =
     bindR (TcpConnection_send tid w m (s_conn s))
       (\<lambda>c. Inr ((with_conn s c)\<lparr>s_sent := s_sent s
              @ (if tc_state (s_conn s) = kConnected \<and> tid = tc_thread (s_conn s) then m else [])\<rparr>))"
| "tcp_exec (LShutdown tid) s = bindR (shutdown tid (s_conn s)) (\<lambda>c. Inr (with_conn s c))"
| "tcp_exec LForceClose s = Inr (with_conn s (forceClose (s_conn s)))"
| "tcp_exec (LConsume n) s =
     bindR (retrieve n (tc_inputBuffer (s_conn s))) (\<lambda>b. Inr (with_conn s ((s_conn s)\<lparr>tc_inputBuffer := b\<rparr>)))"
| "tcp_exec LRemove s = removeConnectionInLoop s"

text \<open>A new connection, as \<^verbatim>\<open>TcpServer::newConnection\<close> leaves it: in the map, callbacks set;
  \<open>writeComplete\<close> says whether the server has a write-complete callback to hand on.\<close>

definition newConnection :: "nat \<Rightarrow> string \<Rightarrow> int \<Rightarrow> bool \<Rightarrow> nat \<Rightarrow> tcp_sys result" where
  "newConnection ioThread server_name nextConnId writeComplete garbage =
     (let connName = server_name @ snprintf 32 (''#'' @ dec_int nextConnId) in
      bindR (TcpConnection_ctor ioThread connName garbage) (\<lambda>c.
        Inr \<lparr>s_conn = setWriteCompleteCallback writeComplete c, s_todo = [], s_inMap = True, s_removals = 0, s_sent = []\<rparr>))"

inductive tcp_step :: "tcp_sys \<Rightarrow> tcp_sys \<Rightarrow> bool" where
  tcp_step: "tcp_enabled l s \<Longrightarrow> tcp_exec l s = Inr s' \<Longrightarrow> tcp_step s s'"

inductive_cases tcp_stepE: "tcp_step s s'"

section \<open>The stream invariant\<close>

abbreviation tc_pending :: "TcpConnection \<Rightarrow> string" where
  "tc_pending c \<equiv> Buffer_content (tc_outputBuffer c)"

text \<open>What the socket took and what is still buffered is what was out, in order; while the
  connection is open it waits for writability exactly when bytes are buffered, and it has shut its
  write side only after the last one.\<close>

definition tc_inv :: "string \<Rightarrow> TcpConnection \<Rightarrow> bool" where
  "tc_inv out c = (Buffer_inv (tc_inputBuffer c) \<and> Buffer_inv (tc_outputBuffer c)
     \<and> tc_written c @ tc_pending c = out
     \<and> (EvClose \<notin> set (tc_trace c) \<longrightarrow> (tc_isWriting c \<longleftrightarrow> tc_pending c \<noteq> [])
          \<and> (\<forall>n. EvShutdownWrite n \<in> set (tc_trace c) \<longrightarrow> n = 0)))"

lemma tc_invD:
  assumes "tc_inv out c"
  shows "Buffer_inv (tc_inputBuffer c)" "Buffer_inv (tc_outputBuffer c)" "tc_written c @ tc_pending c = out"
    "EvClose \<notin> set (tc_trace c) \<Longrightarrow> tc_isWriting c \<longleftrightarrow> tc_pending c \<noteq> []"
    "EvClose \<notin> set (tc_trace c) \<Longrightarrow> EvShutdownWrite n \<in> set (tc_trace c) \<Longrightarrow> n = 0"
  using assms unfolding tc_inv_def by blast+

lemma kWriteEvent_bit: "w AND kWriteEvent = 0 \<longleftrightarrow> \<not> bit w 2" "bit kWriteEvent 2" "\<not> bit kReadEvent 2"
  using and_exp_eq_0_iff_not_bit [of w 2]
  by (simp_all add: kWriteEvent_def kReadEvent_def POLLOUT_def POLLIN_def POLLPRI_def bit_simps)

lemma write_bits [simp]:
  "(ev AND NOT kWriteEvent) AND kWriteEvent = 0"
  "(ev OR kReadEvent) AND kWriteEvent = 0 \<longleftrightarrow> ev AND kWriteEvent = 0" "kNoneEvent AND kWriteEvent = 0"
  by (simp_all add: kWriteEvent_bit bit_simps kNoneEvent_def)

lemma kEvent_nonzero [simp]: "kWriteEvent \<noteq> 0" "kReadEvent \<noteq> 0" "ev OR kReadEvent \<noteq> 0"
  by (simp_all add: event_bits or_eq_0_iff)

lemma tc_simps [simp]:
  "tc_isWriting (tc_watch ev c) = (ev AND kWriteEvent \<noteq> 0)" "tc_isWriting (tc_emit e c) = tc_isWriting c"
  "tc_isWriting (tc_queueInLoop f c) = tc_isWriting c" "tc_isWriting (setState st c) = tc_isWriting c"
  "tc_isWriting (c\<lparr>tc_outputBuffer := b\<rparr>) = tc_isWriting c" "tc_isWriting (c\<lparr>tc_inputBuffer := b\<rparr>) = tc_isWriting c"
  "tc_isWriting (c\<lparr>tc_written := x\<rparr>) = tc_isWriting c" "tc_isWriting (c\<lparr>tc_queue := q\<rparr>) = tc_isWriting c"
  "tc_isWriting (c\<lparr>tc_calls := k\<rparr>) = tc_isWriting c"
  by (simp_all add: tc_isWriting_def tc_watch_def tc_emit_def tc_queueInLoop_def setState_def)

lemmas tc_ops = tc_watch_def tc_emit_def tc_queueInLoop_def setState_def tc_assertInLoopThread_def

text \<open>Functors a connection queues for its callbacks only.\<close>

definition callbacks_only :: "tcp_functor list \<Rightarrow> bool" where
  "callbacks_only q = (\<forall>f \<in> set q. f = FWriteComplete \<or> (\<exists>n. f = FHighWaterMark n))"

text \<open>What sending can change besides the stream: callbacks are queued and the channel may be asked
  to watch for writability.\<close>

definition send_frame :: "TcpConnection \<Rightarrow> TcpConnection \<Rightarrow> bool" where
  "send_frame c c' = (tc_state c' = tc_state c \<and> tc_trace c' = tc_trace c \<and> tc_thread c' = tc_thread c
     \<and> (\<exists>q. tc_queue c' = tc_queue c @ q \<and> callbacks_only q)
     \<and> (tc_events c' = tc_events c \<and> tc_calls c' = tc_calls c
        \<or> tc_events c' = (tc_events c OR kWriteEvent) \<and> tc_calls c' = tc_calls c @ [Watch 0 (tc_events c')]))"

lemma sendInLoop_write_ok:
  assumes "tc_inv out c" "write_fits w (length m)" "sendInLoop_write w m c = (n, c1)"
  shows "n \<le> length m" "0 < n \<Longrightarrow> tc_pending c = [] \<and> \<not> tc_isWriting c" "tc_written c1 = tc_written c @ take n m"
    "tc_outputBuffer c1 = tc_outputBuffer c" "tc_inputBuffer c1 = tc_inputBuffer c" "tc_isWriting c1 = tc_isWriting c"
    "tc_trace c1 = tc_trace c" "send_frame c c1"
  using assms(2,3) readableBytes_eq [OF tc_invD(2) [OF assms(1)]]
  by (auto simp: sendInLoop_write_def write_fits_def send_frame_def callbacks_only_def tc_queueInLoop_def tc_isWriting_def Let_def
      split: if_splits option.splits)

text \<open>The buffering half: bytes not taken by the socket are queued and writability is watched.\<close>

lemma sendInLoop_rest_ok:
  assumes "Buffer_inv (tc_outputBuffer c)" "rest \<noteq> []"
  shows "total (\<lambda>c'. Buffer_inv (tc_outputBuffer c') \<and> tc_pending c' = tc_pending c @ rest \<and> tc_isWriting c'
     \<and> tc_written c' = tc_written c \<and> tc_inputBuffer c' = tc_inputBuffer c \<and> send_frame c c') (sendInLoop_rest rest c)"
proof -
  obtain b where b: "Buffer_append rest (tc_outputBuffer c) = Inr b" "Buffer_inv b" "Buffer_content b = tc_pending c @ rest"
    using Buffer_append_ok [OF assms(1), of rest] by blast
  then show ?thesis
    by (auto simp: sendInLoop_rest_def Let_def send_frame_def callbacks_only_def tc_queueInLoop_def tc_watch_def tc_isWriting_def)
qed

lemma send_frame_trans:
  assumes "send_frame c1 c2" "send_frame c2 c3" "tc_events c1 = tc_events c2" "tc_calls c1 = tc_calls c2"
  shows "send_frame c1 c3"
  using assms by (auto simp: send_frame_def callbacks_only_def)

lemma sendInLoop_ok:
  assumes inv: "tc_inv out c" and fits: "write_fits w (length m)" and "tid = tc_thread c"
  shows "total (\<lambda>c'. tc_inv (out @ m) c' \<and> send_frame c c') (sendInLoop tid w m c)"
proof -
  obtain n c1 where w: "sendInLoop_write w m c = (n, c1)" by fastforce
  note W = sendInLoop_write_ok [OF inv fits w] and D = tc_invD [OF inv]
  have eq: "sendInLoop tid w m c = (if n < length m then sendInLoop_rest (drop n m) c1 else Inr c1)"
    using assms(3) w by (simp add: sendInLoop_def tc_assertInLoopThread_def)
  show ?thesis
  proof (cases "n < length m")
    case True
    have ev: "tc_events c = tc_events c1 \<and> tc_calls c = tc_calls c1"
      using w by (auto simp: sendInLoop_write_def Let_def tc_queueInLoop_def split: if_splits option.splits)
    have "total (\<lambda>c'. Buffer_inv (tc_outputBuffer c') \<and> tc_pending c' = tc_pending c1 @ drop n m \<and> tc_isWriting c'
       \<and> tc_written c' = tc_written c1 \<and> tc_inputBuffer c' = tc_inputBuffer c1 \<and> send_frame c1 c') (sendInLoop_rest (drop n m) c1)"
      by (rule sendInLoop_rest_ok) (use W D True in simp_all)
    then obtain c' where c': "sendInLoop_rest (drop n m) c1 = Inr c'" "Buffer_inv (tc_outputBuffer c')" "tc_pending c' = tc_pending c @ drop n m"
      "tc_isWriting c'" "tc_written c' = tc_written c @ take n m" "tc_inputBuffer c' = tc_inputBuffer c" "send_frame c1 c'"
      using W by (auto simp: total_iff)
    have "tc_trace c' = tc_trace c" using c'(7) W(7) by (simp add: send_frame_def)
    moreover have "tc_written c' @ tc_pending c' = out @ m" using W(2) D(3) c'(3,5) by (cases "n = 0") auto
    ultimately have "tc_inv (out @ m) c'" using c' D True unfolding tc_inv_def by auto
    then show ?thesis using True c'(1,7) send_frame_trans [OF W(8)] ev by (simp add: eq)
  next
    case False
    have "tc_inv (out @ m) c1" using W D False unfolding tc_inv_def by (cases "n = 0") auto
    then show ?thesis using False W(8) by (simp add: eq)
  qed
qed

lemma shutdownInLoop_ok:
  assumes "tc_inv out c" "tid = tc_thread c"
  shows "\<exists>es. shutdownInLoop tid c = Inr (c\<lparr>tc_trace := tc_trace c @ es\<rparr>) \<and> set es \<subseteq> range EvShutdownWrite
     \<and> tc_inv out (c\<lparr>tc_trace := tc_trace c @ es\<rparr>)"
proof (cases "tc_isWriting c")
  case True
  then show ?thesis using assms by (intro exI [of _ "[]"]) (simp add: shutdownInLoop_def tc_assertInLoopThread_def)
next
  case False
  note D = tc_invD [OF assms(1)]
  let ?e = "EvShutdownWrite (readableBytes (tc_outputBuffer c))"
  have "readableBytes (tc_outputBuffer c) = 0" if "EvClose \<notin> set (tc_trace c)"
    using D(4) [OF that] False readableBytes_eq [OF D(2)] by simp
  then have "tc_inv out (c\<lparr>tc_trace := tc_trace c @ [?e]\<rparr>)"
    using D False unfolding tc_inv_def tc_isWriting_def by auto
  then show ?thesis using assms(2) False
    by (intro exI [of _ "[?e]"]) (simp add: shutdownInLoop_def tc_assertInLoopThread_def tc_emit_def)
qed

text \<open>What the operations between establishment and destruction have in common: the state may pass
  from connected to disconnecting, no destruction is queued, and the channel only changes the events
  it watches.\<close>

definition effect :: "TcpConnection \<Rightarrow> TcpConnection \<Rightarrow> bool" where
  "effect c c' = (tc_thread c' = tc_thread c
     \<and> (tc_state c' = tc_state c \<or> tc_state c = kConnected \<and> tc_state c' = kDisconnecting)
     \<and> closes c \<le> closes c' \<and> count_list (tc_queue c') FDestroy = count_list (tc_queue c) FDestroy
     \<and> (\<exists>ws. tc_calls c' = tc_calls c @ map (Watch 0) ws \<and> tc_events c' = last (tc_events c # ws)))"

lemma effectI:
  assumes "tc_thread c' = tc_thread c" "tc_state c' = tc_state c \<or> tc_state c = kConnected \<and> tc_state c' = kDisconnecting"
    "closes c \<le> closes c'" "count_list (tc_queue c') FDestroy = count_list (tc_queue c) FDestroy"
    "tc_calls c' = tc_calls c @ map (Watch 0) ws" "tc_events c' = last (tc_events c # ws)"
  shows "effect c c'"
  using assms unfolding effect_def by blast

lemma effect_refl [simp]: "effect c c"
  by (rule effectI [where ws = "[]"]) auto

lemma closes_simps [simp]:
  "closes (tc_emit e c) = closes c + (if e = EvClose then 1 else 0)" "closes (tc_watch ev c) = closes c"
  "closes (tc_queueInLoop f c) = closes c" "closes (setState st c) = closes c"
  "closes (c\<lparr>tc_inputBuffer := b\<rparr>) = closes c" "closes (c\<lparr>tc_outputBuffer := b\<rparr>) = closes c"
  "closes (c\<lparr>tc_queue := q\<rparr>) = closes c" "closes (c\<lparr>tc_calls := k\<rparr>) = closes c" "closes (c\<lparr>tc_written := x\<rparr>) = closes c"
  by (simp_all add: closes_def tc_ops)

lemma closes_pos: "0 < closes c \<longleftrightarrow> EvClose \<in> set (tc_trace c)"
  unfolding closes_def by (metis count_list_0_iff neq0_conv)

lemma callbacks_only_count: "callbacks_only q \<Longrightarrow> count_list q FDestroy = 0"
  by (auto simp: callbacks_only_def count_list_0_iff)

lemma send_frame_effect: "send_frame c c' \<Longrightarrow> effect c c'"
  unfolding send_frame_def
  by (elim conjE exE disjE; intro effectI [where ws = "[]"] effectI [where ws = "[tc_events c']"])
    (auto simp: closes_def callbacks_only_count)

lemma shutdownInLoop_effect:
  assumes "tc_inv out c" "tid = tc_thread c"
  shows "total (\<lambda>c'. tc_inv out c' \<and> effect c c') (shutdownInLoop tid c)"
proof -
  obtain es where es: "shutdownInLoop tid c = Inr (c\<lparr>tc_trace := tc_trace c @ es\<rparr>)" "set es \<subseteq> range EvShutdownWrite"
    "tc_inv out (c\<lparr>tc_trace := tc_trace c @ es\<rparr>)" using shutdownInLoop_ok [OF assms] by blast
  have "count_list es EvClose = 0" using es(2) by (auto simp: count_list_0_iff)
  then have "effect c (c\<lparr>tc_trace := tc_trace c @ es\<rparr>)" by (intro effectI [where ws = "[]"]) (auto simp: closes_def)
  then show ?thesis using es by simp
qed

lemma effect_trans:
  assumes "effect c1 c2" "effect c2 c3"
  shows "effect c1 c3"
proof -
  obtain ws1 ws2 where "tc_calls c2 = tc_calls c1 @ map (Watch 0) ws1" "tc_events c2 = last (tc_events c1 # ws1)"
    "tc_calls c3 = tc_calls c2 @ map (Watch 0) ws2" "tc_events c3 = last (tc_events c2 # ws2)"
    using assms unfolding effect_def by blast
  then show ?thesis using assms
    by (intro effectI [where ws = "ws1 @ ws2"]) (auto simp: effect_def)
qed

lemma handleWrite_ok:
  assumes inv: "tc_inv out c" and fits: "write_fits w (length (tc_pending c))" and tid: "tid = tc_thread c"
  shows "total (\<lambda>c'. tc_inv out c' \<and> effect c c') (TcpConnection_handleWrite tid w c)"
proof (cases "tc_isWriting c \<and> (\<exists>n>0. w = Some n)")
  case False
  then have "\<not> tc_isWriting c \<or> w = None \<or> w = Some 0" by (cases w) auto
  then have "TcpConnection_handleWrite tid w c = Inr c"
    using tid vec_read_content [OF tc_invD(2) [OF inv]] Buffer_inv_idx [OF tc_invD(2) [OF inv]]
    by (auto simp: TcpConnection_handleWrite_def tc_assertInLoopThread_def readableBytes_def peek_def beginWrite_def split: option.splits)
  then show ?thesis using inv by simp
next
  case True
  note D = tc_invD [OF inv]
  from True obtain n where n: "tc_isWriting c" "w = Some n" "0 < n" by blast
  have rd: "vec_read (buffer (tc_outputBuffer c)) (peek (tc_outputBuffer c))
      (peek (tc_outputBuffer c) + readableBytes (tc_outputBuffer c)) = Inr (tc_pending c)"
    using vec_read_content [OF D(2)] Buffer_inv_idx [OF D(2)] by (simp add: readableBytes_def peek_def beginWrite_def)
  obtain b where b: "retrieve n (tc_outputBuffer c) = Inr b" "Buffer_inv b" "Buffer_content b = drop n (tc_pending c)"
    using retrieve_ok [OF D(2), of n] fits n(2) by (auto simp: write_fits_def)
  define c1 where "c1 = c\<lparr>tc_outputBuffer := b, tc_written := tc_written c @ take n (tc_pending c)\<rparr>"
  define c3 where "c3 = (let c2 = tc_watch (tc_events c1 AND NOT kWriteEvent) c1
      in if tc_hasWriteCompleteCallback c2 then tc_queueInLoop FWriteComplete c2 else c2)"
  have eq: "TcpConnection_handleWrite tid w c =
      (if Buffer_content b = [] then if tc_state c3 = kDisconnecting then shutdownInLoop tid c3 else Inr c3 else Inr c1)"
    using n rd b(1) tid readableBytes_eq [OF b(2)]
    by (simp add: TcpConnection_handleWrite_def tc_assertInLoopThread_def c1_def c3_def Let_def)
  have out: "tc_written c1 @ Buffer_content b = out" using D(3) b(3) by (simp add: c1_def)
  have inv1: "tc_inv out c1" if "Buffer_content b \<noteq> []"
    using D b(2) out that n(1) unfolding tc_inv_def c1_def tc_isWriting_def by auto
  have inv3: "tc_inv out c3" if "Buffer_content b = []"
    using D b(2) out that unfolding tc_inv_def c1_def c3_def tc_isWriting_def by (auto simp: tc_ops Let_def)
  have e1: "effect c c1" by (rule effectI [where ws = "[]"]) (simp_all add: c1_def closes_def)
  have e3: "effect c c3"
    by (rule effectI [where ws = "[tc_events c AND NOT kWriteEvent]"]) (simp_all add: c1_def c3_def closes_def tc_ops Let_def)
  have t3: "tid = tc_thread c3" using tid by (simp add: c3_def c1_def tc_ops Let_def)
  have "total (\<lambda>c'. tc_inv out c' \<and> effect c c') (shutdownInLoop tid c3)" if "Buffer_content b = []"
    by (rule outcome_mono [OF shutdownInLoop_effect [OF inv3 [OF that] t3]]) (use e3 effect_trans in blast)
  then show ?thesis unfolding eq using inv1 inv3 e1 e3 by simp
qed

lemma handleClose_ok:
  assumes "tc_inv out c" "tid = tc_thread c"
  shows "outcome (\<lambda>_. tc_state c \<notin> {kConnected, kDisconnecting}) (\<lambda>c'. tc_inv out c' \<and> effect c c') (handleClose tid c)"
proof -
  have "effect c (tc_emit EvClose (tc_watch kNoneEvent c))"
    by (rule effectI [where ws = "[kNoneEvent]"]) (simp_all, simp_all add: tc_ops)
  moreover have "tc_inv out (tc_emit EvClose (tc_watch kNoneEvent c))"
    using tc_invD [OF assms(1)] unfolding tc_inv_def by (simp add: tc_ops)
  ultimately show ?thesis using assms(2) by (simp add: handleClose_def assertR_def tc_assertInLoopThread_def)
qed

lemma input_ok:
  assumes "tc_inv out c" "Buffer_inv b"
  shows "tc_inv out (c\<lparr>tc_inputBuffer := b\<rparr>)" "effect c (c\<lparr>tc_inputBuffer := b\<rparr>)"
  using assms by (auto simp: tc_inv_def intro!: effectI [where ws = "[]"])

lemma emit_ok:
  assumes "tc_inv out c" "e \<noteq> EvClose" "e \<notin> range EvShutdownWrite"
  shows "tc_inv out (tc_emit e c)" "effect c (tc_emit e c)"
proof -
  show "tc_inv out (tc_emit e c)" using assms unfolding tc_inv_def by (auto simp: tc_emit_def tc_isWriting_def)
  show "effect c (tc_emit e c)" using assms(2) by (intro effectI [where ws = "[]"]) (simp_all, simp_all add: tc_ops)
qed

lemma tcp_handleRead_ok:
  assumes inv: "tc_inv out c" and "tid = tc_thread c"
  shows "outcome (\<lambda>_. tc_state c \<notin> {kConnected, kDisconnecting}) (\<lambda>c'. tc_inv out c' \<and> effect c c')
     (TcpConnection_handleRead tid t r c)"
proof (cases r)
  case (ReadErr e)
  then show ?thesis using emit_ok [OF inv, of EvError] by (auto simp: handleError_def TcpConnection_handleRead_def readFd_def Let_def)
next
  case (ReadOk d)
  obtain b where b: "readFd r 0 (tc_inputBuffer c) = Inr (int (length d), 0, b)" "Buffer_inv b"
    using readFd_ok [OF tc_invD(1) [OF inv], of d 0] ReadOk by blast
  let ?c = "c\<lparr>tc_inputBuffer := b\<rparr>"
  note I = input_ok [OF inv b(2)]
  show ?thesis
  proof (cases d)
    case Nil
    have "outcome (\<lambda>_. tc_state c \<notin> {kConnected, kDisconnecting}) (\<lambda>c'. tc_inv out c' \<and> effect ?c c') (handleClose tid ?c)"
      using handleClose_ok [OF I(1), of tid] assms(2) by simp
    then show ?thesis using Nil b(1) I(2)
      by (auto simp: TcpConnection_handleRead_def Let_def elim!: outcome_mono intro: effect_trans)
  next
    case Cons
    have "tc_inv out (tc_emit (EvMessage t) ?c)" "effect ?c (tc_emit (EvMessage t) ?c)"
      using emit_ok [OF I(1), of "EvMessage t"] by auto
    then show ?thesis using Cons b(1) I(2) effect_trans by (auto simp: TcpConnection_handleRead_def Let_def)
  qed
qed

section \<open>The system invariant\<close>

text \<open>How the calls on the channel look in each state.\<close>

definition calls_shape :: "TcpConnection \<Rightarrow> bool" where
  "calls_shape c = (case tc_state c of
       kConnecting \<Rightarrow> tc_calls c = [] \<and> tc_events c = 0
     | kDisconnected \<Rightarrow> (\<exists>ws. ws \<noteq> [] \<and> hd ws \<noteq> 0 \<and> tc_calls c = map (Watch 0) ws @ [Watch 0 0, Unwatch 0]) \<and> tc_events c = 0
     | _ \<Rightarrow> (\<exists>ws. ws \<noteq> [] \<and> hd ws \<noteq> 0 \<and> tc_calls c = map (Watch 0) ws \<and> tc_events c = last ws))"

text \<open>The removed channel has not been touched again.\<close>

definition undisturbed :: "TcpConnection \<Rightarrow> bool" where
  "undisturbed c = (Unwatch 0 \<notin> set (butlast (tc_calls c)))"

definition tcp_state_inv :: "tcp_sys \<Rightarrow> bool" where
  "tcp_state_inv s = (let c = s_conn s in
     calls_shape c
     \<and> (tc_state c = kConnecting \<longrightarrow> s_todo s = [] \<and> tc_queue c = [] \<and> closes c = 0)
     \<and> (tc_state c = kDisconnected \<longrightarrow> s_todo s = [] \<and> \<not> s_inMap s \<and> FDestroy \<notin> set (tc_queue c))
     \<and> count_list (tc_queue c) FDestroy \<le> (if s_inMap s then 0 else 1)
     \<and> closes c = s_removals s + (if s_inMap s then 0 else 1))"

definition tcp_inv :: "tcp_sys \<Rightarrow> bool" where
  "tcp_inv s = (tc_inv (s_sent s) (s_conn s)
     \<and> closes (s_conn s) = s_removals s + (if s_inMap s then 0 else 1)
     \<and> (FDestroy \<in> set (tc_queue (s_conn s)) \<longrightarrow> \<not> s_inMap s)
     \<and> (tc_state (s_conn s) = kConnecting \<longrightarrow> undisturbed (s_conn s))
     \<and> (undisturbed (s_conn s) \<longrightarrow> tcp_state_inv s))"

lemma effect_calls:
  assumes "effect c c'" "undisturbed c'" "undisturbed c \<Longrightarrow> calls_shape c" "tc_state c \<noteq> kConnecting"
  shows "undisturbed c" "calls_shape c'" "tc_state c = kDisconnected \<Longrightarrow> tc_state c' = kDisconnected"
proof -
  obtain ws where ws: "tc_calls c' = tc_calls c @ map (Watch 0) ws" "tc_events c' = last (tc_events c # ws)"
    using assms(1) by (auto simp: effect_def)
  show u: "undisturbed c" using assms(2) ws(1) by (auto simp: undisturbed_def butlast_append dest: in_set_butlastD split: if_splits)
  note sh = assms(3) [OF u]
  have st: "tc_state c' = tc_state c \<or> tc_state c = kConnected \<and> tc_state c' = kDisconnecting"
    using assms(1) by (auto simp: effect_def)
  show "tc_state c' = kDisconnected" if "tc_state c = kDisconnected" using st that by auto
  show "calls_shape c'"
  proof (cases "tc_state c = kDisconnected")
    case True
    then have "Unwatch 0 \<in> set (tc_calls c)" using sh by (auto simp: calls_shape_def)
    then have "ws = []" using assms(2) ws(1) by (cases ws rule: rev_cases) (auto simp: undisturbed_def butlast_append)
    then show ?thesis using True sh ws st by (auto simp: calls_shape_def)
  next
    case False
    then obtain vs where "vs \<noteq> [] \<and> hd vs \<noteq> 0 \<and> tc_calls c = map (Watch 0) vs \<and> tc_events c = last vs"
      using sh assms(4) by (cases "tc_state c") (auto simp: calls_shape_def)
    then have "vs @ ws \<noteq> [] \<and> hd (vs @ ws) \<noteq> 0 \<and> tc_calls c' = map (Watch 0) (vs @ ws) \<and> tc_events c' = last (vs @ ws)"
      using ws by (auto simp: last_append)
    then show ?thesis using False assms(4) st by (cases "tc_state c'") (auto simp: calls_shape_def)
  qed
qed

lemma tcp_inv_effect:
  assumes inv: "tcp_inv s" and eff: "effect c c'" and c: "c = (s_conn s)\<lparr>tc_queue := q\<rparr>"
    and q: "count_list q FDestroy \<le> count_list (tc_queue (s_conn s)) FDestroy"
    and new: "tc_inv snt c'" and st: "tc_state (s_conn s) \<noteq> kConnecting"
    and td: "set td \<subseteq> set (s_todo s)"
  shows "tcp_inv ((with_conn s c')\<lparr>s_todo := td, s_sent := snt\<rparr>)"
proof -
  have e: "closes c \<le> closes c'" "count_list (tc_queue c') FDestroy = count_list q FDestroy"
    using eff c by (auto simp: effect_def)
  have shape: "undisturbed c = undisturbed (s_conn s)" "calls_shape c = calls_shape (s_conn s)"
    by (simp_all add: c undisturbed_def calls_shape_def split: StateE.splits)
  have mem: "FDestroy \<in> set xs \<longleftrightarrow> 0 < count_list xs FDestroy" for xs
    by (metis count_list_0_iff neq0_conv)
  have "tcp_state_inv ((with_conn s c')\<lparr>s_todo := td, s_sent := snt\<rparr>)" if u: "undisturbed c'"
  proof -
    have E: "undisturbed c" "calls_shape c'" "tc_state c' = kDisconnected \<Longrightarrow> tc_state c = kDisconnected"
      using effect_calls [OF eff u] inv st shape c eff unfolding tcp_inv_def tcp_state_inv_def Let_def effect_def by auto
    then have "tcp_state_inv s" using inv shape by (simp add: tcp_inv_def)
    then show ?thesis using E e q st c eff td
      by (auto simp: tcp_state_inv_def Let_def with_conn_def mem effect_def)
  qed
  then show ?thesis using inv e q c new st eff unfolding tcp_inv_def mem effect_def by (auto simp: with_conn_def)
qed

lemmas tcp_inv_effect_same = tcp_inv_effect [where q = "tc_queue (s_conn s)" and c = "s_conn s" and s = s for s, simplified]

lemma tcp_invD:
  assumes "tcp_inv s"
  shows "tc_inv (s_sent s) (s_conn s)" "closes (s_conn s) = s_removals s + (if s_inMap s then 0 else 1)"
    "FDestroy \<in> set (tc_queue (s_conn s)) \<Longrightarrow> \<not> s_inMap s" "tc_state (s_conn s) = kConnecting \<Longrightarrow> undisturbed (s_conn s)"
    "undisturbed (s_conn s) \<Longrightarrow> tcp_state_inv s"
  using assms unfolding tcp_inv_def by blast+

lemma connecting_idle:
  assumes "tcp_inv s" "tc_state (s_conn s) = kConnecting"
  shows "s_todo s = []" "tc_queue (s_conn s) = []" "closes (s_conn s) = 0" "tc_calls (s_conn s) = []" "tc_events (s_conn s) = 0"
    "s_inMap s" "s_removals s = 0"
  using tcp_invD(2,4,5) [OF assms(1)] assms(2)
  by (auto simp: tcp_state_inv_def Let_def calls_shape_def split: if_splits)

lemma dispatch_ok:
  assumes inv: "tc_inv out c" and "write_fits w (length (tc_pending c))" "tid = tc_thread c"
  shows "outcome (\<lambda>_. tc_state c \<notin> {kConnected, kDisconnecting}) (\<lambda>c'. tc_inv out c' \<and> effect c c') (dispatch cb tid t r w c)"
  using handleClose_ok [OF inv assms(3)] tcp_handleRead_ok [OF inv assms(3)] emit_ok [OF inv, of EvError]
    outcome_weaken_fault [OF handleWrite_ok [OF inv assms(2,3)]]
  by (cases cb) (auto simp: handleError_def)

lemma connectEstablished_inv:
  assumes inv: "tcp_inv s" and st: "tc_state (s_conn s) = kConnecting"
  shows "total tcp_inv (tcp_exec LEstablish s)"
proof -
  let ?c = "s_conn s"
  let ?c' = "tc_emit (EvConnection kConnected) (tc_watch (tc_events ?c OR kReadEvent) (setState kConnected ?c))"
  note C = connecting_idle [OF inv st] and T = tcp_invD(1) [OF inv]
  have "connectEstablished (tc_thread ?c) ?c = Inr ?c'"
    using st by (simp add: connectEstablished_def tc_assertInLoopThread_def Let_def) (simp add: tc_ops)
  moreover have "tc_inv (s_sent s) ?c'" using T unfolding tc_inv_def tc_isWriting_def by (auto simp: tc_ops)
  moreover have "calls_shape ?c'" using C by (auto simp: calls_shape_def tc_ops intro!: exI [of _ "[0 OR kReadEvent]"])
  ultimately show ?thesis using C
    by (simp add: tcp_inv_def tcp_state_inv_def Let_def with_conn_def) (simp add: tc_ops)
qed

lemma connectDestroyed_inv:
  assumes inv: "tcp_inv s" and q: "tc_queue (s_conn s) = FDestroy # q" and td: "s_todo s = []"
  shows "outcome (\<lambda>_. \<not> undisturbed (s_conn s)) tcp_inv (tcp_exec (LFunctor w) s)"
proof (cases "tc_state (s_conn s) = kConnected \<or> tc_state (s_conn s) = kDisconnecting")
  case True
  define c0 where "c0 = (s_conn s)\<lparr>tc_queue := q\<rparr>"
  define c' where "c' = (let c3 = tc_emit (EvConnection kDisconnected) (tc_watch kNoneEvent (setState kDisconnected c0))
      in c3\<lparr>tc_calls := tc_calls c3 @ [Unwatch 0]\<rparr>)"
  have run: "connectDestroyed (tc_thread (s_conn s)) c0 = Inr c'"
    using True by (simp add: connectDestroyed_def tc_assertInLoopThread_def Let_def c'_def c0_def) (simp add: tc_ops)
  have notin: "\<not> s_inMap s" using tcp_invD(3) [OF inv] q by simp
  have cl: "closes c' = closes (s_conn s)" by (simp add: c'_def c0_def Let_def)
  then have "EvClose \<in> set (tc_trace c')" using tcp_invD(2) [OF inv] notin closes_pos [of c'] by simp
  then have new: "tc_inv (s_sent s) c'"
    using tcp_invD(1) [OF inv] unfolding tc_inv_def by (auto simp: c'_def c0_def Let_def tc_ops)
  have calls: "tc_calls c' = tc_calls (s_conn s) @ [Watch 0 0, Unwatch 0]" "tc_state c' = kDisconnected" "tc_events c' = 0" "tc_queue c' = q"
    by (simp_all add: c'_def c0_def Let_def tc_ops kNoneEvent_def)
  have "undisturbed (s_conn s)" if "undisturbed c'"
    using that calls(1) by (auto simp: undisturbed_def butlast_append dest: in_set_butlastD)
  moreover have "calls_shape c' \<and> FDestroy \<notin> set q" if "undisturbed (s_conn s)"
  proof -
    have si: "tcp_state_inv s" using tcp_invD(5) [OF inv that] .
    then have "count_list q FDestroy = 0" using q notin by (simp add: tcp_state_inv_def Let_def)
    then show ?thesis using si True calls by (auto simp: count_list_0_iff tcp_state_inv_def Let_def calls_shape_def)
  qed
  ultimately have "tcp_inv ((with_conn s c')\<lparr>s_sent := s_sent s\<rparr>)"
    using new tcp_invD(2) [OF inv] notin td cl calls
    by (auto simp: tcp_inv_def tcp_state_inv_def Let_def with_conn_def count_list_0_iff)
  then show ?thesis using run q by (simp add: c0_def Let_def)
next
  case False
  have "\<not> undisturbed (s_conn s)"
    using tcp_invD(5) [OF inv] False q by (cases "tc_state (s_conn s)") (auto simp: tcp_state_inv_def Let_def)
  then show ?thesis using False q by (simp add: Let_def connectDestroyed_def tc_assertInLoopThread_def assertR_def)
qed

lemma queue_ok:
  assumes "tc_inv out c" "f \<noteq> FDestroy"
  shows "tc_inv out (tc_queueInLoop f c)" "effect c (tc_queueInLoop f c)"
proof -
  show "tc_inv out (tc_queueInLoop f c)" using assms unfolding tc_inv_def by (auto simp: tc_queueInLoop_def tc_isWriting_def)
  show "effect c (tc_queueInLoop f c)" using assms(2) by (intro effectI [where ws = "[]"]) (simp_all, simp_all add: tc_ops)
qed

lemma disconnecting_ok:
  assumes "tc_inv out c" "tc_state c = kConnected \<or> tc_state c = kDisconnecting"
  shows "tc_inv out (setState kDisconnecting c)" "effect c (setState kDisconnecting c)" "tc_thread (setState kDisconnecting c) = tc_thread c"
proof -
  show "tc_inv out (setState kDisconnecting c)" using assms unfolding tc_inv_def by (auto simp: setState_def tc_isWriting_def)
  show "effect c (setState kDisconnecting c)" using assms(2) by (intro effectI [where ws = "[]"]) (simp_all, auto simp: tc_ops)
qed (simp add: setState_def)

lemma send_ok:
  assumes inv: "tc_inv out c" and fits: "write_fits w (length m)"
  shows "total (\<lambda>c'. tc_inv (out @ (if tc_state c = kConnected \<and> tid = tc_thread c then m else [])) c' \<and> effect c c')
     (TcpConnection_send tid w m c)"
  using outcome_mono [OF sendInLoop_ok [OF inv fits], of tid, where Q = "\<lambda>c'. tc_inv (out @ m) c' \<and> effect c c'"]
    send_frame_effect queue_ok [OF inv, of "FSend m"] inv
  by (auto simp: TcpConnection_send_def)

lemma shutdown_ok:
  assumes inv: "tc_inv out c"
  shows "total (\<lambda>c'. tc_inv out c' \<and> effect c c') (shutdown tid c)"
proof (cases "tc_state c = kConnected")
  case True
  let ?c = "setState kDisconnecting c"
  note S = disconnecting_ok [OF inv disjI1 [OF True]]
  have "total (\<lambda>c'. tc_inv out c' \<and> effect c c') (shutdownInLoop tid ?c)" if "tid = tc_thread ?c"
    by (rule outcome_mono [OF shutdownInLoop_effect [OF S(1) that]]) (use S(2) effect_trans in blast)
  then show ?thesis using True queue_ok [OF S(1), of FShutdown] effect_trans [OF S(2)] by (simp add: shutdown_def Let_def)
qed (use inv in \<open>simp add: shutdown_def\<close>)

lemma forceClose_ok:
  assumes inv: "tc_inv out c"
  shows "tc_inv out (forceClose c)" "effect c (forceClose c)"
  using inv queue_ok [OF disconnecting_ok(1) [OF inv], of FForceClose] effect_trans [OF disconnecting_ok(2) [OF inv]]
  by (auto simp: forceClose_def)

text \<open>Functors other than the destruction.\<close>

lemma run_functor_ok:
  assumes inv: "tc_inv out c" and "f \<noteq> FDestroy" and "tid = tc_thread c" and "\<And>m. f = FSend m \<Longrightarrow> write_fits w (length m)"
  shows "total (\<lambda>c'. tc_inv (out @ (case f of FSend m \<Rightarrow> m | _ \<Rightarrow> [])) c' \<and> effect c c') (run_functor tid w f c)"
proof (cases f)
  case (FSend m)
  then show ?thesis using outcome_mono [OF sendInLoop_ok [OF inv, of w m tid]] assms send_frame_effect by simp
next
  case FShutdown
  then show ?thesis using shutdownInLoop_effect [OF inv assms(3)] by simp
next
  case FForceClose
  have "total (\<lambda>c'. tc_inv out c' \<and> effect c c') (forceCloseInLoop tid c)"
    using handleClose_ok [OF inv assms(3)] inv assms(3)
    by (auto simp: forceCloseInLoop_def tc_assertInLoopThread_def)
  then show ?thesis using FForceClose by simp
qed (use assms in simp_all)

text \<open>Every step that can happen keeps the invariant; as long as the removed channel is left alone,
  the only assertion a step can violate is that of a second removal.\<close>

definition second_removal :: "tcp_label \<Rightarrow> tcp_sys \<Rightarrow> fault \<Rightarrow> bool" where
  "second_removal l s e = (undisturbed (s_conn s) \<longrightarrow>
     e = AssertFail ''n==1'' \<and> l = LRemove \<and> 2 \<le> closes (s_conn s))"

lemma not_connecting:
  assumes "tcp_inv s" "s_todo s \<noteq> [] \<or> tc_queue (s_conn s) \<noteq> [] \<or> 0 < s_removals s \<or> tc_events (s_conn s) \<noteq> 0"
  shows "tc_state (s_conn s) \<noteq> kConnecting"
  using connecting_idle [OF assms(1)] assms(2) by auto

lemma dispatch_inv:
  assumes inv: "tcp_inv s" and en: "tcp_enabled (LDispatch t r w) s"
  shows "outcome (second_removal l s) tcp_inv (tcp_exec (LDispatch t r w) s)"
proof -
  have st: "tc_state (s_conn s) \<noteq> kConnecting" using not_connecting [OF inv] en by simp
  have fault: "second_removal l s e" if "tc_state (s_conn s) \<notin> {kConnected, kDisconnecting}" for e
    using that tcp_invD(5) [OF inv] en st
    by (cases "tc_state (s_conn s)") (auto simp: second_removal_def tcp_state_inv_def Let_def)
  have new: "tcp_inv ((with_conn s c')\<lparr>s_todo := tl (s_todo s)\<rparr>)" if "tc_inv (s_sent s) c'" "effect (s_conn s) c'" for c'
    using tcp_inv_effect_same [OF inv that(2) that(1) st, of "tl (s_todo s)"] list.set_sel(2) [of "s_todo s"] en
    by (auto simp: with_conn_def)
  have "write_fits w (length (tc_pending (s_conn s)))" using en by simp
  from dispatch_ok [OF tcp_invD(1) [OF inv] this refl, of "hd (s_todo s)" t r] show ?thesis
    using fault new by (auto simp: outcome_def bindR_def split: sum.splits)
qed

lemma functor_inv:
  assumes inv: "tcp_inv s" and en: "tcp_enabled (LFunctor w) s" and f: "hd (tc_queue (s_conn s)) \<noteq> FDestroy"
  shows "total tcp_inv (tcp_exec (LFunctor w) s)"
proof -
  obtain f q where q: "tc_queue (s_conn s) = f # q" using en by (cases "tc_queue (s_conn s)") auto
  let ?c0 = "(s_conn s)\<lparr>tc_queue := q\<rparr>" and ?out = "s_sent s @ (case f of FSend m \<Rightarrow> m | _ \<Rightarrow> [])"
  have inv0: "tc_inv (s_sent s) ?c0" using tcp_invD(1) [OF inv] unfolding tc_inv_def by (auto simp: tc_isWriting_def)
  have "total (\<lambda>c'. tc_inv ?out c' \<and> effect ?c0 c') (run_functor (tc_thread ?c0) w f ?c0)"
    by (rule run_functor_ok [OF inv0]) (use en q f in auto)
  then obtain c' where c': "run_functor (tc_thread ?c0) w f ?c0 = Inr c'" "tc_inv ?out c'" "effect ?c0 c'"
    by (auto simp: total_iff)
  have st: "tc_state (s_conn s) \<noteq> kConnecting" using not_connecting [OF inv] q by simp
  have "tcp_inv ((with_conn s c')\<lparr>s_todo := s_todo s, s_sent := ?out\<rparr>)"
    by (rule tcp_inv_effect [OF inv c'(3) refl _ c'(2) st]) (use q in simp_all)
  moreover have "(with_conn s c')\<lparr>s_todo := s_todo s, s_sent := ?out\<rparr> = (with_conn s c')\<lparr>s_sent := ?out\<rparr>"
    by (simp add: with_conn_def)
  ultimately show ?thesis using c'(1) q by (simp add: Let_def)
qed

lemma poll_inv:
  assumes inv: "tcp_inv s" and en: "tcp_enabled (LPoll revents) s"
  shows "tcp_inv (s\<lparr>s_todo := td\<rparr>)"
proof -
  have "tc_state (s_conn s) \<noteq> kDisconnected" if "undisturbed (s_conn s)"
    using tcp_invD(5) [OF inv that] en
    by (auto simp: tcp_state_inv_def Let_def calls_shape_def reported_def redisabled_def)
  moreover have "tc_state (s_conn s) \<noteq> kConnecting"
    using not_connecting [OF inv] connecting_idle(4) [OF inv] en by (auto simp: reported_def redisabled_def)
  ultimately show ?thesis using tcp_invD [OF inv] unfolding tcp_inv_def tcp_state_inv_def Let_def by simp
qed

lemma remove_inv:
  assumes inv: "tcp_inv s" and en: "tcp_enabled LRemove s"
  shows "outcome (second_removal LRemove s) tcp_inv (removeConnectionInLoop s)"
proof (cases "s_inMap s")
  case True
  define c' where "c' = tc_queueInLoop FDestroy (s_conn s)"
  have c': "tc_queue c' = tc_queue (s_conn s) @ [FDestroy]" "closes c' = closes (s_conn s)" "undisturbed c' = undisturbed (s_conn s)"
    "calls_shape c' = calls_shape (s_conn s)" "tc_state c' = tc_state (s_conn s)" "tc_inv (s_sent s) c' = tc_inv (s_sent s) (s_conn s)"
    by (simp_all add: c'_def undisturbed_def calls_shape_def tc_inv_def, simp_all add: tc_ops split: StateE.splits)
  have st: "tc_state (s_conn s) \<noteq> kConnecting" using not_connecting [OF inv] en by simp
  have "tcp_inv (s\<lparr>s_inMap := False, s_removals := s_removals s - 1, s_conn := c'\<rparr>)"
    using tcp_invD [OF inv] en c' st True unfolding tcp_inv_def tcp_state_inv_def Let_def
    by (auto simp: count_list_0_iff)
  then show ?thesis using True by (simp add: removeConnectionInLoop_def c'_def)
next
  case False
  then have "2 \<le> closes (s_conn s)" using tcp_invD(2) [OF inv] en by simp
  then show ?thesis using False by (simp add: removeConnectionInLoop_def second_removal_def assertR_def)
qed

lemma user_inv:
  assumes inv: "tcp_inv s" and st: "tc_state (s_conn s) \<noteq> kConnecting" and c': "tc_inv snt c'" "effect (s_conn s) c'"
  shows "tcp_inv ((with_conn s c')\<lparr>s_sent := snt\<rparr>)"
  using tcp_inv_effect_same [OF inv c'(2,1) st, of "s_todo s"] by (simp add: with_conn_def)

lemma with_conn_same [simp]: "with_conn s (s_conn s) = s"
  by (simp add: with_conn_def)

text \<open>The calls of the users.\<close>

lemma send_inv:
  assumes inv: "tcp_inv s" and en: "tcp_enabled (LSend tid w m) s"
  shows "total tcp_inv (tcp_exec (LSend tid w m) s)"
proof (cases "tc_state (s_conn s) = kConnecting")
  case True
  then show ?thesis using inv by (simp add: TcpConnection_send_def)
next
  case False
  have fits: "write_fits w (length m)" using en by simp
  show ?thesis unfolding tcp_exec.simps
    by (rule outcome_bind_rule [OF send_ok [OF tcp_invD(1) [OF inv] fits]]) (use user_inv [OF inv False] in simp)
qed

lemma shutdown_inv:
  assumes inv: "tcp_inv s"
  shows "total tcp_inv (tcp_exec (LShutdown tid) s)"
proof (cases "tc_state (s_conn s) = kConnecting")
  case True
  then show ?thesis using inv by (simp add: shutdown_def)
next
  case False
  have "tcp_inv (with_conn s c')" if "tc_inv (s_sent s) c' \<and> effect (s_conn s) c'" for c'
    using user_inv [OF inv False, of "s_sent s" c'] that by (simp add: with_conn_def)
  then show ?thesis unfolding tcp_exec.simps
    by (intro outcome_bind_rule [OF shutdown_ok [OF tcp_invD(1) [OF inv]]]) simp
qed

lemma forceClose_inv: "tcp_inv s \<Longrightarrow> tcp_inv (with_conn s (forceClose (s_conn s)))"
  using user_inv [of s "s_sent s" "forceClose (s_conn s)"] forceClose_ok [OF tcp_invD(1), of s]
  by (cases "tc_state (s_conn s) = kConnecting") (simp_all add: forceClose_def with_conn_def)

lemma consume_inv:
  assumes inv: "tcp_inv s" and en: "tcp_enabled (LConsume n) s"
  shows "total tcp_inv (tcp_exec (LConsume n) s)"
proof -
  obtain b where b: "retrieve n (tc_inputBuffer (s_conn s)) = Inr b" "Buffer_inv b"
    using retrieve_ok [OF tc_invD(1) [OF tcp_invD(1) [OF inv]], of n] en by auto
  have "tcp_inv (with_conn s ((s_conn s)\<lparr>tc_inputBuffer := b\<rparr>))"
    using user_inv [OF inv _ input_ok [OF tcp_invD(1) [OF inv] b(2)]] en by (simp add: with_conn_def)
  then show ?thesis using b(1) by simp
qed

lemma tcp_exec_ok:
  assumes inv: "tcp_inv s" and en: "tcp_enabled l s"
  shows "outcome (second_removal l s) tcp_inv (tcp_exec l s)"
proof (cases l)
  case LEstablish
  then show ?thesis using connectEstablished_inv [OF inv] en outcome_weaken_fault by fastforce
next
  case (LPoll revents)
  then have "tcp_enabled (LPoll revents) s" using en by simp
  from poll_inv [OF inv this] show ?thesis using LPoll by simp
next
  case (LDispatch t r w)
  then show ?thesis using dispatch_inv [OF inv] en by simp
next
  case (LFunctor w)
  show ?thesis
  proof (cases "hd (tc_queue (s_conn s)) = FDestroy")
    case True
    then obtain q where "tc_queue (s_conn s) = FDestroy # q" "s_todo s = []"
      using en LFunctor by (cases "tc_queue (s_conn s)") auto
    from connectDestroyed_inv [OF inv this, of w] show ?thesis
      using LFunctor by (auto simp: outcome_def second_removal_def simp del: tcp_exec.simps split: sum.splits)
  next
    case False
    then show ?thesis using functor_inv [OF inv] en LFunctor outcome_weaken_fault by fastforce
  qed
next
  case (LSend tid w m)
  then show ?thesis using send_inv [OF inv] en outcome_weaken_fault by fastforce
next
  case (LShutdown tid)
  then show ?thesis using shutdown_inv [OF inv] outcome_weaken_fault by fastforce
next
  case LForceClose
  then show ?thesis using forceClose_inv [OF inv] by simp
next
  case (LConsume n)
  then show ?thesis using consume_inv [OF inv] en outcome_weaken_fault by fastforce
next
  case LRemove
  then show ?thesis using remove_inv [OF inv] en by simp
qed

interpretation tcp: step_invariant tcp_step tcp_inv
  by unfold_locales (metis outcome_simps(1) tcp_exec_ok tcp_stepE)

lemma newConnection_inv:
  assumes "newConnection ioThread nm k wc g = Inr s0"
  shows "tcp_inv s0"
proof -
  obtain b where b: "Buffer_ctor = Inr b" "Buffer_inv b" "Buffer_content b = []" using Buffer_ctor_ok by blast
  show ?thesis using assms b(2,3)
    by (auto simp: b(1) newConnection_def TcpConnection_ctor_def setWriteCompleteCallback_def tcp_inv_def tc_inv_def tc_isWriting_def
        undisturbed_def tcp_state_inv_def closes_def calls_shape_def Let_def)
qed

lemma reachable_inv: "newConnection ioThread nm k wc g = Inr s0 \<Longrightarrow> reach tcp_step s0 s \<Longrightarrow> tcp_inv s"
  using newConnection_inv tcp.invariant by blast

text \<open>A script of steps, for concrete runs.\<close>

fun tcp_run :: "tcp_label list \<Rightarrow> tcp_sys \<Rightarrow> tcp_sys option" where
  "tcp_run [] s = Some s"
| "tcp_run (l # ls) s = (if tcp_enabled l s then (case tcp_exec l s of Inr s' \<Rightarrow> tcp_run ls s' | Inl _ \<Rightarrow> None) else None)"

lemma tcp_run_reach: "tcp_run ls s = Some s' \<Longrightarrow> reach tcp_step s s'"
proof (induction ls arbitrary: s)
  case (Cons l ls)
  then obtain s1 where "tcp_enabled l s" "tcp_exec l s = Inr s1" "tcp_run ls s1 = Some s'"
    by (auto split: if_splits sum.splits)
  then show ?case using Cons.IH reach_trans reach_one tcp_step.intros by metis
qed (simp add: reach_refl)

lemma tcp_run_step: "tcp_run ls s = Some s' \<Longrightarrow> tcp_enabled l s' \<Longrightarrow> tcp_run (ls @ [l]) s = (case tcp_exec l s' of Inr s'' \<Rightarrow> Some s'' | Inl _ \<Rightarrow> None)"
  by (induction ls arbitrary: s) (auto split: if_splits sum.splits)

definition started :: tcp_sys where
  "started = (case newConnection 1 ''srv'' 1 True 0 of Inr s \<Rightarrow> s | Inl _ \<Rightarrow> undefined)"

lemma started_new: "newConnection 1 ''srv'' 1 True 0 = Inr started"
proof -
  obtain b where b: "Buffer_ctor = Inr b" using Buffer_ctor_ok by blast
  show ?thesis by (simp add: b started_def newConnection_def TcpConnection_ctor_def)
qed

lemma protocol_run_append:
  "protocol_run fdof (xs @ ys) w = (case protocol_run fdof xs w of None \<Rightarrow> None | Some w' \<Rightarrow> protocol_run fdof ys w')"
  by (induction xs arbitrary: w) (auto split: option.splits)

lemma watches_run:
  assumes "ws \<noteq> []" "hd ws \<noteq> 0" "0 \<le> fd"
  defines "n \<equiv> length (takeWhile (\<lambda>ev. ev = 0) (rev ws))"
  shows "protocol_run (\<lambda>_. fd) (map (Watch 0) ws) no_watches
       = Some \<lparr>wt_watched = [fd \<mapsto> (0, last ws)], wt_used = {0}, wt_again = (if 0 < n \<and> even n then {fd} else {})\<rparr>"
  using assms(1-3) unfolding n_def
proof (induction ws rule: rev_nonempty_induct)
  case (single x)
  then show ?case by (simp add: no_watches_def fun_eq_iff)
next
  case (snoc x xs)
  let ?n = "length (takeWhile (\<lambda>ev. ev = 0) (rev xs))"
  have "0 < ?n \<longleftrightarrow> last xs = 0" using snoc.hyps by (cases xs rule: rev_cases) simp_all
  then show ?case using snoc
    by (auto simp: protocol_run_append hd_append fun_eq_iff disabled_again_def)
qed

lemma redisabled_watches: "tc_calls c = map (Watch 0) ws \<Longrightarrow>
    redisabled c = (let n = length (takeWhile (\<lambda>ev. ev = 0) (rev ws)) in 0 < n \<and> even n)"
  by (simp add: redisabled_def rev_map takeWhile_map o_def Let_def)

section \<open>Sending and shutting down in the loop thread\<close>

lemma sendInLoop_input:
  assumes "sendInLoop tid w m c = Inr c'"
  shows "tc_inputBuffer c' = tc_inputBuffer c"
proof -
  obtain n c1 where w: "sendInLoop_write w m c = (n, c1)" by fastforce
  have 1: "tc_inputBuffer c1 = tc_inputBuffer c"
    using w by (auto simp: sendInLoop_write_def Let_def tc_queueInLoop_def split: if_splits option.splits)
  have "tc_inputBuffer c' = tc_inputBuffer c1" if "sendInLoop_rest (drop n m) c1 = Inr c'"
    using that by (auto simp: sendInLoop_rest_def Let_def bindR_eq_Inr tc_ops split: if_splits)
  then show ?thesis using assms w 1
    by (auto simp: sendInLoop_def tc_assertInLoopThread_def assertR_eq_Inr split: if_splits)
qed

lemma shutdown_state:
  assumes "tc_inv out c" "tc_state c = kConnected"
  shows "\<exists>c'. shutdown tid c = Inr c' \<and> tc_inv out c' \<and> tc_state c' = kDisconnecting \<and> tc_inputBuffer c' = tc_inputBuffer c"
proof -
  obtain c' where c': "shutdown tid c = Inr c'" "tc_inv out c'" using shutdown_ok [OF assms(1), of tid] by (auto simp: total_iff)
  then show ?thesis using assms(2)
    by (auto simp: shutdown_def Let_def shutdownInLoop_def tc_ops assertR_eq_Inr split: if_splits)
qed

lemma send_here:
  assumes "tc_inv out c" "tc_state c = kConnected" "tid = tc_thread c" "write_fits w (length m)"
  shows "\<exists>c'. sendInLoop tid w m c = Inr c' \<and> tc_inv (out @ m) c' \<and> tc_state c' = kConnected
    \<and> tc_inputBuffer c' = tc_inputBuffer c \<and> tc_thread c' = tc_thread c"
proof -
  obtain c' where "sendInLoop tid w m c = Inr c'" "tc_inv (out @ m) c'" "send_frame c c'"
    using sendInLoop_ok [OF assms(1,4,3)] by (auto simp: total_iff)
  then show ?thesis using assms(2) sendInLoop_input by (auto simp: send_frame_def)
qed

section \<open>Properties\<close>

text \<open>C1. The byte stream of a connection: in every state a new connection can reach, under any
  interleaving of poller events, short writes, sends from the loop and from other threads, shutdowns
  and closes, the bytes the socket has accepted followed by the bytes still in the output buffer are
  exactly the bytes given to \<^verbatim>\<open>sendInLoop\<close>, in order. While it has not been closed, the connection
  waits for writability exactly when it holds unsent bytes, and every \<^verbatim>\<open>shutdownWrite\<close> happened with
  the output buffer empty.\<close>

theorem stream_integrity:
  assumes "newConnection ioThread name k writeComplete garbage = Inr s0" and "reach tcp_step s0 s"
  shows "tc_written (s_conn s) @ Buffer_content (tc_outputBuffer (s_conn s)) = s_sent s
     \<and> (EvClose \<notin> set (tc_trace (s_conn s)) \<longrightarrow>
          (tc_isWriting (s_conn s) \<longleftrightarrow> Buffer_content (tc_outputBuffer (s_conn s)) \<noteq> [])
        \<and> (\<forall>n. EvShutdownWrite n \<in> set (tc_trace (s_conn s)) \<longrightarrow> n = 0))"
  using tc_invD [OF tcp_invD(1) [OF reachable_inv [OF assms]]] by blast

definition half_sent :: "tcp_label list" where
  "half_sent = [LEstablish, LSend 1 (Some 2) ''hello'', LShutdown 1]"

theorem stream_integrity_witness:
  "\<exists>s. reach tcp_step started s \<and> s_sent s = ''hello'' \<and> tc_written (s_conn s) = ''he'' \<and> tc_isWriting (s_conn s)
     \<and> Buffer_content (tc_outputBuffer (s_conn s)) = ''llo''"
proof -
  have "map_option (\<lambda>s. (tc_written (s_conn s), s_sent s, tc_trace (s_conn s))) (tcp_run half_sent started)
      = Some (''he'', ''hello'', [EvConnection kConnected])"
    by code_simp
  then obtain s where s: "tcp_run half_sent started = Some s" "tc_written (s_conn s) = ''he''" "s_sent s = ''hello''"
    "tc_trace (s_conn s) = [EvConnection kConnected]"
    by auto
  note r = tcp_run_reach [OF s(1)]
  show ?thesis using stream_integrity [OF started_new r] s r by auto
qed

text \<open>After the close that guarantee ends: \<^verbatim>\<open>handleClose\<close> has disabled the channel and left the state, so
  a \<^verbatim>\<open>shutdown\<close> after the peer's hang-up shuts the write side with bytes still in the buffer.\<close>

definition shutdown_late :: "tcp_label list" where
  "shutdown_late = [LEstablish, LSend 1 (Some 2) ''hello'', LPoll POLLHUP, LDispatch 0 (ReadErr 0) None, LShutdown 1]"

theorem shutdown_after_close:
  "\<exists>s. reach tcp_step started s \<and> EvClose \<in> set (tc_trace (s_conn s)) \<and> \<not> tc_isWriting (s_conn s)
     \<and> Buffer_content (tc_outputBuffer (s_conn s)) = ''llo'' \<and> EvShutdownWrite 3 \<in> set (tc_trace (s_conn s))"
proof -
  have "map_option (\<lambda>s. (tc_written (s_conn s), s_sent s, tc_isWriting (s_conn s), tc_trace (s_conn s))) (tcp_run shutdown_late started)
      = Some (''he'', ''hello'', False, [EvConnection kConnected, EvClose, EvShutdownWrite 3])"
    by code_simp
  then obtain s where s: "tcp_run shutdown_late started = Some s" "tc_written (s_conn s) = ''he''" "s_sent s = ''hello''"
    "\<not> tc_isWriting (s_conn s)" "tc_trace (s_conn s) = [EvConnection kConnected, EvClose, EvShutdownWrite 3]" by auto
  note r = tcp_run_reach [OF s(1)]
  show ?thesis using tc_invD(3) [OF tcp_invD(1) [OF reachable_inv [OF started_new r]]] s r by auto
qed

text \<open>C6. Errors of the connection protocol: in every reachable state and for every next step that
  can happen, as long as the channel was not touched again after its removal, no assertion of
  \<^verbatim>\<open>TcpConnection\<close>, of its buffers or of the thread check fails; the only one that can is \<^verbatim>\<open>n==1\<close> in
  \<^verbatim>\<open>TcpServer::removeConnectionInLoop\<close>, after the connection was closed twice.\<close>

theorem only_double_close_fails:
  assumes "newConnection ioThread name k writeComplete garbage = Inr s0" and "reach tcp_step s0 s"
    and "tcp_enabled l s" and "undisturbed (s_conn s)" and "tcp_exec l s = Inl e"
  shows "e = AssertFail ''n==1'' \<and> l = LRemove \<and> 2 \<le> closes (s_conn s)"
  using tcp_exec_ok [OF reachable_inv [OF assms(1,2)] assms(3)] assms(4,5) by (simp add: second_removal_def)

text \<open>\<^verbatim>\<open>forceClose\<close> checks for the state it sets itself, so a second call queues a second close.\<close>

definition closed_twice :: "tcp_label list" where
  "closed_twice = [LEstablish, LForceClose, LForceClose, LFunctor None, LFunctor None, LRemove]"

theorem only_double_close_fails_witness:
  "\<exists>s e. reach tcp_step started s \<and> tcp_enabled LRemove s \<and> tcp_exec LRemove s = Inl e \<and> e = AssertFail ''n==1''"
proof -
  have "map_option (\<lambda>s. (s_inMap s, s_removals s, undisturbed (s_conn s))) (tcp_run closed_twice started) = Some (False, 1, True)"
    by code_simp
  then obtain s where s: "tcp_run closed_twice started = Some s" "\<not> s_inMap s" "s_removals s = 1" "undisturbed (s_conn s)" by auto
  obtain e where e: "tcp_exec LRemove s = Inl e" using s(2) by (simp add: removeConnectionInLoop_def assertR_def)
  have en: "tcp_enabled LRemove s" using s(3) by simp
  note r = tcp_run_reach [OF s(1)]
  show ?thesis using only_double_close_fails [OF started_new r en s(4) e] r en e by blast
qed

text \<open>The second of two closes in one round re-registers the channel with \<^verbatim>\<open>epoll\<close> for no event; the
  hang-up of the peer is then reported on a connection that is already closed.\<close>

theorem closed_channel_reported:
  "\<exists>s. reach tcp_step started s \<and> closes (s_conn s) = 2 \<and> tc_events (s_conn s) = 0 \<and> s_todo s = [CloseCallback]"
proof -
  have "map_option (\<lambda>s. (closes (s_conn s), tc_events (s_conn s), s_todo s))
      (tcp_run [LEstablish, LForceClose, LForceClose, LFunctor None, LFunctor None, LPoll POLLHUP] started)
      = Some (2, 0, [CloseCallback])"
    by code_simp
  then obtain s where s: "tcp_run [LEstablish, LForceClose, LForceClose, LFunctor None, LFunctor None, LPoll POLLHUP] started = Some s"
    "closes (s_conn s) = 2" "tc_events (s_conn s) = 0" "s_todo s = [CloseCallback]" by auto
  then show ?thesis using tcp_run_reach [OF s(1)] by auto
qed

text \<open>C8. A connection obeys the poller. As long as its channel was not touched again after its removal
  (the theorem after this one exhibits how that happens), its calls keep to the protocol under which
  both pollers work without failure, and the table of the poller has the descriptor with exactly the
  events the channel wants, from establishment to destruction; a disabled channel is with \<^verbatim>\<open>epoll\<close>
  again exactly when \<open>redisabled\<close> says so.\<close>

theorem connection_obeys_poller:
  assumes "newConnection ioThread name k writeComplete garbage = Inr s0" and "reach tcp_step s0 s"
    and "undisturbed (s_conn s)" and "0 \<le> fd"
  shows "\<exists>w. protocol_run (\<lambda>_. fd) (tc_calls (s_conn s)) no_watches = Some w
     \<and> wt_watched w fd = (if tc_state (s_conn s) \<in> {kConnected, kDisconnecting} then Some (0, tc_events (s_conn s)) else None)
     \<and> (fd \<in> wt_again w \<longleftrightarrow> redisabled (s_conn s))"
proof -
  let ?c = "s_conn s"
  have sh: "calls_shape ?c"
    using tcp_invD(5) [OF reachable_inv [OF assms(1,2)] assms(3)] by (simp add: tcp_state_inv_def Let_def)
  show ?thesis
  proof (cases "tc_state ?c \<in> {kConnected, kDisconnecting}")
    case True
    then obtain ws where ws: "ws \<noteq> []" "hd ws \<noteq> 0" "tc_calls ?c = map (Watch 0) ws" "tc_events ?c = last ws"
      using sh by (auto simp: calls_shape_def)
    then show ?thesis using watches_run [OF ws(1,2) assms(4)] True redisabled_watches [OF ws(3)] by (auto simp: Let_def)
  next
    case False
    then show ?thesis using sh watches_run [OF _ _ assms(4)]
      by (cases "tc_state ?c") (auto simp: calls_shape_def no_watches_def protocol_run_append redisabled_def)
  qed
qed

definition destroyed :: "tcp_label list" where
  "destroyed = [LEstablish, LForceClose, LFunctor None, LRemove, LFunctor None]"

theorem connection_obeys_poller_witness:
  "\<exists>s w. reach tcp_step started s \<and> tc_state (s_conn s) = kDisconnected
     \<and> protocol_run (\<lambda>_. 7) (tc_calls (s_conn s)) no_watches = Some w \<and> wt_watched w 7 = None"
proof -
  have "map_option (\<lambda>s. (tc_state (s_conn s), undisturbed (s_conn s))) (tcp_run destroyed started) = Some (kDisconnected, True)"
    by code_simp
  then obtain s where s: "tcp_run destroyed started = Some s" "tc_state (s_conn s) = kDisconnected" "undisturbed (s_conn s)" by auto
  note r = tcp_run_reach [OF s(1)]
  show ?thesis using connection_obeys_poller [OF started_new r s(3), of 7] s(2) r by auto
qed

definition late_send :: "tcp_label list" where
  "late_send = [LEstablish, LPoll POLLHUP, LDispatch 0 (ReadErr 0) None, LRemove, LSend 2 None ''x'', LFunctor None]"

text \<open>\<^verbatim>\<open>sendInLoop\<close> does not look at the state: a message that another thread sends before the
  connection is destroyed, and whose functor runs afterwards, is buffered or written on a
  disconnected connection; when the socket does not take all of it, the removed channel is
  registered again, which the protocol of the pollers forbids.\<close>

theorem late_send_rewatches:
  "\<exists>s s'. reach tcp_step started s \<and> tc_state (s_conn s) = kDisconnected \<and> tcp_step s s'
     \<and> \<not> undisturbed (s_conn s') \<and> protocol_run (\<lambda>_. 7) (tc_calls (s_conn s')) no_watches = None"
proof -
  have "map_option (\<lambda>s. (tc_state (s_conn s), tcp_enabled (LFunctor None) s)) (tcp_run late_send started) = Some (kDisconnected, True)"
    by code_simp
  then obtain s where s: "tcp_run late_send started = Some s" "tc_state (s_conn s) = kDisconnected" "tcp_enabled (LFunctor None) s" by auto
  have "map_option (\<lambda>s. tc_calls (s_conn s)) (tcp_run (late_send @ [LFunctor None]) started)
      = Some [Watch 0 3, Watch 0 0, Watch 0 0, Unwatch 0, Watch 0 4]"
    by code_simp
  then obtain s' where s': "tcp_exec (LFunctor None) s = Inr s'" "tc_calls (s_conn s') = [Watch 0 3, Watch 0 0, Watch 0 0, Unwatch 0, Watch 0 4]"
    using tcp_run_step [OF s(1,3)] by (auto simp del: tcp_exec.simps split: sum.splits)
  have "tcp_step s s'" using s(3) s'(1) by (rule tcp_step.intros)
  moreover have "\<not> undisturbed (s_conn s') \<and> protocol_run (\<lambda>_. 7) (tc_calls (s_conn s')) no_watches = None"
    by (simp add: s'(2) undisturbed_def no_watches_def)
  ultimately show ?thesis using tcp_run_reach [OF s(1)] s(2) by blast
qed

end
