(* ===== verification/Http_Server.thy ===== *)
theory Http_Server
  imports Http_Message Net_Tcp
begin

text \<open>
  \<^verbatim>\<open>net/http/HttpServer.cc\<close>, \<^verbatim>\<open>net/http/HttpServer.h\<close> and \<^verbatim>\<open>net/TimeWheel.cc\<close>: the server answers the requests its
  connections' contexts parse, and shuts connections down that are idle for the eight ticks of a wheel
  of buckets. A handler runs as one step; the mutex makes the accesses to the wheel atomic. Entries are
  numbered, a bucket holds entries by number, and an entry is destroyed when no bucket holds it any
  more. \<^verbatim>\<open>boost::circular_buffer\<close> is a parameter with the laws \<open>bucket_laws\<close>; the user's callback is a
  parameter. \<open>http_step\<close> is everything that can happen to a server from its constructor on; \<open>server_inv\<close> holds
  after every step, and \<open>server_ready\<close> from the first tick of the wheel on.
\<close>

section \<open>The wheel\<close>

type_synonym Bucket = "nat list"

text \<open>The operations of \<^verbatim>\<open>boost::circular_buffer<Bucket>\<close>: \<open>bl_items\<close> are its elements from the front to the back,
  \<open>bl_tail\<close> is the position in memory the iterator \<^verbatim>\<open>end() - 1\<close> refers to.\<close>

record 'b BucketList =
  bl_make :: "nat \<Rightarrow> 'b"
  bl_items :: "'b \<Rightarrow> Bucket list"
  bl_capacity :: "'b \<Rightarrow> nat"
  bl_push_back :: "Bucket \<Rightarrow> 'b \<Rightarrow> 'b"
  bl_set_back :: "Bucket \<Rightarrow> 'b \<Rightarrow> 'b"
  bl_tail :: "'b \<Rightarrow> nat"

text \<open>A buffer that is full overwrites its front element; the elements occupy consecutive positions of a ring.\<close>

definition bucket_laws :: "'b BucketList \<Rightarrow> bool" where
  "bucket_laws ops = (
     (\<forall>n. bl_items ops (bl_make ops n) = [] \<and> bl_capacity ops (bl_make ops n) = n) \<and>
     (\<forall>x b. bl_items ops (bl_push_back ops x b)
        = (if length (bl_items ops b) = bl_capacity ops b then tl (bl_items ops b) else bl_items ops b) @ [x]
        \<and> bl_capacity ops (bl_push_back ops x b) = bl_capacity ops b) \<and>
     (\<forall>x b. bl_items ops b \<noteq> [] \<longrightarrow> bl_items ops (bl_set_back ops x b) = butlast (bl_items ops b) @ [x]
        \<and> bl_capacity ops (bl_set_back ops x b) = bl_capacity ops b \<and> bl_tail ops (bl_set_back ops x b) = bl_tail ops b) \<and>
     (\<forall>x b. bl_items ops b \<noteq> [] \<longrightarrow> bl_tail ops (bl_push_back ops x b) = (bl_tail ops b + 1) mod bl_capacity ops b))"

definition kTimeGap :: nat where "kTimeGap = 8"

record HttpConn =
  hc_tcp :: TcpConnection
  hc_context :: HttpContext
  hc_entry :: "nat option"    \<comment> \<open>the weak pointer to its entry\<close>
  hc_tail :: nat              \<comment> \<open>the iterator it remembers\<close>

text \<open>\<open>hs_entries\<close> are the entries not destroyed yet, each with the connection it refers to weakly; \<open>hs_conns\<close> are the
  connections that exist.\<close>

record 'b HttpServer =
  hs_list :: 'b
  hs_entries :: "(nat \<times> nat) list"
  hs_next :: nat
  hs_conns :: "nat \<rightharpoonup> HttpConn"

definition HttpServer_ctor :: "'b BucketList \<Rightarrow> 'b HttpServer" where
  "HttpServer_ctor ops = \<lparr>hs_list = bl_make ops 8, hs_entries = [], hs_next = 0, hs_conns = Map.empty\<rparr>"

text \<open>\<^verbatim>\<open>list_.back().insert(p)\<close> on an unordered set; there is no back element in an empty list.\<close>

definition insert_back :: "'b BucketList \<Rightarrow> nat \<Rightarrow> 'b \<Rightarrow> 'b result" where
  "insert_back ops e b =
     (if bl_items ops b = [] then Inl OutOfBounds else Inr (bl_set_back ops (List.insert e (last (bl_items ops b))) b))"

definition Entry_dtor :: "nat \<Rightarrow> nat \<times> nat \<Rightarrow> 'b HttpServer \<Rightarrow> 'b HttpServer result" where
  "Entry_dtor tid e s =
     (case hs_conns s (snd e) of
        None \<Rightarrow> Inr s
      | Some c \<Rightarrow> bindR (shutdown tid (hc_tcp c)) (\<lambda>t. Inr (s\<lparr>hs_conns := (hs_conns s)(snd e \<mapsto> c\<lparr>hc_tcp := t\<rparr>)\<rparr>)))"

definition held :: "Bucket list \<Rightarrow> nat \<Rightarrow> bool" where
  "held bs e = (\<exists>b \<in> set bs. e \<in> set b)"

definition onTimer :: "'b BucketList \<Rightarrow> nat \<Rightarrow> 'b HttpServer \<Rightarrow> 'b HttpServer result" where
  "onTimer ops tid s =
     (let list' = bl_push_back ops [] (hs_list s);
          alive = (\<lambda>e. held (bl_items ops list') (fst e));
          dead = filter (\<lambda>e. \<not> alive e) (hs_entries s)
      in foldR (Entry_dtor tid) dead (s\<lparr>hs_list := list', hs_entries := filter alive (hs_entries s)\<rparr>))"

section \<open>The handlers\<close>

definition onConnection :: "'b BucketList \<Rightarrow> nat \<Rightarrow> 'b HttpServer \<Rightarrow> 'b HttpServer result" where
  "onConnection ops cid s =
     (case hs_conns s cid of
        None \<Rightarrow> Inl DanglingPointer
      | Some c \<Rightarrow>
          if connected (hc_tcp c)
          then let e = hs_next s in
               bindR (insert_back ops e (hs_list s)) (\<lambda>list'.
                 Inr (s\<lparr>hs_list := list', hs_entries := hs_entries s @ [(e, cid)], hs_next := e + 1,
                   hs_conns := (hs_conns s)(cid \<mapsto> c\<lparr>hc_entry := Some e, hc_tail := bl_tail ops list', hc_context := HttpContext_ctor\<rparr>)\<rparr>))
          else Inr s)"

text \<open>The part of \<open>onMessage\<close> that moves the entry to the back of the wheel.\<close>

definition touch :: "'b BucketList \<Rightarrow> HttpConn \<Rightarrow> 'b HttpServer \<Rightarrow> 'b HttpServer result" where
  "touch ops c s =
     (case hc_entry c of
        None \<Rightarrow> Inr s
      | Some e \<Rightarrow>
          if e \<in> fst ` set (hs_entries s)
          then if bl_items ops (hs_list s) = [] then Inl OutOfBounds
               else if bl_tail ops (hs_list s) \<noteq> hc_tail c
               then bindR (insert_back ops e (hs_list s)) (\<lambda>list'. Inr (s\<lparr>hs_list := list'\<rparr>))
               else Inr s
          else Inr s)"

type_synonym HttpCallback = "HttpRequest \<Rightarrow> HttpResponse \<Rightarrow> HttpResponse"

definition defaultHttpCallback :: HttpCallback where
  "defaultHttpCallback req resp = setCloseConnection True (setStatusMessage ''Not Found'' (setStatusCode k404NotFound resp))"

definition must_close :: "HttpRequest \<Rightarrow> bool" where
  "must_close req =
     (let connection = getHeader ''Connection'' req
      in connection = ''close'' \<or> (req_version req = kHttp10 \<and> connection \<noteq> ''Keep-Alive''))"

definition onRequest :: "HttpCallback \<Rightarrow> nat \<Rightarrow> nat option \<Rightarrow> HttpRequest \<Rightarrow> TcpConnection \<Rightarrow> TcpConnection result" where
  "onRequest httpCallback tid w req conn =
     (let response = httpCallback req (HttpResponse_ctor (must_close req)) in
      bindR Buffer_ctor (\<lambda>buf.
      bindR (appendToBuffer response buf) (\<lambda>buf.
      bindR (TcpConnection_sendBuffer tid w buf conn) (\<lambda>(buf, conn).
        if resp_closeConnection response then shutdown tid conn else Inr conn))))"

definition bad_request :: string where
  "bad_request = ''HTTP/1.1 400 Bad Request'' @ kCRLF @ kCRLF"

text \<open>\<open>w1\<close> and \<open>w2\<close> are what \<^verbatim>\<open>write(2)\<close> answers in the two calls of \<^verbatim>\<open>send\<close>. \<open>None\<close>: \<open>parseRequest\<close> does not return.\<close>

definition onMessage ::
  "'b BucketList \<Rightarrow> HttpCallback \<Rightarrow> nat \<Rightarrow> nat option \<Rightarrow> nat option \<Rightarrow> nat \<Rightarrow> Timestamp \<Rightarrow> 'b HttpServer \<Rightarrow> 'b HttpServer result option" where
  "onMessage ops httpCallback tid w1 w2 cid receiveTime s =
     (case hs_conns s cid of
        None \<Rightarrow> Some (Inl DanglingPointer)
      | Some c \<Rightarrow>
          (case touch ops c s of
             Inl e \<Rightarrow> Some (Inl e)
           | Inr s \<Rightarrow>
               (case parseRequest (tc_inputBuffer (hc_tcp c)) receiveTime (hc_context c) of
                  None \<Rightarrow> None
                | Some (Inl e) \<Rightarrow> Some (Inl e)
                | Some (Inr (ok, context, buf)) \<Rightarrow>
                    Some (
                      let conn = (hc_tcp c)\<lparr>tc_inputBuffer := buf\<rparr> in
                      bindR (if \<not> ok then bindR (TcpConnection_send tid w1 bad_request conn) (shutdown tid) else Inr conn) (\<lambda>conn.
                      bindR (if gotAll context
                             then bindR (onRequest httpCallback tid w2 (ctx_request context) conn) (\<lambda>conn. Inr (conn, HttpContext_reset context))
                             else Inr (conn, context)) (\<lambda>(conn, context).
                        Inr (s\<lparr>hs_conns := (hs_conns s)(cid \<mapsto> c\<lparr>hc_tcp := conn, hc_context := context\<rparr>)\<rparr>)))))))"

section \<open>Requests are answered\<close>

lemma onRequest_ok:
  fixes cb :: HttpCallback
  defines "resp r \<equiv> cb r (HttpResponse_ctor (must_close r))"
  assumes c: "tc_inv out c" "tc_state c = kConnected" "tid = tc_thread c"
    and fits: "length (resp_body (resp r)) < 10 ^ 13" "write_fits w (length (response_text (resp r)))"
  shows "\<exists>c'. onRequest cb tid w r c = Inr c' \<and> tc_inv (out @ response_text (resp r)) c'
    \<and> tc_state c' = (if resp_closeConnection (resp r) then kDisconnecting else kConnected)
    \<and> tc_inputBuffer c' = tc_inputBuffer c"
proof -
  obtain b0 where b0: "Buffer_ctor = Inr b0" "Buffer_inv b0" "Buffer_content b0 = []" using Buffer_ctor_ok by blast
  obtain b1 where b1: "appendToBuffer (resp r) b0 = Inr b1" "Buffer_inv b1" "Buffer_content b1 = response_text (resp r)"
    using appendToBuffer_ok [OF b0(2) fits(1)] b0(3) by auto
  obtain b2 where b2: "retrieveAsString b1 = Inr (response_text (resp r), b2)" using retrieveAsString_ok [OF b1(2)] b1(3) by auto
  obtain c1 where c1: "sendInLoop tid w (response_text (resp r)) c = Inr c1" "tc_inv (out @ response_text (resp r)) c1"
      "tc_state c1 = kConnected" "tc_inputBuffer c1 = tc_inputBuffer c"
    using send_here [OF c fits(2)] by blast
  have "TcpConnection_sendBuffer tid w b1 c = Inr (b2, c1)"
    using c(2,3) b2 c1(1) by (simp add: TcpConnection_sendBuffer_def)
  then have "onRequest cb tid w r c = (if resp_closeConnection (resp r) then shutdown tid c1 else Inr c1)"
    using b1(1) by (simp add: onRequest_def resp_def b0(1))
  then show ?thesis using c1 shutdown_state [OF c1(2,3), of tid] by auto
qed

text \<open>An entry that is alive is in the wheel, so the wheel is not empty then.\<close>

definition wheel_inv :: "'b BucketList \<Rightarrow> 'b HttpServer \<Rightarrow> bool" where
  "wheel_inv ops s = ((\<forall>e \<in> fst ` set (hs_entries s). held (bl_items ops (hs_list s)) e \<and> e < hs_next s)
     \<and> (\<forall>b \<in> set (bl_items ops (hs_list s)). \<forall>e \<in> set b. e < hs_next s) \<and> distinct (map fst (hs_entries s)))"

lemma touch_ok:
  assumes "wheel_inv ops s"
  shows "\<exists>l. touch ops c s = Inr (s\<lparr>hs_list := l\<rparr>)"
proof -
  have "bl_items ops (hs_list s) \<noteq> []" if "e \<in> fst ` set (hs_entries s)" for e
    using assms that unfolding wheel_inv_def held_def by fastforce
  then show ?thesis
    by (cases "hc_entry c") (auto simp: touch_def insert_back_def intro: exI [of _ "hs_list s"])
qed

text \<open>A message that completes a request, and one that does not.\<close>

lemma onMessage_completes:
  fixes cb :: HttpCallback
  defines "resp r \<equiv> cb r (HttpResponse_ctor (must_close r))"
  assumes touch: "touch ops c s = Inr (s\<lparr>hs_list := l\<rparr>)" and c: "hs_conns s cid = Some c" "parsing (hc_context c)"
    and t: "tc_inv out (hc_tcp c)" "tc_state (hc_tcp c) = kConnected" "tid = tc_thread (hc_tcp c)"
    and h: "http_parse now True (hc_context c) (Buffer_content (tc_inputBuffer (hc_tcp c))) = Inr (True, \<lparr>ctx_state = kGotAll, ctx_request = r\<rparr>, rest)"
    and fits: "length (resp_body (resp r)) < 10 ^ 13" "write_fits w2 (length (response_text (resp r)))"
  shows "\<exists>t1. onMessage ops cb tid w1 w2 cid now s
       = Some (Inr (s\<lparr>hs_list := l, hs_conns := (hs_conns s)(cid \<mapsto> c\<lparr>hc_tcp := t1, hc_context := HttpContext_ctor\<rparr>)\<rparr>))
     \<and> tc_inv (out @ response_text (resp r)) t1 \<and> tc_state t1 = (if resp_closeConnection (resp r) then kDisconnecting else kConnected)
     \<and> Buffer_content (tc_inputBuffer t1) = rest"
proof -
  obtain b where b: "parseRequest (tc_inputBuffer (hc_tcp c)) now (hc_context c) = Some (Inr (True, \<lparr>ctx_state = kGotAll, ctx_request = r\<rparr>, b))"
      "Buffer_inv b" "Buffer_content b = rest"
    using parseRequest_loop_refines [OF tc_invD(1) [OF t(1)] c(2), of now True] h by (auto simp: parseRequest_def)
  define t0 where "t0 = (hc_tcp c)\<lparr>tc_inputBuffer := b\<rparr>"
  have t0: "tc_inv out t0" "tc_state t0 = kConnected" "tid = tc_thread t0"
    using t b(2) by (simp_all add: t0_def tc_inv_def)
  obtain t1 where t1: "onRequest cb tid w2 r t0 = Inr t1" "tc_inv (out @ response_text (resp r)) t1"
      "tc_state t1 = (if resp_closeConnection (resp r) then kDisconnecting else kConnected)" "tc_inputBuffer t1 = b"
    using onRequest_ok [where cb = cb and r = r, OF t0 fits [unfolded resp_def]] unfolding resp_def t0_def by auto
  have reset: "HttpContext_reset \<lparr>ctx_state = kGotAll, ctx_request = r\<rparr> = HttpContext_ctor"
    by (simp add: HttpContext_reset_def HttpContext_ctor_def HttpRequest_swap_def)
  have "onMessage ops cb tid w1 w2 cid now s
      = Some (Inr (s\<lparr>hs_list := l, hs_conns := (hs_conns s)(cid \<mapsto> c\<lparr>hc_tcp := t1, hc_context := HttpContext_ctor\<rparr>)\<rparr>))"
    using touch t1(1) reset by (simp add: onMessage_def c b(1) t0_def [symmetric] gotAll_def)
  then show ?thesis using t1 b(3) by auto
qed

lemma onMessage_waits:
  assumes touch: "touch ops c s = Inr (s\<lparr>hs_list := l\<rparr>)" and c: "hs_conns s cid = Some c" "parsing (hc_context c)"
    and t: "tc_inv out (hc_tcp c)"
    and h: "http_parse now True (hc_context c) (Buffer_content (tc_inputBuffer (hc_tcp c))) = Inr (True, ctx, rest)" "parsing ctx"
  shows "\<exists>b. onMessage ops cb tid w1 w2 cid now s
       = Some (Inr (s\<lparr>hs_list := l, hs_conns := (hs_conns s)(cid \<mapsto> c\<lparr>hc_tcp := (hc_tcp c)\<lparr>tc_inputBuffer := b\<rparr>, hc_context := ctx\<rparr>)\<rparr>))
     \<and> Buffer_inv b \<and> Buffer_content b = rest"
proof -
  obtain b where b: "parseRequest (tc_inputBuffer (hc_tcp c)) now (hc_context c) = Some (Inr (True, ctx, b))" "Buffer_inv b" "Buffer_content b = rest"
    using parseRequest_loop_refines [OF tc_invD(1) [OF t] c(2), of now True] h by (auto simp: parseRequest_def)
  have "\<not> gotAll ctx" using h(2) by (auto simp: gotAll_def parsing_def)
  then show ?thesis using touch b by (intro exI [of _ b]) (simp add: onMessage_def c)
qed

lemma onMessage_answers:
  fixes cb :: HttpCallback
  defines "resp r \<equiv> cb r (HttpResponse_ctor (must_close r))"
  assumes w: "wheel_inv ops s" and c: "hs_conns s cid = Some c" "hc_context c = HttpContext_ctor"
    and t: "tc_inv out (hc_tcp c)" "tc_state (hc_tcp c) = kConnected" "tid = tc_thread (hc_tcp c)"
    and r: "request_ok r" "Buffer_content (tc_inputBuffer (hc_tcp c)) = render_request r @ rest"
    and fits: "length (resp_body (resp (r\<lparr>req_receiveTime := now\<rparr>))) < 10 ^ 13"
      "write_fits w2 (length (response_text (resp (r\<lparr>req_receiveTime := now\<rparr>))))"
  shows "\<exists>s' c'. onMessage ops cb tid w1 w2 cid now s = Some (Inr s') \<and> hs_conns s' cid = Some c'
     \<and> tc_inv (out @ response_text (resp (r\<lparr>req_receiveTime := now\<rparr>))) (hc_tcp c')
     \<and> tc_state (hc_tcp c') = (if resp_closeConnection (resp (r\<lparr>req_receiveTime := now\<rparr>)) then kDisconnecting else kConnected)
     \<and> hc_context c' = HttpContext_ctor \<and> Buffer_content (tc_inputBuffer (hc_tcp c')) = rest"
proof -
  obtain l where l: "touch ops c s = Inr (s\<lparr>hs_list := l\<rparr>)" using touch_ok [OF w] by blast
  have p: "parsing (hc_context c)" by (simp add: c parsing_def HttpContext_ctor_def)
  have h: "http_parse now True (hc_context c) (Buffer_content (tc_inputBuffer (hc_tcp c)))
      = Inr (True, \<lparr>ctx_state = kGotAll, ctx_request = r\<lparr>req_receiveTime := now\<rparr>\<rparr>, rest)"
    using http_parse_render [OF r(1)] r(2) c(2) by simp
  show ?thesis
    using onMessage_completes [where cb = cb, OF l c(1) p t h fits [unfolded resp_def], of w1] unfolding resp_def by auto
qed

text \<open>The line-wise parser refuses a request before it has all of it.\<close>

lemma processRequestLine_state: "processRequestLine line c = Inr (ok, c1) \<Longrightarrow> ctx_state c1 = ctx_state c"
  by (auto simp: processRequestLine_def Let_def bindR_eq_Inr split: if_splits)

lemma refused_not_complete: "http_parse t ok c x = Inr (False, c', y) \<Longrightarrow> ok \<Longrightarrow> parsing c \<Longrightarrow> \<not> gotAll c'"
proof (induction t ok c x rule: http_parse.induct)
  case (1 t ok c x)
  note P = "1.prems"(1) [unfolded http_parse.simps [of t ok c x] Let_def]
  show ?case
  proof (cases "std_search x kCRLF = length x")
    case True
    then show ?thesis using P "1.prems"(2) by simp
  next
    case F: False
    consider "ctx_state c = kExpectRequestLine" | "ctx_state c = kExpectHeaders" using "1.prems"(3) by (auto simp: parsing_def)
    then show ?thesis
    proof cases
      case 1
      then show ?thesis
      proof (cases "processRequestLine (take (std_search x kCRLF) x) c")
        case (Inl e)
        then show ?thesis using P 1 F by simp
      next
        case (Inr p)
        then obtain ok' c1 where p: "processRequestLine (take (std_search x kCRLF) x) c = Inr (ok', c1)" by (cases p) auto
        show ?thesis
        proof (cases ok')
          case True
          then show ?thesis using "1.IH"(1) [OF refl refl refl F 1 p refl True] p True P 1 F by simp
        next
          case False
          have "ctx_state c1 = ctx_state c" using processRequestLine_state [OF p] .
          then show ?thesis using False p P 1 F by (auto simp: gotAll_def)
        qed
      qed
    next
      case 2
      then show ?thesis using "1.IH"(2) [OF refl refl refl F 2 refl] P "1.prems"(2,3) 2 F by (auto split: if_splits)
    qed
  qed
qed

lemma onMessage_refuses:
  assumes w: "wheel_inv ops s" and c: "hs_conns s cid = Some c" "parsing (hc_context c)"
    and t: "tc_inv out (hc_tcp c)" "tc_state (hc_tcp c) = kConnected" "tid = tc_thread (hc_tcp c)"
    and h: "http_parse now True (hc_context c) (Buffer_content (tc_inputBuffer (hc_tcp c))) = Inr (False, ctx, rest)"
    and fits: "write_fits w1 (length bad_request)"
  shows "\<exists>s' c'. onMessage ops cb tid w1 w2 cid now s = Some (Inr s') \<and> hs_conns s' cid = Some c'
     \<and> tc_inv (out @ bad_request) (hc_tcp c') \<and> tc_state (hc_tcp c') = kDisconnecting"
proof -
  obtain l where l: "touch ops c s = Inr (s\<lparr>hs_list := l\<rparr>)" using touch_ok [OF w] by blast
  obtain b where b: "parseRequest (tc_inputBuffer (hc_tcp c)) now (hc_context c) = Some (Inr (False, ctx, b))" "Buffer_inv b"
    using parseRequest_loop_refines [OF tc_invD(1) [OF t(1)] c(2), of now True] h by (auto simp: parseRequest_def)
  define t0 where "t0 = (hc_tcp c)\<lparr>tc_inputBuffer := b\<rparr>"
  have t0: "tc_inv out t0" "tc_state t0 = kConnected" "tid = tc_thread t0"
    using t b(2) by (simp_all add: t0_def tc_inv_def)
  obtain t1 where t1: "sendInLoop tid w1 bad_request t0 = Inr t1" "tc_inv (out @ bad_request) t1" "tc_state t1 = kConnected"
    using send_here [OF t0 fits] by blast
  obtain t2 where t2: "shutdown tid t1 = Inr t2" "tc_inv (out @ bad_request) t2" "tc_state t2 = kDisconnecting"
    using shutdown_state [OF t1(2,3)] by blast
  have s: "TcpConnection_send tid w1 bad_request t0 = Inr t1" using t0 t1(1) by (simp add: TcpConnection_send_def)
  have "onMessage ops cb tid w1 w2 cid now s
      = Some (Inr (s\<lparr>hs_list := l, hs_conns := (hs_conns s)(cid \<mapsto> c\<lparr>hc_tcp := t2, hc_context := ctx\<rparr>)\<rparr>))"
    using l s t2(1) refused_not_complete [OF h _ c(2)] by (simp add: onMessage_def c b(1) t0_def [symmetric])
  then show ?thesis using t2 by simp
qed

section \<open>Idle connections are shut down\<close>

text \<open>The number of ticks an entry has left: the place of the last bucket that holds it, counted from the front.\<close>

primrec life :: "Bucket list \<Rightarrow> nat \<Rightarrow> nat" where
  "life [] e = 0"
| "life (b # bs) e = (if 0 < life bs e then Suc (life bs e) else if e \<in> set b then 1 else 0)"

lemma life_held: "held bs e \<longleftrightarrow> 0 < life bs e"
  by (induction bs) (auto simp: held_def)

lemma life_le: "life bs e \<le> length bs"
  by (induction bs) auto

lemma life_append: "life (bs @ [b]) e = (if e \<in> set b then Suc (length bs) else life bs e)"
  by (induction bs) auto

lemma life_tick: "bs \<noteq> [] \<Longrightarrow> life (tl bs @ [[]]) e = life bs e - 1"
  by (cases bs) (auto simp: life_append)

lemma life_insert: "bs \<noteq> [] \<Longrightarrow> life (butlast bs @ [List.insert x (last bs)]) e = (if e = x then length bs else life bs e)"
  using append_butlast_last_id [of bs] life_append [of "butlast bs" "last bs" e] by (auto simp: life_append)

definition wheel_ok :: "'b BucketList \<Rightarrow> 'b HttpServer \<Rightarrow> bool" where
  "wheel_ok ops s = (bl_capacity ops (hs_list s) = kTimeGap \<and> length (bl_items ops (hs_list s)) \<le> kTimeGap)"

text \<open>Destroying entries touches only the connections they refer to.\<close>

lemma shutdown_total: "\<exists>t. shutdown tid c = Inr t \<and> tc_state t \<noteq> kConnected"
  by (auto simp: shutdown_def shutdownInLoop_def tc_ops Let_def)

lemma Entry_dtor_ok:
  "\<exists>m. Entry_dtor tid e s = Inr (s\<lparr>hs_conns := m\<rparr>) \<and> (\<forall>k. k \<noteq> snd e \<longrightarrow> m k = hs_conns s k)
    \<and> (\<forall>c. m (snd e) = Some c \<longrightarrow> tc_state (hc_tcp c) \<noteq> kConnected)
    \<and> (m (snd e) = None \<longleftrightarrow> hs_conns s (snd e) = None)"
proof (cases "hs_conns s (snd e)")
  case None
  then show ?thesis by (intro exI [of _ "hs_conns s"]) (simp add: Entry_dtor_def)
next
  case (Some c)
  obtain t where t: "shutdown tid (hc_tcp c) = Inr t" "tc_state t \<noteq> kConnected" using shutdown_total by blast
  then show ?thesis using Some by (intro exI [of _ "(hs_conns s)(snd e \<mapsto> c\<lparr>hc_tcp := t\<rparr>)"]) (auto simp: Entry_dtor_def)
qed

lemma Entry_dtors_ok:
  "\<exists>m. foldR (Entry_dtor tid) es s = Inr (s\<lparr>hs_conns := m\<rparr>)
    \<and> (\<forall>k. k \<notin> snd ` set es \<longrightarrow> m k = hs_conns s k)
    \<and> (\<forall>k c. k \<in> snd ` set es \<longrightarrow> m k = Some c \<longrightarrow> tc_state (hc_tcp c) \<noteq> kConnected)
    \<and> (\<forall>k. m k = None \<longleftrightarrow> hs_conns s k = None)"
proof (induction es arbitrary: s)
  case Nil
  then show ?case by (intro exI [of _ "hs_conns s"]) simp
next
  case (Cons e es)
  obtain m where m: "Entry_dtor tid e s = Inr (s\<lparr>hs_conns := m\<rparr>)" "\<forall>k. k \<noteq> snd e \<longrightarrow> m k = hs_conns s k"
      "\<forall>c. m (snd e) = Some c \<longrightarrow> tc_state (hc_tcp c) \<noteq> kConnected" "m (snd e) = None \<longleftrightarrow> hs_conns s (snd e) = None"
    using Entry_dtor_ok [of tid e s] by (elim exE conjE)
  obtain m' where m': "foldR (Entry_dtor tid) es (s\<lparr>hs_conns := m\<rparr>) = Inr (s\<lparr>hs_conns := m'\<rparr>)"
      "\<forall>k. k \<notin> snd ` set es \<longrightarrow> m' k = m k" "\<forall>k c. k \<in> snd ` set es \<longrightarrow> m' k = Some c \<longrightarrow> tc_state (hc_tcp c) \<noteq> kConnected"
      "\<forall>k. m' k = None \<longleftrightarrow> m k = None"
    using Cons.IH [of "s\<lparr>hs_conns := m\<rparr>"] by auto
  show ?case
  proof (intro exI [of _ m'] conjI allI impI)
    show "foldR (Entry_dtor tid) (e # es) s = Inr (s\<lparr>hs_conns := m'\<rparr>)" using m(1) m'(1) by simp
    show "m' k = hs_conns s k" if "k \<notin> snd ` set (e # es)" for k using m(2) m'(2) that by simp
    show "(m' k = None) = (hs_conns s k = None)" for k using m(2,4) m'(4) by (cases "k = snd e") simp_all
    show "tc_state (hc_tcp c) \<noteq> kConnected" if "k \<in> snd ` set (e # es)" "m' k = Some c" for k c
    proof (cases "k \<in> snd ` set es")
      case True
      then show ?thesis using m'(3) that(2) by blast
    next
      case False
      then have "k = snd e" using that(1) by auto
      moreover have "m k = Some c" using m'(2) False that(2) by simp
      ultimately show ?thesis using m(3) by blast
    qed
  qed
qed

lemma bucket_lawsD:
  assumes "bucket_laws ops"
  shows "bl_items ops (bl_make ops n) = []"
    "bl_items ops (bl_push_back ops x b)
        = (if length (bl_items ops b) = bl_capacity ops b then tl (bl_items ops b) else bl_items ops b) @ [x]"
    "bl_capacity ops (bl_push_back ops x b) = bl_capacity ops b"
    "bl_items ops b \<noteq> [] \<Longrightarrow> bl_items ops (bl_set_back ops x b) = butlast (bl_items ops b) @ [x]"
    "bl_items ops b \<noteq> [] \<Longrightarrow> bl_capacity ops (bl_set_back ops x b) = bl_capacity ops b"
    "bl_items ops b \<noteq> [] \<Longrightarrow> bl_tail ops (bl_set_back ops x b) = bl_tail ops b"
  using assms unfolding bucket_laws_def by blast+

text \<open>The invariant of the server. Nothing is assumed of its connections.\<close>

definition server_ok :: "'b BucketList \<Rightarrow> 'b HttpServer \<Rightarrow> bool" where
  "server_ok ops s = (wheel_inv ops s \<and> wheel_ok ops s)"

text \<open>The ticks an entry has left: a wheel that is not full yet first fills up.\<close>

definition left :: "'b BucketList \<Rightarrow> 'b HttpServer \<Rightarrow> nat \<Rightarrow> nat" where
  "left ops s e = (let bs = bl_items ops (hs_list s) in if 0 < life bs e then life bs e + (kTimeGap - length bs) else 0)"

lemma left_conns [simp]: "left ops (s\<lparr>hs_conns := m\<rparr>) = left ops s"
  by (simp add: left_def fun_eq_iff)

lemma server_ok_conns [simp]: "server_ok ops (s\<lparr>hs_conns := m\<rparr>) = server_ok ops s"
  by (simp add: server_ok_def wheel_inv_def wheel_ok_def)

text \<open>A new bucket at the back takes one tick from everything in the wheel.\<close>

lemma left_push:
  assumes laws: "bucket_laws ops" and s: "wheel_ok ops s"
  shows "left ops (s\<lparr>hs_list := bl_push_back ops [] (hs_list s), hs_entries := es\<rparr>) e = left ops s e - 1"
    "held (bl_items ops (bl_push_back ops [] (hs_list s))) e \<longleftrightarrow> 1 < left ops s e"
    "wheel_ok ops (s\<lparr>hs_list := bl_push_back ops [] (hs_list s), hs_entries := es\<rparr>)"
    "bl_items ops (bl_push_back ops [] (hs_list s)) \<noteq> []"
    "b \<in> set (bl_items ops (bl_push_back ops [] (hs_list s))) \<Longrightarrow> b = [] \<or> b \<in> set (bl_items ops (hs_list s))"
proof -
  note L = bucket_lawsD [OF laws]
  define bs where "bs = bl_items ops (hs_list s)"
  have W: "bl_capacity ops (hs_list s) = kTimeGap" "length bs \<le> kTimeGap" using s by (simp_all add: wheel_ok_def bs_def)
  have items: "bl_items ops (bl_push_back ops [] (hs_list s)) = (if length bs = kTimeGap then tl bs else bs) @ [[]]"
    using L(2) W(1) by (simp add: bs_def)
  have ne: "bs \<noteq> []" if "length bs = kTimeGap" using that by (auto simp: kTimeGap_def)
  have life': "life (bl_items ops (bl_push_back ops [] (hs_list s))) e = (if length bs = kTimeGap then life bs e - 1 else life bs e)"
    unfolding items using life_tick [OF ne] by (simp add: life_append)
  have len: "length (bl_items ops (bl_push_back ops [] (hs_list s))) = (if length bs = kTimeGap then kTimeGap else Suc (length bs))"
    unfolding items using ne by (auto simp: kTimeGap_def)
  show "left ops (s\<lparr>hs_list := bl_push_back ops [] (hs_list s), hs_entries := es\<rparr>) e = left ops s e - 1"
    using W(2) by (auto simp: left_def Let_def life' len bs_def [symmetric])
  show "held (bl_items ops (bl_push_back ops [] (hs_list s))) e \<longleftrightarrow> 1 < left ops s e"
    using W(2) by (auto simp: left_def Let_def life_held life' bs_def [symmetric])
  show "wheel_ok ops (s\<lparr>hs_list := bl_push_back ops [] (hs_list s), hs_entries := es\<rparr>)"
    using W L(3) by (auto simp: wheel_ok_def len)
  show "bl_items ops (bl_push_back ops [] (hs_list s)) \<noteq> []" by (simp add: items)
  show "b = [] \<or> b \<in> set (bl_items ops (hs_list s))" if "b \<in> set (bl_items ops (bl_push_back ops [] (hs_list s)))"
    using that ne list.set_sel(2) [of bs b] unfolding items bs_def [symmetric] by (auto split: if_splits)
qed

lemma onTimer_ok:
  assumes laws: "bucket_laws ops" and s: "server_ok ops s"
  shows "\<exists>s'. onTimer ops tid s = Inr s' \<and> server_ok ops s' \<and> bl_items ops (hs_list s') \<noteq> []
     \<and> (\<forall>e. left ops s' e = left ops s e - 1)
     \<and> hs_entries s' = filter (\<lambda>e. 1 < left ops s (fst e)) (hs_entries s)
     \<and> (\<forall>k. k \<notin> snd ` set (filter (\<lambda>e. left ops s (fst e) \<le> 1) (hs_entries s)) \<longrightarrow> hs_conns s' k = hs_conns s k)
     \<and> (\<forall>k c. k \<in> snd ` set (filter (\<lambda>e. left ops s (fst e) \<le> 1) (hs_entries s)) \<longrightarrow> hs_conns s' k = Some c \<longrightarrow> tc_state (hc_tcp c) \<noteq> kConnected)
     \<and> (\<forall>k. hs_conns s' k = None \<longleftrightarrow> hs_conns s k = None)"
proof -
  have W: "wheel_inv ops s" "wheel_ok ops s" using s by (simp_all add: server_ok_def)
  note P = left_push [OF laws W(2)]
  define s1 where "s1 = s\<lparr>hs_list := bl_push_back ops [] (hs_list s), hs_entries := filter (\<lambda>e. 1 < left ops s (fst e)) (hs_entries s)\<rparr>"
  define dead where "dead = filter (\<lambda>e. left ops s (fst e) \<le> 1) (hs_entries s)"
  have eq: "onTimer ops tid s = foldR (Entry_dtor tid) dead s1"
    by (simp add: onTimer_def Let_def P(2) s1_def dead_def not_less)
  obtain m where m: "foldR (Entry_dtor tid) dead s1 = Inr (s1\<lparr>hs_conns := m\<rparr>)"
      "\<forall>k. k \<notin> snd ` set dead \<longrightarrow> m k = hs_conns s1 k"
      "\<forall>k c. k \<in> snd ` set dead \<longrightarrow> m k = Some c \<longrightarrow> tc_state (hc_tcp c) \<noteq> kConnected"
      "\<forall>k. m k = None \<longleftrightarrow> hs_conns s1 k = None"
    using Entry_dtors_ok [of tid dead s1] by (elim exE conjE)
  have "wheel_inv ops s1"
  proof -
    have old: "\<forall>e \<in> fst ` set (hs_entries s). e < hs_next s" "\<forall>b \<in> set (bl_items ops (hs_list s)). \<forall>e \<in> set b. e < hs_next s"
      "distinct (map fst (hs_entries s))" using W(1) by (simp_all add: wheel_inv_def)
    then show ?thesis using P(5) by (auto simp: wheel_inv_def s1_def P(2) distinct_map_filter) (metis empty_iff list.set(1))
  qed
  moreover have "wheel_ok ops s1" unfolding s1_def by (rule P(3))
  ultimately have "server_ok ops s1" by (simp add: server_ok_def)
  moreover have "left ops s1 e = left ops s e - 1" for e unfolding s1_def by (rule P(1))
  moreover have "hs_conns s1 = hs_conns s" "hs_entries s1 = filter (\<lambda>e. 1 < left ops s (fst e)) (hs_entries s)"
    "bl_items ops (hs_list s1) \<noteq> []" using P(4) by (simp_all add: s1_def)
  moreover have "onTimer ops tid s = Inr (s1\<lparr>hs_conns := m\<rparr>)" using eq m(1) by simp
  ultimately show ?thesis using m(2-4) unfolding dead_def by (intro exI [of _ "s1\<lparr>hs_conns := m\<rparr>"]) simp
qed

text \<open>What the operations of the wheel do at its back.\<close>

lemma left_set_back:
  fixes x :: nat and s s' :: "'b HttpServer"
  assumes laws: "bucket_laws ops" and s: "wheel_ok ops s" and ne: "bl_items ops (hs_list s) \<noteq> []"
  defines "l \<equiv> bl_set_back ops (List.insert x (last (bl_items ops (hs_list s)))) (hs_list s)"
  shows "hs_list s' = l \<Longrightarrow> left ops s' e = (if e = x then kTimeGap else left ops s e)" "hs_list s' = l \<Longrightarrow> wheel_ok ops s'"
    "bl_items ops l \<noteq> []" "b \<in> set (bl_items ops l) \<Longrightarrow> k \<in> set b \<Longrightarrow> k = x \<or> (\<exists>b \<in> set (bl_items ops (hs_list s)). k \<in> set b)"
proof -
  note L = bucket_lawsD [OF laws]
  define bs where "bs = bl_items ops (hs_list s)"
  have W: "bl_capacity ops (hs_list s) = kTimeGap" "length bs \<le> kTimeGap" "bs \<noteq> []" using s ne by (simp_all add: wheel_ok_def bs_def)
  have items: "bl_items ops l = butlast bs @ [List.insert x (last bs)]" "bl_capacity ops l = kTimeGap"
    using L(4,5) [OF ne] W(1) by (simp_all add: l_def bs_def)
  have len: "length (bl_items ops l) = length bs" using W(3) by (simp add: items)
  show "left ops s' e = (if e = x then kTimeGap else left ops s e)" if "hs_list s' = l"
    unfolding left_def that Let_def len bs_def [symmetric] unfolding items life_insert [OF W(3)] using W(2,3) by auto
  show "wheel_ok ops s'" if "hs_list s' = l" using W(2) items(2) len by (simp add: wheel_ok_def that)
  show "bl_items ops l \<noteq> []" by (simp add: items)
  show "k = x \<or> (\<exists>b \<in> set (bl_items ops (hs_list s)). k \<in> set b)" if "b \<in> set (bl_items ops l)" "k \<in> set b"
    using that W(3) last_in_set [OF W(3)] unfolding items bs_def [symmetric] by (auto dest: in_set_butlastD)
qed

lemma left_held: "held (bl_items ops (hs_list s)) e \<longleftrightarrow> 0 < left ops s e"
  by (simp add: life_held left_def Let_def)

text \<open>A message never shortens a life.\<close>

lemma touch_keeps:
  assumes laws: "bucket_laws ops" and s: "server_ok ops s"
  shows "\<exists>l. touch ops c s = Inr (s\<lparr>hs_list := l\<rparr>) \<and> server_ok ops (s\<lparr>hs_list := l\<rparr>) \<and> (bl_items ops (hs_list s) \<noteq> [] \<longrightarrow> bl_items ops l \<noteq> [])
     \<and> (\<forall>e. left ops s e \<le> left ops (s\<lparr>hs_list := l\<rparr>) e)"
proof (cases "touch ops c s = Inr s")
  case True
  then show ?thesis using s by (intro exI [of _ "hs_list s"]) simp
next
  case False
  have W: "wheel_inv ops s" "wheel_ok ops s" using s by (simp_all add: server_ok_def)
  let ?bs = "bl_items ops (hs_list s)"
  obtain l0 where "touch ops c s = Inr (s\<lparr>hs_list := l0\<rparr>)" using touch_ok [OF W(1)] by blast
  with False obtain e where e: "e \<in> fst ` set (hs_entries s)" "?bs \<noteq> []"
    "touch ops c s = Inr (s\<lparr>hs_list := bl_set_back ops (List.insert e (last ?bs)) (hs_list s)\<rparr>)"
    by (cases "hc_entry c") (simp_all add: touch_def insert_back_def bindR_def split: if_splits)
  let ?l = "bl_set_back ops (List.insert e (last ?bs)) (hs_list s)"
  note B = left_set_back [OF laws W(2) e(2), where x = e, simplified]
  have le: "left ops s k \<le> kTimeGap" for k
    using W(2) life_le [of ?bs k] by (auto simp: left_def Let_def wheel_ok_def)
  have mono: "left ops s k \<le> left ops (s\<lparr>hs_list := ?l\<rparr>) k" for k using B(1) [of "s\<lparr>hs_list := ?l\<rparr>" k] le by simp
  have "held (bl_items ops ?l) k" if "held ?bs k" for k
    using that mono [of k] left_held [of ops s k] left_held [of ops "s\<lparr>hs_list := ?l\<rparr>" k] by auto
  moreover have "\<forall>b \<in> set (bl_items ops ?l). \<forall>k \<in> set b. k < hs_next s"
    using B(4) W(1) e(1) unfolding wheel_inv_def by blast
  ultimately have "wheel_inv ops (s\<lparr>hs_list := ?l\<rparr>)" using W(1) by (simp add: wheel_inv_def)
  moreover have "wheel_ok ops (s\<lparr>hs_list := ?l\<rparr>)" by (rule B(2)) simp
  ultimately show ?thesis using e(3) B(3) mono by (intro exI [of _ ?l]) (simp add: server_ok_def)
qed

primrec ticks :: "'b BucketList \<Rightarrow> nat \<Rightarrow> nat \<Rightarrow> 'b HttpServer \<Rightarrow> 'b HttpServer result" where
  "ticks ops tid 0 s = Inr s"
| "ticks ops tid (Suc n) s = bindR (onTimer ops tid s) (ticks ops tid n)"

lemma ticks_total: "bucket_laws ops \<Longrightarrow> server_ok ops s \<Longrightarrow> \<exists>s'. ticks ops tid n s = Inr s'"
proof (induction n arbitrary: s)
  case (Suc n)
  then show ?case using onTimer_ok [OF Suc.prems, of tid] by fastforce
qed simp

text \<open>Connecting and receiving put the entry into the last bucket.\<close>

lemma onConnection_ok:
  assumes laws: "bucket_laws ops" and s: "server_ok ops s" "bl_items ops (hs_list s) \<noteq> []" and c: "hs_conns s cid = Some c" "connected (hc_tcp c)"
  shows "\<exists>s' c'. onConnection ops cid s = Inr s' \<and> server_ok ops s' \<and> bl_items ops (hs_list s') \<noteq> [] \<and> hs_conns s' cid = Some c'
     \<and> hc_tcp c' = hc_tcp c \<and> hc_context c' = HttpContext_ctor \<and> hc_entry c' = Some (hs_next s)
     \<and> hs_entries s' = hs_entries s @ [(hs_next s, cid)]
     \<and> left ops s' (hs_next s) = kTimeGap \<and> hc_tail c' = bl_tail ops (hs_list s')"
proof -
  have W: "wheel_inv ops s" "wheel_ok ops s" using s by (simp_all add: server_ok_def)
  let ?e = "hs_next s" and ?bs = "bl_items ops (hs_list s)"
  define list' where "list' = bl_set_back ops (List.insert ?e (last ?bs)) (hs_list s)"
  let ?c = "c\<lparr>hc_entry := Some ?e, hc_tail := bl_tail ops list', hc_context := HttpContext_ctor\<rparr>"
  let ?s = "s\<lparr>hs_list := list', hs_entries := hs_entries s @ [(?e, cid)], hs_next := ?e + 1, hs_conns := (hs_conns s)(cid \<mapsto> ?c)\<rparr>"
  note B = left_set_back [OF laws W(2) s(2), where x = ?e, folded list'_def]
  have eq: "onConnection ops cid s = Inr ?s"
    using c s(2) by (simp add: onConnection_def Let_def insert_back_def list'_def [symmetric])
  have old: "\<forall>x \<in> fst ` set (hs_entries s). held ?bs x \<and> x < ?e" "\<forall>b \<in> set ?bs. \<forall>x \<in> set b. x < ?e" "distinct (map fst (hs_entries s))"
    using W(1) by (simp_all add: wheel_inv_def)
  have "\<forall>b \<in> set (bl_items ops list'). \<forall>x \<in> set b. x < ?e + 1" using B(4) old(2) by fastforce
  moreover have "held (bl_items ops list') x" if "x = ?e \<or> x \<in> fst ` set (hs_entries s)" for x
    using that old(1) B(1) [of ?s x] left_held [of ops ?s x] left_held [of ops s x] by (auto simp: kTimeGap_def)
  moreover have "?e \<notin> fst ` set (hs_entries s)" using old(1) by blast
  ultimately have "wheel_inv ops ?s" using old(1,3) by (auto simp: wheel_inv_def intro: less_SucI)
  moreover have "wheel_ok ops ?s" by (rule B(2)) simp
  ultimately have "server_ok ops ?s" by (simp add: server_ok_def)
  moreover have "left ops ?s ?e = kTimeGap" using B(1) [of ?s ?e] by simp
  ultimately show ?thesis using eq B(3) by (intro exI [of _ ?s] exI [of _ ?c]) simp
qed

lemma touch_refreshes:
  assumes laws: "bucket_laws ops" and s: "server_ok ops s"
    and e: "hc_entry c = Some e" "(e, cid) \<in> set (hs_entries s)" and tail: "bl_tail ops (hs_list s) \<noteq> hc_tail c"
  shows "\<exists>l. touch ops c s = Inr (s\<lparr>hs_list := l\<rparr>) \<and> left ops (s\<lparr>hs_list := l\<rparr>) e = kTimeGap"
proof -
  have W: "wheel_inv ops s" "wheel_ok ops s" using s by (simp_all add: server_ok_def)
  have m: "e \<in> fst ` set (hs_entries s)" using imageI [OF e(2), of fst] by simp
  then have ne: "bl_items ops (hs_list s) \<noteq> []" using W(1) unfolding wheel_inv_def held_def by fastforce
  let ?l = "bl_set_back ops (List.insert e (last (bl_items ops (hs_list s)))) (hs_list s)"
  have "touch ops c s = Inr (s\<lparr>hs_list := ?l\<rparr>)" using e(1) m ne tail by (simp add: touch_def insert_back_def)
  then show ?thesis using left_set_back(1) [OF laws W(2) ne, of "s\<lparr>hs_list := ?l\<rparr>" e e] by auto
qed

text \<open>Eight ticks bring the iterator of the last bucket back to the same position.\<close>

lemma onTimer_tail:
  assumes laws: "bucket_laws ops" and s: "server_ok ops s" "bl_items ops (hs_list s) \<noteq> []" and t: "onTimer ops tid s = Inr s'"
  shows "bl_tail ops (hs_list s') = (bl_tail ops (hs_list s) + 1) mod kTimeGap"
proof -
  define es where "es = filter (\<lambda>e. held (bl_items ops (bl_push_back ops [] (hs_list s))) (fst e)) (hs_entries s)"
  define dead where "dead = filter (\<lambda>e. \<not> held (bl_items ops (bl_push_back ops [] (hs_list s))) (fst e)) (hs_entries s)"
  define s1 where "s1 = s\<lparr>hs_list := bl_push_back ops [] (hs_list s), hs_entries := es\<rparr>"
  have eq: "onTimer ops tid s = foldR (Entry_dtor tid) dead s1"
    by (simp add: onTimer_def Let_def s1_def es_def dead_def)
  have "hs_list s' = hs_list s1" using Entry_dtors_ok [of tid dead s1] t unfolding eq by auto
  moreover have "bl_tail ops (bl_push_back ops [] (hs_list s)) = (bl_tail ops (hs_list s) + 1) mod bl_capacity ops (hs_list s)"
    using laws s(2) unfolding bucket_laws_def by blast
  ultimately show ?thesis using s(1) by (simp add: s1_def server_ok_def wheel_ok_def)
qed

lemma ticks_server:
  assumes laws: "bucket_laws ops"
  shows "server_ok ops s \<Longrightarrow> bl_items ops (hs_list s) \<noteq> [] \<Longrightarrow> ticks ops tid n s = Inr s'
    \<Longrightarrow> server_ok ops s' \<and> bl_items ops (hs_list s') \<noteq> []"
proof (induction n arbitrary: s)
  case (Suc n)
  obtain s1 where "onTimer ops tid s = Inr s1" "server_ok ops s1" "bl_items ops (hs_list s1) \<noteq> []"
    using onTimer_ok [OF laws Suc.prems(1), of tid] by blast
  then show ?case using Suc.IH Suc.prems(3) by simp
qed simp

lemma ticks_tail:
  assumes laws: "bucket_laws ops"
  shows "server_ok ops s \<Longrightarrow> bl_items ops (hs_list s) \<noteq> [] \<Longrightarrow> 0 < n \<Longrightarrow> ticks ops tid n s = Inr s' \<Longrightarrow>
    bl_tail ops (hs_list s') = (bl_tail ops (hs_list s) + n) mod kTimeGap"
proof (induction n arbitrary: s)
  case (Suc n)
  obtain s1 where s1: "onTimer ops tid s = Inr s1" "server_ok ops s1" "bl_items ops (hs_list s1) \<noteq> []"
    using onTimer_ok [OF laws Suc.prems(1), of tid] by blast
  note t1 = onTimer_tail [OF laws Suc.prems(1,2) s1(1)]
  show ?case
  proof (cases "n = 0")
    case True
    then show ?thesis using Suc.prems(4) s1(1) t1 by simp
  next
    case False
    then have "bl_tail ops (hs_list s') = (bl_tail ops (hs_list s1) + n) mod kTimeGap"
      using Suc.IH [OF s1(2,3)] Suc.prems(4) s1(1) by simp
    then show ?thesis unfolding t1 by (simp add: mod_add_left_eq)
  qed
qed simp

section \<open>The life of a server\<close>

text \<open>
  What can happen to a server: the wheel ticks, or something happens to one connection. It is made, without an
  entry; its connection callback runs (when it is up and when it is down); it receives a message; it goes; or anything
  else happens to its TCP side.
\<close>

inductive http_step_of :: "'b BucketList \<Rightarrow> HttpCallback \<Rightarrow> nat option \<Rightarrow> 'b HttpServer \<Rightarrow> 'b HttpServer \<Rightarrow> bool" for ops cb where
  http_tick: "onTimer ops tid s = Inr s' \<Longrightarrow> http_step_of ops cb None s s'"
| http_new: "hs_conns s cid = None \<Longrightarrow> hc_entry c = None \<Longrightarrow> http_step_of ops cb (Some cid) s (s\<lparr>hs_conns := (hs_conns s)(cid \<mapsto> c)\<rparr>)"
| http_connection: "onConnection ops cid s = Inr s' \<Longrightarrow> http_step_of ops cb (Some cid) s s'"
| http_message: "onMessage ops cb tid w1 w2 cid now s = Some (Inr s') \<Longrightarrow> http_step_of ops cb (Some cid) s s'"
| http_tcp: "hs_conns s cid = Some c \<Longrightarrow> http_step_of ops cb (Some cid) s (s\<lparr>hs_conns := (hs_conns s)(cid \<mapsto> c\<lparr>hc_tcp := t\<rparr>)\<rparr>)"
| http_gone: "http_step_of ops cb (Some cid) s (s\<lparr>hs_conns := (hs_conns s)(cid := None)\<rparr>)"

definition http_step :: "'b BucketList \<Rightarrow> HttpCallback \<Rightarrow> 'b HttpServer \<Rightarrow> 'b HttpServer \<Rightarrow> bool" where
  "http_step ops cb s s' = (\<exists>k. http_step_of ops cb k s s')"

text \<open>An entry that a connection remembers is its own, as long as it is alive.\<close>

definition own_entries :: "'b HttpServer \<Rightarrow> bool" where
  "own_entries s = (\<forall>k c e. hs_conns s k = Some c \<longrightarrow> hc_entry c = Some e \<longrightarrow> e < hs_next s \<and> (\<forall>x \<in> set (hs_entries s). fst x = e \<longrightarrow> snd x = k))"

lemma own_entriesD:
  assumes "own_entries s" "hs_conns s k = Some c" "hc_entry c = Some e"
  shows "e < hs_next s" "x \<in> set (hs_entries s) \<Longrightarrow> fst x = e \<Longrightarrow> snd x = k"
  using assms unfolding own_entries_def by blast+

lemma own_entries_conn:
  assumes "own_entries s" "case c of None \<Rightarrow> True | Some c \<Rightarrow> hc_entry c = None \<or> (\<exists>c0. hs_conns s cid = Some c0 \<and> hc_entry c = hc_entry c0)"
  shows "own_entries (s\<lparr>hs_conns := (hs_conns s)(cid := c)\<rparr>)"
  unfolding own_entries_def
proof (intro allI impI)
  fix k d e
  assume H: "hs_conns (s\<lparr>hs_conns := (hs_conns s)(cid := c)\<rparr>) k = Some d" "hc_entry d = Some e"
  have "\<exists>d0. hs_conns s k = Some d0 \<and> hc_entry d0 = Some e"
  proof (cases "k = cid")
    case True
    then show ?thesis using H assms(2) by auto
  qed (use H in simp)
  then show "e < hs_next (s\<lparr>hs_conns := (hs_conns s)(cid := c)\<rparr>)
      \<and> (\<forall>x \<in> set (hs_entries (s\<lparr>hs_conns := (hs_conns s)(cid := c)\<rparr>)). fst x = e \<longrightarrow> snd x = k)"
    using own_entriesD [OF assms(1)] by auto
qed

lemma Entry_dtor_keeps:
  "Entry_dtor tid e s = Inr s' \<Longrightarrow> hs_next s' = hs_next s \<and> hs_entries s' = hs_entries s
     \<and> map_option hc_entry (hs_conns s' k) = map_option hc_entry (hs_conns s k)"
  by (auto simp: Entry_dtor_def bindR_eq_Inr split: option.splits)

lemma Entry_dtors_keep:
  "foldR (Entry_dtor tid) es s = Inr s' \<Longrightarrow> hs_next s' = hs_next s \<and> hs_entries s' = hs_entries s
     \<and> (\<forall>k. map_option hc_entry (hs_conns s' k) = map_option hc_entry (hs_conns s k))"
proof (induction es arbitrary: s)
  case (Cons e es)
  then obtain s1 where "Entry_dtor tid e s = Inr s1" "foldR (Entry_dtor tid) es s1 = Inr s'" by (auto simp: bindR_eq_Inr)
  then show ?case using Cons.IH [of s1] Entry_dtor_keeps [of tid e s s1] by simp
qed simp

lemma onTimer_own:
  assumes "own_entries s" "onTimer ops tid s = Inr s'"
  shows "own_entries s'"
proof -
  have k: "hs_next s' = hs_next s" "set (hs_entries s') \<subseteq> set (hs_entries s)" "map_option hc_entry (hs_conns s' k) = map_option hc_entry (hs_conns s k)" for k
    using assms(2) Entry_dtors_keep [of tid _ _ s'] by (auto simp: onTimer_def Let_def)
  show ?thesis unfolding own_entries_def
  proof (intro allI impI)
    fix k c e
    assume "hs_conns s' k = Some c" "hc_entry c = Some e"
    then obtain c0 where "hs_conns s k = Some c0" "hc_entry c0 = Some e" using k(3) [of k] by (cases "hs_conns s k") auto
    then show "e < hs_next s' \<and> (\<forall>x \<in> set (hs_entries s'). fst x = e \<longrightarrow> snd x = k)" using own_entriesD [OF assms(1)] k(1,2) by auto
  qed
qed

lemma onConnection_own:
  assumes "wheel_inv ops s" "own_entries s" "onConnection ops cid s = Inr s'"
  shows "own_entries s' \<and> (\<forall>k. k \<noteq> cid \<longrightarrow> hs_conns s' k = hs_conns s k) \<and> filter (\<lambda>x. snd x \<noteq> cid) (hs_entries s') = filter (\<lambda>x. snd x \<noteq> cid) (hs_entries s)"
proof -
  obtain c where c: "hs_conns s cid = Some c" using assms(3) by (auto simp: onConnection_def split: option.splits)
  show ?thesis
  proof (cases "connected (hc_tcp c)")
    case True
    then obtain l where s': "s' = s\<lparr>hs_list := l, hs_entries := hs_entries s @ [(hs_next s, cid)], hs_next := hs_next s + 1,
        hs_conns := (hs_conns s)(cid \<mapsto> c\<lparr>hc_entry := Some (hs_next s), hc_tail := bl_tail ops l, hc_context := HttpContext_ctor\<rparr>)\<rparr>"
      using assms(3) c by (auto simp: onConnection_def Let_def bindR_eq_Inr)
    have "hs_next s \<notin> fst ` set (hs_entries s)" using assms(1) by (auto simp: wheel_inv_def)
    then show ?thesis using assms(2) unfolding s' own_entries_def by (auto simp: less_Suc_eq image_iff)
  qed (use assms c in \<open>simp add: onConnection_def\<close>)
qed

lemma onMessage_wheel:
  assumes "onMessage ops cb tid w1 w2 cid now s = Some (Inr s')"
  shows "\<exists>c s1 c'. hs_conns s cid = Some c \<and> touch ops c s = Inr s1 \<and> hc_entry c' = hc_entry c \<and> s' = s1\<lparr>hs_conns := (hs_conns s1)(cid \<mapsto> c')\<rparr>"
proof -
  obtain c where c: "hs_conns s cid = Some c" using assms by (auto simp: onMessage_def split: option.splits)
  obtain s1 where s1: "touch ops c s = Inr s1" using assms c by (auto simp: onMessage_def split: sum.splits)
  have "\<exists>conn x. s' = s1\<lparr>hs_conns := (hs_conns s1)(cid \<mapsto> c\<lparr>hc_tcp := conn, hc_context := x\<rparr>)\<rparr>"
    using assms unfolding onMessage_def c s1 option.case sum.case Let_def
    by (auto simp: bindR_eq_Inr split: option.splits sum.splits prod.splits)
  then obtain conn x where "s' = s1\<lparr>hs_conns := (hs_conns s1)(cid \<mapsto> c\<lparr>hc_tcp := conn, hc_context := x\<rparr>)\<rparr>" by blast
  then show ?thesis using c s1 by (intro exI [of _ c] exI [of _ s1] exI [of _ "c\<lparr>hc_tcp := conn, hc_context := x\<rparr>"]) simp
qed

text \<open>The invariant of a server, and of one whose wheel has ticked.\<close>

definition server_inv :: "'b BucketList \<Rightarrow> 'b HttpServer \<Rightarrow> bool" where
  "server_inv ops s = (server_ok ops s \<and> own_entries s)"

definition server_ready :: "'b BucketList \<Rightarrow> 'b HttpServer \<Rightarrow> bool" where
  "server_ready ops s = (server_inv ops s \<and> bl_items ops (hs_list s) \<noteq> [])"

lemma http_step_ok:
  assumes laws: "bucket_laws ops" and s: "server_inv ops s" and st: "http_step_of ops cb k s s'"
  shows "server_inv ops s' \<and> (bl_items ops (hs_list s) \<noteq> [] \<longrightarrow> bl_items ops (hs_list s') \<noteq> [])"
proof -
  have ok: "server_ok ops s" "own_entries s" "wheel_inv ops s" using s by (simp_all add: server_inv_def server_ok_def)
  show ?thesis using st
  proof cases
    case (http_tick tid)
    then show ?thesis using onTimer_ok [OF laws ok(1), of tid] onTimer_own [OF ok(2)] by (auto simp: server_inv_def)
  next
    case (http_new cid c)
    then show ?thesis using ok own_entries_conn [OF ok(2), where c = "Some c" and cid = cid] by (simp add: server_inv_def)
  next
    case (http_connection cid)
    then obtain c where c: "hs_conns s cid = Some c" by (auto simp: onConnection_def split: option.splits)
    show ?thesis
    proof (cases "connected (hc_tcp c)")
      case True
      then have "bl_items ops (hs_list s) \<noteq> []" using http_connection c by (auto simp: onConnection_def insert_back_def Let_def)
      from onConnection_ok [OF laws ok(1) this c True] onConnection_own [OF ok(3,2) http_connection(2)] http_connection
      show ?thesis by (auto simp: server_inv_def)
    next
      case False
      then show ?thesis using http_connection c s by (simp add: onConnection_def)
    qed
  next
    case (http_message tid w1 w2 cid now)
    from onMessage_wheel [OF this(2)] obtain c s1 c' where m: "hs_conns s cid = Some c" "touch ops c s = Inr s1" "hc_entry c' = hc_entry c"
      "s' = s1\<lparr>hs_conns := (hs_conns s1)(cid \<mapsto> c')\<rparr>" by blast
    obtain l where l: "s1 = s\<lparr>hs_list := l\<rparr>" "server_ok ops s1" "bl_items ops (hs_list s) \<noteq> [] \<longrightarrow> bl_items ops l \<noteq> []"
      using touch_keeps [OF laws ok(1), of c] m(2) by auto
    have "own_entries (s\<lparr>hs_conns := (hs_conns s)(cid \<mapsto> c')\<rparr>)" using m(1,3) by (intro own_entries_conn [OF ok(2)]) simp
    then have "own_entries s'" unfolding m(4) l(1) by (simp add: own_entries_def)
    then show ?thesis using l(2,3) unfolding m(4) by (auto simp: server_inv_def l(1))
  next
    case (http_tcp cid c t)
    then show ?thesis using ok own_entries_conn [OF ok(2), where c = "Some (c\<lparr>hc_tcp := t\<rparr>)" and cid = cid] by (simp add: server_inv_def)
  next
    case (http_gone cid)
    then show ?thesis using ok own_entries_conn [OF ok(2), where c = None and cid = cid] by (simp add: server_inv_def)
  qed
qed

interpretation http: step_invariant "http_step ops cb" "\<lambda>s. bucket_laws ops \<longrightarrow> server_inv ops s" for ops cb
  by unfold_locales (use http_step_ok in \<open>unfold http_step_def, blast\<close>)

interpretation http_ready: step_invariant "http_step ops cb" "\<lambda>s. bucket_laws ops \<longrightarrow> server_ready ops s" for ops cb
  by unfold_locales (use http_step_ok in \<open>unfold http_step_def server_ready_def, blast\<close>)

text \<open>A server is in order from its construction on, and ready for connections from the first tick on.\<close>

lemma ctor_ok: "bucket_laws ops \<Longrightarrow> server_inv ops (HttpServer_ctor ops)"
  by (simp add: server_inv_def own_entries_def server_ok_def wheel_inv_def wheel_ok_def HttpServer_ctor_def bucket_laws_def kTimeGap_def)

lemma ready_after_tick:
  assumes "bucket_laws ops" "reach (http_step ops cb) (HttpServer_ctor ops) s0" "onTimer ops tid s0 = Inr s1"
    and "reach (http_step ops cb) s1 s"
  shows "server_ready ops s"
proof -
  have s0: "server_inv ops s0" using http.invariant [OF assms(2)] ctor_ok [OF assms(1)] assms(1) by blast
  then have "server_inv ops s1 \<and> bl_items ops (hs_list s1) \<noteq> []"
    using onTimer_ok [OF assms(1), of s0 tid] onTimer_own [OF _ assms(3)] assms(3) by (auto simp: server_inv_def)
  then show ?thesis using http_ready.invariant [OF assms(4)] assms(1) by (simp add: server_ready_def)
qed

text \<open>What happens while a connection is idle, with the number of ticks: the wheel ticks, and anything happens to the
  other connections.\<close>

inductive idle_run :: "'b BucketList \<Rightarrow> HttpCallback \<Rightarrow> nat \<Rightarrow> 'b HttpServer \<Rightarrow> nat \<Rightarrow> 'b HttpServer \<Rightarrow> bool" for ops cb cid s where
  idle_start: "idle_run ops cb cid s 0 s"
| idle_tick: "idle_run ops cb cid s n s1 \<Longrightarrow> onTimer ops tid s1 = Inr s2 \<Longrightarrow> idle_run ops cb cid s (Suc n) s2"
| idle_other: "idle_run ops cb cid s n s1 \<Longrightarrow> k \<noteq> cid \<Longrightarrow> http_step_of ops cb (Some k) s1 s2 \<Longrightarrow> idle_run ops cb cid s n s2"

text \<open>The entry of the idle connection after \<open>n\<close> ticks.\<close>

definition idle_inv :: "'b BucketList \<Rightarrow> nat \<Rightarrow> nat \<Rightarrow> HttpConn \<Rightarrow> nat \<Rightarrow> 'b HttpServer \<Rightarrow> bool" where
  "idle_inv ops cid e c n s = (server_inv ops s \<and>
     (if n < kTimeGap
      then (e, cid) \<in> set (hs_entries s) \<and> (\<forall>x \<in> set (hs_entries s). snd x = cid \<longrightarrow> x = (e, cid))
        \<and> left ops s e = kTimeGap - n \<and> hs_conns s cid = Some c
      else cid \<notin> snd ` set (hs_entries s) \<and> (\<forall>c. hs_conns s cid = Some c \<longrightarrow> tc_state (hc_tcp c) \<noteq> kConnected)))"

text \<open>A step of another connection neither renews the entry nor takes it away.\<close>

lemma touch_other:
  assumes laws: "bucket_laws ops" and s: "server_ok ops s" and t: "touch ops c s = Inr s1" and e: "hc_entry c \<noteq> Some e"
  shows "left ops s1 e = left ops s e"
proof (cases "s1 = s")
  case False
  have W: "wheel_ok ops s" using s by (simp add: server_ok_def)
  from False t obtain x where x: "hc_entry c = Some x" "bl_items ops (hs_list s) \<noteq> []"
    "s1 = s\<lparr>hs_list := bl_set_back ops (List.insert x (last (bl_items ops (hs_list s)))) (hs_list s)\<rparr>"
    by (cases "hc_entry c") (auto simp: touch_def insert_back_def split: if_splits)
  then show ?thesis using left_set_back(1) [OF laws W x(2), of s1 x e] e by auto
qed simp

lemma other_step:
  assumes laws: "bucket_laws ops" and s: "server_inv ops s" and st: "http_step_of ops cb (Some k) s s'" and k: "k \<noteq> cid"
  shows "hs_conns s' cid = hs_conns s cid" "filter (\<lambda>x. snd x = cid) (hs_entries s') = filter (\<lambda>x. snd x = cid) (hs_entries s)"
    "(e, cid) \<in> set (hs_entries s) \<Longrightarrow> left ops s' e = left ops s e"
proof -
  have ok: "server_ok ops s" "own_entries s" "wheel_inv ops s" "wheel_ok ops s" using s by (simp_all add: server_inv_def server_ok_def)
  have "hs_conns s' cid = hs_conns s cid \<and> filter (\<lambda>x. snd x = cid) (hs_entries s') = filter (\<lambda>x. snd x = cid) (hs_entries s)
      \<and> ((e, cid) \<in> set (hs_entries s) \<longrightarrow> left ops s' e = left ops s e)"
    using st
  proof cases
    case http_connection
    then obtain c where c: "hs_conns s k = Some c" by (auto simp: onConnection_def split: option.splits)
    show ?thesis
    proof (cases "connected (hc_tcp c)")
      case True
      have ne: "bl_items ops (hs_list s) \<noteq> []" using http_connection c True by (auto simp: onConnection_def insert_back_def Let_def)
      let ?l = "bl_set_back ops (List.insert (hs_next s) (last (bl_items ops (hs_list s)))) (hs_list s)"
      have s': "hs_list s' = ?l" "hs_entries s' = hs_entries s @ [(hs_next s, k)]" "hs_conns s' cid = hs_conns s cid"
        using http_connection c True ne k by (auto simp: onConnection_def insert_back_def Let_def)
      have "e \<noteq> hs_next s" if "(e, cid) \<in> set (hs_entries s)" using that ok(3) by (force simp: wheel_inv_def)
      then show ?thesis using s' k left_set_back(1) [OF laws ok(4) ne s'(1), of e] by simp
    qed (use http_connection c in \<open>simp add: onConnection_def\<close>)
  next
    case (http_message tid w1 w2 now)
    from onMessage_wheel [OF this] obtain c s1 c' where m: "hs_conns s k = Some c" "touch ops c s = Inr s1"
      "s' = s1\<lparr>hs_conns := (hs_conns s1)(k \<mapsto> c')\<rparr>" by blast
    have l: "hs_entries s1 = hs_entries s" "hs_conns s1 = hs_conns s" using touch_ok [OF ok(3), of c] m(2) by auto
    have "hc_entry c \<noteq> Some e" if "(e, cid) \<in> set (hs_entries s)" using that m(1) ok(2) k by (fastforce simp: own_entries_def)
    then show ?thesis using l k touch_other [OF laws ok(1) m(2)] unfolding m(3) by simp
  qed (use k in simp_all)
  then show "hs_conns s' cid = hs_conns s cid" "filter (\<lambda>x. snd x = cid) (hs_entries s') = filter (\<lambda>x. snd x = cid) (hs_entries s)"
    "(e, cid) \<in> set (hs_entries s) \<Longrightarrow> left ops s' e = left ops s e" by blast+
qed

lemma in_filter_eq: "filter P xs = filter P ys \<Longrightarrow> P x \<Longrightarrow> x \<in> set xs \<longleftrightarrow> x \<in> set ys"
  using filter_set [of P] by (metis (mono_tags) mem_Collect_eq set_filter)

lemma tick_idle:
  assumes laws: "bucket_laws ops" and I: "idle_inv ops cid e c n s" and t: "onTimer ops tid s = Inr s'"
  shows "idle_inv ops cid e c (Suc n) s'"
proof -
  have ok: "server_ok ops s" "own_entries s" using I by (simp_all add: idle_inv_def server_inv_def)
  have s': "server_ok ops s'" "left ops s' e = left ops s e - 1" "hs_entries s' = filter (\<lambda>e. 1 < left ops s (fst e)) (hs_entries s)"
    "k \<notin> snd ` set (filter (\<lambda>e. left ops s (fst e) \<le> 1) (hs_entries s)) \<Longrightarrow> hs_conns s' k = hs_conns s k"
    "k \<in> snd ` set (filter (\<lambda>e. left ops s (fst e) \<le> 1) (hs_entries s)) \<Longrightarrow> hs_conns s' k = Some c' \<Longrightarrow> tc_state (hc_tcp c') \<noteq> kConnected" for k c' e
    using onTimer_ok [OF laws ok(1), of tid] t by auto
  have inv: "server_inv ops s'" using s'(1) onTimer_own [OF ok(2) t] by (simp add: server_inv_def)
  show ?thesis
  proof (cases "n < kTimeGap")
    case True
    have E: "(e, cid) \<in> set (hs_entries s)" "\<And>x. x \<in> set (hs_entries s) \<Longrightarrow> snd x = cid \<Longrightarrow> x = (e, cid)"
      "left ops s e = kTimeGap - n" "hs_conns s cid = Some c" using I True by (simp_all add: idle_inv_def)
    show ?thesis
    proof (cases "Suc n < kTimeGap")
      case True
      have "snd x \<noteq> cid" if "x \<in> set (hs_entries s)" "left ops s (fst x) \<le> 1" for x
      proof
        assume "snd x = cid"
        with that(1) have "x = (e, cid)" by (rule E(2))
        then show False using that(2) E(3) True by simp
      qed
      then have "hs_conns s' cid = Some c" unfolding E(4) [symmetric] by (intro s'(4)) auto
      moreover have "(e, cid) \<in> set (hs_entries s')" using E(1,3) True by (simp add: s'(3))
      moreover have "\<forall>x \<in> set (hs_entries s'). snd x = cid \<longrightarrow> x = (e, cid)" using E(2) unfolding s'(3) set_filter by blast
      moreover have "left ops s' e = kTimeGap - Suc n" using E(3) s'(2) [of e] by simp
      ultimately show ?thesis using inv unfolding idle_inv_def if_P [OF True] by blast
    next
      case False
      then have l: "left ops s e \<le> 1" using True E(3) by simp
      have "cid \<notin> snd ` set (hs_entries s')" using E(2) l by (fastforce simp: s'(3))
      moreover have "cid \<in> snd ` set (filter (\<lambda>e. left ops s (fst e) \<le> 1) (hs_entries s))" using E(1) l by force
      ultimately show ?thesis using inv False s'(5) by (simp add: idle_inv_def)
    qed
  next
    case False
    then have "cid \<notin> snd ` set (hs_entries s)" and d: "\<forall>c. hs_conns s cid = Some c \<longrightarrow> tc_state (hc_tcp c) \<noteq> kConnected"
      using I by (simp_all add: idle_inv_def)
    then have "cid \<notin> snd ` set (hs_entries s')" "hs_conns s' cid = hs_conns s cid" using s'(4) [of cid] by (auto simp: s'(3))
    then show ?thesis using inv d False by (simp add: idle_inv_def)
  qed
qed

lemma other_idle:
  assumes laws: "bucket_laws ops" and I: "idle_inv ops cid e c n s" and st: "http_step_of ops cb (Some k) s s'" and k: "k \<noteq> cid"
  shows "idle_inv ops cid e c n s'"
proof -
  have inv: "server_inv ops s" "server_inv ops s'" using I http_step_ok [OF laws _ st] by (simp_all add: idle_inv_def)
  note O = other_step [OF laws inv(1) st k]
  have "x \<in> set (hs_entries s') \<longleftrightarrow> x \<in> set (hs_entries s)" if "snd x = cid" for x using in_filter_eq [OF O(2), of x] that by simp
  then have all: "(\<forall>x \<in> set (hs_entries s'). snd x = cid \<longrightarrow> P x) \<longleftrightarrow> (\<forall>x \<in> set (hs_entries s). snd x = cid \<longrightarrow> P x)"
    "cid \<in> snd ` set (hs_entries s') \<longleftrightarrow> cid \<in> snd ` set (hs_entries s)" "(e, cid) \<in> set (hs_entries s') \<longleftrightarrow> (e, cid) \<in> set (hs_entries s)" for P
    by (auto simp: image_iff) 
  show ?thesis using I inv(2) O(1) O(3) [of e] by (auto simp: idle_inv_def all split: if_splits)
qed

lemma idle_run_inv:
  assumes laws: "bucket_laws ops"
  shows "idle_run ops cb cid s n s' \<Longrightarrow> idle_inv ops cid e c 0 s \<Longrightarrow> idle_inv ops cid e c n s'"
  by (induction rule: idle_run.induct) (blast intro: tick_idle [OF laws] other_idle [OF laws])+

lemma ticks_idle_run: "ticks ops tid n s1 = Inr s2 \<Longrightarrow> idle_run ops cb cid s m s1 \<Longrightarrow> idle_run ops cb cid s (m + n) s2"
proof (induction n arbitrary: s1 m)
  case (Suc n)
  then obtain s3 where "onTimer ops tid s1 = Inr s3" "ticks ops tid n s3 = Inr s2" by (auto simp: bindR_eq_Inr)
  then show ?case using Suc.IH [of s3 "Suc m"] idle_tick [OF Suc.prems(2)] by simp
qed simp

text \<open>A circular buffer: its capacity, the position of the last element, the elements.\<close>

definition ring :: "(nat \<times> nat \<times> Bucket list) BucketList" where
  "ring = \<lparr>bl_make = (\<lambda>n. (n, 0, [])), bl_items = (\<lambda>b. snd (snd b)), bl_capacity = fst,
     bl_push_back = (\<lambda>x b. (fst b, (fst (snd b) + 1) mod fst b,
        (if length (snd (snd b)) = fst b then tl (snd (snd b)) else snd (snd b)) @ [x])),
     bl_set_back = (\<lambda>x b. (fst b, fst (snd b), butlast (snd (snd b)) @ [x])), bl_tail = (\<lambda>b. fst (snd b))\<rparr>"

lemma ring_laws: "bucket_laws ring"
  by (simp add: bucket_laws_def ring_def)

definition demo_server :: "HttpConn \<Rightarrow> (nat \<times> nat \<times> Bucket list) HttpServer" where
  "demo_server c = \<lparr>hs_list = (8, 1, [[]]), hs_entries = [], hs_next = 0, hs_conns = [7 \<mapsto> c]\<rparr>"

definition demo_conn :: "Buffer \<Rightarrow> Buffer \<Rightarrow> HttpConn" where
  "demo_conn i out = \<lparr>hc_tcp = \<lparr>tc_thread = 1, tc_name = ''c'', tc_state = kConnected, tc_events = kReadEvent, tc_inputBuffer = i,
     tc_outputBuffer = out, tc_highWaterMark = 100, tc_hasHighWaterMarkCallback = False, tc_hasWriteCompleteCallback = False,
     tc_calls = [], tc_queue = [], tc_written = [], tc_trace = []\<rparr>, hc_context = HttpContext_ctor, hc_entry = None, hc_tail = 0\<rparr>"

lemma demo_ok:
  assumes "Buffer_inv i" "Buffer_inv out" "Buffer_content out = []"
  shows "tc_inv [] (hc_tcp (demo_conn i out))" "server_ok ring (demo_server (demo_conn i out))"
proof -
  show t: "tc_inv [] (hc_tcp (demo_conn i out))"
    using assms by (simp add: tc_inv_def demo_conn_def tc_isWriting_def kReadEvent_def kWriteEvent_def POLLIN_def POLLPRI_def POLLOUT_def)
  then show "server_ok ring (demo_server (demo_conn i out))"
    by (auto simp: server_ok_def wheel_inv_def wheel_ok_def demo_server_def ring_def kTimeGap_def held_def)
qed

text \<open>The demo server is what the constructor, the first tick and a new connection leave.\<close>

lemma demo_reached:
  assumes e: "hc_entry c = None"
  shows "onTimer ring 1 (HttpServer_ctor ring) = Inr (demo_server c\<lparr>hs_conns := Map.empty\<rparr>)"
  "reach (http_step ring cb) (demo_server c\<lparr>hs_conns := Map.empty\<rparr>) (demo_server c)"
proof -
  show "onTimer ring 1 (HttpServer_ctor ring) = Inr (demo_server c\<lparr>hs_conns := Map.empty\<rparr>)"
    by (simp add: onTimer_def HttpServer_ctor_def ring_def demo_server_def Let_def)
  have "http_step ring cb (demo_server c\<lparr>hs_conns := Map.empty\<rparr>)
      ((demo_server c\<lparr>hs_conns := Map.empty\<rparr>)\<lparr>hs_conns := (hs_conns (demo_server c\<lparr>hs_conns := Map.empty\<rparr>))(7 \<mapsto> c)\<rparr>)"
    unfolding http_step_def by (intro exI [of _ "Some 7"] http_new) (use e in simp_all)
  then show "reach (http_step ring cb) (demo_server c\<lparr>hs_conns := Map.empty\<rparr>) (demo_server c)"
    by (intro reach_one) (simp add: demo_server_def)
qed

section \<open>Properties\<close>

text \<open>A well-formed request that has arrived completely is answered: the callback is given exactly the request the client
  rendered, the text of its response, and nothing else, goes to the connection's stream, the connection is shut down
  exactly when the response says so, and the context is ready for the next request. Bytes after the request stay in the
  input buffer: a pipelined request is not looked at before more bytes arrive.\<close>

theorem http_request_answered:
  fixes cb :: HttpCallback
  assumes "server_ok ops s" and "hs_conns s cid = Some c" "hc_context c = HttpContext_ctor"
    and "tc_inv out (hc_tcp c)" "tc_state (hc_tcp c) = kConnected" "tid = tc_thread (hc_tcp c)"
    and "request_ok r" "Buffer_content (tc_inputBuffer (hc_tcp c)) = render_request r @ rest"
    and "req = r\<lparr>req_receiveTime := now\<rparr>" "resp = cb req (HttpResponse_ctor (must_close req))"
    and "length (resp_body resp) < 10 ^ 13" "write_fits w2 (length (response_text resp))"
  shows "\<exists>s' c'. onMessage ops cb tid w1 w2 cid now s = Some (Inr s') \<and> hs_conns s' cid = Some c'
     \<and> tc_inv (out @ response_text resp) (hc_tcp c')
     \<and> tc_state (hc_tcp c') = (if resp_closeConnection resp then kDisconnecting else kConnected)
     \<and> hc_context c' = HttpContext_ctor \<and> Buffer_content (tc_inputBuffer (hc_tcp c')) = rest"
  using assms onMessage_answers [of ops s cid c out tid r rest cb now w2 w1] by (simp add: server_ok_def)

theorem http_request_answered_witness:
  "\<exists>s s' c'. onMessage ring defaultHttpCallback 1 None (Some 5) 7 9 s = Some (Inr s') \<and> hs_conns s' 7 = Some c'
     \<and> tc_state (hc_tcp c') = kDisconnecting \<and> Buffer_content (tc_inputBuffer (hc_tcp c')) = ''more''"
proof -
  let ?r = "\<lparr>req_method = kGet, req_version = kHttp11, req_path = ''/a'', req_query = ''?b'',
     req_receiveTime = 0, req_headers = [(''Host'', ''x'')]\<rparr>"
  let ?q = "?r\<lparr>req_receiveTime := 9\<rparr>"
  let ?p = "defaultHttpCallback ?q (HttpResponse_ctor (must_close ?q))"
  have ok: "request_ok ?r" by (simp add: request_ok_def map_ok_def header_ok_def trimmed_def isspace_def)
  obtain b0 where b0: "Buffer_inv b0" "Buffer_content b0 = []" using Buffer_ctor_ok by blast
  obtain b where b: "Buffer_inv b" "Buffer_content b = render_request ?r @ ''more''"
    using Buffer_append_ok [OF b0(1), of "render_request ?r @ ''more''"] b0(2) by auto
  let ?c = "demo_conn b b0"
  have p: "resp_closeConnection ?p" "length (resp_body ?p) < 10 ^ 13" "write_fits (Some 5) (length (response_text ?p))"
    by (simp_all add: defaultHttpCallback_def setCloseConnection_def setStatusMessage_def setStatusCode_def HttpResponse_ctor_def
        write_fits_def response_text_def)
  have c: "hs_conns (demo_server ?c) 7 = Some ?c" "hc_context ?c = HttpContext_ctor" "tc_state (hc_tcp ?c) = kConnected" "1 = tc_thread (hc_tcp ?c)"
      "Buffer_content (tc_inputBuffer (hc_tcp ?c)) = render_request ?r @ ''more''"
    using b(2) by (simp_all add: demo_server_def demo_conn_def)
  note D = demo_ok [OF b(1) b0]
  show ?thesis
    using http_request_answered [where cb = defaultHttpCallback and now = 9 and req = ?q and resp = ?p and r = ?r,
        OF D(2) c(1,2) D(1) c(3,4) ok c(5) refl refl p(2,3), of None] p(1) by auto
qed

text \<open>C26. A request the parser refuses is answered with status 400 and the connection is shut down.\<close>

theorem bad_request_refused:
  assumes "server_ok ops s" and "hs_conns s cid = Some c" "parsing (hc_context c)"
    and "tc_inv out (hc_tcp c)" "tc_state (hc_tcp c) = kConnected" "tid = tc_thread (hc_tcp c)"
    and "http_parse now True (hc_context c) (Buffer_content (tc_inputBuffer (hc_tcp c))) = Inr (False, ctx, rest)"
    and "write_fits w1 (length bad_request)"
  shows "\<exists>s' c'. onMessage ops cb tid w1 w2 cid now s = Some (Inr s') \<and> hs_conns s' cid = Some c'
     \<and> tc_inv (out @ bad_request) (hc_tcp c') \<and> tc_state (hc_tcp c') = kDisconnecting"
  using assms(1) onMessage_refuses [OF _ assms(2-8)] by (simp add: server_ok_def)

theorem bad_request_refused_witness:
  "\<exists>s s' c'. onMessage ring defaultHttpCallback 1 (Some 3) None 7 9 s = Some (Inr s') \<and> hs_conns s' 7 = Some c'
     \<and> tc_inv bad_request (hc_tcp c') \<and> tc_state (hc_tcp c') = kDisconnecting"
proof -
  obtain b0 where b0: "Buffer_inv b0" "Buffer_content b0 = []" using Buffer_ctor_ok by blast
  obtain b where b: "Buffer_inv b" "Buffer_content b = ''nonsense'' @ kCRLF"
    using Buffer_append_ok [OF b0(1), of "''nonsense'' @ kCRLF"] b0(2) by auto
  let ?c = "demo_conn b b0"
  note D = demo_ok [OF b(1) b0]
  have c: "hs_conns (demo_server ?c) 7 = Some ?c" "parsing (hc_context ?c)" "tc_state (hc_tcp ?c) = kConnected" "1 = tc_thread (hc_tcp ?c)"
    by (simp_all add: demo_server_def demo_conn_def parsing_def HttpContext_ctor_def)
  have h: "http_parse 9 True (hc_context ?c) (Buffer_content (tc_inputBuffer (hc_tcp ?c))) = Inr (False, HttpContext_ctor, ''nonsense'' @ kCRLF)"
    by (subst http_parse.simps) (simp add: demo_conn_def b(2) kCRLF_def HttpContext_ctor_def processRequestLine_def Let_def std_find_notin)
  have w: "write_fits (Some 3) (length bad_request)" by (simp add: write_fits_def bad_request_def)
  show ?thesis using bad_request_refused [OF D(2) c(1,2) D(1) c(3,4) h w, of defaultHttpCallback None] by auto
qed

text \<open>C22. The idle timer. Take a server from its constructor on: any events, the first tick of its wheel,
  again any events (ticks, connections coming and going, messages of any kind). Let then the callback of
  a new connection run, and let this connection stay idle: the wheel ticks, and anything may happen to the other
  connections. No tick fails; the connection is left alone by the first seven ticks, also while the wheel is
  still filling up, and from the eighth on it is no longer open for sending. (Before the first tick
  there is no bucket, and the callback faults: the last theorem of this theory.)\<close>

theorem idle_connection_shut:
  assumes "bucket_laws ops" "reach (http_step ops cb) (HttpServer_ctor ops) s0" "onTimer ops tid0 s0 = Inr s1"
    and "reach (http_step ops cb) s1 s"
    and "hs_conns s cid = Some c" "connected (hc_tcp c)" "cid \<notin> snd ` set (hs_entries s)"
  shows "\<exists>s2. onConnection ops cid s = Inr s2 \<and> (\<forall>n s'. idle_run ops cb cid s2 n s' \<longrightarrow>
       (\<exists>s''. onTimer ops tid s' = Inr s'')
     \<and> (n < 8 \<longrightarrow> hs_conns s' cid = hs_conns s2 cid)
     \<and> (8 \<le> n \<longrightarrow> (\<forall>c. hs_conns s' cid = Some c \<longrightarrow> tc_state (hc_tcp c) \<noteq> kConnected)))"
proof -
  have r: "server_inv ops s" "server_ok ops s" "wheel_inv ops s" "own_entries s" "bl_items ops (hs_list s) \<noteq> []"
    using ready_after_tick [OF assms(1-4)] by (simp_all add: server_ready_def server_inv_def server_ok_def)
  obtain s2 c2 where s2: "onConnection ops cid s = Inr s2" "server_ok ops s2" "hs_entries s2 = hs_entries s @ [(hs_next s, cid)]"
      "left ops s2 (hs_next s) = kTimeGap" "hs_conns s2 cid = Some c2"
    using onConnection_ok [OF assms(1) r(2,5) assms(5,6)] by blast
  have "\<forall>x \<in> set (hs_entries s2). snd x = cid \<longrightarrow> x = (hs_next s, cid)" using assms(7) by (auto simp: s2(3))
  then have start: "idle_inv ops cid (hs_next s) c2 0 s2"
    using s2 onConnection_own [OF r(3,4) s2(1)] by (auto simp: idle_inv_def server_inv_def kTimeGap_def)
  have "(\<exists>s''. onTimer ops tid s' = Inr s'') \<and> (n < 8 \<longrightarrow> hs_conns s' cid = hs_conns s2 cid)
      \<and> (8 \<le> n \<longrightarrow> (\<forall>c. hs_conns s' cid = Some c \<longrightarrow> tc_state (hc_tcp c) \<noteq> kConnected))" if "idle_run ops cb cid s2 n s'" for n s'
  proof -
    have I: "idle_inv ops cid (hs_next s) c2 n s'" by (rule idle_run_inv [OF assms(1) that start])
    then have "\<exists>s''. onTimer ops tid s' = Inr s''" using onTimer_ok [OF assms(1), of s' tid] by (auto simp: idle_inv_def server_inv_def)
    then show ?thesis using I s2(5) by (simp add: idle_inv_def kTimeGap_def split: if_splits)
  qed
  then show ?thesis using s2(1) by blast
qed

theorem idle_connection_shut_witness:
  "\<exists>s s2 s'. onConnection ring 7 s = Inr s2 \<and> ticks ring 1 8 s2 = Inr s'
     \<and> (\<forall>c. hs_conns s' 7 = Some c \<longrightarrow> tc_state (hc_tcp c) \<noteq> kConnected)"
proof -
  obtain b where b: "Buffer_inv b" "Buffer_content b = []" using Buffer_ctor_ok by blast
  let ?c = "demo_conn b b"
  have c: "hs_conns (demo_server ?c) 7 = Some ?c" "connected (hc_tcp ?c)" "7 \<notin> snd ` set (hs_entries (demo_server ?c))" "hc_entry ?c = None"
    by (simp_all add: demo_server_def demo_conn_def connected_def)
  note D = demo_ok [OF b(1) b]
  have "bl_items ring (hs_list (demo_server ?c)) \<noteq> []" by (simp add: demo_server_def ring_def)
  then obtain s2 where s2: "onConnection ring 7 (demo_server ?c) = Inr s2" "server_ok ring s2"
    using onConnection_ok [OF ring_laws D(2) _ c(1,2)] by blast
  obtain s' where s': "ticks ring 1 8 s2 = Inr s'" using ticks_total [OF ring_laws s2(2), of 1 8] by blast
  have "idle_run ring defaultHttpCallback 7 s2 8 s'" using ticks_idle_run [OF s' idle_start] by simp
  then have "\<forall>c. hs_conns s' 7 = Some c \<longrightarrow> tc_state (hc_tcp c) \<noteq> kConnected"
    using idle_connection_shut [OF ring_laws reach_refl demo_reached(1) [OF c(4)] demo_reached(2) [OF c(4)] c(1-3),
      where cb = defaultHttpCallback and tid = 1] s2(1) by auto
  then show ?thesis using s2(1) s' by blast
qed

text \<open>A message moves the connection's entry to the last bucket, which gives it eight ticks again, unless the last bucket
  lies where it lay when the connection was made; eight ticks after that it does, and a message arriving then does not
  prolong the connection's life.\<close>

theorem message_resets_timer:
  assumes "bucket_laws ops" "server_ok ops s" "hc_entry c = Some e" "(e, cid) \<in> set (hs_entries s)"
  shows "(bl_tail ops (hs_list s) \<noteq> hc_tail c \<longrightarrow>
       (\<exists>l. touch ops c s = Inr (s\<lparr>hs_list := l\<rparr>) \<and> left ops (s\<lparr>hs_list := l\<rparr>) e = 8))
     \<and> (ticks ops tid 8 s = Inr s' \<and> hc_tail c = bl_tail ops (hs_list s) mod 8 \<longrightarrow> touch ops c s' = Inr s')"
proof
  show "bl_tail ops (hs_list s) \<noteq> hc_tail c \<longrightarrow> (\<exists>l. touch ops c s = Inr (s\<lparr>hs_list := l\<rparr>) \<and> left ops (s\<lparr>hs_list := l\<rparr>) e = 8)"
    using touch_refreshes [OF assms] by (simp add: kTimeGap_def)
  have "e \<in> fst ` set (hs_entries s)" using imageI [OF assms(4), of fst] by simp
  then have ne: "bl_items ops (hs_list s) \<noteq> []" using assms(2) unfolding server_ok_def wheel_inv_def held_def by fastforce
  show "ticks ops tid 8 s = Inr s' \<and> hc_tail c = bl_tail ops (hs_list s) mod 8 \<longrightarrow> touch ops c s' = Inr s'"
  proof
    assume H: "ticks ops tid 8 s = Inr s' \<and> hc_tail c = bl_tail ops (hs_list s) mod 8"
    then have t: "bl_tail ops (hs_list s') = hc_tail c"
      using ticks_tail [OF assms(1,2) ne, of 8 tid s'] by (simp add: kTimeGap_def)
    then show "touch ops c s' = Inr s'" using ticks_server [OF assms(1,2) ne conjunct1 [OF H]] assms(3) by (simp add: touch_def)
  qed
qed

theorem message_resets_timer_witness:
  "\<exists>s s' c e. touch ring c s = Inr s' \<and> left ring s' e = 8"
proof -
  obtain b where b: "Buffer_inv b" "Buffer_content b = []" using Buffer_ctor_ok by blast
  let ?c = "(demo_conn b b)\<lparr>hc_entry := Some 3, hc_tail := 5\<rparr>"
  let ?s = "(demo_server ?c)\<lparr>hs_list := (8, 0, [3] # replicate 7 []), hs_entries := [(3, 7)], hs_next := 4\<rparr>"
  have s: "server_ok ring ?s"
    by (auto simp: server_ok_def wheel_inv_def wheel_ok_def demo_server_def ring_def kTimeGap_def held_def)
  have e: "hc_entry ?c = Some 3" "(3, 7) \<in> set (hs_entries ?s)" "bl_tail ring (hs_list ?s) \<noteq> hc_tail ?c"
    by (simp_all add: ring_def)
  obtain l where "touch ring ?c ?s = Inr (?s\<lparr>hs_list := l\<rparr>)" "left ring (?s\<lparr>hs_list := l\<rparr>) 3 = 8"
    using message_resets_timer [OF ring_laws s e(1,2)] e(3) by blast
  then show ?thesis by blast
qed

text \<open>A connection made before the wheel's first tick: the list has room for eight buckets and holds none, and
  \<^verbatim>\<open>list_.back()\<close> is evaluated on the empty list.\<close>

theorem early_connection_faults:
  assumes "bucket_laws ops" "connected (hc_tcp c)"
  shows "onConnection ops cid ((HttpServer_ctor ops)\<lparr>hs_conns := [cid \<mapsto> c]\<rparr>) = Inl OutOfBounds"
  using assms(2) bucket_lawsD(1) [OF assms(1)] by (simp add: onConnection_def HttpServer_ctor_def insert_back_def Let_def)

theorem early_connection_faults_witness:
  "\<exists>c. onConnection ring 7 ((HttpServer_ctor ring)\<lparr>hs_conns := [7 \<mapsto> c]\<rparr>) = Inl OutOfBounds"
proof -
  obtain b where b: "Buffer_inv b" "Buffer_content b = []" using Buffer_ctor_ok by blast
  have "connected (hc_tcp (demo_conn b b))" by (simp add: demo_conn_def connected_def)
  from early_connection_faults [OF ring_laws this] show ?thesis by blast
qed

end
