(* ===== verification/Http_Pieces.thy ===== *)
theory Http_Pieces
  imports Http_Server
begin

text \<open>
  The HTTP server over the network: the bytes of a request arrive in pieces, each at its own time
  (\<^verbatim>\<open>TcpConnection::handleRead\<close>, which calls \<^verbatim>\<open>HttpServer::onMessage\<close> of \<^verbatim>\<open>net/http/HttpServer.cc\<close>), and the context of the
  connection carries the parser from one piece to the next. Between the pieces the wheel of idle
  connections ticks (\<^verbatim>\<open>HttpServer::onTimer\<close>).
\<close>

section \<open>Arrivals\<close>

text \<open>One readable event of the connection \<open>cid\<close>: the time the poller returned, the bytes, and what
  \<^verbatim>\<open>write(2)\<close> answers if the server sends.\<close>

type_synonym arrival = "Timestamp \<times> string \<times> nat option \<times> nat option"

fun http_arrive :: "'b BucketList \<Rightarrow> HttpCallback \<Rightarrow> nat \<Rightarrow> nat \<Rightarrow> arrival \<Rightarrow> 'b HttpServer \<Rightarrow> 'b HttpServer result option" where
  "http_arrive ops cb tid cid (now, d, w1, w2) s =
     (case hs_conns s cid of
        None \<Rightarrow> Some (Inl DanglingPointer)
      | Some c \<Rightarrow>
          (case TcpConnection_handleRead tid now (ReadOk d) (hc_tcp c) of
             Inl e \<Rightarrow> Some (Inl e)
           | Inr conn \<Rightarrow> onMessage ops cb tid w1 w2 cid now (s\<lparr>hs_conns := (hs_conns s)(cid \<mapsto> c\<lparr>hc_tcp := conn\<rparr>)\<rparr>)))"

declare http_arrive.simps [simp del]

text \<open>What happens while a request arrives: a piece of it, or a tick of the wheel in some thread.\<close>

datatype http_event = Piece arrival | WheelTick nat

primrec http_happens :: "'b BucketList \<Rightarrow> HttpCallback \<Rightarrow> nat \<Rightarrow> nat \<Rightarrow> http_event \<Rightarrow> 'b HttpServer \<Rightarrow> 'b HttpServer result option" where
  "http_happens ops cb tid cid (Piece a) s = http_arrive ops cb tid cid a s"
| "http_happens ops cb tid cid (WheelTick tid0) s = Some (onTimer ops tid0 s)"

primrec http_events :: "'b BucketList \<Rightarrow> HttpCallback \<Rightarrow> nat \<Rightarrow> nat \<Rightarrow> http_event list \<Rightarrow> 'b HttpServer \<Rightarrow> 'b HttpServer result option" where
  "http_events ops cb tid cid [] s = Some (Inr s)"
| "http_events ops cb tid cid (e # es) s =
     (case http_happens ops cb tid cid e s of
        None \<Rightarrow> None
      | Some (Inl f) \<Rightarrow> Some (Inl f)
      | Some (Inr s) \<Rightarrow> http_events ops cb tid cid es s)"

definition pieces :: "http_event list \<Rightarrow> arrival list" where
  "pieces es = concat (map (\<lambda>e. case e of Piece a \<Rightarrow> [a] | WheelTick _ \<Rightarrow> []) es)"

definition wheel_ticks :: "http_event list \<Rightarrow> nat" where
  "wheel_ticks es = length es - length (pieces es)"

definition arrived :: "arrival list \<Rightarrow> string" where
  "arrived as = concat (map (\<lambda>(_, d, _). d) as)"

text \<open>When the first \<open>n\<close> bytes had arrived.\<close>

fun time_of :: "nat \<Rightarrow> arrival list \<Rightarrow> Timestamp" where
  "time_of n [] = 0"
| "time_of n ((now, d, _) # as) = (if n \<le> length d then now else time_of (n - length d) as)"

lemma http_events_snoc:
  "http_events ops cb tid cid es s = Some (Inr s') \<Longrightarrow> http_events ops cb tid cid (es @ [e]) s = http_happens ops cb tid cid e s'"
  by (induction es arbitrary: s) (auto split: option.splits sum.splits)

lemma pieces_simps [simp]: "pieces [] = []" "pieces (es @ fs) = pieces es @ pieces fs" "pieces [Piece a] = [a]" "pieces [WheelTick t] = []"
  by (simp_all add: pieces_def)

lemma pieces_le: "length (pieces es) \<le> length es"
  by (induction es) (auto simp: pieces_def split: http_event.splits)

lemma wheel_ticks_simps [simp]: "wheel_ticks [] = 0" "wheel_ticks (es @ fs) = wheel_ticks es + wheel_ticks fs"
  "wheel_ticks [Piece a] = 0" "wheel_ticks [WheelTick t] = 1"
  using pieces_le [of es] pieces_le [of fs] by (simp_all add: wheel_ticks_def)

lemma arrived_simps [simp]: "arrived [] = []" "arrived (as @ bs) = arrived as @ arrived bs" "arrived [(now, d, w)] = d"
  by (simp_all add: arrived_def)

lemma time_of_append: "time_of n (as @ bs) = (if 0 < n \<and> n \<le> length (arrived as) \<or> n = 0 \<and> as \<noteq> [] then time_of n as else time_of (n - length (arrived as)) bs)"
  by (induction n as rule: time_of.induct) (auto simp: arrived_def)

section \<open>The parser between two pieces\<close>

abbreviation line_length :: "HttpRequest \<Rightarrow> nat" where
  "line_length r \<equiv> length (render_target r) + 2"

lemma target_line: "request_ok r \<Longrightarrow> CHR 0x0D \<notin> set (render_target r)"
  using methodString_chars(2) [of r] by (auto simp: request_ok_def render_target_def)

text \<open>Before the end of the request line nothing happens; after it the parser expects headers.\<close>

lemma part_of_line:
  assumes "request_ok r" "render_request r = p @ q" "length p < line_length r"
  shows "http_parse t True HttpContext_ctor p = Inr (True, HttpContext_ctor, p)"
proof -
  have "std_search p kCRLF = length p"
  proof (rule ccontr)
    assume n: "std_search p kCRLF \<noteq> length p"
    have "std_search (p @ q) kCRLF = length (render_target r)"
      using std_search_line [OF target_line [OF assms(1)]] by (simp add: assms(2) [symmetric] render_request_def)
    then show False using std_search_append [OF n, of q] std_search_room [OF n] assms(3) by simp
  qed
  then show ?thesis by (simp add: http_parse.simps [of t True HttpContext_ctor p])
qed

lemma past_the_line:
  assumes "request_ok r" "render_request r = p @ q" "line_length r \<le> length p"
    and "http_parse t True HttpContext_ctor p = Inr (ok1, c1, x)"
  shows "ctx_state c1 \<noteq> kExpectRequestLine"
proof -
  let ?line = "render_target r @ kCRLF"
  have "take (length ?line) (p @ q) = ?line" by (simp add: assms(2) [symmetric] render_request_def)
  then have "take (length ?line) p = ?line" using assms(3) by simp
  then obtain rest where p: "p = render_target r @ kCRLF @ rest" by (metis append_assoc append_take_drop_id)
  have "processRequestLine (render_target r) HttpContext_ctor = Inr (True, HttpContext_ctor\<lparr>ctx_request := r\<lparr>req_receiveTime := 0, req_headers := []\<rparr>\<rparr>)"
    by (rule processRequestLine_render [OF assms(1)]) (simp add: HttpContext_ctor_def)
  then show ?thesis
    using assms(4) http_parse_line [OF target_line [OF assms(1)], of t True HttpContext_ctor rest] http_parse_state [of t True _ rest ok1 c1 x]
    by (simp add: p HttpContext_ctor_def)
qed

text \<open>The part of a request that has arrived leaves the parser waiting.\<close>

lemma part_waits:
  assumes "request_ok r" "render_request r = p @ q" "q \<noteq> []"
  shows "\<exists>c1 x. http_parse t True HttpContext_ctor p = Inr (True, c1, x) \<and> parsing c1"
proof -
  have "parsing HttpContext_ctor" by (simp add: parsing_def HttpContext_ctor_def)
  from http_parse_settled [OF this TrueI, of t p q] http_parse_render [OF assms(1), of t "[]"] assms(2,3)
  show ?thesis by (auto split: sum.splits)
qed

section \<open>Pieces of a request\<close>

lemma arrive_reads:
  assumes "tc_inv out c" "d \<noteq> []"
  shows "\<exists>b. TcpConnection_handleRead tid now (ReadOk d) c = Inr (tc_emit (EvMessage now) (c\<lparr>tc_inputBuffer := b\<rparr>))
     \<and> Buffer_content b = Buffer_content (tc_inputBuffer c) @ d \<and> tc_inv out (tc_emit (EvMessage now) (c\<lparr>tc_inputBuffer := b\<rparr>))"
proof -
  obtain b where b: "readFd (ReadOk d) 0 (tc_inputBuffer c) = Inr (int (length d), 0, b)" "Buffer_inv b"
    "Buffer_content b = Buffer_content (tc_inputBuffer c) @ d"
    using readFd_ok [OF tc_invD(1) [OF assms(1)], of d 0] by blast
  then show ?thesis using assms(2) emit_ok(1) [OF input_ok(1) [OF assms(1) b(2)], of "EvMessage now"]
    by (auto simp: TcpConnection_handleRead_def)
qed

text \<open>The entries of the connection have more than \<open>k\<close> ticks left.\<close>

definition lives :: "'b BucketList \<Rightarrow> nat \<Rightarrow> nat \<Rightarrow> 'b HttpServer \<Rightarrow> bool" where
  "lives ops cid k s = (\<forall>x \<in> set (hs_entries s). snd x = cid \<longrightarrow> k < left ops s (fst x))"

text \<open>The state of the server while a request is arriving.\<close>

definition awaiting :: "'b BucketList \<Rightarrow> nat \<Rightarrow> nat \<Rightarrow> string \<Rightarrow> HttpRequest \<Rightarrow> arrival list \<Rightarrow> 'b HttpServer \<Rightarrow> bool" where
  "awaiting ops tid cid out r as s = (server_ok ops s \<and> (\<exists>c. hs_conns s cid = Some c \<and> parsing (hc_context c)
     \<and> tc_inv out (hc_tcp c) \<and> tc_state (hc_tcp c) = kConnected \<and> tid = tc_thread (hc_tcp c)
     \<and> (\<forall>t d. http_parse t True (hc_context c) (Buffer_content (tc_inputBuffer (hc_tcp c)) @ d)
         = http_parse (if length (arrived as) < line_length r then t else time_of (line_length r) as) True HttpContext_ctor (arrived as @ d))))"

lemma tick_awaits:
  assumes a: "awaiting ops tid cid out r as s" and k: "lives ops cid (Suc k) s" and laws: "bucket_laws ops"
  shows "\<exists>s'. onTimer ops tid0 s = Inr s' \<and> awaiting ops tid cid out r as s' \<and> lives ops cid k s'"
proof -
  have ok: "server_ok ops s" using a by (simp add: awaiting_def)
  obtain s' where s': "onTimer ops tid0 s = Inr s'" "server_ok ops s'" "\<forall>e. left ops s' e = left ops s e - 1"
      "hs_entries s' = filter (\<lambda>e. 1 < left ops s (fst e)) (hs_entries s)"
      "\<forall>k. k \<notin> snd ` set (filter (\<lambda>e. left ops s (fst e) \<le> 1) (hs_entries s)) \<longrightarrow> hs_conns s' k = hs_conns s k"
    using onTimer_ok [OF laws ok, of tid0] by (elim exE conjE)
  have "cid \<notin> snd ` set (filter (\<lambda>e. left ops s (fst e) \<le> 1) (hs_entries s))" using k by (fastforce simp: lives_def)
  then have "hs_conns s' cid = hs_conns s cid" using s'(5) by blast
  then have "awaiting ops tid cid out r as s'" using a s'(2) by (simp add: awaiting_def)
  moreover have "lives ops cid k s'" using k by (fastforce simp: lives_def s'(3,4))
  ultimately show ?thesis using s'(1) by blast
qed

lemma arrival_parses:
  fixes now :: Timestamp
  assumes a: "awaiting ops tid cid out r as s" and d: "d \<noteq> []" and laws: "bucket_laws ops"
  defines "t0 \<equiv> if length (arrived as) < line_length r then now else time_of (line_length r) as"
  shows "\<exists>c l s1. http_arrive ops cb tid cid (now, d, w1, w2) s = onMessage ops cb tid w1 w2 cid now s1 \<and> hs_conns s1 cid = Some c
     \<and> touch ops c s1 = Inr (s1\<lparr>hs_list := l\<rparr>) \<and> server_ok ops (s1\<lparr>hs_list := l\<rparr>)
     \<and> (\<forall>k. lives ops cid k s \<longrightarrow> lives ops cid k (s1\<lparr>hs_list := l\<rparr>)) \<and> parsing (hc_context c) \<and> tc_inv out (hc_tcp c)
     \<and> tc_state (hc_tcp c) = kConnected \<and> tid = tc_thread (hc_tcp c)
     \<and> http_parse now True (hc_context c) (Buffer_content (tc_inputBuffer (hc_tcp c))) = http_parse t0 True HttpContext_ctor (arrived as @ d)"
proof -
  obtain c where c: "hs_conns s cid = Some c" "parsing (hc_context c)" "tc_inv out (hc_tcp c)" "tc_state (hc_tcp c) = kConnected" "tid = tc_thread (hc_tcp c)"
    "http_parse now True (hc_context c) (Buffer_content (tc_inputBuffer (hc_tcp c)) @ d) = http_parse t0 True HttpContext_ctor (arrived as @ d)"
    using a by (auto simp: awaiting_def t0_def)
  obtain b where b: "TcpConnection_handleRead tid now (ReadOk d) (hc_tcp c) = Inr (tc_emit (EvMessage now) ((hc_tcp c)\<lparr>tc_inputBuffer := b\<rparr>))"
    "Buffer_content b = Buffer_content (tc_inputBuffer (hc_tcp c)) @ d" "tc_inv out (tc_emit (EvMessage now) ((hc_tcp c)\<lparr>tc_inputBuffer := b\<rparr>))"
    using arrive_reads [OF c(3) d] by blast
  let ?c = "c\<lparr>hc_tcp := tc_emit (EvMessage now) ((hc_tcp c)\<lparr>tc_inputBuffer := b\<rparr>)\<rparr>"
  let ?s1 = "s\<lparr>hs_conns := (hs_conns s)(cid \<mapsto> ?c)\<rparr>"
  have "server_ok ops ?s1" using a by (simp add: awaiting_def)
  then obtain l where l: "touch ops ?c ?s1 = Inr (?s1\<lparr>hs_list := l\<rparr>)" "server_ok ops (?s1\<lparr>hs_list := l\<rparr>)"
    "\<forall>e. left ops ?s1 e \<le> left ops (?s1\<lparr>hs_list := l\<rparr>) e" using touch_keeps [OF laws, of ?s1 ?c] by blast
  have "lives ops cid k (?s1\<lparr>hs_list := l\<rparr>)" if "lives ops cid k s" for k
    using that l(3) by (auto simp: lives_def intro: less_le_trans)
  moreover note l(1,2)
  moreover have "http_arrive ops cb tid cid (now, d, w1, w2) s = onMessage ops cb tid w1 w2 cid now ?s1" by (simp add: http_arrive.simps c(1) b(1))
  moreover have "hs_conns ?s1 cid = Some ?c" "tc_state (hc_tcp ?c) = kConnected" "tid = tc_thread (hc_tcp ?c)" using c(4,5) by (simp_all add: tc_emit_def)
  moreover have "http_parse now True (hc_context ?c) (Buffer_content (tc_inputBuffer (hc_tcp ?c))) = http_parse t0 True HttpContext_ctor (arrived as @ d)"
    using c(6) b(2) by (simp add: tc_emit_def)
  moreover have "parsing (hc_context ?c)" "tc_inv out (hc_tcp ?c)" using c(2) b(3) by simp_all
  ultimately show ?thesis by blast
qed

text \<open>A piece that does not end the request is kept.\<close>

lemma piece_awaits:
  assumes a: "awaiting ops tid cid out r as s" and d: "d \<noteq> []" and laws: "bucket_laws ops"
    and r: "request_ok r" "render_request r = (arrived as @ d) @ q" "q \<noteq> []"
    and k: "lives ops cid k s"
  shows "\<exists>s'. http_arrive ops cb tid cid (now, d, w1, w2) s = Some (Inr s') \<and> awaiting ops tid cid out r (as @ [(now, d, w1, w2)]) s'
     \<and> lives ops cid k s'"
proof -
  let ?L = "line_length r" and ?p = "arrived as @ d"
  let ?t0 = "if length (arrived as) < ?L then now else time_of ?L as"
  obtain c l s1 where c: "http_arrive ops cb tid cid (now, d, w1, w2) s = onMessage ops cb tid w1 w2 cid now s1" "hs_conns s1 cid = Some c"
    "touch ops c s1 = Inr (s1\<lparr>hs_list := l\<rparr>)" "server_ok ops (s1\<lparr>hs_list := l\<rparr>)" "parsing (hc_context c)" "tc_inv out (hc_tcp c)"
    "tc_state (hc_tcp c) = kConnected" "tid = tc_thread (hc_tcp c)"
    "http_parse now True (hc_context c) (Buffer_content (tc_inputBuffer (hc_tcp c))) = http_parse ?t0 True HttpContext_ctor ?p"
    "lives ops cid k (s1\<lparr>hs_list := l\<rparr>)"
    using arrival_parses [OF a d laws] k by blast
  obtain c1 x where p: "http_parse ?t0 True HttpContext_ctor ?p = Inr (True, c1, x)" "parsing c1" using part_waits [OF r] by blast
  obtain b where b: "onMessage ops cb tid w1 w2 cid now s1
      = Some (Inr (s1\<lparr>hs_list := l, hs_conns := (hs_conns s1)(cid \<mapsto> c\<lparr>hc_tcp := (hc_tcp c)\<lparr>tc_inputBuffer := b\<rparr>, hc_context := c1\<rparr>)\<rparr>))"
    "Buffer_inv b" "Buffer_content b = x"
    using onMessage_waits [OF c(3,2,5,6) c(9) [unfolded p(1)] p(2)] by blast
  have "http_parse t True c1 (x @ e) = http_parse (if length ?p < ?L then t else time_of ?L (as @ [(now, d, w1, w2)])) True HttpContext_ctor (?p @ e)" for t e
  proof (cases "length ?p < ?L")
    case True
    have "c1 = HttpContext_ctor" "x = ?p" using part_of_line [OF r(1,2) True, of ?t0] p(1) by simp_all
    then show ?thesis using True by (simp only: if_True)
  next
    case False
    then have t0: "time_of ?L (as @ [(now, d, w1, w2)]) = ?t0" by (auto simp: time_of_append)
    have "http_parse ?t0 True HttpContext_ctor (?p @ e) = http_parse ?t0 True c1 (x @ e)" by (rule http_parse_chunks [OF p])
    moreover have "ctx_state c1 \<noteq> kExpectRequestLine" using past_the_line [OF r(1,2) _ p(1)] False by simp
    ultimately show ?thesis using http_parse_time [of c1 ?t0 True "x @ e" t] False t0 by simp
  qed
  then have "awaiting ops tid cid out r (as @ [(now, d, w1, w2)])
      (s1\<lparr>hs_list := l, hs_conns := (hs_conns s1)(cid \<mapsto> c\<lparr>hc_tcp := (hc_tcp c)\<lparr>tc_inputBuffer := b\<rparr>, hc_context := c1\<rparr>)\<rparr>)"
    using c(4,7,8) p(2) input_ok(1) [OF c(6) b(2)] by (simp add: awaiting_def server_ok_def wheel_inv_def wheel_ok_def b(3))
  moreover have "lives ops cid k (s1\<lparr>hs_list := l, hs_conns := m\<rparr>)" for m
    using c(10) left_conns [of ops m "s1\<lparr>hs_list := l\<rparr>"] by (simp add: lives_def)
  ultimately show ?thesis using c(1) b(1) by (intro exI conjI) simp_all
qed

lemma pieces_await:
  assumes laws: "bucket_laws ops" and s: "awaiting ops tid cid out r [] s" and r: "request_ok r"
    and es: "\<forall>(_, d, _) \<in> set (pieces es). d \<noteq> []" "render_request r = arrived (pieces es) @ q" "q \<noteq> []"
    and k: "lives ops cid (wheel_ticks es + k) s"
  shows "\<exists>s'. http_events ops cb tid cid es s = Some (Inr s') \<and> awaiting ops tid cid out r (pieces es) s' \<and> lives ops cid k s'"
  using es k
proof (induction es arbitrary: q k rule: rev_induct)
  case (snoc e es)
  show ?case
  proof (cases e)
    case (Piece a)
    obtain now d w1 w2 where a: "a = (now, d, w1, w2)" by (cases a) auto
    obtain s1 where s1: "http_events ops cb tid cid es s = Some (Inr s1)" "awaiting ops tid cid out r (pieces es) s1" "lives ops cid k s1"
      using snoc.IH [of "d @ q" k] snoc.prems by (auto simp: Piece a)
    obtain s2 where "http_arrive ops cb tid cid a s1 = Some (Inr s2)" "awaiting ops tid cid out r (pieces es @ [a]) s2" "lives ops cid k s2"
      using piece_awaits [OF s1(2) _ laws r, of d q k] s1(3) snoc.prems by (simp add: Piece a) blast
    then show ?thesis using http_events_snoc [OF s1(1), of e] by (auto simp: Piece)
  next
    case (WheelTick tid0)
    obtain s1 where s1: "http_events ops cb tid cid es s = Some (Inr s1)" "awaiting ops tid cid out r (pieces es) s1" "lives ops cid (Suc k) s1"
      using snoc.IH [of q "Suc k"] snoc.prems by (auto simp: WheelTick)
    then show ?thesis using http_events_snoc [OF s1(1), of e] tick_awaits [OF s1(2,3) laws, of tid0] by (auto simp: WheelTick)
  qed
qed (use s in simp)

text \<open>The piece that ends it is answered.\<close>

lemma last_piece_answered:
  fixes cb :: HttpCallback
  defines "resp r \<equiv> cb r (HttpResponse_ctor (must_close r))"
  assumes a: "awaiting ops tid cid out r as s" and d: "d \<noteq> []" and laws: "bucket_laws ops"
    and r: "request_ok r" "arrived as @ d = render_request r @ rest" and req: "req = r\<lparr>req_receiveTime := time_of (line_length r) (as @ [(now, d, w1, w2)])\<rparr>"
    and fits: "length (resp_body (resp req)) < 10 ^ 13" "write_fits w2 (length (response_text (resp req)))"
  shows "\<exists>s' c'. http_arrive ops cb tid cid (now, d, w1, w2) s = Some (Inr s') \<and> hs_conns s' cid = Some c'
     \<and> tc_inv (out @ response_text (resp req)) (hc_tcp c') \<and> hc_context c' = HttpContext_ctor
     \<and> tc_state (hc_tcp c') = (if resp_closeConnection (resp req) then kDisconnecting else kConnected)
     \<and> Buffer_content (tc_inputBuffer (hc_tcp c')) = rest"
proof -
  let ?L = "line_length r"
  let ?t0 = "if length (arrived as) < ?L then now else time_of ?L as"
  obtain c l s1 where c: "http_arrive ops cb tid cid (now, d, w1, w2) s = onMessage ops cb tid w1 w2 cid now s1" "hs_conns s1 cid = Some c"
    "touch ops c s1 = Inr (s1\<lparr>hs_list := l\<rparr>)" "parsing (hc_context c)" "tc_inv out (hc_tcp c)"
    "tc_state (hc_tcp c) = kConnected" "tid = tc_thread (hc_tcp c)"
    "http_parse now True (hc_context c) (Buffer_content (tc_inputBuffer (hc_tcp c))) = http_parse ?t0 True HttpContext_ctor (arrived as @ d)"
    using arrival_parses [OF a d laws] by blast
  have "?L \<le> length (render_request r)" by (simp add: render_request_def)
  then have "?L \<le> length (arrived as @ d)" by (simp add: r(2))
  then have "req = r\<lparr>req_receiveTime := ?t0\<rparr>" unfolding req by (auto simp: time_of_append)
  then have h: "http_parse now True (hc_context c) (Buffer_content (tc_inputBuffer (hc_tcp c))) = Inr (True, \<lparr>ctx_state = kGotAll, ctx_request = req\<rparr>, rest)"
    using c(8) http_parse_render [OF r(1), of ?t0 rest] by (simp only: r(2))
  show ?thesis
    using onMessage_completes [where cb = cb, OF c(3,2,4,5,6,7) h fits [unfolded resp_def], of w1] c(1) unfolding resp_def by auto
qed

section \<open>Properties\<close>

text \<open>C3. A request that arrives in pieces. The server's wheel is in order, as it is from the constructor on (\<open>ctor_ok\<close>, \<open>http_step_ok\<close>).
  The bytes of a well-formed request arrive at a new connection in any pieces, each with its own time, the last one perhaps with bytes of
  what follows, and ticks of the idle wheel come between them, nothing else, fewer than the connection's entry in the wheel has
  left at the beginning (eight for an entry just made, so the request is given seven ticks; a connection without an entry has no limit). Until the last piece nothing is sent and the connection stays open; with the last piece
  the callback is given, once, exactly the request of the client, stamped with the time at which the end of its first line arrived; its
  response goes to the stream of the connection, which is shut down exactly when the response says so; and the context
  is ready for the next request.\<close>

theorem request_in_pieces_answered:
  fixes cb :: HttpCallback
  assumes "bucket_laws ops" "server_ok ops s" and "hs_conns s cid = Some c" "hc_context c = HttpContext_ctor"
    and "tc_inv out (hc_tcp c)" "tc_state (hc_tcp c) = kConnected" "tid = tc_thread (hc_tcp c)" "Buffer_content (tc_inputBuffer (hc_tcp c)) = []"
    and "\<forall>x \<in> set (hs_entries s). snd x = cid \<longrightarrow> wheel_ticks es < left ops s (fst x)"
    and "request_ok r" "\<forall>(_, d, _) \<in> set (pieces es @ [(now, d, w1, w2)]). d \<noteq> []" "arrived (pieces es @ [(now, d, w1, w2)]) = render_request r @ rest"
    and "length (arrived (pieces es)) < length (render_request r)"
    and "req = r\<lparr>req_receiveTime := time_of (length (render_target r) + 2) (pieces es @ [(now, d, w1, w2)])\<rparr>"
    and "resp = cb req (HttpResponse_ctor (must_close req))" "length (resp_body resp) < 10 ^ 13" "write_fits w2 (length (response_text resp))"
  shows "(\<forall>n \<le> length es. \<exists>s1 c1. http_events ops cb tid cid (take n es) s = Some (Inr s1) \<and> hs_conns s1 cid = Some c1
        \<and> tc_inv out (hc_tcp c1) \<and> tc_state (hc_tcp c1) = kConnected)
     \<and> (\<exists>s' c'. http_events ops cb tid cid (es @ [Piece (now, d, w1, w2)]) s = Some (Inr s') \<and> hs_conns s' cid = Some c'
        \<and> tc_inv (out @ response_text resp) (hc_tcp c') \<and> hc_context c' = HttpContext_ctor
        \<and> tc_state (hc_tcp c') = (if resp_closeConnection resp then kDisconnecting else kConnected)
        \<and> Buffer_content (tc_inputBuffer (hc_tcp c')) = rest)"
proof -
  let ?R = "render_request r" and ?a = "(now, d, w1, w2)"
  have start: "awaiting ops tid cid out r [] s"
    using assms(2-8) by (simp add: awaiting_def parsing_def HttpContext_ctor_def)
  have all: "arrived (pieces es) @ d = ?R @ rest" using assms(12) by simp
  have R: "?R = arrived (pieces es) @ drop (length (arrived (pieces es))) ?R"
  proof -
    have "take (length (arrived (pieces es))) (arrived (pieces es) @ d) = take (length (arrived (pieces es))) (?R @ rest)" by (simp only: all)
    then have "arrived (pieces es) = take (length (arrived (pieces es))) ?R" using assms(13) by simp
    then show ?thesis by (metis append_take_drop_id)
  qed
  have wait: "\<exists>s1. http_events ops cb tid cid (take n es) s = Some (Inr s1) \<and> awaiting ops tid cid out r (pieces (take n es)) s1" for n
  proof -
    have split: "pieces es = pieces (take n es) @ pieces (drop n es)" "wheel_ticks es = wheel_ticks (take n es) + wheel_ticks (drop n es)"
      using pieces_simps(2) [of "take n es" "drop n es"] wheel_ticks_simps(2) [of "take n es" "drop n es"] by simp_all
    have "?R = arrived (pieces (take n es)) @ (arrived (pieces (drop n es)) @ drop (length (arrived (pieces es))) ?R)"
      using R split(1) arrived_simps(2) [of "pieces (take n es)" "pieces (drop n es)"] by simp
    moreover have "\<forall>(_, d, _) \<in> set (pieces (take n es)). d \<noteq> []" using assms(11) split(1) by auto
    moreover have "arrived (pieces (drop n es)) @ drop (length (arrived (pieces es))) ?R \<noteq> []" using assms(13) by simp
    moreover have "lives ops cid (wheel_ticks (take n es) + wheel_ticks (drop n es)) s" using assms(9) split(2) by (simp add: lives_def)
    ultimately show ?thesis using pieces_await [OF assms(1) start assms(10)] by blast
  qed
  from wait [of "length es"] obtain s1 where s1: "http_events ops cb tid cid es s = Some (Inr s1)" "awaiting ops tid cid out r (pieces es) s1" by auto
  have d: "d \<noteq> []" using assms(11) by simp
  obtain s' c' where "http_arrive ops cb tid cid ?a s1 = Some (Inr s')" "hs_conns s' cid = Some c'" "tc_inv (out @ response_text resp) (hc_tcp c')"
    "hc_context c' = HttpContext_ctor" "tc_state (hc_tcp c') = (if resp_closeConnection resp then kDisconnecting else kConnected)"
    "Buffer_content (tc_inputBuffer (hc_tcp c')) = rest"
    using last_piece_answered [where cb = cb, OF s1(2) d assms(1,10) all assms(14) assms(16,17) [unfolded assms(15)]] unfolding assms(15) by blast
  moreover have "\<exists>s1 c1. http_events ops cb tid cid (take n es) s = Some (Inr s1) \<and> hs_conns s1 cid = Some c1
        \<and> tc_inv out (hc_tcp c1) \<and> tc_state (hc_tcp c1) = kConnected" for n
    using wait [of n] unfolding awaiting_def by blast
  ultimately show ?thesis using http_events_snoc [OF s1(1), of "Piece ?a"] by auto
qed

text \<open>A request in three pieces with ticks in between, on a connection just made: the first line ends in the second piece.\<close>

definition three_pieces :: "http_event list" where
  "three_pieces = [Piece (3, ''GET /a HT'', None, None), WheelTick 1, WheelTick 1,
     Piece (4, ''TP/1.1'' @ kCRLF @ ''Host'', None, None), WheelTick 1]"

theorem request_in_pieces_answered_witness:
  "\<exists>s0 s s' c'. onConnection ring 7 s0 = Inr s
     \<and> http_events ring defaultHttpCallback 1 7 (three_pieces @ [Piece (5, '': x'' @ kCRLF @ kCRLF @ ''more'', None, Some 5)]) s = Some (Inr s')
     \<and> hs_conns s' 7 = Some c' \<and> tc_state (hc_tcp c') = kDisconnecting \<and> Buffer_content (tc_inputBuffer (hc_tcp c')) = ''more''"
proof -
  let ?r = "\<lparr>req_method = kGet, req_version = kHttp11, req_path = ''/a'', req_query = [],
     req_receiveTime = 0, req_headers = [(''Host'', ''x'')]\<rparr>"
  let ?d = "'': x'' @ kCRLF @ kCRLF @ ''more''"
  let ?q = "?r\<lparr>req_receiveTime := time_of (length (render_target ?r) + 2) (pieces three_pieces @ [(5, ?d, None, Some 5)])\<rparr>"
  let ?p = "defaultHttpCallback ?q (HttpResponse_ctor (must_close ?q))"
  have ok: "request_ok ?r" by (simp add: request_ok_def map_ok_def header_ok_def trimmed_def isspace_def)
  have P: "pieces three_pieces = [(3, ''GET /a HT'', None, None), (4, ''TP/1.1'' @ kCRLF @ ''Host'', None, None)]"
    "wheel_ticks three_pieces = 3" by (simp_all add: three_pieces_def pieces_def wheel_ticks_def)
  have wire: "arrived (pieces three_pieces @ [(5, ?d, None, Some 5)]) = render_request ?r @ ''more''"
    "length (arrived (pieces three_pieces)) < length (render_request ?r)"
    "\<forall>(_, d, _) \<in> set (pieces three_pieces @ [(5, ?d, None, Some 5)]). d \<noteq> []"
    unfolding P(1) by (simp_all add: arrived_def render_request_def render_target_def header_line_def methodString_def kCRLF_def)
  obtain b where b: "Buffer_inv b" "Buffer_content b = []" using Buffer_ctor_ok by blast
  let ?c = "demo_conn b b" and ?s0 = "demo_server (demo_conn b b)"
  have p: "resp_closeConnection ?p" "length (resp_body ?p) < 10 ^ 13" "write_fits (Some 5) (length (response_text ?p))"
    by (simp_all add: defaultHttpCallback_def setCloseConnection_def setStatusMessage_def setStatusCode_def HttpResponse_ctor_def
        write_fits_def response_text_def)
  note D = demo_ok [OF b(1) b]
  have "hs_conns ?s0 7 = Some ?c" "connected (hc_tcp ?c)" "bl_items ring (hs_list ?s0) \<noteq> []" "hs_entries ?s0 = []"
    by (simp_all add: demo_server_def demo_conn_def connected_def ring_def)
  then obtain s c where s: "onConnection ring 7 ?s0 = Inr s" "server_ok ring s" "hs_conns s 7 = Some c" "hc_tcp c = hc_tcp ?c"
    "hc_context c = HttpContext_ctor" "hs_entries s = [(hs_next ?s0, 7)]" "left ring s (hs_next ?s0) = kTimeGap"
    using onConnection_ok [OF ring_laws D(2), of 7 ?c] by auto
  have c: "tc_inv [] (hc_tcp c)" "tc_state (hc_tcp c) = kConnected" "1 = tc_thread (hc_tcp c)" "Buffer_content (tc_inputBuffer (hc_tcp c)) = []"
    using D(1) b(2) by (simp_all add: s(4)) (simp_all add: demo_conn_def)
  have lives: "\<forall>x \<in> set (hs_entries s). snd x = 7 \<longrightarrow> wheel_ticks three_pieces < left ring s (fst x)"
    by (simp add: s(6,7) P(2) kTimeGap_def)
  show ?thesis
    using request_in_pieces_answered [where cb = defaultHttpCallback and req = ?q and resp = ?p and r = ?r,
        OF ring_laws s(2,3,5) c lives ok wire(3,1,2) refl refl p(2,3)] p(1) s(1) by auto
qed

end
