(* ===== verification/Net_Codec.thy ===== *)
theory Net_Codec
  imports Net_Tcp
begin

text \<open>
  \<^verbatim>\<open>net/protobuf/codec/codec.cc\<close>, \<^verbatim>\<open>codec.h\<close> and \<^verbatim>\<open>dispatcher.h\<close>: messages of Google's protocol buffers on a byte stream, each in a
  frame with its length, the name of its type and a checksum, and the table that hands a decoded message
  to the callback of its type. The protobuf library and zlib's \<^verbatim>\<open>adler32\<close> are parameters. What the codec
  calls back is recorded in order.
\<close>

section \<open>Frames on a stream\<close>

text \<open>What a decoder sees at the front of the pending bytes: too few bytes, an item with the number of bytes it takes,
  or bytes it cannot go on with.\<close>

datatype 'e framed = Wait | Item 'e nat | Stop 'e

function unframe :: "(string \<Rightarrow> 'e framed) \<Rightarrow> string \<Rightarrow> 'e list \<times> string" where
  "unframe nx s =
     (case nx s of
        Wait \<Rightarrow> ([], s)
      | Stop x \<Rightarrow> ([x], s)
      | Item x n \<Rightarrow> if 0 < n \<and> n \<le> length s then (x # fst (unframe nx (drop n s)), snd (unframe nx (drop n s))) else ([x], s))"
  by pat_completeness auto
termination by (relation "measure (\<lambda>(_, s). length s)") auto

declare unframe.simps [simp del]

text \<open>The contract of a decoder: an item has at least one byte, and more bytes behind it do not change what it sees.\<close>

locale framing =
  fixes nx :: "string \<Rightarrow> 'e framed"
  assumes item: "nx s = Item x n \<Longrightarrow> 0 < n \<and> n \<le> length s"
    and item_more: "nx s = Item x n \<Longrightarrow> nx (s @ t) = Item x n"
    and stop_more: "nx s = Stop x \<Longrightarrow> nx (s @ t) = Stop x"
begin

lemma unframe_item: "nx s = Item x n \<Longrightarrow> unframe nx s = (x # fst (unframe nx (drop n s)), snd (unframe nx (drop n s)))"
  using item by (simp add: unframe.simps [of nx s])

text \<open>Decoding does not depend on how the bytes arrive.\<close>

lemma chunks:
  "nx (snd (unframe nx s)) = Wait \<Longrightarrow>
     unframe nx (s @ t) = (fst (unframe nx s) @ fst (unframe nx (snd (unframe nx s) @ t)), snd (unframe nx (snd (unframe nx s) @ t)))"
proof (induction "length s" arbitrary: s rule: less_induct)
  case less
  show ?case
  proof (cases "nx s")
    case (Item x n)
    note n = item [OF Item]
    have "length (drop n s) < length s" using n by auto
    note IH = less.hyps [OF this]
    show ?thesis using IH less.prems n by (simp add: unframe_item [OF Item] unframe_item [OF item_more [OF Item]])
  qed (use less.prems in \<open>simp_all add: unframe.simps [of nx s]\<close>)
qed

lemma stops:
  "nx (snd (unframe nx s)) = Stop x \<Longrightarrow> fst (unframe nx (s @ t)) = fst (unframe nx s) \<and> last (fst (unframe nx s)) = x"
proof (induction "length s" arbitrary: s rule: less_induct)
  case less
  show ?case
  proof (cases "nx s")
    case (Item y n)
    note n = item [OF Item]
    have "length (drop n s) < length s" using n by auto
    note IH = less.hyps [OF this]
    have "fst (unframe nx (drop n s)) \<noteq> []"
    proof
      assume "fst (unframe nx (drop n s)) = []"
      then have "nx (drop n s) = Wait" by (subst (asm) unframe.simps) (auto split: framed.splits if_splits)
      then show False using less.prems by (simp add: unframe_item [OF Item] unframe.simps [of nx "drop n s"])
    qed
    then show ?thesis using IH less.prems n by (simp add: unframe_item [OF Item] unframe_item [OF item_more [OF Item]])
  next
    case (Stop y)
    then show ?thesis using less.prems stop_more [OF Stop, of t]
      by (simp add: unframe.simps [of nx s] unframe.simps [of nx "s @ t"])
  qed (use less.prems in \<open>simp_all add: unframe.simps [of nx s]\<close>)
qed

lemma frames:
  assumes "\<And>m t. m \<in> set ms \<Longrightarrow> nx (enc m @ t) = Item (ev m) (length (enc m))"
  shows "unframe nx (concat (map enc ms) @ rest) = (map ev ms @ fst (unframe nx rest), snd (unframe nx rest))"
  using assms
proof (induction ms)
  case (Cons m ms)
  have "nx (enc m @ concat (map enc ms) @ rest) = Item (ev m) (length (enc m))" using Cons.prems by simp
  from unframe_item [OF this] show ?case using Cons by simp
qed simp

text \<open>A prefix of a sequence of frames: the frames it holds whole are decoded, and the decoder waits for the rest of
  the next one.\<close>

lemma frame_prefix_waits:
  assumes "\<And>t. nx (enc m @ t) = Item y (length (enc m))" "p @ q = enc m" "q \<noteq> []"
  shows "nx p = Wait"
proof (cases "nx p")
  case (Item x n)
  have "nx (p @ q) = Item y (length (p @ q))" using assms(1) [of "[]"] assms(2) by simp
  then show ?thesis using item_more [OF Item, of q] item [OF Item] assms(3) by simp
next
  case (Stop x)
  then show ?thesis using stop_more [OF Stop, of q] assms(1) [of "[]"] assms(2) by simp
qed simp

lemma prefix_frames:
  assumes "nx [] = Wait" "\<And>m t. m \<in> set ms \<Longrightarrow> nx (enc m @ t) = Item (ev m) (length (enc m))" "p @ tail = concat (map enc ms)"
  shows "\<exists>k \<le> length ms. fst (unframe nx p) = map ev (take k ms) \<and> concat (map enc (take k ms)) @ snd (unframe nx p) = p
     \<and> nx (snd (unframe nx p)) = Wait \<and> (tail = [] \<longrightarrow> k = length ms)"
  using assms(2,3)
proof (induction ms arbitrary: p)
  case Nil
  then show ?case using assms(1) by (simp add: unframe.simps [of nx "[]"])
next
  case (Cons m ms)
  show ?case
  proof (cases "length (enc m) \<le> length p")
    case True
    have "take (length (enc m)) (p @ tail) = enc m" unfolding Cons.prems(2) by simp
    then have "p = enc m @ drop (length (enc m)) p" using True append_take_drop_id [of "length (enc m)" p] by simp
    then obtain p' where p: "p = enc m @ p'" ..
    then obtain k where k: "k \<le> length ms" "fst (unframe nx p') = map ev (take k ms)" "concat (map enc (take k ms)) @ snd (unframe nx p') = p'"
      "nx (snd (unframe nx p')) = Wait" "tail = [] \<longrightarrow> k = length ms"
      using Cons.IH [of p'] Cons.prems by auto
    have "unframe nx p = (ev m # fst (unframe nx p'), snd (unframe nx p'))"
      using unframe_item [of p "ev m" "length (enc m)"] Cons.prems(1) p by simp
    then show ?thesis using k p by (intro exI [of _ "Suc k"]) simp
  next
    case False
    have "take (length p) (enc m) = take (length p) (concat (map enc (m # ms)))" using False by simp
    also have "\<dots> = p" unfolding Cons.prems(2) [symmetric] by simp
    finally have "p @ drop (length p) (enc m) = enc m" using append_take_drop_id [of "length p" "enc m"] by simp
    then obtain q where q: "p @ q = enc m" "q \<noteq> []" using False by (metis append_Nil2 order_refl)
    then have "nx p = Wait" using Cons.prems(1) [of m] by (intro frame_prefix_waits [of enc m "ev m"]) auto
    moreover have "tail \<noteq> []" using False Cons.prems(2) by auto
    ultimately show ?thesis by (intro exI [of _ 0]) (simp add: unframe.simps [of nx p])
  qed
qed

end

section \<open>The codec\<close>

record 'm protobuf =
  pb_typeName :: "'m \<Rightarrow> string"
  pb_isInitialized :: "'m \<Rightarrow> bool"             \<comment> \<open>every required field is set\<close>
  pb_byteSize :: "'m \<Rightarrow> nat"
  pb_serialize :: "'m \<Rightarrow> string"
  pb_create :: "string \<Rightarrow> 'm option"             \<comment> \<open>the prototype registered under a name\<close>
  pb_parse :: "'m \<Rightarrow> string \<Rightarrow> 'm option"         \<comment> \<open>\<^verbatim>\<open>ParseFromArray\<close> into a new object\<close>
  pb_adler32 :: "string \<Rightarrow> 32 word"              \<comment> \<open>\<^verbatim>\<open>adler32(1, \<dots>)\<close>\<close>

datatype ErrorCode = kNoError | kInvalidLength | kCheckSumError | kInvalidNameLen | kUnknownMessageType | kParseError

datatype 'm codec_event = CMessage 'm | CError ErrorCode

definition kHeaderLen :: nat where "kHeaderLen = 4"
definition kMinMessageLen :: nat where "kMinMessageLen = 2 * 4 + 2"
definition kMaxMessageLen :: nat where "kMaxMessageLen = 64 * 1024 * 1024"

primrec errorCodeToString :: "ErrorCode \<Rightarrow> string" where
  "errorCodeToString kNoError = ''NoError''"
| "errorCodeToString kInvalidLength = ''InvalidLength''"
| "errorCodeToString kCheckSumError = ''CheckSumError''"
| "errorCodeToString kInvalidNameLen = ''InvalidNameLen''"
| "errorCodeToString kUnknownMessageType = ''UnknownMessageType''"
| "errorCodeToString kParseError = ''ParseError''"

definition fillEmptyBuffer :: "'m protobuf \<Rightarrow> 'm \<Rightarrow> Buffer \<Rightarrow> Buffer result" where
  "fillEmptyBuffer pb message buf =
     assertR ''buf->readableBytes() == 0'' (readableBytes buf = 0)
     (let typeName = pb_typeName pb message;
          nameLen = length typeName + 1;
          byte_size = pb_byteSize pb message;
          bytes = pb_serialize pb message in
      bindR (appendInt32 (word_of_nat nameLen) buf) (\<lambda>buf.
      bindR (Buffer_append (typeName @ [CHR 0x00]) buf) (\<lambda>buf.
      if \<not> pb_isInitialized pb message then Inl (LogFatal ''message.IsInitialized()'') else
      bindR (ensureWritableBytes byte_size buf) (\<lambda>buf.
      bindR (vec_write (buffer buf) (beginWrite buf) bytes) (\<lambda>v.
      if length bytes \<noteq> byte_size then Inl (LogFatal ''ByteSizeConsistencyError'')
      else
        let buf = hasWritten byte_size (buf\<lparr>buffer := v\<rparr>) in
        bindR (vec_read (buffer buf) (peek buf) (peek buf + readableBytes buf)) (\<lambda>d.
        let checkSum = pb_adler32 pb d in
        bindR (appendInt32 checkSum buf) (\<lambda>buf.
        assertR ''buf->readableBytes() == sizeof nameLen + nameLen + byte_size + sizeof checkSum''
          (readableBytes buf = 4 + nameLen + byte_size + 4)
          (let len = hostToNetwork32 (word_of_nat (readableBytes buf))
           in prepend (le_bytes 4 (unat len)) buf))))))))"

definition Codec_send :: "'m protobuf \<Rightarrow> nat \<Rightarrow> nat option \<Rightarrow> 'm \<Rightarrow> TcpConnection \<Rightarrow> TcpConnection result" where
  "Codec_send pb tid w message conn =
     bindR Buffer_ctor (\<lambda>buf. bindR (fillEmptyBuffer pb message buf) (\<lambda>buf.
       bindR (TcpConnection_sendBuffer tid w buf conn) (\<lambda>(buf, conn). Inr conn)))"

definition asInt32 :: "string \<Rightarrow> int" where
  "asInt32 bytes = sint (networkToHost32 (word_of_nat (le_nat (take 4 bytes))))"

definition createMessage :: "'m protobuf \<Rightarrow> string \<Rightarrow> 'm option" where
  "createMessage pb typeName = pb_create pb typeName"

text \<open>\<open>buf\<close> are the \<open>len\<close> bytes behind the length field.\<close>

definition codec_parse :: "'m protobuf \<Rightarrow> string \<Rightarrow> ErrorCode \<times> 'm option" where
  "codec_parse pb buf =
     (let len = length buf;
          expectedCheckSum = asInt32 (drop (len - kHeaderLen) buf);
          checkSum = sint (pb_adler32 pb (take (len - kHeaderLen) buf)) in
      if checkSum = expectedCheckSum then
        let nameLen = asInt32 buf in
        if 2 \<le> nameLen \<and> nameLen \<le> int len - 2 * int kHeaderLen then
          let typeName = take (nat nameLen - 1) (drop kHeaderLen buf) in
          case createMessage pb typeName of
            Some message \<Rightarrow>
              let data = take (len - nat nameLen - 2 * kHeaderLen) (drop (kHeaderLen + nat nameLen) buf) in
              (case pb_parse pb message data of
                 Some message \<Rightarrow> (kNoError, Some message)
               | None \<Rightarrow> (kParseError, Some message))
          | None \<Rightarrow> (kUnknownMessageType, None)
        else (kInvalidNameLen, None)
      else (kCheckSumError, None))"

definition defaultErrorCallback :: "nat \<Rightarrow> TcpConnection \<Rightarrow> TcpConnection result" where
  "defaultErrorCallback tid conn = (if connected conn then shutdown tid conn else Inr conn)"

partial_function (option) codec_loop ::
  "'m protobuf \<Rightarrow> 'm codec_event list \<Rightarrow> Buffer \<Rightarrow> ('m codec_event list \<times> Buffer) result option" where
  "codec_loop pb called buf =
     (if kHeaderLen + kMinMessageLen \<le> readableBytes buf then
        (case peekInt32 buf of
           Inl e \<Rightarrow> Some (Inl e)
         | Inr x \<Rightarrow>
             let len = sint x in
             if int kMaxMessageLen < len \<or> len < int kMinMessageLen
             then Some (Inr (called @ [CError kInvalidLength], buf))
             else if kHeaderLen + nat len \<le> readableBytes buf then
               (case vec_read (buffer buf) (peek buf + kHeaderLen) (peek buf + kHeaderLen + nat len) of
                  Inl e \<Rightarrow> Some (Inl e)
                | Inr d \<Rightarrow>
                    (case codec_parse pb d of
                       (errorCode, message) \<Rightarrow>
                         if errorCode = kNoError \<and> message \<noteq> None
                         then (case retrieve (kHeaderLen + nat len) buf of
                                 Inl e \<Rightarrow> Some (Inl e)
                               | Inr buf' \<Rightarrow> codec_loop pb (called @ [CMessage (the message)]) buf')
                         else Some (Inr (called @ [CError errorCode], buf))))
             else Some (Inr (called, buf)))
      else Some (Inr (called, buf)))"

definition Codec_onMessage :: "'m protobuf \<Rightarrow> Buffer \<Rightarrow> ('m codec_event list \<times> Buffer) result option" where
  "Codec_onMessage pb buf = codec_loop pb [] buf"

section \<open>The dispatcher\<close>

text \<open>Callbacks by the descriptor of the message type.\<close>

record ('d, 'f) ProtobufDispatcher =
  dp_callbacks :: "'d \<rightharpoonup> 'f"
  dp_default :: 'f

definition ProtobufDispatcher_ctor :: "'f \<Rightarrow> ('d, 'f) ProtobufDispatcher" where
  "ProtobufDispatcher_ctor defaultCb = \<lparr>dp_callbacks = Map.empty, dp_default = defaultCb\<rparr>"

definition registerMessageCallback :: "'d \<Rightarrow> 'f \<Rightarrow> ('d, 'f) ProtobufDispatcher \<Rightarrow> ('d, 'f) ProtobufDispatcher" where
  "registerMessageCallback descriptor callback p = p\<lparr>dp_callbacks := (dp_callbacks p)(descriptor \<mapsto> callback)\<rparr>"

text \<open>The callback that is run for a message.\<close>

definition onProtobufMessage :: "('m \<Rightarrow> 'd) \<Rightarrow> 'm \<Rightarrow> ('d, 'f) ProtobufDispatcher \<Rightarrow> 'f" where
  "onProtobufMessage descriptor message p =
     (case dp_callbacks p (descriptor message) of Some callback \<Rightarrow> callback | None \<Rightarrow> dp_default p)"

section \<open>The decoder on byte strings\<close>

definition codec_next :: "'m protobuf \<Rightarrow> string \<Rightarrow> 'm codec_event framed" where
  "codec_next pb s =
     (if length s < kHeaderLen + kMinMessageLen then Wait
      else let len = asInt32 s in
        if int kMaxMessageLen < len \<or> len < int kMinMessageLen then Stop (CError kInvalidLength)
        else if kHeaderLen + nat len \<le> length s then
          (case codec_parse pb (take (nat len) (drop kHeaderLen s)) of
             (errorCode, message) \<Rightarrow>
               if errorCode = kNoError \<and> message \<noteq> None then Item (CMessage (the message)) (kHeaderLen + nat len)
               else Stop (CError errorCode))
        else Wait)"

lemmas codec_lens = kHeaderLen_def kMinMessageLen_def

lemma asInt32_more: "4 \<le> length s \<Longrightarrow> asInt32 (s @ t) = asInt32 s"
  by (simp add: asInt32_def)

lemma codec_next_more:
  assumes "codec_next pb s \<noteq> Wait"
  shows "codec_next pb (s @ t) = codec_next pb s"
proof -
  have l: "\<not> length s < kHeaderLen + kMinMessageLen" using assms by (auto simp: codec_next_def)
  then have a: "asInt32 (s @ t) = asInt32 s" by (intro asInt32_more) (simp add: codec_lens)
  show ?thesis
  proof (cases "int kMaxMessageLen < asInt32 s \<or> asInt32 s < int kMinMessageLen")
    case True
    then show ?thesis using l a by (simp add: codec_next_def)
  next
    case False
    have n: "kHeaderLen + nat (asInt32 s) \<le> length s" using assms l False by (auto simp: codec_next_def Let_def split: if_splits)
    then have "take (nat (asInt32 s)) (drop kHeaderLen (s @ t)) = take (nat (asInt32 s)) (drop kHeaderLen s)" by simp
    then show ?thesis using l a n False by (simp add: codec_next_def Let_def)
  qed
qed

interpretation cd: framing "codec_next pb" for pb :: "'m protobuf"
proof
  show "0 < n \<and> n \<le> length s" if "codec_next pb s = Item x n" for s x n
    using that by (auto simp: codec_next_def Let_def kHeaderLen_def split: if_splits prod.splits)
  show "codec_next pb (s @ t) = Item x n" if "codec_next pb s = Item x n" for s x n t
    using codec_next_more [of pb s t] that by simp
  show "codec_next pb (s @ t) = Stop x" if "codec_next pb s = Stop x" for s x t
    using codec_next_more [of pb s t] that by simp
qed

section \<open>The loop refines the decoder\<close>

lemma vec_read_part:
  assumes "Buffer_inv b" "i + n \<le> length (Buffer_content b)"
  shows "vec_read (buffer b) (peek b + i) (peek b + i + n) = Inr (take n (drop i (Buffer_content b)))"
proof -
  have "readerIndex b + (i + n) \<le> writerIndex b" using assms Buffer_inv_idx(1) [OF assms(1)] by simp
  moreover have "take n (drop i (Buffer_content b)) = take n (drop (readerIndex b + i) (buffer b))"
    using assms(2) length_Buffer_content [OF assms(1)] by (simp add: Buffer_content_def drop_take min_def add.commute)
  ultimately show ?thesis using Buffer_inv_idx [OF assms(1)] by (simp add: vec_read_def peek_def)
qed

lemma peekInt32_content:
  assumes "Buffer_inv b" "4 \<le> length (Buffer_content b)"
  shows "\<exists>x. peekInt32 b = Inr x \<and> sint x = asInt32 (Buffer_content b)"
  using vec_read_part [OF assms(1), of 0 4] assms by (simp add: peekInt32_def readableBytes_eq asInt32_def)

lemma codec_loop_refines:
  "Buffer_inv b \<Longrightarrow> \<exists>b'. codec_loop pb called b = Some (Inr (called @ fst (unframe (codec_next pb) (Buffer_content b)), b'))
     \<and> Buffer_inv b' \<and> Buffer_content b' = snd (unframe (codec_next pb) (Buffer_content b))"
proof (induction "length (Buffer_content b)" arbitrary: b called rule: less_induct)
  case less
  define s where "s = Buffer_content b"
  have r: "readableBytes b = length s" using readableBytes_eq [OF less.prems] by (simp add: s_def)
  note U = unframe.simps [of "codec_next pb" s]
  show ?case
  proof (cases "length s < kHeaderLen + kMinMessageLen")
    case True
    then have "codec_next pb s = Wait" by (simp add: codec_next_def)
    then show ?thesis using True less.prems r by (simp add: codec_loop.simps [of pb called b] U flip: s_def)
  next
    case long: False
    then obtain x where x: "peekInt32 b = Inr x" "sint x = asInt32 s"
      using peekInt32_content [OF less.prems] by (auto simp: s_def [symmetric] codec_lens)
    show ?thesis
    proof (cases "int kMaxMessageLen < asInt32 s \<or> asInt32 s < int kMinMessageLen")
      case True
      then have "codec_next pb s = Stop (CError kInvalidLength)" using long by (simp add: codec_next_def)
      then show ?thesis using True long less.prems r x by (simp add: codec_loop.simps [of pb called b] U flip: s_def)
    next
      case len: False
      define n where "n = nat (asInt32 s)"
      show ?thesis
      proof (cases "kHeaderLen + n \<le> length s")
        case False
        then have "codec_next pb s = Wait" using long len by (simp add: codec_next_def n_def Let_def)
        then show ?thesis using False long len less.prems r x by (simp add: codec_loop.simps [of pb called b] U n_def flip: s_def)
      next
        case True
        have d: "vec_read (buffer b) (peek b + kHeaderLen) (peek b + kHeaderLen + n) = Inr (take n (drop kHeaderLen s))"
          using vec_read_part [OF less.prems, of kHeaderLen n] True by (simp add: s_def)
        obtain err msg where p: "codec_parse pb (take n (drop kHeaderLen s)) = (err, msg)" by fastforce
        have nx: "codec_next pb s = (if err = kNoError \<and> msg \<noteq> None then Item (CMessage (the msg)) (kHeaderLen + n) else Stop (CError err))"
          using long len True p by (simp add: codec_next_def n_def Let_def)
        show ?thesis
        proof (cases "err = kNoError \<and> msg \<noteq> None")
          case good: True
          obtain b1 where b1: "retrieve (kHeaderLen + n) b = Inr b1" "Buffer_inv b1" "Buffer_content b1 = drop (kHeaderLen + n) s"
            using retrieve_ok [OF less.prems] True by (auto simp: s_def)
          have "length (Buffer_content b1) < length (Buffer_content b)" using b1(3) True unfolding s_def [symmetric] by (simp add: codec_lens)
          from less.hyps [OF this b1(2), of "called @ [CMessage (the msg)]"] obtain b' where b':
              "codec_loop pb (called @ [CMessage (the msg)]) b1 = Some (Inr (called @ CMessage (the msg) # fst (unframe (codec_next pb) (Buffer_content b1)), b'))"
              "Buffer_inv b'" "Buffer_content b' = snd (unframe (codec_next pb) (Buffer_content b1))" by auto
          have u: "unframe (codec_next pb) s = (CMessage (the msg) # fst (unframe (codec_next pb) (Buffer_content b1)), snd (unframe (codec_next pb) (Buffer_content b1)))"
            using nx good True by (simp add: U b1(3) codec_lens)
          have "codec_loop pb called b = codec_loop pb (called @ [CMessage (the msg)]) b1"
            using long len True good r x d p b1(1) by (simp add: codec_loop.simps [of pb called b] n_def)
          then show ?thesis using b' u unfolding s_def [symmetric] by simp
        next
          case False
          then have "codec_next pb s = Stop (CError err)" using nx by simp
          moreover have "codec_loop pb called b = Some (Inr (called @ [CError err], b))"
            using long len True False r x d p by (auto simp: codec_loop.simps [of pb called b] n_def)
          ultimately show ?thesis using less.prems by (simp add: U flip: s_def)
        qed
      qed
    qed
  qed
qed

section \<open>Frames\<close>

definition payload :: "'m protobuf \<Rightarrow> 'm \<Rightarrow> string" where
  "payload pb m = be_bytes 4 (length (pb_typeName pb m) + 1) @ pb_typeName pb m @ [CHR 0x00] @ pb_serialize pb m"

definition frame :: "'m protobuf \<Rightarrow> 'm \<Rightarrow> string" where
  "frame pb m = be_bytes 4 (length (payload pb m) + 4) @ payload pb m @ be_bytes 4 (unat (pb_adler32 pb (payload pb m)))"

text \<open>What is used of the library for a message: it has a type name and all its required fields, its size and its serialized
  bytes agree, and parsing the bytes into a new object of the type gives the message back.\<close>

definition pb_laws :: "'m protobuf \<Rightarrow> 'm \<Rightarrow> bool" where
  "pb_laws pb m = (pb_isInitialized pb m \<and> pb_byteSize pb m = length (pb_serialize pb m) \<and> pb_typeName pb m \<noteq> []
     \<and> (\<exists>p. pb_create pb (pb_typeName pb m) = Some p \<and> pb_parse pb p (pb_serialize pb m) = Some m))"

definition fits_frame :: "'m protobuf \<Rightarrow> 'm \<Rightarrow> bool" where
  "fits_frame pb m = (length (payload pb m) + 4 \<le> kMaxMessageLen)"

lemma length_payload: "length (payload pb m) = 4 + length (pb_typeName pb m) + 1 + length (pb_serialize pb m)"
  by (simp add: payload_def)

lemma unat_of_nat32: "n < 2 ^ 32 \<Longrightarrow> unat (word_of_nat n :: 32 word) = n"
  by (simp add: unat_of_nat)

lemma asInt32_be: "n < 2 ^ 31 \<Longrightarrow> asInt32 (be_bytes 4 n @ t) = int n"
proof -
  assume n: "n < 2 ^ 31"
  then have u: "unat (word_of_nat n :: 32 word) = n" by (intro unat_of_nat32) simp
  have "networkToHost32 (word_of_nat (le_nat (be_bytes 4 n))) = word_of_nat n"
    using ntoh32_be_bytes [of "word_of_nat n"] unfolding u .
  then show ?thesis using n by (simp add: asInt32_def signed_of_nat signed_take_bit_int_eq_self)
qed

lemma sint_eq_iff: "sint v = sint w \<longleftrightarrow> v = w" for v w :: "32 word"
  using word_eq_iff_signed [of v w] by blast

lemma asInt32_word: "asInt32 (be_bytes 4 (unat x) @ t) = sint x" for x :: "32 word"
  by (simp add: asInt32_def ntoh32_be_bytes)

lemma fillEmptyBuffer_ok:
  assumes b: "Buffer_inv b" "Buffer_content b = []" "8 \<le> prependableBytes b"
    and m: "pb_laws pb m" "fits_frame pb m"
  shows "\<exists>b'. fillEmptyBuffer pb m b = Inr b' \<and> Buffer_inv b' \<and> Buffer_content b' = frame pb m"
proof -
  have size: "pb_byteSize pb m = length (pb_serialize pb m)" and init: "pb_isInitialized pb m = True" using m(1) by (simp_all add: pb_laws_def)
  let ?nl = "length (pb_typeName pb m) + 1"
  have lim: "length (payload pb m) + 4 < 2 ^ 31" using m(2) by (simp add: fits_frame_def kMaxMessageLen_def)
  then have nl: "unat (word_of_nat ?nl :: 32 word) = ?nl" by (intro unat_of_nat32) (simp add: length_payload)
  obtain b1 where b1: "appendInt32 (word_of_nat ?nl) b = Inr b1" "Buffer_inv b1" "Buffer_content b1 = be_bytes 4 ?nl" "8 \<le> prependableBytes b1"
    using appendInt32_ok [OF b(1), of "word_of_nat ?nl"] b(2,3) nl by auto
  obtain b2 where b2: "Buffer_append (pb_typeName pb m @ [CHR 0x00]) b1 = Inr b2" "Buffer_inv b2"
      "Buffer_content b2 = be_bytes 4 ?nl @ pb_typeName pb m @ [CHR 0x00]" "8 \<le> prependableBytes b2"
    using Buffer_append_ok [OF b1(2), of "pb_typeName pb m @ [CHR 0x00]"] b1(3,4) by auto
  obtain b4 where b4: "Buffer_append (pb_serialize pb m) b2 = Inr b4" "Buffer_inv b4" "Buffer_content b4 = payload pb m" "8 \<le> prependableBytes b4"
    using Buffer_append_ok [OF b2(2), of "pb_serialize pb m"] b2(3,4) by (auto simp: payload_def)
  obtain b3 v where b3: "ensureWritableBytes (pb_byteSize pb m) b2 = Inr b3" "vec_write (buffer b3) (beginWrite b3) (pb_serialize pb m) = Inr v"
      "hasWritten (pb_byteSize pb m) (b3\<lparr>buffer := v\<rparr>) = b4"
    using b4(1) by (auto simp: Buffer_append_def bindR_eq_Inr size)
  have rd: "vec_read (buffer b4) (peek b4) (peek b4 + readableBytes b4) = Inr (payload pb m)"
    using vec_read_part [OF b4(2), of 0 "length (payload pb m)"] b4(3) readableBytes_eq [OF b4(2)] by simp
  obtain b5 where b5: "appendInt32 (pb_adler32 pb (payload pb m)) b4 = Inr b5" "Buffer_inv b5"
      "Buffer_content b5 = payload pb m @ be_bytes 4 (unat (pb_adler32 pb (payload pb m)))" "8 \<le> prependableBytes b5"
    using appendInt32_ok [OF b4(2), of "pb_adler32 pb (payload pb m)"] b4(3,4) by auto
  have rb: "readableBytes b5 = length (payload pb m) + 4" using readableBytes_eq [OF b5(2)] b5(3) by simp
  have ln: "le_bytes 4 (unat (hostToNetwork32 (word_of_nat (length (payload pb m) + 4)))) = be_bytes 4 (length (payload pb m) + 4)"
    using unat_of_nat32 [of "length (payload pb m) + 4"] lim by (simp add: le_bytes_hton)
  obtain b6 where b6: "prepend (be_bytes 4 (length (payload pb m) + 4)) b5 = Inr b6" "Buffer_inv b6" "Buffer_content b6 = frame pb m"
    using prepend_ok [OF b5(2), of "be_bytes 4 (length (payload pb m) + 4)"] b5(3,4) by (auto simp: frame_def)
  have "readableBytes b = 0" using readableBytes_eq [OF b(1)] b(2) by simp
  then have "fillEmptyBuffer pb m b = prepend (be_bytes 4 (length (payload pb m) + 4)) b5"
    unfolding fillEmptyBuffer_def Let_def
    by (simp only: assertR_simps b1(1) b2(1) init b3 [unfolded size] bindR_simps size not_True_eq_False not_not if_False refl rd b5(1) rb ln)
       (simp add: size length_payload)
  then show ?thesis using b6 by simp
qed

text \<open>A frame is decoded as its message.\<close>

lemma codec_next_frame:
  assumes m: "pb_laws pb m" "fits_frame pb m"
  shows "codec_next pb (frame pb m @ t) = Item (CMessage m) (length (frame pb m))"
proof -
  define p where "p = payload pb m"
  define c where "c = be_bytes 4 (unat (pb_adler32 pb p))"
  have lim: "length p + 4 < 2 ^ 31" "length p + 4 \<le> kMaxMessageLen" using m(2) by (simp_all add: fits_frame_def kMaxMessageLen_def p_def)
  have lc: "length c = 4" by (simp add: c_def)
  have tn: "pb_typeName pb m \<noteq> []" using m(1) by (simp add: pb_laws_def)
  then have lp: "length p = 4 + length (pb_typeName pb m) + 1 + length (pb_serialize pb m)" "1 \<le> length (pb_typeName pb m)"
    by (simp_all add: p_def length_payload Suc_le_eq)
  obtain q where q: "pb_create pb (pb_typeName pb m) = Some q" "pb_parse pb q (pb_serialize pb m) = Some m"
    using m(1) by (auto simp: pb_laws_def)
  have f: "frame pb m = be_bytes 4 (length p + 4) @ p @ c" by (simp add: frame_def p_def c_def)
  have a: "asInt32 (frame pb m @ t) = int (length p + 4)" using asInt32_be [of "length p + 4" "p @ c @ t"] lim(1) by (simp add: f)
  have body: "take (length p + 4) (drop kHeaderLen (frame pb m @ t)) = p @ c" by (simp add: f kHeaderLen_def lc)
  have nl: "asInt32 (p @ c) = int (length (pb_typeName pb m) + 1)"
    unfolding p_def payload_def append_assoc by (rule asInt32_be) (use lim(1) lp in simp)
  have cs: "asInt32 (drop (length (p @ c) - kHeaderLen) (p @ c)) = sint (pb_adler32 pb (take (length (p @ c) - kHeaderLen) (p @ c)))"
    using asInt32_word [of "pb_adler32 pb p" "[]"] by (simp add: lc kHeaderLen_def c_def)
  have name: "take (length (pb_typeName pb m)) (drop kHeaderLen (p @ c)) = pb_typeName pb m"
    by (simp add: p_def payload_def kHeaderLen_def)
  have data: "take (length (p @ c) - (length (pb_typeName pb m) + 1) - 2 * kHeaderLen) (drop (kHeaderLen + (length (pb_typeName pb m) + 1)) (p @ c)) = pb_serialize pb m"
    using lp lc by (simp add: p_def payload_def kHeaderLen_def)
  have "codec_parse pb (p @ c) = (kNoError, Some m)"
  proof -
    have n: "nat (int (length (pb_typeName pb m) + 1)) = length (pb_typeName pb m) + 1" by (rule nat_int)
    have ok: "2 \<le> int (length (pb_typeName pb m) + 1) \<and> int (length (pb_typeName pb m) + 1) \<le> int (length (p @ c)) - 2 * int kHeaderLen"
      using lp lc by (simp add: kHeaderLen_def)
    have n1: "length (pb_typeName pb m) + 1 - 1 = length (pb_typeName pb m)" by simp
    show ?thesis unfolding codec_parse_def Let_def cs nl n
      unfolding n1 name data createMessage_def by (simp only: ok q refl if_True option.case simp_thms)
  qed
  moreover have "length (frame pb m) = kHeaderLen + (length p + 4)" by (simp add: f lc kHeaderLen_def)
  moreover have "\<not> length (frame pb m @ t) < kHeaderLen + kMinMessageLen" using lp tn by (simp add: f lc codec_lens)
  moreover have "\<not> (int kMaxMessageLen < asInt32 (frame pb m @ t) \<or> asInt32 (frame pb m @ t) < int kMinMessageLen)"
    using lim(2) lp unfolding a by (simp add: kMinMessageLen_def)
  ultimately show ?thesis unfolding codec_next_def a Let_def nat_int body by simp
qed

text \<open>Sending a message is sending its frame.\<close>

lemma Codec_send_any:
  assumes "pb_laws pb m" "fits_frame pb m"
  shows "Codec_send pb tid w m c = TcpConnection_send tid w (frame pb m) c"
proof -
  obtain b0 where b0: "Buffer_ctor = Inr b0" "Buffer_inv b0" "Buffer_content b0 = []" "8 \<le> prependableBytes b0" using Buffer_ctor_ok by fastforce
  obtain b1 where b1: "fillEmptyBuffer pb m b0 = Inr b1" "Buffer_inv b1" "Buffer_content b1 = frame pb m"
    using fillEmptyBuffer_ok [OF b0(2,3,4) assms] by blast
  obtain b2 where "retrieveAsString b1 = Inr (frame pb m, b2)" using retrieveAsString_ok [OF b1(2)] b1(3) by auto
  then show ?thesis using b1(1)
    by (cases "tid = tc_thread c"; cases "sendInLoop tid w (frame pb m) c")
       (simp_all add: Codec_send_def b0(1) TcpConnection_sendBuffer_def TcpConnection_send_def)
qed

lemma Codec_send_eq:
  assumes "pb_laws pb m" "fits_frame pb m" "tc_state c = kConnected" "tid = tc_thread c"
  shows "Codec_send pb tid w m c = sendInLoop tid w (frame pb m) c"
  using Codec_send_any [OF assms(1,2)] assms(3,4) by (simp add: TcpConnection_send_def)

section \<open>Properties\<close>

text \<open>C12. Whatever bytes arrive, the codec's loop returns, stays inside the buffer and calls back exactly what the decoder of the
  byte stream says: each complete valid message once and in order, at most one error, after which it looks at nothing
  more; what it has not decoded stays in the buffer.\<close>

theorem codec_refines:
  assumes "Buffer_inv b"
  shows "\<exists>b'. Codec_onMessage pb b = Some (Inr (fst (unframe (codec_next pb) (Buffer_content b)), b'))
     \<and> Buffer_inv b' \<and> Buffer_content b' = snd (unframe (codec_next pb) (Buffer_content b))"
  using codec_loop_refines [OF assms, of pb "[]"] by (simp add: Codec_onMessage_def)

text \<open>A library whose messages are a type name and a text.\<close>

definition text_pb :: "(string \<times> string) protobuf" where
  "text_pb = \<lparr>pb_typeName = fst, pb_isInitialized = (\<lambda>m. True), pb_byteSize = (\<lambda>m. length (snd m)), pb_serialize = snd, pb_create = (\<lambda>n. Some (n, [])),
     pb_parse = (\<lambda>m d. Some (fst m, d)), pb_adler32 = (\<lambda>s. word_of_nat (sum_list (map of_char s) + 1))\<rparr>"

lemma text_pb_ok: "fst m \<noteq> [] \<Longrightarrow> pb_laws text_pb m" "length (fst m) + length (snd m) < 1000 \<Longrightarrow> fits_frame text_pb m"
  by (cases m) (simp_all add: pb_laws_def text_pb_def fits_frame_def length_payload kMaxMessageLen_def)

theorem codec_refines_witness:
  "\<exists>b b'. Codec_onMessage text_pb b = Some (Inr ([], b')) \<and> Buffer_content b' = ''abc''"
proof -
  obtain b0 where b0: "Buffer_inv b0" "Buffer_content b0 = []" using Buffer_ctor_ok by blast
  obtain b where b: "Buffer_inv b" "Buffer_content b = ''abc''" using Buffer_append_ok [OF b0(1), of "''abc''"] b0(2) by auto
  have "unframe (codec_next text_pb) ''abc'' = ([], ''abc'')" by (simp add: unframe.simps codec_next_def codec_lens)
  then show ?thesis using codec_refines [OF b(1), of text_pb] b(2) by auto
qed

text \<open>A stream that arrives in pieces: each is appended to the buffer and the codec runs.\<close>

fun codec_deliver :: "'m protobuf \<Rightarrow> string list \<Rightarrow> Buffer \<Rightarrow> ('m codec_event list \<times> Buffer) result option" where
  "codec_deliver pb [] buf = Some (Inr ([], buf))"
| "codec_deliver pb (d # ds) buf =
     (case Buffer_append d buf of
        Inl e \<Rightarrow> Some (Inl e)
      | Inr buf1 \<Rightarrow>
          (case Codec_onMessage pb buf1 of
             None \<Rightarrow> None
           | Some (Inl e) \<Rightarrow> Some (Inl e)
           | Some (Inr (called, buf2)) \<Rightarrow>
               (case codec_deliver pb ds buf2 of
                  None \<Rightarrow> None
                | Some (Inl e) \<Rightarrow> Some (Inl e)
                | Some (Inr (called', buf3)) \<Rightarrow> Some (Inr (called @ called', buf3)))))"

abbreviation frames_of :: "'m protobuf \<Rightarrow> 'm list \<Rightarrow> string" where
  "frames_of pb ms \<equiv> concat (map (frame pb) ms)"

lemma frames_framed:
  "\<forall>m \<in> set ms. pb_laws pb m \<and> fits_frame pb m \<Longrightarrow> m \<in> set ms \<Longrightarrow> codec_next pb (frame pb m @ t) = Item (CMessage m) (length (frame pb m))"
  by (rule codec_next_frame) simp_all

lemma codec_next_Nil: "codec_next pb [] = Wait"
  by (simp add: codec_next_def codec_lens)

lemma deliver_frames:
  assumes "\<forall>m \<in> set ms. pb_laws pb m \<and> fits_frame pb m" "Buffer_inv b" "codec_next pb (Buffer_content b) = Wait"
    and "Buffer_content b @ concat ds @ tail = frames_of pb ms"
  shows "\<exists>k b'. k \<le> length ms \<and> codec_deliver pb ds b = Some (Inr (map CMessage (take k ms), b')) \<and> Buffer_inv b'
     \<and> codec_next pb (Buffer_content b') = Wait \<and> frames_of pb (take k ms) @ Buffer_content b' = Buffer_content b @ concat ds"
  using assms
proof (induction ds arbitrary: b ms)
  case Nil
  then show ?case by (intro exI [of _ 0] exI [of _ b]) simp
next
  case (Cons d ds)
  obtain b1 where b1: "Buffer_append d b = Inr b1" "Buffer_inv b1" "Buffer_content b1 = Buffer_content b @ d"
    using Buffer_append_ok [OF Cons.prems(2), of d] by blast
  have "Buffer_content b1 @ (concat ds @ tail) = frames_of pb ms" using Cons.prems(4) b1(3) by simp
  from cd.prefix_frames [OF codec_next_Nil frames_framed [OF Cons.prems(1)] this]
  obtain k where k: "k \<le> length ms" "fst (unframe (codec_next pb) (Buffer_content b1)) = map CMessage (take k ms)"
    "frames_of pb (take k ms) @ snd (unframe (codec_next pb) (Buffer_content b1)) = Buffer_content b1"
    "codec_next pb (snd (unframe (codec_next pb) (Buffer_content b1))) = Wait" by blast
  obtain b2 where b2: "Codec_onMessage pb b1 = Some (Inr (map CMessage (take k ms), b2))" "Buffer_inv b2"
    "Buffer_content b2 = snd (unframe (codec_next pb) (Buffer_content b1))"
    using codec_loop_refines [OF b1(2), of pb "[]"] k(2) by (auto simp: Codec_onMessage_def)
  have "frames_of pb (take k ms) @ frames_of pb (drop k ms) = frames_of pb ms"
    unfolding concat_append [symmetric] map_append [symmetric] by simp
  also have "\<dots> = frames_of pb (take k ms) @ Buffer_content b2 @ concat ds @ tail"
    using Cons.prems(4) k(3) b1(3) b2(3) by (metis append_assoc concat.simps(2))
  finally have "Buffer_content b2 @ concat ds @ tail = frames_of pb (drop k ms)" by simp
  moreover have "\<forall>m \<in> set (drop k ms). pb_laws pb m \<and> fits_frame pb m" using Cons.prems(1) by (meson in_set_dropD)
  ultimately obtain j b3 where j: "j \<le> length (drop k ms)" "codec_deliver pb ds b2 = Some (Inr (map CMessage (take j (drop k ms)), b3))" "Buffer_inv b3"
    "codec_next pb (Buffer_content b3) = Wait" "frames_of pb (take j (drop k ms)) @ Buffer_content b3 = Buffer_content b2 @ concat ds"
    using Cons.IH [of "drop k ms" b2] b2(2,3) k(4) by auto
  have "codec_deliver pb (d # ds) b = Some (Inr (map CMessage (take (k + j) ms), b3))"
    using b1(1) b2(1) j(2) by (simp add: take_add)
  moreover have "frames_of pb (take (k + j) ms) @ Buffer_content b3 = Buffer_content b @ concat (d # ds)"
  proof -
    have "frames_of pb (take (k + j) ms) @ Buffer_content b3 = frames_of pb (take k ms) @ frames_of pb (take j (drop k ms)) @ Buffer_content b3"
      by (simp add: take_add)
    also have "\<dots> = (frames_of pb (take k ms) @ Buffer_content b2) @ concat ds" by (simp add: j(5))
    also have "\<dots> = Buffer_content b @ concat (d # ds)" using k(3) by (simp add: b1(3) b2(3))
    finally show ?thesis .
  qed
  ultimately show ?case using j(1,3,4) k(1) by (intro exI [of _ "k + j"] exI [of _ b3]) simp
qed

text \<open>A buffer in which the decoder waits holds less than the next frame.\<close>

lemma waits_short:
  assumes "\<forall>m \<in> set ms. pb_laws pb m \<and> fits_frame pb m" "codec_next pb s = Wait" "s @ tail = frames_of pb ms" "ms \<noteq> []"
  shows "length s < length (frame pb (hd ms))"
proof (rule ccontr)
  assume l: "\<not> length s < length (frame pb (hd ms))"
  obtain m ms' where ms: "ms = m # ms'" using assms(4) by (cases ms) auto
  have "take (length (frame pb m)) (s @ tail) = frame pb m" unfolding assms(3) ms by simp
  then have "take (length (frame pb m)) s = frame pb m" using l ms by simp
  then have "s = frame pb m @ drop (length (frame pb m)) s" using append_take_drop_id [of "length (frame pb m)" s] by simp
  then show False using frames_framed [OF assms(1), of m "drop (length (frame pb m)) s"] assms(2) ms by simp
qed

text \<open>C10. Messages survive the wire: let the frames \<open>fillEmptyBuffer\<close> writes for messages that the library serializes faithfully and that fit a frame arrive
  up to any point and cut into any pieces, each appended to a buffer that was empty before the codec runs. Every run
  returns; together they call back the messages whose frames have arrived whole, each once and in order, and nothing else;
  what has arrived of the next frame, which is less than the frame, stays in the buffer. Once all has arrived every
  message has been delivered and the buffer is empty.\<close>

theorem codec_roundtrip:
  assumes "\<forall>m \<in> set ms. pb_laws pb m \<and> fits_frame pb m"
    and "Buffer_inv b" "Buffer_content b = []"
    and "concat pieces @ tail = concat (map (frame pb) ms)"
  shows "\<exists>k b'. codec_deliver pb pieces b = Some (Inr (map CMessage (take k ms), b')) \<and> Buffer_inv b'
     \<and> concat (map (frame pb) (take k ms)) @ Buffer_content b' = concat pieces
     \<and> k \<le> length ms \<and> (k < length ms \<longrightarrow> length (Buffer_content b') < length (frame pb (ms ! k)))
     \<and> (tail = [] \<longrightarrow> k = length ms \<and> Buffer_content b' = [])"
proof -
  obtain k b' where k: "k \<le> length ms" "codec_deliver pb pieces b = Some (Inr (map CMessage (take k ms), b'))" "Buffer_inv b'"
    "codec_next pb (Buffer_content b') = Wait" "frames_of pb (take k ms) @ Buffer_content b' = concat pieces"
    using deliver_frames [OF assms(1,2), of pieces tail] assms(3,4) codec_next_Nil by auto
  have "frames_of pb (take k ms) @ frames_of pb (drop k ms) = frames_of pb ms"
    unfolding concat_append [symmetric] map_append [symmetric] by simp
  then have r: "Buffer_content b' @ tail = frames_of pb (drop k ms)"
    using assms(4) k(5) by (metis append_assoc same_append_eq)
  have short: "length (Buffer_content b') < length (frame pb (ms ! k))" if "k < length ms"
    using waits_short [OF _ k(4) r] that assms(1) by (auto simp: hd_drop_conv_nth dest: in_set_dropD)
  have "k = length ms" if "tail = []"
  proof (rule ccontr)
    assume n: "k \<noteq> length ms"
    then have "length (frame pb (ms ! k)) \<le> length (frames_of pb (drop k ms))"
      using k(1) by (simp add: Cons_nth_drop_Suc [symmetric, of k ms])
    then show False using short r that n k(1) by simp
  qed
  then show ?thesis using k short r by (intro exI [of _ k] exI [of _ b']) auto
qed

theorem codec_roundtrip_witness:
  "\<exists>b b'. codec_deliver text_pb [take 3 (frame text_pb (''A'', ''hello'')), drop 3 (frame text_pb (''A'', ''hello''))] b
       = Some (Inr ([CMessage (''A'', ''hello'')], b')) \<and> Buffer_content b' = []"
proof -
  let ?f = "frame text_pb (''A'', ''hello'')"
  obtain b where b: "Buffer_inv b" "Buffer_content b = []" using Buffer_ctor_ok by blast
  have m: "\<forall>m \<in> set [(''A'', ''hello'')]. pb_laws text_pb m \<and> fits_frame text_pb m"
    using text_pb_ok [of "(''A'', ''hello'')"] by simp
  have "concat [take 3 ?f, drop 3 ?f] @ [] = concat (map (frame text_pb) [(''A'', ''hello'')])" by simp
  from codec_roundtrip [OF m b this] obtain b' where
    "codec_deliver text_pb [take 3 ?f, drop 3 ?f] b = Some (Inr ([CMessage (''A'', ''hello'')], b'))" "Buffer_content b' = []"
    by (auto simp del: codec_deliver.simps)
  then show ?thesis by blast
qed

text \<open>What \<open>send\<close> puts on the stream of a connection is the frame of the message: \<open>fillEmptyBuffer\<close> neither fails an assertion nor
  writes past the space it reserved.\<close>

theorem codec_sends_frame:
  assumes "pb_laws pb m" "fits_frame pb m" and "tc_inv out c" "tc_state c = kConnected" "tid = tc_thread c"
    and "write_fits w (length (frame pb m))"
  shows "\<exists>c'. Codec_send pb tid w m c = Inr c' \<and> tc_inv (out @ frame pb m) c'"
  using sendInLoop_ok [OF assms(3,6,5)] by (auto simp: Codec_send_eq [OF assms(1,2,4,5)] total_iff)

theorem codec_sends_frame_witness:
  "\<exists>c c'. Codec_send text_pb 1 (Some 3) (''A'', ''hello'') c = Inr c' \<and> tc_inv (frame text_pb (''A'', ''hello'')) c'"
proof -
  obtain b where b: "Buffer_inv b" "Buffer_content b = []" using Buffer_ctor_ok by blast
  let ?c = "\<lparr>tc_thread = 1, tc_name = ''c'', tc_state = kConnected, tc_events = kReadEvent, tc_inputBuffer = b,
     tc_outputBuffer = b, tc_highWaterMark = 100, tc_hasHighWaterMarkCallback = False, tc_hasWriteCompleteCallback = False,
     tc_calls = [], tc_queue = [], tc_written = [], tc_trace = []\<rparr>"
  have c: "tc_inv [] ?c"
    using b by (simp add: tc_inv_def tc_isWriting_def kReadEvent_def kWriteEvent_def POLLIN_def POLLPRI_def POLLOUT_def)
  have w: "write_fits (Some 3) (length (frame text_pb (''A'', ''hello'')))"
    by (simp add: write_fits_def frame_def length_payload)
  have f: "pb_laws text_pb (''A'', ''hello'')" "fits_frame text_pb (''A'', ''hello'')"
    using text_pb_ok [of "(''A'', ''hello'')"] by simp_all
  show ?thesis using codec_sends_frame [OF f c _ _ w, of 1] by auto
qed

text \<open>C35. A frame whose checksum does not match its contents is reported as such, whatever follows; nothing of it is consumed, and the
  default error callback shuts the connection down.\<close>

theorem corrupt_frame_reported:
  assumes "Buffer_inv b" "Buffer_content b = be_bytes 4 (length p + 4) @ p @ be_bytes 4 (unat x) @ rest"
    and "6 \<le> length p" "length p + 4 \<le> kMaxMessageLen" "x \<noteq> pb_adler32 pb p"
    and "tc_inv out c" "tc_state c = kConnected"
  shows "(\<exists>b'. Codec_onMessage pb b = Some (Inr ([CError kCheckSumError], b')) \<and> Buffer_content b' = Buffer_content b)
     \<and> (\<exists>c'. defaultErrorCallback tid c = Inr c' \<and> tc_inv out c' \<and> tc_state c' \<noteq> kConnected)"
proof
  let ?s = "Buffer_content b"
  have lim: "length p + 4 < 2 ^ 31" using assms(4) by (simp add: kMaxMessageLen_def)
  have a: "asInt32 ?s = int (length p + 4)" unfolding assms(2) using lim by (rule asInt32_be)
  have body: "take (length p + 4) (drop kHeaderLen ?s) = p @ be_bytes 4 (unat x)" by (simp add: assms(2) kHeaderLen_def)
  have "asInt32 (be_bytes 4 (unat x)) = sint x" using asInt32_word [of x "[]"] by simp
  then have "codec_parse pb (p @ be_bytes 4 (unat x)) = (kCheckSumError, None)"
    using assms(5) by (simp add: codec_parse_def kHeaderLen_def Let_def sint_eq_iff)
  moreover have "\<not> length ?s < kHeaderLen + kMinMessageLen" using assms(3) by (simp add: assms(2) codec_lens)
  moreover have "\<not> (int kMaxMessageLen < asInt32 ?s \<or> asInt32 ?s < int kMinMessageLen)"
    using assms(3,4) unfolding a by (simp add: kMinMessageLen_def)
  moreover have "kHeaderLen + (length p + 4) \<le> length ?s" by (simp add: assms(2) kHeaderLen_def)
  ultimately have "codec_next pb ?s = Stop (CError kCheckSumError)" unfolding codec_next_def a Let_def nat_int body by simp
  then have "unframe (codec_next pb) ?s = ([CError kCheckSumError], ?s)" by (simp add: unframe.simps [of "codec_next pb" ?s])
  then show "\<exists>b'. Codec_onMessage pb b = Some (Inr ([CError kCheckSumError], b')) \<and> Buffer_content b' = ?s"
    using codec_loop_refines [OF assms(1), of pb "[]"] by (auto simp: Codec_onMessage_def)
  obtain c' where "shutdown tid c = Inr c'" "tc_inv out c'" using shutdown_ok [OF assms(6), of tid] by (auto simp: total_iff)
  moreover from this(1) have "tc_state c' \<noteq> kConnected" using assms(7)
    by (auto simp: shutdown_def Let_def shutdownInLoop_def tc_ops assertR_eq_Inr split: if_splits)
  ultimately show "\<exists>c'. defaultErrorCallback tid c = Inr c' \<and> tc_inv out c' \<and> tc_state c' \<noteq> kConnected"
    using assms(7) by (auto simp: defaultErrorCallback_def connected_def)
qed

theorem corrupt_frame_reported_witness:
  "\<exists>b b'. Codec_onMessage text_pb b = Some (Inr ([CError kCheckSumError], b')) \<and> Buffer_content b' = Buffer_content b"
proof -
  obtain b0 where b0: "Buffer_inv b0" "Buffer_content b0 = []" using Buffer_ctor_ok by blast
  obtain b where b: "Buffer_inv b" "Buffer_content b = be_bytes 4 (length ''abcdef'' + 4) @ ''abcdef'' @ be_bytes 4 (unat (0 :: 32 word)) @ []"
    using Buffer_append_ok [OF b0(1), of "be_bytes 4 (length ''abcdef'' + 4) @ ''abcdef'' @ be_bytes 4 (unat (0 :: 32 word)) @ []"] b0(2) by auto
  let ?c = "\<lparr>tc_thread = 1, tc_name = ''c'', tc_state = kConnected, tc_events = kReadEvent, tc_inputBuffer = b0,
     tc_outputBuffer = b0, tc_highWaterMark = 100, tc_hasHighWaterMarkCallback = False, tc_hasWriteCompleteCallback = False,
     tc_calls = [], tc_queue = [], tc_written = [], tc_trace = []\<rparr>"
  have c: "tc_inv [] ?c" "tc_state ?c = kConnected"
    using b0 by (simp_all add: tc_inv_def tc_isWriting_def kReadEvent_def kWriteEvent_def POLLIN_def POLLPRI_def POLLOUT_def)
  have x: "(0 :: 32 word) \<noteq> pb_adler32 text_pb ''abcdef''" by (simp add: text_pb_def)
  have l: "6 \<le> length ''abcdef''" "length ''abcdef'' + 4 \<le> kMaxMessageLen" by (simp_all add: kMaxMessageLen_def)
  show ?thesis using corrupt_frame_reported [OF b l x c] by blast
qed

text \<open>Messages reach the callback registered last for their type, all others the default callback.\<close>

lemma dispatch_registered:
  "onProtobufMessage descriptor m (registerMessageCallback d f p) = (if descriptor m = d then f else onProtobufMessage descriptor m p)"
  "onProtobufMessage descriptor m (ProtobufDispatcher_ctor f) = f"
  by (simp_all add: onProtobufMessage_def registerMessageCallback_def ProtobufDispatcher_ctor_def split: option.splits)

end
