(* ===== verification/Net_Wire.thy ===== *)
theory Net_Wire
  imports Net_Codec "HOL-Library.Sublist"
begin

text \<open>
  Two processes and the network between them: a connection of one process that sends messages through the
  codec, from its loop thread and from other threads, and a connection of the other process whose message
  callback is the codec. Each connection takes any of its steps in its environment
  (\<^verbatim>\<open>net/TcpConnection.cc\<close>); the network delivers, in pieces of any size, what the socket of the sender has
  accepted, in order and without gaps, as TCP does.
\<close>

section \<open>The system\<close>

record 'm wire_sys =
  ws_sender :: tcp_sys
  ws_receiver :: tcp_sys
  ws_messages :: "'m list"            \<comment> \<open>in the order in which \<^verbatim>\<open>sendInLoop\<close> got them\<close>
  ws_read :: string                   \<comment> \<open>what \<^verbatim>\<open>readv\<close> has delivered to the receiver\<close>
  ws_events :: "'m codec_event list"  \<comment> \<open>what the codec of the receiver has called back\<close>

text \<open>The bytes a call of \<^verbatim>\<open>ProtobufCodec::send\<close> gives to \<^verbatim>\<open>sendInLoop\<close> at once.\<close>

definition sent_now :: "nat \<Rightarrow> 'a \<Rightarrow> TcpConnection \<Rightarrow> 'a list" where
  "sent_now tid x c = (if tc_state c = kConnected \<and> tid = tc_thread c then [x] else [])"

text \<open>The label of a step that sends, and of one that can change the input buffer.\<close>

definition sends :: "tcp_label \<Rightarrow> tcp_sys \<Rightarrow> bool" where
  "sends l s = (case l of LSend _ _ _ \<Rightarrow> True | LFunctor _ \<Rightarrow> (\<exists>x. hd (tc_queue (s_conn s)) = FSend x) | _ \<Rightarrow> False)"

definition reads :: "tcp_label \<Rightarrow> tcp_sys \<Rightarrow> bool" where
  "reads l s = (case l of LDispatch _ r _ \<Rightarrow> hd (s_todo s) = ReadCallback \<and> (\<exists>d. r = ReadOk d \<and> d \<noteq> []) | LConsume _ \<Rightarrow> True | _ \<Rightarrow> False)"

definition set_input :: "Buffer \<Rightarrow> tcp_sys \<Rightarrow> tcp_sys" where
  "set_input b s = s\<lparr>s_conn := (s_conn s)\<lparr>tc_inputBuffer := b\<rparr>\<rparr>"

text \<open>The steps: any thread of the sender sends a message; the loop of the sender runs a send that another thread
  has queued; any other step of the sender; bytes arrive and the codec of the receiver runs; any
  other step of the receiver.\<close>

inductive wire_step :: "'m protobuf \<Rightarrow> 'm wire_sys \<Rightarrow> 'm wire_sys \<Rightarrow> bool" for pb :: "'m protobuf" where
  wire_send: "pb_laws pb m \<Longrightarrow> fits_frame pb m \<Longrightarrow> write_fits w (length (frame pb m)) \<Longrightarrow>
    Codec_send pb tid w m (s_conn (ws_sender s)) = Inr c \<Longrightarrow>
    wire_step pb s (s\<lparr>ws_sender := (with_conn (ws_sender s) c)\<lparr>s_sent := s_sent (ws_sender s) @ concat (sent_now tid (frame pb m) (s_conn (ws_sender s)))\<rparr>,
      ws_messages := ws_messages s @ sent_now tid m (s_conn (ws_sender s))\<rparr>)"
| wire_queued: "tcp_enabled (LFunctor w) (ws_sender s) \<Longrightarrow> hd (tc_queue (s_conn (ws_sender s))) = FSend (frame pb m) \<Longrightarrow>
    pb_laws pb m \<Longrightarrow> fits_frame pb m \<Longrightarrow> tcp_exec (LFunctor w) (ws_sender s) = Inr s' \<Longrightarrow>
    wire_step pb s (s\<lparr>ws_sender := s', ws_messages := ws_messages s @ [m]\<rparr>)"
| wire_sender: "tcp_enabled l (ws_sender s) \<Longrightarrow> \<not> sends l (ws_sender s) \<Longrightarrow> tcp_exec l (ws_sender s) = Inr s' \<Longrightarrow>
    wire_step pb s (s\<lparr>ws_sender := s'\<rparr>)"
| wire_receive: "tcp_enabled (LDispatch t (ReadOk d) w) (ws_receiver s) \<Longrightarrow> hd (s_todo (ws_receiver s)) = ReadCallback \<Longrightarrow> d \<noteq> [] \<Longrightarrow>
    prefix (ws_read s @ d) (tc_written (s_conn (ws_sender s))) \<Longrightarrow>
    tcp_exec (LDispatch t (ReadOk d) w) (ws_receiver s) = Inr s' \<Longrightarrow>
    Codec_onMessage pb (tc_inputBuffer (s_conn s')) = Some (Inr (events, b)) \<Longrightarrow>
    wire_step pb s (s\<lparr>ws_receiver := set_input b s', ws_read := ws_read s @ d, ws_events := ws_events s @ events\<rparr>)"
| wire_receiver: "tcp_enabled l (ws_receiver s) \<Longrightarrow> \<not> reads l (ws_receiver s) \<Longrightarrow> tcp_exec l (ws_receiver s) = Inr s' \<Longrightarrow>
    wire_step pb s (s\<lparr>ws_receiver := s'\<rparr>)"

definition wire_start :: "tcp_sys \<Rightarrow> tcp_sys \<Rightarrow> 'm wire_sys" where
  "wire_start a b = \<lparr>ws_sender = a, ws_receiver = b, ws_messages = [], ws_read = [], ws_events = []\<rparr>"

section \<open>Sending through the codec is a step of the connection\<close>

lemma Codec_send_step:
  assumes "pb_laws pb m" "fits_frame pb m" "write_fits w (length (frame pb m))" "Codec_send pb tid w m (s_conn s) = Inr c"
  shows "tcp_step s ((with_conn s c)\<lparr>s_sent := s_sent s @ concat (sent_now tid (frame pb m) (s_conn s))\<rparr>)"
  using assms(3,4) by (intro tcp_step.intros [of "LSend tid w (frame pb m)"]) (simp_all add: Codec_send_any [OF assms(1,2)] sent_now_def)

section \<open>What the steps of a connection leave alone\<close>

text \<open>Sends that wait in the queue come from calls of \<^verbatim>\<open>send\<close> only.\<close>

definition queued_sends :: "TcpConnection \<Rightarrow> string set" where
  "queued_sends c = {x. FSend x \<in> set (tc_queue c)}"

definition keeps :: "TcpConnection \<Rightarrow> TcpConnection \<Rightarrow> bool" where
  "keeps c c' = (tc_inputBuffer c' = tc_inputBuffer c \<and> queued_sends c' = queued_sends c)"

lemma keeps_simps [simp]:
  "keeps c c" "keeps c (tc_watch ev c1) = keeps c c1" "keeps c (tc_emit e c1) = keeps c c1" "keeps c (setState st c1) = keeps c c1"
  "keeps c (c1\<lparr>tc_outputBuffer := b\<rparr>) = keeps c c1" "keeps c (c1\<lparr>tc_written := x\<rparr>) = keeps c c1" "keeps c (c1\<lparr>tc_calls := cs\<rparr>) = keeps c c1"
  "keeps c (tc_queueInLoop FShutdown c1) = keeps c c1" "keeps c (tc_queueInLoop FForceClose c1) = keeps c c1"
  "keeps c (tc_queueInLoop FWriteComplete c1) = keeps c c1" "keeps c (tc_queueInLoop (FHighWaterMark n) c1) = keeps c c1"
  "keeps c (tc_queueInLoop FDestroy c1) = keeps c c1"
  by (simp_all add: keeps_def queued_sends_def tc_ops)

lemmas keeps_ops = handleClose_def handleError_def shutdownInLoop_def shutdown_def forceCloseInLoop_def forceClose_def connectDestroyed_def
  connectEstablished_def tc_assertInLoopThread_def bindR_eq_Inr assertR_eq_Inr Let_def

lemma sendInLoop_keeps:
  assumes "sendInLoop tid w m c = Inr c'"
  shows "keeps c c'"
proof -
  obtain n c1 where w: "sendInLoop_write w m c = (n, c1)" by fastforce
  have 1: "keeps c c1" using w by (auto simp: sendInLoop_write_def Let_def split: if_splits option.splits)
  have "keeps c c'" if "sendInLoop_rest (drop n m) c1 = Inr c'"
    using that 1 by (auto simp: sendInLoop_rest_def keeps_ops split: if_splits)
  then show ?thesis using assms w 1 by (auto simp: sendInLoop_def keeps_ops split: if_splits)
qed

lemma handleWrite_keeps:
  assumes "TcpConnection_handleWrite tid w c = Inr c'"
  shows "keeps c c'"
proof (cases "tc_isWriting c \<and> (\<exists>n>0. w = Some n)")
  case True
  then obtain n where n: "tc_isWriting c" "w = Some n" "0 < n" by blast
  have tid: "tid = tc_thread c" using assms by (cases "tid = tc_thread c") (simp_all add: TcpConnection_handleWrite_def tc_assertInLoopThread_def)
  obtain bytes b where "retrieve n (tc_outputBuffer c) = Inr b"
    "(let c1 = c\<lparr>tc_outputBuffer := b, tc_written := tc_written c @ take n bytes\<rparr> in
      if readableBytes b = 0 then
        (let c2 = tc_watch (tc_events c1 AND NOT kWriteEvent) c1;
             c3 = (if tc_hasWriteCompleteCallback c2 then tc_queueInLoop FWriteComplete c2 else c2)
         in if tc_state c3 = kDisconnecting then shutdownInLoop (tc_thread c) c3 else Inr c3)
      else Inr c1) = Inr c'"
    using assms n by (simp add: TcpConnection_handleWrite_def tc_assertInLoopThread_def bindR_eq_Inr tid) blast
  from this(2) show ?thesis by (simp add: keeps_ops split: if_splits) auto
next
  case False
  then show ?thesis using assms
    by (cases w) (auto simp: TcpConnection_handleWrite_def tc_assertInLoopThread_def bindR_eq_Inr assertR_eq_Inr split: if_splits)
qed

lemma readFd_nothing: "readFd (ReadOk []) e b = Inr (n, e', b') \<Longrightarrow> b' = b"
  by (auto simp: readFd_def Let_def bindR_eq_Inr vec_write_def split: if_splits)

lemma handleRead_keeps:
  assumes "TcpConnection_handleRead tid t r c = Inr c'"
  shows "queued_sends c' = queued_sends c" "r = ReadOk [] \<or> (\<exists>e. r = ReadErr e) \<Longrightarrow> keeps c c'"
proof -
  obtain n e b where b: "readFd r 0 (tc_inputBuffer c) = Inr (n, e, b)" "keeps (c\<lparr>tc_inputBuffer := b\<rparr>) c'"
    using assms by (auto simp: TcpConnection_handleRead_def keeps_ops split: if_splits)
  then show "queued_sends c' = queued_sends c" by (simp add: keeps_def queued_sends_def)
  show "keeps c c'" if "r = ReadOk [] \<or> (\<exists>e. r = ReadErr e)"
  proof -
    have "b = tc_inputBuffer c" using b(1) that readFd_nothing by (auto simp: readFd_def [of "ReadErr _"])
    then show ?thesis using b(2) by simp
  qed
qed

text \<open>One step: what it adds to the queued sends, and that it leaves the input buffer alone if it is not a read.\<close>

lemma exec_conn:
  assumes "tcp_exec l s = Inr s'"
  shows "queued_sends (s_conn s') \<subseteq> queued_sends (s_conn s) \<union> (case l of LSend _ _ m \<Rightarrow> {m} | _ \<Rightarrow> {})"
    "\<not> reads l s \<Longrightarrow> tc_inputBuffer (s_conn s') = tc_inputBuffer (s_conn s)"
proof -
  have "queued_sends (s_conn s') \<subseteq> queued_sends (s_conn s) \<union> (case l of LSend _ _ m \<Rightarrow> {m} | _ \<Rightarrow> {})
      \<and> (\<not> reads l s \<longrightarrow> tc_inputBuffer (s_conn s') = tc_inputBuffer (s_conn s))"
  proof (cases l)
    case (LDispatch t r w)
    then obtain c where c: "dispatch (hd (s_todo s)) (tc_thread (s_conn s)) t r w (s_conn s) = Inr c" "s_conn s' = c"
      using assms by (auto simp: bindR_eq_Inr with_conn_def)
    have "keeps (s_conn s) c" if "hd (s_todo s) \<noteq> ReadCallback"
      using that c(1) handleWrite_keeps by (cases "hd (s_todo s)") (auto simp: keeps_ops)
    moreover have "queued_sends c = queued_sends (s_conn s) \<and> (\<not> reads l s \<longrightarrow> keeps (s_conn s) c)" if "hd (s_todo s) = ReadCallback"
      using that c(1) handleRead_keeps [of _ t r "s_conn s" c] LDispatch by (cases r) (auto simp: reads_def)
    ultimately show ?thesis using c(2) LDispatch by (auto simp: keeps_def)
  next
    case (LFunctor w)
    let ?c = "(s_conn s)\<lparr>tc_queue := tl (tc_queue (s_conn s))\<rparr>"
    obtain c where c: "run_functor (tc_thread ?c) w (hd (tc_queue (s_conn s))) ?c = Inr c" "s_conn s' = c"
      using assms LFunctor by (auto simp: bindR_eq_Inr with_conn_def Let_def)
    have "keeps ?c c" using c(1) sendInLoop_keeps [of _ w _ ?c c]
      by (cases "hd (tc_queue (s_conn s))") (auto simp: keeps_ops split: if_splits)
    moreover have "queued_sends ?c \<subseteq> queued_sends (s_conn s)" by (cases "tc_queue (s_conn s)") (auto simp: queued_sends_def)
    ultimately show ?thesis using c(2) LFunctor by (auto simp: keeps_def)
  next
    case (LSend tid w m)
    then obtain c where c: "TcpConnection_send tid w m (s_conn s) = Inr c" "s_conn s' = c" using assms by (auto simp: bindR_eq_Inr with_conn_def)
    have "keeps (s_conn s) c \<or> c = tc_queueInLoop (FSend m) (s_conn s)"
      using c(1) sendInLoop_keeps [of tid w m "s_conn s" c] by (auto simp: TcpConnection_send_def split: if_splits)
    then show ?thesis using c(2) LSend by (auto simp: keeps_def queued_sends_def tc_queueInLoop_def)
  next
    case (LConsume n)
    then show ?thesis using assms by (auto simp: reads_def bindR_eq_Inr with_conn_def queued_sends_def)
  next
    case (LPoll revents)
    then show ?thesis using assms by auto
  next
    case LRemove
    then have "keeps (s_conn s) (s_conn s')" using assms by (auto simp: removeConnectionInLoop_def assertR_eq_Inr)
    then show ?thesis using LRemove by (auto simp: keeps_def)
  next
    case LEstablish
    then have "keeps (s_conn s) (s_conn s')" using assms by (auto simp: with_conn_def keeps_ops)
    then show ?thesis using LEstablish by (auto simp: keeps_def)
  next
    case (LShutdown tid)
    then have "keeps (s_conn s) (s_conn s')" using assms by (auto simp: with_conn_def keeps_ops split: if_splits)
    then show ?thesis using LShutdown by (auto simp: keeps_def)
  next
    case LForceClose
    then have "keeps (s_conn s) (s_conn s')" using assms by (auto simp: with_conn_def keeps_ops)
    then show ?thesis using LForceClose by (auto simp: keeps_def)
  qed
  then show "queued_sends (s_conn s') \<subseteq> queued_sends (s_conn s) \<union> (case l of LSend _ _ m \<Rightarrow> {m} | _ \<Rightarrow> {})"
    "\<not> reads l s \<Longrightarrow> tc_inputBuffer (s_conn s') = tc_inputBuffer (s_conn s)" by blast+
qed

lemma exec_sent:
  assumes "\<not> sends l s" "tcp_exec l s = Inr s'"
  shows "s_sent s' = s_sent s"
  using assms
  by (cases l) (auto simp: sends_def bindR_eq_Inr with_conn_def removeConnectionInLoop_def assertR_eq_Inr Let_def split: tcp_functor.splits)

lemma exec_read:
  assumes "tcp_inv s" "s_todo s \<noteq> []" "hd (s_todo s) = ReadCallback" "d \<noteq> []"
  shows "\<exists>s'. tcp_exec (LDispatch t (ReadOk d) w) s = Inr s'
     \<and> Buffer_content (tc_inputBuffer (s_conn s')) = Buffer_content (tc_inputBuffer (s_conn s)) @ d"
proof -
  obtain b where "readFd (ReadOk d) 0 (tc_inputBuffer (s_conn s)) = Inr (int (length d), 0, b)"
    "Buffer_content b = Buffer_content (tc_inputBuffer (s_conn s)) @ d"
    using readFd_ok [OF tc_invD(1) [OF tcp_invD(1) [OF assms(1)]], of d 0] by blast
  then show ?thesis using assms(3,4) by (simp add: TcpConnection_handleRead_def with_conn_def tc_emit_def)
qed

lemma set_input_inv:
  assumes "tcp_inv s" "Buffer_inv b"
  shows "tcp_inv (set_input b s)"
proof -
  have same: "closes (c\<lparr>tc_inputBuffer := b\<rparr>) = closes c" "undisturbed (c\<lparr>tc_inputBuffer := b\<rparr>) = undisturbed c"
    "calls_shape (c\<lparr>tc_inputBuffer := b\<rparr>) = calls_shape c" for c
    by (simp_all add: closes_def undisturbed_def calls_shape_def split: StateE.split)
  have "tcp_state_inv (set_input b s) = tcp_state_inv s" by (simp add: tcp_state_inv_def set_input_def same Let_def)
  then show ?thesis using tcp_invD [OF assms(1)] input_ok(1) [OF _ assms(2)] unfolding tcp_inv_def by (simp add: set_input_def same)
qed

section \<open>The invariant\<close>

definition sendable :: "'m protobuf \<Rightarrow> 'm \<Rightarrow> bool" where
  "sendable pb m = (pb_laws pb m \<and> fits_frame pb m)"

definition wire_inv :: "'m protobuf \<Rightarrow> 'm wire_sys \<Rightarrow> bool" where
  "wire_inv pb s = (tcp_inv (ws_sender s) \<and> tcp_inv (ws_receiver s)
     \<and> (\<forall>m \<in> set (ws_messages s). sendable pb m) \<and> queued_sends (s_conn (ws_sender s)) \<subseteq> frame pb ` Collect (sendable pb)
     \<and> s_sent (ws_sender s) = concat (map (frame pb) (ws_messages s)) \<and> prefix (ws_read s) (s_sent (ws_sender s))
     \<and> unframe (codec_next pb) (ws_read s) = (ws_events s, Buffer_content (tc_inputBuffer (s_conn (ws_receiver s)))))"

lemma wire_invD:
  assumes "wire_inv pb s"
  shows "tcp_inv (ws_sender s)" "tcp_inv (ws_receiver s)" "\<forall>m \<in> set (ws_messages s). sendable pb m"
    "queued_sends (s_conn (ws_sender s)) \<subseteq> frame pb ` Collect (sendable pb)"
    "s_sent (ws_sender s) = concat (map (frame pb) (ws_messages s))" "prefix (ws_read s) (s_sent (ws_sender s))"
    "unframe (codec_next pb) (ws_read s) = (ws_events s, Buffer_content (tc_inputBuffer (s_conn (ws_receiver s))))"
  using assms unfolding wire_inv_def by blast+

text \<open>What the receiver has made of the bytes that arrived.\<close>

lemma wire_decoded:
  assumes "wire_inv pb s"
  shows "\<exists>k \<le> length (ws_messages s). ws_events s = map CMessage (take k (ws_messages s))
     \<and> concat (map (frame pb) (take k (ws_messages s))) @ Buffer_content (tc_inputBuffer (s_conn (ws_receiver s))) = ws_read s
     \<and> codec_next pb (Buffer_content (tc_inputBuffer (s_conn (ws_receiver s)))) = Wait
     \<and> (ws_read s = s_sent (ws_sender s) \<longrightarrow> k = length (ws_messages s))"
proof -
  note I = wire_invD [OF assms]
  obtain rest where r: "ws_read s @ rest = concat (map (frame pb) (ws_messages s))" using I(5,6) by (auto simp: prefix_def)
  have "codec_next pb [] = Wait" by (simp add: codec_next_def codec_lens)
  moreover have "codec_next pb (frame pb m @ t) = Item (CMessage m) (length (frame pb m))" if "m \<in> set (ws_messages s)" for m t
    using codec_next_frame [of pb m t] I(3) that by (auto simp: sendable_def)
  ultimately show ?thesis using cd.prefix_frames [of pb "ws_messages s" "frame pb" CMessage "ws_read s" rest] r I(5,7) by auto
qed

lemma wire_sender_inv:
  assumes "wire_inv pb s" "tcp_step (ws_sender s) s'" "queued_sends (s_conn s') \<subseteq> frame pb ` Collect (sendable pb)"
    and "s_sent s' = s_sent (ws_sender s) @ concat (map (frame pb) ms)" "\<forall>m \<in> set ms. sendable pb m"
  shows "wire_inv pb (s\<lparr>ws_sender := s', ws_messages := ws_messages s @ ms\<rparr>)"
  using wire_invD [OF assms(1)] tcp.preserved [OF _ assms(2)] assms(3-5) by (auto simp: wire_inv_def)

interpretation wire: step_invariant "wire_step pb" "wire_inv pb" for pb :: "'m protobuf"
proof
  fix s s'
  assume inv: "wire_inv pb s" and step: "wire_step pb s s'"
  note I = wire_invD [OF inv]
  from step show "wire_inv pb s'"
  proof cases
    case (wire_send m w tid c)
    let ?c = "s_conn (ws_sender s)"
    have x: "tcp_exec (LSend tid w (frame pb m)) (ws_sender s)
        = Inr ((with_conn (ws_sender s) c)\<lparr>s_sent := s_sent (ws_sender s) @ concat (sent_now tid (frame pb m) ?c)\<rparr>)"
      using wire_send(5) by (simp add: Codec_send_any [OF wire_send(2,3)] sent_now_def)
    have "sendable pb m" using wire_send(2,3) by (simp add: sendable_def)
    then show ?thesis unfolding wire_send(1)
      by (intro wire_sender_inv [OF inv tcp_step.intros [OF _ x]])
        (use wire_send(4) exec_conn(1) [OF x] I(4) in \<open>auto simp: sent_now_def\<close>)
  next
    case (wire_queued w m r)
    have "tcp_step (ws_sender s) r" by (rule tcp_step.intros [OF wire_queued(2,6)])
    moreover have "s_sent r = s_sent (ws_sender s) @ concat (map (frame pb) [m])" using wire_queued(3,6) by (auto simp: bindR_eq_Inr Let_def)
    ultimately show ?thesis unfolding wire_queued(1)
      by (intro wire_sender_inv [OF inv]) (use exec_conn(1) [OF wire_queued(6)] I(4) wire_queued(4,5) in \<open>auto simp: sendable_def\<close>)
  next
    case (wire_sender l r)
    have "queued_sends (s_conn r) \<subseteq> frame pb ` Collect (sendable pb)"
      using exec_conn(1) [OF wire_sender(4)] I(4) wire_sender(3) by (auto simp: sends_def split: tcp_label.splits)
    then have "wire_inv pb (s\<lparr>ws_sender := r, ws_messages := ws_messages s @ []\<rparr>)"
      by (intro wire_sender_inv [OF inv tcp_step.intros [OF wire_sender(2,4)]]) (simp_all add: exec_sent [OF wire_sender(3,4)])
    then show ?thesis unfolding wire_sender(1) by simp
  next
    case (wire_receive t d w r events b)
    let ?in = "Buffer_content (tc_inputBuffer (s_conn (ws_receiver s)))"
    have r: "tcp_inv r" by (rule tcp.preserved [OF I(2) tcp_step.intros [OF wire_receive(2,6)]])
    have new: "Buffer_content (tc_inputBuffer (s_conn r)) = ?in @ d"
      using exec_read [OF I(2) _ wire_receive(3,4), of t w] wire_receive(2,6) by auto
    have b: "events = fst (unframe (codec_next pb) (?in @ d))" "Buffer_inv b" "Buffer_content b = snd (unframe (codec_next pb) (?in @ d))"
      using codec_loop_refines [OF tc_invD(1) [OF tcp_invD(1) [OF r]], of pb "[]"] wire_receive(7) by (auto simp: new Codec_onMessage_def)
    have "unframe (codec_next pb) (ws_read s @ d) = (ws_events s @ events, Buffer_content b)"
      using cd.chunks [of pb "ws_read s" d] wire_decoded [OF inv] I(7) b(1,3) by auto
    moreover have "prefix (ws_read s @ d) (s_sent (ws_sender s))"
      using wire_receive(5) tc_invD(3) [OF tcp_invD(1) [OF I(1)]] by (metis prefix_order.trans prefixI)
    ultimately show ?thesis using I set_input_inv [OF r b(2)] unfolding wire_receive(1) by (simp add: wire_inv_def) (simp add: set_input_def)
  next
    case (wire_receiver l r)
    have "tcp_inv r" by (rule tcp.preserved [OF I(2) tcp_step.intros [OF wire_receiver(2,4)]])
    then show ?thesis using I exec_conn(2) [OF wire_receiver(4,3)] unfolding wire_receiver(1) by (simp add: wire_inv_def)
  qed
qed

lemma wire_start_inv:
  assumes "newConnection t1 n1 k1 w1 g1 = Inr a" "newConnection t2 n2 k2 w2 g2 = Inr b"
  shows "wire_inv pb (wire_start a b)"
proof -
  obtain b0 where b0: "Buffer_ctor = Inr b0" "Buffer_inv b0" "Buffer_content b0 = []" using Buffer_ctor_ok by blast
  have "unframe (codec_next pb) [] = ([], [])" by (simp add: unframe.simps codec_next_def codec_lens)
  moreover have "s_sent a = []" "queued_sends (s_conn a) = {}" "Buffer_content (tc_inputBuffer (s_conn b)) = []"
    using assms b0(3) by (auto simp: b0(1) newConnection_def TcpConnection_ctor_def setWriteCompleteCallback_def queued_sends_def Let_def)
  ultimately show ?thesis using newConnection_inv [OF assms(1)] newConnection_inv [OF assms(2)] by (simp add: wire_inv_def wire_start_def)
qed

text \<open>Whatever the network can deliver, the receiver takes.\<close>

lemma wire_progress:
  assumes inv: "wire_inv pb s" and en: "tcp_enabled (LDispatch t (ReadOk d) w) (ws_receiver s)" "hd (s_todo (ws_receiver s)) = ReadCallback" "d \<noteq> []"
    and d: "prefix (ws_read s @ d) (tc_written (s_conn (ws_sender s)))"
  shows "\<exists>s'. wire_step pb s s' \<and> ws_read s' = ws_read s @ d \<and> ws_sender s' = ws_sender s \<and> ws_messages s' = ws_messages s"
proof -
  note I = wire_invD [OF inv]
  obtain r where r: "tcp_exec (LDispatch t (ReadOk d) w) (ws_receiver s) = Inr r" using exec_read [OF I(2) _ en(2,3)] en(1) by fastforce
  have "tcp_inv r" by (rule tcp.preserved [OF I(2) tcp_step.intros [OF en(1) r]])
  then obtain events b where "Codec_onMessage pb (tc_inputBuffer (s_conn r)) = Some (Inr (events, b))"
    using codec_loop_refines [OF tc_invD(1) [OF tcp_invD(1)], of r pb "[]"] by (auto simp: Codec_onMessage_def)
  from wire_receive [OF en d r this] show ?thesis by fastforce
qed

section \<open>Properties\<close>

text \<open>C2. Messages from process to process: two connections are made, messages are sent through the codec by any threads of the
  first process, while both connections go through any of their other steps, and the network delivers
  the accepted bytes in any pieces. In every state, the codec of the receiver has called back exactly the first
  messages in the order of sending, no error and no other message; the bytes of these messages followed by its input buffer are
  what has arrived; when everything sent has arrived, it has called back every message. Whatever the network can deliver the
  receiver takes, without a fault.\<close>

theorem messages_cross_the_wire:
  assumes "newConnection t1 n1 k1 w1 g1 = Inr a" and "newConnection t2 n2 k2 w2 g2 = Inr b"
    and "reach (wire_step pb) (wire_start a b) s"
  shows "(\<exists>k \<le> length (ws_messages s). ws_events s = map CMessage (take k (ws_messages s))
          \<and> concat (map (frame pb) (take k (ws_messages s))) @ Buffer_content (tc_inputBuffer (s_conn (ws_receiver s))) = ws_read s)
     \<and> (ws_read s = s_sent (ws_sender s) \<longrightarrow> ws_events s = map CMessage (ws_messages s))
     \<and> (\<forall>t d w. tcp_enabled (LDispatch t (ReadOk d) w) (ws_receiver s) \<longrightarrow> hd (s_todo (ws_receiver s)) = ReadCallback \<longrightarrow> d \<noteq> []
          \<longrightarrow> prefix (ws_read s @ d) (tc_written (s_conn (ws_sender s))) \<longrightarrow> (\<exists>s'. wire_step pb s s' \<and> ws_read s' = ws_read s @ d))"
proof -
  have inv: "wire_inv pb s" by (rule wire.invariant [OF assms(3) wire_start_inv [OF assms(1,2)]])
  show ?thesis using wire_decoded [OF inv] wire_progress [OF inv] by fastforce
qed

text \<open>A message that is sent in one write and arrives at once.\<close>

definition hello :: "string \<times> string" where "hello = (''A'', ''hello'')"

theorem messages_cross_the_wire_witness:
  "\<exists>s. reach (wire_step text_pb) (wire_start started started) s \<and> ws_messages s = [hello] \<and> ws_events s = [CMessage hello]"
proof -
  let ?f = "frame text_pb hello"
  have fits: "pb_laws text_pb hello" "fits_frame text_pb hello" using text_pb_ok [of hello] by (simp_all add: hello_def)
  have "map_option (\<lambda>s. (s_todo s, tc_state (s_conn s), tc_thread (s_conn s))) (tcp_run [LEstablish] started) = Some ([], kConnected, 1)" by code_simp
  then obtain a where a: "tcp_enabled LEstablish started" "tcp_exec LEstablish started = Inr a" "tc_state (s_conn a) = kConnected" "tc_thread (s_conn a) = 1"
    by (auto split: if_splits sum.splits simp del: tcp_enabled.simps tcp_exec.simps)
  have "map_option s_todo (tcp_run [LEstablish, LPoll 1] started) = Some [ReadCallback]" by code_simp
  then obtain r where r: "tcp_enabled (LPoll 1) a" "tcp_exec (LPoll 1) a = Inr r" "s_todo r = [ReadCallback]"
    using a(1,2) by (auto split: if_splits sum.splits simp del: tcp_enabled.simps tcp_exec.simps)
  have len: "length ?f = 19" by code_simp
  then have ne: "?f \<noteq> []" by auto
  have r4: "tcp_enabled (LDispatch 0 (ReadOk ?f) None) r" using r(3) len by (simp add: readv_fits_def extrabuf_size_def write_fits_def)
  have "map_option (\<lambda>s. (tc_written (s_conn s), s_sent s)) (tcp_run [LEstablish, LSend 1 (Some (length ?f)) ?f] started) = Some (?f, ?f)" by code_simp
  then obtain c where c: "tcp_exec (LSend 1 (Some (length ?f)) ?f) a = Inr c" "tc_written (s_conn c) = ?f" "s_sent c = ?f"
    using a(1,2) by (auto split: if_splits sum.splits simp del: tcp_enabled.simps tcp_exec.simps)
  obtain c1 where c1: "Codec_send text_pb 1 (Some (length ?f)) hello (s_conn a) = Inr c1" "c = (with_conn a c1)\<lparr>s_sent := s_sent a @ concat (sent_now 1 ?f (s_conn a))\<rparr>"
    using c(1) a(3,4) by (auto simp: Codec_send_any [OF fits] bindR_eq_Inr sent_now_def)
  let ?s0 = "wire_start started started :: (string \<times> string) wire_sys"
  let ?s3 = "?s0\<lparr>ws_sender := a, ws_receiver := r\<rparr>"
  let ?s4 = "?s3\<lparr>ws_sender := c, ws_messages := [hello]\<rparr>"
  have "reach (wire_step text_pb) ?s0 (?s0\<lparr>ws_sender := a\<rparr>)"
    using wire_sender [of LEstablish ?s0 a text_pb] a(1,2) by (intro reach_one) (simp add: wire_start_def sends_def del: tcp_enabled.simps tcp_exec.simps)
  moreover have "wire_step text_pb (?s0\<lparr>ws_sender := a\<rparr>) (?s0\<lparr>ws_sender := a, ws_receiver := a\<rparr>)"
    using wire_receiver [of LEstablish "?s0\<lparr>ws_sender := a\<rparr>" a text_pb] a(1,2) by (simp add: wire_start_def reads_def del: tcp_enabled.simps tcp_exec.simps)
  ultimately have "reach (wire_step text_pb) ?s0 (?s0\<lparr>ws_sender := a, ws_receiver := a\<rparr>)" by (rule reach_step)
  moreover have "wire_step text_pb (?s0\<lparr>ws_sender := a, ws_receiver := a\<rparr>) ?s3"
    using wire_receiver [of "LPoll 1" "?s0\<lparr>ws_sender := a, ws_receiver := a\<rparr>" r text_pb] r(1,2) by (simp add: reads_def del: tcp_enabled.simps tcp_exec.simps)
  ultimately have "reach (wire_step text_pb) ?s0 ?s3" by (rule reach_step)
  moreover have "wire_step text_pb ?s3 ?s4"
    using wire_send [OF fits, of "Some (length ?f)" 1 ?s3 c1] c1 a(3,4) by (simp add: write_fits_def sent_now_def wire_start_def)
  ultimately have 4: "reach (wire_step text_pb) ?s0 ?s4" by (rule reach_step)
  obtain s5 where s5: "wire_step text_pb ?s4 s5" "ws_read s5 = ?f" "ws_sender s5 = c" "ws_messages s5 = [hello]"
    using wire_progress [OF wire.invariant [OF 4 wire_start_inv [OF started_new started_new]], of 0 ?f None] r(3) r4 c(2) ne
    by (auto simp: wire_start_def simp del: tcp_enabled.simps)
  have 5: "reach (wire_step text_pb) ?s0 s5" by (rule reach_step [OF 4 s5(1)])
  show ?thesis using messages_cross_the_wire [OF started_new started_new 5] 5 s5(2-4) c(3) by (intro exI [of _ s5]) simp
qed

end
