(* ===== verification/Net_Address.thy ===== *)
theory Net_Address
  imports Net_Buffer
begin

text \<open>
  \<^verbatim>\<open>net/SocketsOps.cc\<close>, \<^verbatim>\<open>net/Socket.cc\<close> and \<^verbatim>\<open>net/InetAddress.cc\<close>. The system calls are arguments:
  each function is given what its call returned (and \<^verbatim>\<open>errno\<close>) and models what the code makes of it.
  An address is the union of \<^verbatim>\<open>sockaddr_in\<close> and \<^verbatim>\<open>sockaddr_in6\<close>, whose family and port share their
  offsets (the static assertions of \<^verbatim>\<open>InetAddress.cc\<close>); the four bytes at offset 4 are \<^verbatim>\<open>sin_addr\<close> of
  the one and \<^verbatim>\<open>sin6_flowinfo\<close> of the other. \<^verbatim>\<open>inet_ntop\<close> and \<^verbatim>\<open>inet_pton\<close> are parameters.
\<close>

section \<open>Addresses\<close>

definition AF_INET :: nat where "AF_INET = 2"
definition AF_INET6 :: nat where "AF_INET6 = 10"
definition INET_ADDRSTRLEN :: nat where "INET_ADDRSTRLEN = 16"
definition INET6_ADDRSTRLEN :: nat where "INET6_ADDRSTRLEN = 46"

record InetAddress =
  ia_family :: nat
  ia_port :: "16 word"
  ia_addr4 :: string
  ia_addr6 :: string
  ia_scope :: "32 word"

definition zero_addr :: InetAddress where
  "zero_addr = \<lparr>ia_family = 0, ia_port = 0, ia_addr4 = replicate 4 (char_of (0::nat)), ia_addr6 = replicate 16 (char_of (0::nat)), ia_scope = 0\<rparr>"

definition kInaddrAny :: "32 word" where "kInaddrAny = 0"
definition kInaddrLoopback :: "32 word" where "kInaddrLoopback = 0x7f000001"

definition in6addr_loopback :: string where "in6addr_loopback = replicate 15 (char_of (0::nat)) @ [char_of (1::nat)]"

definition InetAddress_ctor :: "16 word \<Rightarrow> bool \<Rightarrow> bool \<Rightarrow> InetAddress" where
  "InetAddress_ctor port loopbackOnly ipv6 =
     (if ipv6 then zero_addr\<lparr>ia_family := AF_INET6, ia_addr6 := (if loopbackOnly then in6addr_loopback else ia_addr6 zero_addr),
                ia_port := hostToNetwork16 port\<rparr>
      else (let ip = (if loopbackOnly then kInaddrLoopback else kInaddrAny) in
            zero_addr\<lparr>ia_family := AF_INET, ia_addr4 := le_bytes 4 (unat (hostToNetwork32 ip)), ia_port := hostToNetwork16 port\<rparr>))"

text \<open>The two overloads of \<^verbatim>\<open>fromIpPort\<close>: when \<^verbatim>\<open>inet_pton\<close> refuses the text the error is logged and
  the address bytes stay as they are. The boolean tells whether an error was logged.\<close>

definition fromIpPort4 :: "(nat \<Rightarrow> string \<Rightarrow> string option) \<Rightarrow> string \<Rightarrow> 16 word \<Rightarrow> InetAddress \<Rightarrow> bool \<times> InetAddress" where
  "fromIpPort4 pton ip port a =
     (let a1 = a\<lparr>ia_family := AF_INET, ia_port := hostToNetwork16 port\<rparr> in
      case pton AF_INET ip of Some bs \<Rightarrow> (False, a1\<lparr>ia_addr4 := bs\<rparr>) | None \<Rightarrow> (True, a1))"

definition fromIpPort6 :: "(nat \<Rightarrow> string \<Rightarrow> string option) \<Rightarrow> string \<Rightarrow> 16 word \<Rightarrow> InetAddress \<Rightarrow> bool \<times> InetAddress" where
  "fromIpPort6 pton ip port a =
     (let a1 = a\<lparr>ia_family := AF_INET6, ia_port := hostToNetwork16 port\<rparr> in
      case pton AF_INET6 ip of Some bs \<Rightarrow> (False, a1\<lparr>ia_addr6 := bs\<rparr>) | None \<Rightarrow> (True, a1))"

definition fromHostPort :: "(nat \<Rightarrow> string \<Rightarrow> string option) \<Rightarrow> string \<Rightarrow> 16 word \<Rightarrow> InetAddress \<Rightarrow> bool \<times> InetAddress" where
  "fromHostPort pton ip port a =
     (let a1 = a\<lparr>ia_family := AF_INET, ia_port := hostToNetwork16 port\<rparr> in
      case pton AF_INET ip of Some bs \<Rightarrow> (False, a1\<lparr>ia_addr4 := bs\<rparr>) | None \<Rightarrow> (True, a1))"

definition InetAddress_of_ip :: "(nat \<Rightarrow> string \<Rightarrow> string option) \<Rightarrow> string \<Rightarrow> 16 word \<Rightarrow> bool \<Rightarrow> bool \<times> InetAddress" where
  "InetAddress_of_ip pton ip port ipv6 =
     (if ipv6 then fromIpPort6 pton ip port zero_addr else fromIpPort4 pton ip port zero_addr)"

text \<open>\<open>toIp\<close> and \<open>toIpPort\<close> fill a character array of the given size; the string it held before is
  kept for an unknown family.\<close>

definition sockets_toIp :: "(nat \<Rightarrow> string \<Rightarrow> string) \<Rightarrow> string \<Rightarrow> nat \<Rightarrow> InetAddress \<Rightarrow> string result" where
  "sockets_toIp ntop buf bufsize a =
     (if ia_family a = AF_INET then
        assertR ''size >= INET_ADDRSTRLEN'' (INET_ADDRSTRLEN \<le> bufsize) (Inr (ntop AF_INET (ia_addr4 a)))
      else if ia_family a = AF_INET6 then
        assertR ''size >= INET6_ADDRSTRLEN'' (INET6_ADDRSTRLEN \<le> bufsize) (Inr (ntop AF_INET6 (ia_addr6 a)))
      else Inr buf)"

definition sockets_toIpPort :: "(nat \<Rightarrow> string \<Rightarrow> string) \<Rightarrow> string \<Rightarrow> nat \<Rightarrow> InetAddress \<Rightarrow> string result" where
  "sockets_toIpPort ntop buf bufsize a =
     bindR (sockets_toIp ntop buf bufsize a) (\<lambda>ip.
       (let len = length ip; port = networkToHost16 (ia_port a) in
        assertR ''size > end'' (bufsize > len)
          (Inr (ip @ snprintf (bufsize - len) ('':'' @ dec_nat (unat port))))))"

definition sockets_toHostPort :: "(nat \<Rightarrow> string \<Rightarrow> string) \<Rightarrow> nat \<Rightarrow> InetAddress \<Rightarrow> string" where
  "sockets_toHostPort ntop bufsize a =
     (let host = ntop AF_INET (ia_addr4 a); port = networkToHost16 (ia_port a)
      in snprintf bufsize (host @ '':'' @ dec_nat (unat port)))"

definition toIpPort :: "(nat \<Rightarrow> string \<Rightarrow> string) \<Rightarrow> InetAddress \<Rightarrow> string result" where
  "toIpPort ntop a = sockets_toIpPort ntop [] 64 a"

definition toIp :: "(nat \<Rightarrow> string \<Rightarrow> string) \<Rightarrow> InetAddress \<Rightarrow> string result" where
  "toIp ntop a = sockets_toIp ntop [] 64 a"

definition toHostPort :: "(nat \<Rightarrow> string \<Rightarrow> string) \<Rightarrow> InetAddress \<Rightarrow> string" where
  "toHostPort ntop a = sockets_toHostPort ntop 32 a"

definition ipNetEndian :: "InetAddress \<Rightarrow> 32 word result" where
  "ipNetEndian a = assertR ''family() == AF_INET'' (ia_family a = AF_INET) (Inr (word_of_nat (le_nat (ia_addr4 a))))"

definition portNetEndian :: "InetAddress \<Rightarrow> 16 word" where "portNetEndian a = ia_port a"

definition toPort :: "InetAddress \<Rightarrow> 16 word" where "toPort a = networkToHost16 (portNetEndian a)"

section \<open>System calls\<close>

text \<open>\<open>sys_ret\<close>: the value a call returned, or the error it set.\<close>

datatype sys_ret = SysOk int | SysErr int

definition createNonblockingOrDie :: "sys_ret \<Rightarrow> int result" where
  "createNonblockingOrDie r = (case r of SysOk fd \<Rightarrow> Inr fd | SysErr _ \<Rightarrow> Inl (LogFatal ''sockets::createNonblockingOrDie''))"

definition bindOrDie :: "sys_ret \<Rightarrow> unit result" where
  "bindOrDie r = (case r of SysOk _ \<Rightarrow> Inr () | SysErr _ \<Rightarrow> Inl (LogFatal ''sockets::bindOrDie''))"

definition listenOrDie :: "sys_ret \<Rightarrow> unit result" where
  "listenOrDie r = (case r of SysOk _ \<Rightarrow> Inr () | SysErr _ \<Rightarrow> Inl (LogFatal ''sockets::listenOrDie''))"

definition EPERM :: int where "EPERM = 1"
definition EINTR :: int where "EINTR = 4"
definition EAGAIN :: int where "EAGAIN = 11"
definition EMFILE :: int where "EMFILE = 24"
definition EPROTO :: int where "EPROTO = 71"
definition ECONNABORTED :: int where "ECONNABORTED = 103"

text \<open>\<open>accept\<close> hands the expected errors to its caller and dies of all others, the unexpected and
  the unknown.\<close>

definition accept_expected :: "int list" where
  "accept_expected = [EAGAIN, ECONNABORTED, EINTR, EPROTO, EPERM, EMFILE]"

definition accept_unexpected :: "int list" where
  "accept_unexpected = [9, 14, 22, 23, 105, 12, 88, 95]"

definition sockets_accept :: "sys_ret \<Rightarrow> sys_ret result" where
  "sockets_accept r =
     (case r of
        SysOk connfd \<Rightarrow> Inr (SysOk connfd)
      | SysErr savedErrno \<Rightarrow>
          if savedErrno \<in> set accept_expected then Inr (SysErr savedErrno)
          else if savedErrno \<in> set accept_unexpected then Inl (LogFatal ''unexpected error of ::accept'')
          else Inl (LogFatal ''unknown error of ::accept''))"

text \<open>\<open>close\<close> and \<open>shutdownWrite\<close> only log an error.\<close>

definition sockets_close :: "sys_ret \<Rightarrow> bool" where
  "sockets_close r = (case r of SysOk _ \<Rightarrow> False | SysErr _ \<Rightarrow> True)"

definition sockets_shutdownWrite :: "sys_ret \<Rightarrow> bool" where
  "sockets_shutdownWrite r = (case r of SysOk _ \<Rightarrow> False | SysErr _ \<Rightarrow> True)"

definition getSocketError :: "sys_ret \<Rightarrow> int" where
  "getSocketError r = (case r of SysErr err \<Rightarrow> err | SysOk optval \<Rightarrow> optval)"

text \<open>\<open>getLocalAddr\<close> and \<open>getPeerAddr\<close> return the zeroed structure when the call fails.\<close>

definition getLocalAddr :: "InetAddress option \<Rightarrow> InetAddress" where
  "getLocalAddr r = (case r of Some a \<Rightarrow> a | None \<Rightarrow> zero_addr)"

definition getPeerAddr :: "InetAddress option \<Rightarrow> InetAddress" where
  "getPeerAddr r = (case r of Some a \<Rightarrow> a | None \<Rightarrow> zero_addr)"

definition isSelfConnect :: "InetAddress option \<Rightarrow> InetAddress option \<Rightarrow> bool" where
  "isSelfConnect localname peername =
     (let localaddr = getLocalAddr localname; peeraddr = getPeerAddr peername in
      if ia_family localaddr = AF_INET then ia_port localaddr = ia_port peeraddr \<and> ia_addr4 localaddr = ia_addr4 peeraddr
      else if ia_family localaddr = AF_INET6 then ia_port localaddr = ia_port peeraddr \<and> ia_addr6 localaddr = ia_addr6 peeraddr
      else False)"

text \<open>\<open>Socket::accept\<close> stores the peer's address on success only.\<close>

definition Socket_accept :: "sys_ret \<Rightarrow> InetAddress \<Rightarrow> InetAddress \<Rightarrow> (sys_ret \<times> InetAddress) result" where
  "Socket_accept r addr peeraddr =
     bindR (sockets_accept r) (\<lambda>connfd.
       Inr (connfd, case connfd of SysOk _ \<Rightarrow> addr | SysErr _ \<Rightarrow> peeraddr))"

text \<open>The other members of \<open>Socket\<close>: the descriptor is its only state, and the options are the arguments of
  \<^verbatim>\<open>setsockopt\<close> (level, name and value). The result of \<open>setReusePort\<close> says whether it logs an error.\<close>

record Socket = sk_fd :: int

definition Socket_ctor :: "int \<Rightarrow> Socket" where
  "Socket_ctor fd = \<lparr>sk_fd = fd\<rparr>"

definition Socket_dtor :: "sys_ret \<Rightarrow> Socket \<Rightarrow> bool" where
  "Socket_dtor r s = sockets_close r"

definition Socket_bindAddress :: "sys_ret \<Rightarrow> Socket \<Rightarrow> unit result" where
  "Socket_bindAddress r s = bindOrDie r"

definition Socket_listen :: "sys_ret \<Rightarrow> Socket \<Rightarrow> unit result" where
  "Socket_listen r s = listenOrDie r"

definition Socket_shutdownWrite :: "sys_ret \<Rightarrow> Socket \<Rightarrow> bool" where
  "Socket_shutdownWrite r s = sockets_shutdownWrite r"

record sockopt =
  so_fd :: int
  so_level :: int
  so_name :: int
  so_value :: int

definition SOL_SOCKET :: int where "SOL_SOCKET = 1"
definition SO_REUSEADDR :: int where "SO_REUSEADDR = 2"
definition SO_REUSEPORT :: int where "SO_REUSEPORT = 15"
definition IPPROTO_TCP :: int where "IPPROTO_TCP = 6"
definition TCP_NODELAY :: int where "TCP_NODELAY = 1"

definition setReuseAddr :: "bool \<Rightarrow> Socket \<Rightarrow> sockopt" where
  "setReuseAddr on s = \<lparr>so_fd = sk_fd s, so_level = SOL_SOCKET, so_name = SO_REUSEADDR, so_value = (if on then 1 else 0)\<rparr>"

definition setReusePort :: "bool \<Rightarrow> sys_ret \<Rightarrow> Socket \<Rightarrow> sockopt \<times> bool" where
  "setReusePort on r s =
     (\<lparr>so_fd = sk_fd s, so_level = SOL_SOCKET, so_name = SO_REUSEPORT, so_value = (if on then 1 else 0)\<rparr>,
      (case r of SysOk ret \<Rightarrow> False | SysErr _ \<Rightarrow> on))"

definition setTcpNoDelay :: "bool \<Rightarrow> Socket \<Rightarrow> sockopt" where
  "setTcpNoDelay on s = \<lparr>so_fd = sk_fd s, so_level = IPPROTO_TCP, so_name = TCP_NODELAY, so_value = (if on then 1 else 0)\<rparr>"

text \<open>Without \<^verbatim>\<open>accept4\<close>, the flags that \<^verbatim>\<open>fcntl\<close> is given for what it returned before.\<close>

definition O_NONBLOCK :: "32 word" where "O_NONBLOCK = 0x800"
definition FD_CLOEXEC :: "32 word" where "FD_CLOEXEC = 1"

definition setNonBlockAndCloseOnExec :: "32 word \<Rightarrow> 32 word \<Rightarrow> 32 word \<times> 32 word" where
  "setNonBlockAndCloseOnExec getfl getfd = (or getfl O_NONBLOCK, or getfd FD_CLOEXEC)"

lemma nonblock_keeps_flags:
  "and (fst (setNonBlockAndCloseOnExec fl fd)) (not O_NONBLOCK) = and fl (not O_NONBLOCK)"
  "and (snd (setNonBlockAndCloseOnExec fl fd)) (not FD_CLOEXEC) = and fd (not FD_CLOEXEC)"
  "bit (fst (setNonBlockAndCloseOnExec fl fd)) 11" "bit (snd (setNonBlockAndCloseOnExec fl fd)) 0"
proof -
  have "bit O_NONBLOCK 11" "bit FD_CLOEXEC 0" by (code_simp)+
  then show "bit (fst (setNonBlockAndCloseOnExec fl fd)) 11" "bit (snd (setNonBlockAndCloseOnExec fl fd)) 0"
    by (simp_all add: setNonBlockAndCloseOnExec_def bit_or_iff)
qed (auto simp: setNonBlockAndCloseOnExec_def bit_eq_iff bit_simps)

section \<open>Dotted decimal\<close>

text \<open>What the manual pages say of IPv4 text, as an instance of the parameters.\<close>

definition ntop4 :: "string \<Rightarrow> string" where
  "ntop4 bs = concat (case map (\<lambda>c. dec_nat (of_char c)) bs of [] \<Rightarrow> [] | d # ds \<Rightarrow> d # map (\<lambda>t. ''.'' @ t) ds)"

fun split_dots :: "string \<Rightarrow> string list" where
  "split_dots [] = [[]]"
| "split_dots (c # cs) = (if c = CHR ''.'' then [] # split_dots cs
     else (case split_dots cs of t # ts \<Rightarrow> (c # t) # ts | [] \<Rightarrow> [[c]]))"

definition octet_ok :: "string \<Rightarrow> bool" where
  "octet_ok t = (dec_value t \<le> 255 \<and> dec_nat (dec_value t) = t)"

definition pton4 :: "string \<Rightarrow> string option" where
  "pton4 s = (let ts = split_dots s in
     if length ts = 4 \<and> list_all octet_ok ts then Some (map (\<lambda>t. char_of (dec_value t)) ts) else None)"

section \<open>Lemmas\<close>

lemma of_char_less_256: "(of_char (e :: char) :: nat) < 256"
  by (metis of_char_mod_256 mod_less_divisor zero_less_numeral)

lemma dec_nat_no_dot: "CHR ''.'' \<notin> set (dec_nat n)"
proof
  assume "CHR ''.'' \<in> set (dec_nat n)"
  then have "48 \<le> (of_char (CHR ''.'') :: nat)" using dec_nat_digits [of n] by blast
  then show False by simp
qed

lemma split_dots_one: "CHR ''.'' \<notin> set t \<Longrightarrow> split_dots t = [t]"
  by (induction t) auto

lemma split_dots_append: "CHR ''.'' \<notin> set t \<Longrightarrow> split_dots (t @ ''.'' @ s) = t # split_dots s"
  by (induction t) auto

lemma pton4_ntop4:
  assumes "length bs = 4"
  shows "pton4 (ntop4 bs) = Some bs"
proof -
  obtain a b c d where bs: "bs = [a, b, c, d]" using assms by (auto simp: length_Suc_conv numeral_eq_Suc)
  let ?t = "\<lambda>c :: char. dec_nat (of_char c)"
  have "split_dots (?t a @ ''.'' @ ?t b @ ''.'' @ ?t c @ ''.'' @ ?t d) = [?t a, ?t b, ?t c, ?t d]"
    by (simp only: split_dots_append [OF dec_nat_no_dot] split_dots_one [OF dec_nat_no_dot])
  moreover have "ntop4 bs = ?t a @ ''.'' @ ?t b @ ''.'' @ ?t c @ ''.'' @ ?t d" by (simp add: bs ntop4_def)
  moreover have "octet_ok (?t e)" for e :: char
  proof -
    have "(of_char e :: nat) \<le> 255" using of_char_less_256 [of e] by linarith
    then show ?thesis by (simp add: octet_ok_def dec_value_dec_nat)
  qed
  ultimately show ?thesis by (simp add: pton4_def bs Let_def dec_value_dec_nat)
qed

lemma length_ntop4:
  assumes "length bs = 4"
  shows "length (ntop4 bs) \<le> 15"
proof -
  obtain a b c d where bs: "bs = [a, b, c, d]" using assms by (auto simp: length_Suc_conv numeral_eq_Suc)
  have "length (dec_nat (of_char (e :: char))) \<le> 3" for e
    by (rule length_dec_nat) (use less_trans [OF of_char_less_256 [of e], of 1000] in simp_all)
  from this [of a] this [of b] this [of c] this [of d] show ?thesis by (simp add: bs ntop4_def)
qed

lemma swap_bytes_swap_bytes:
  assumes "256 ^ n = (2::nat) ^ LENGTH('a::len)"
  shows "swap_bytes n (swap_bytes n (w :: 'a word)) = w"
proof -
  have "swap_bytes n (swap_bytes n w) = word_of_nat (le_nat (le_bytes n (unat w)))"
    using le_bytes_swap_bytes [of n w] assms by (simp add: swap_bytes_def [of n "swap_bytes n w"])
  also have "\<dots> = w" using assms unat_less_pow [of w] by (simp add: le_nat_le_bytes)
  finally show ?thesis .
qed

lemma hton16_inverse [simp]: "networkToHost16 (hostToNetwork16 p) = p"
  by (simp add: networkToHost16_def hostToNetwork16_def swap_bytes_swap_bytes)

lemma length_port: "length (dec_nat (unat (p :: 16 word))) \<le> 5"
  by (rule length_dec_nat) (use unat_less_pow [of p] in simp_all)

section \<open>Properties\<close>

text \<open>An IPv4 end point survives its text: the address made from the text of four bytes and a
  port has these bytes and this port, and \<^verbatim>\<open>toIp\<close>, \<^verbatim>\<open>toIpPort\<close> and \<^verbatim>\<open>toHostPort\<close> print the text again,
  followed by the port, without hitting an assertion or the end of their buffers. About \<^verbatim>\<open>inet_pton\<close>
  and \<^verbatim>\<open>inet_ntop\<close> it assumes that the one reads what the other prints, and the documented length of
  the text.\<close>

theorem address_roundtrip:
  assumes "pton AF_INET (ntop AF_INET bs) = Some bs" and "length (ntop AF_INET bs) < INET_ADDRSTRLEN"
  shows "\<exists>a. InetAddress_of_ip pton (ntop AF_INET bs) port False = (False, a)
     \<and> ia_addr4 a = bs \<and> toPort a = port
     \<and> toIp ntop a = Inr (ntop AF_INET bs)
     \<and> toIpPort ntop a = Inr (ntop AF_INET bs @ '':'' @ dec_nat (unat port))
     \<and> toHostPort ntop a = ntop AF_INET bs @ '':'' @ dec_nat (unat port)"
proof -
  let ?ip = "ntop AF_INET bs" and ?a = "zero_addr\<lparr>ia_family := AF_INET, ia_port := hostToNetwork16 port, ia_addr4 := bs\<rparr>"
  have "InetAddress_of_ip pton ?ip port False = (False, ?a)"
    using assms(1) by (simp add: InetAddress_of_ip_def fromIpPort4_def Let_def)
  moreover have "toIp ntop ?a = Inr ?ip"
    by (simp add: toIp_def sockets_toIp_def INET_ADDRSTRLEN_def)
  moreover have "toIpPort ntop ?a = Inr (?ip @ '':'' @ dec_nat (unat port))"
    using assms(2) length_port [of port]
    by (simp add: toIpPort_def sockets_toIpPort_def sockets_toIp_def INET_ADDRSTRLEN_def Let_def snprintf_fits)
  moreover have "toHostPort ntop ?a = ?ip @ '':'' @ dec_nat (unat port)"
    using assms(2) length_port [of port]
    by (simp add: toHostPort_def sockets_toHostPort_def INET_ADDRSTRLEN_def Let_def snprintf_fits)
  ultimately show ?thesis by (intro exI [of _ ?a]) (simp add: toPort_def portNetEndian_def)
qed

theorem address_roundtrip_witness:
  "\<exists>a. InetAddress_of_ip (\<lambda>_. pton4) ''127.0.0.1'' 80 False = (False, a) \<and> toIpPort (\<lambda>_. ntop4) a = Inr ''127.0.0.1:80''"
proof -
  let ?bs = "map char_of [127, 0, 0, 1 :: nat]"
  have "length ?bs = 4" by simp
  then have h: "pton4 (ntop4 ?bs) = Some ?bs" "length (ntop4 ?bs) < INET_ADDRSTRLEN"
    using pton4_ntop4 [of ?bs] length_ntop4 [of ?bs] by (simp_all add: INET_ADDRSTRLEN_def del: map_map list.map)
  have t: "ntop4 ?bs = ''127.0.0.1''" by code_simp
  have "dec_nat (unat (80 :: 16 word)) = ''80''" by code_simp
  then show ?thesis
    using address_roundtrip [where pton = "\<lambda>_. pton4" and ntop = "\<lambda>_. ntop4" and bs = ?bs and port = 80, OF h] unfolding t by auto
qed

text \<open>The class of \<^verbatim>\<open>accept\<close> errors: a failing \<^verbatim>\<open>accept\<close> either reports one of the six expected
  errors to its caller, leaving the peer address alone, or ends the program; a successful one returns
  the descriptor and stores the address.\<close>

theorem accept_errors:
  "Socket_accept r addr peeraddr =
     (case r of SysOk fd \<Rightarrow> Inr (SysOk fd, addr)
      | SysErr e \<Rightarrow> if e \<in> {EAGAIN, ECONNABORTED, EINTR, EPROTO, EPERM, EMFILE} then Inr (SysErr e, peeraddr)
          else Inl (LogFatal (if e \<in> set accept_unexpected then ''unexpected error of ::accept'' else ''unknown error of ::accept'')))"
  by (auto simp: Socket_accept_def sockets_accept_def accept_expected_def split: sys_ret.splits)

end
