(* ===== verification/Net_TcpServer.thy ===== *)
theory Net_TcpServer
  imports Net_Tcp Net_Address
begin

text \<open>
  \<^verbatim>\<open>net/Acceptor.cc\<close>, \<^verbatim>\<open>net/EventLoopThread.cc\<close>, \<^verbatim>\<open>net/EventLoopThreadPool.cc\<close> and \<^verbatim>\<open>net/TcpServer.cc\<close>:
  the server accepts sockets, hands each to the next loop of its pool and keeps the connections in a
  map under their names. A loop is named by its thread. The addresses of a connection are only logged
  and are left out. What the system calls returned is an argument.
\<close>

section \<open>Loop threads\<close>

record EventLoopThread =
  lt_loop :: "nat option"
  lt_exiting :: bool
  lt_started :: bool

definition EventLoopThread_ctor :: EventLoopThread where
  "EventLoopThread_ctor = \<lparr>lt_loop = None, lt_exiting = False, lt_started = False\<rparr>"

text \<open>\<open>startLoop\<close> starts the thread and waits for \<open>threadFunc\<close> to publish the loop it created.\<close>

definition startLoop_begin :: "EventLoopThread \<Rightarrow> EventLoopThread result" where
  "startLoop_begin t = assertR ''!thread_.started()'' (\<not> lt_started t) (Inr (t\<lparr>lt_started := True\<rparr>))"

definition threadFunc_publish :: "nat \<Rightarrow> EventLoopThread \<Rightarrow> EventLoopThread" where
  "threadFunc_publish tid t = t\<lparr>lt_loop := Some tid\<rparr>"

definition startLoop :: "nat \<Rightarrow> EventLoopThread \<Rightarrow> (nat \<times> EventLoopThread) result" where
  "startLoop tid t =
     bindR (startLoop_begin t) (\<lambda>t1.
       let t2 = threadFunc_publish tid t1 in
       case lt_loop t2 of Some l \<Rightarrow> Inr (l, t2) | None \<Rightarrow> Inl DanglingPointer)"

text \<open>The destructor calls \<^verbatim>\<open>quit\<close> on the loop, whether there is one or not.\<close>

definition EventLoopThread_dtor :: "EventLoopThread \<Rightarrow> nat result" where
  "EventLoopThread_dtor t = (case lt_loop t of Some l \<Rightarrow> Inr l | None \<Rightarrow> Inl DanglingPointer)"

section \<open>The pool\<close>

record EventLoopThreadPool =
  pl_baseLoop :: nat
  pl_started :: bool
  pl_numThreads :: int
  pl_next :: nat
  pl_threads :: "EventLoopThread list"
  pl_loops :: "nat list"

definition EventLoopThreadPool_ctor :: "nat \<Rightarrow> EventLoopThreadPool" where
  "EventLoopThreadPool_ctor baseLoop =
     \<lparr>pl_baseLoop = baseLoop, pl_started = False, pl_numThreads = 0, pl_next = 0, pl_threads = [], pl_loops = []\<rparr>"

definition pl_setThreadNum :: "int \<Rightarrow> EventLoopThreadPool \<Rightarrow> EventLoopThreadPool" where
  "pl_setThreadNum n p = p\<lparr>pl_numThreads := n\<rparr>"

definition pl_assertInLoopThread :: "nat \<Rightarrow> EventLoopThreadPool \<Rightarrow> 'a result \<Rightarrow> 'a result" where
  "pl_assertInLoopThread tid p k =
     (if tid = pl_baseLoop p then k else Inl (LogFatal ''EventLoop::abortNotInLoopThread''))"

text \<open>\<open>newTid i\<close> is the thread the system gives to the \<open>i\<close>-th loop thread.\<close>

definition EventLoopThreadPool_start :: "nat \<Rightarrow> (nat \<Rightarrow> nat) \<Rightarrow> EventLoopThreadPool \<Rightarrow> EventLoopThreadPool result" where
  "EventLoopThreadPool_start tid newTid p =
     assertR ''!started_'' (\<not> pl_started p)
     (pl_assertInLoopThread tid p
       (foldR (\<lambda>i q. bindR (startLoop (newTid i) EventLoopThread_ctor) (\<lambda>(l, t).
                 Inr (q\<lparr>pl_threads := pl_threads q @ [t], pl_loops := pl_loops q @ [l]\<rparr>)))
         [0..<nat (pl_numThreads p)] (p\<lparr>pl_started := True\<rparr>)))"

definition getNextLoop :: "nat \<Rightarrow> EventLoopThreadPool \<Rightarrow> (nat \<times> EventLoopThreadPool) result" where
  "getNextLoop tid p =
     pl_assertInLoopThread tid p
     (if pl_loops p \<noteq> [] then
        (if pl_next p < length (pl_loops p) then
           (let l = pl_loops p ! pl_next p;
                p1 = p\<lparr>pl_next := pl_next p + 1\<rparr>
            in Inr (l, if pl_next p1 \<ge> length (pl_loops p1) then p1\<lparr>pl_next := 0\<rparr> else p1))
         else Inl OutOfBounds)
      else Inr (pl_baseLoop p, p))"

section \<open>The acceptor\<close>

record Acceptor =
  ac_thread :: nat
  ac_fd :: int
  ac_events :: "32 word"
  ac_calls :: "channel_call list"
  ac_hasCallback :: bool
  ac_listenning :: bool
  ac_idleFd :: int

text \<open>The third argument of the constructor, \<^verbatim>\<open>reusePort\<close>, is not used.\<close>

definition Acceptor_ctor :: "nat \<Rightarrow> sys_ret \<Rightarrow> int \<Rightarrow> sys_ret \<Rightarrow> bool \<Rightarrow> Acceptor result" where
  "Acceptor_ctor loop_thread socket_ret idle bind_ret reusePort =
     bindR (createNonblockingOrDie socket_ret) (\<lambda>fd.
       assertR ''idleFd_ >= 0'' (idle \<ge> 0)
       (bindR (bindOrDie bind_ret) (\<lambda>_.
         Inr \<lparr>ac_thread = loop_thread, ac_fd = fd, ac_events = 0, ac_calls = [], ac_hasCallback = False,
              ac_listenning = False, ac_idleFd = idle\<rparr>)))"

definition ac_watch :: "32 word \<Rightarrow> Acceptor \<Rightarrow> Acceptor" where
  "ac_watch ev a = a\<lparr>ac_events := ev, ac_calls := ac_calls a @ [Watch 0 ev]\<rparr>"

definition Acceptor_dtor :: "Acceptor \<Rightarrow> Acceptor" where
  "Acceptor_dtor a = (let a1 = ac_watch kNoneEvent a in a1\<lparr>ac_calls := ac_calls a1 @ [Unwatch 0]\<rparr>)"

definition Acceptor_listen :: "nat \<Rightarrow> sys_ret \<Rightarrow> Acceptor \<Rightarrow> Acceptor result" where
  "Acceptor_listen tid listen_ret a =
     (if tid = ac_thread a then
        bindR (listenOrDie listen_ret) (\<lambda>_.
          let a1 = a\<lparr>ac_listenning := True\<rparr> in Inr (ac_watch (ac_events a1 OR kReadEvent) a1))
      else Inl (LogFatal ''EventLoop::abortNotInLoopThread''))"

text \<open>The accept loop: \<open>rs\<close> are the answers of \<^verbatim>\<open>accept\<close>; the loop ends at the first that reports an
  error. What the callback does to the state \<open>s\<close> of its owner is the parameter \<open>newConn\<close>; the second
  component of the result collects the descriptors that were closed at once.\<close>

fun accept_loop :: "(int \<Rightarrow> 's \<Rightarrow> 's result) \<Rightarrow> bool \<Rightarrow> sys_ret list \<Rightarrow> 's \<Rightarrow> int list \<Rightarrow> (int \<times> 's \<times> int list) result" where
  "accept_loop newConn hasCallback [] s closed = Inr (EAGAIN, s, closed)"
| "accept_loop newConn hasCallback (r # rs) s closed =
     bindR (sockets_accept r) (\<lambda>r'.
       case r' of
         SysErr e \<Rightarrow> Inr (e, s, closed)
       | SysOk connfd \<Rightarrow>
           if connfd \<ge> 65535 then accept_loop newConn hasCallback rs s (closed @ [connfd])
           else if hasCallback then bindR (newConn connfd s) (\<lambda>s'. accept_loop newConn hasCallback rs s' closed)
           else accept_loop newConn hasCallback rs s (closed @ [connfd]))"

definition Acceptor_handleRead :: "(int \<Rightarrow> 's \<Rightarrow> 's result) \<Rightarrow> nat \<Rightarrow> sys_ret list \<Rightarrow> Acceptor \<Rightarrow> 's \<Rightarrow> ('s \<times> int list) result" where
  "Acceptor_handleRead newConn tid rs a s =
     (if tid = ac_thread a then
        bindR (accept_loop newConn (ac_hasCallback a) rs s []) (\<lambda>(err, s', closed).
          if err = EMFILE then Inl (LogFatal ''Open too many fd in Acceptor (hard limit)'') else Inr (s', closed))
      else Inl (LogFatal ''EventLoop::abortNotInLoopThread''))"

section \<open>The server\<close>

datatype server_Option = kNoReusePort | kReusePort

text \<open>\<open>ts_queued\<close>: the connections whose \<open>connectEstablished\<close> was queued in another loop.\<close>

record TcpServer =
  ts_loop :: nat
  ts_ipPort :: string
  ts_name :: string
  ts_acceptor :: Acceptor
  ts_threadPool :: EventLoopThreadPool
  ts_hasWriteCompleteCallback :: bool
  ts_started :: bool
  ts_nextConnId :: int
  ts_connections :: "(string \<times> TcpConnection) list"
  ts_queued :: "string list"

definition TcpServer_ctor :: "nat \<Rightarrow> string \<Rightarrow> string \<Rightarrow> server_Option \<Rightarrow> sys_ret \<Rightarrow> int \<Rightarrow> sys_ret \<Rightarrow> TcpServer result" where
  "TcpServer_ctor loop_thread ipPort nameArg opt socket_ret idle bind_ret =
     bindR (Acceptor_ctor loop_thread socket_ret idle bind_ret (opt = kReusePort)) (\<lambda>a.
       Inr \<lparr>ts_loop = loop_thread, ts_ipPort = ipPort, ts_name = nameArg, ts_acceptor = a\<lparr>ac_hasCallback := True\<rparr>,
            ts_threadPool = EventLoopThreadPool_ctor loop_thread, ts_hasWriteCompleteCallback = False, ts_started = False,
            ts_nextConnId = 1, ts_connections = [], ts_queued = []\<rparr>)"

definition setThreadNum :: "int \<Rightarrow> TcpServer \<Rightarrow> TcpServer result" where
  "setThreadNum numThreads s =
     assertR ''0 <= numThreads'' (0 \<le> numThreads) (Inr (s\<lparr>ts_threadPool := pl_setThreadNum numThreads (ts_threadPool s)\<rparr>))"

text \<open>\<open>start\<close> as the loop thread calls it, when \<^verbatim>\<open>listen\<close> runs at once.\<close>

definition TcpServer_start :: "nat \<Rightarrow> (nat \<Rightarrow> nat) \<Rightarrow> sys_ret \<Rightarrow> TcpServer \<Rightarrow> TcpServer result" where
  "TcpServer_start tid newTid listen_ret s =
     bindR (if \<not> ts_started s
            then bindR (EventLoopThreadPool_start tid newTid (ts_threadPool s)) (\<lambda>p. Inr (s\<lparr>ts_started := True, ts_threadPool := p\<rparr>))
            else Inr s) (\<lambda>s1.
       if \<not> ac_listenning (ts_acceptor s1)
       then bindR (Acceptor_listen tid listen_ret (ts_acceptor s1)) (\<lambda>a. Inr (s1\<lparr>ts_acceptor := a\<rparr>))
       else Inr s1)"

definition ts_assertInLoopThread :: "nat \<Rightarrow> TcpServer \<Rightarrow> 'a result \<Rightarrow> 'a result" where
  "ts_assertInLoopThread tid s k = (if tid = ts_loop s then k else Inl (LogFatal ''EventLoop::abortNotInLoopThread''))"

definition conn_name :: "string \<Rightarrow> int \<Rightarrow> string" where
  "conn_name nm k = nm @ snprintf 32 (''#'' @ dec_int k)"

definition TcpServer_newConnection :: "nat \<Rightarrow> nat \<Rightarrow> TcpServer \<Rightarrow> TcpServer result" where
  "TcpServer_newConnection garbage tid s =
     ts_assertInLoopThread tid s
     (let connName = conn_name (ts_name s) (ts_nextConnId s); s1 = s\<lparr>ts_nextConnId := ts_nextConnId s + 1\<rparr> in
      bindR (getNextLoop tid (ts_threadPool s1)) (\<lambda>(ioLoop, pool).
        bindR (TcpConnection_ctor ioLoop connName garbage) (\<lambda>conn0.
          let conn = setWriteCompleteCallback (ts_hasWriteCompleteCallback s1) conn0;
              s2 = s1\<lparr>ts_threadPool := pool, ts_connections := map_put connName conn (ts_connections s1)\<rparr>
          in if tid = ioLoop
             then bindR (connectEstablished tid conn) (\<lambda>conn'. Inr (s2\<lparr>ts_connections := map_put connName conn' (ts_connections s2)\<rparr>))
             else Inr (s2\<lparr>ts_queued := ts_queued s2 @ [connName]\<rparr>))))"

text \<open>\<open>removeConnectionInLoop\<close> returns the connection, which its functor keeps alive.\<close>

definition TcpServer_removeConnectionInLoop :: "nat \<Rightarrow> TcpConnection \<Rightarrow> TcpServer \<Rightarrow> (TcpServer \<times> TcpConnection) result" where
  "TcpServer_removeConnectionInLoop tid conn s =
     ts_assertInLoopThread tid s
     (let (n, m) = map_erase (tc_name conn) (ts_connections s); s1 = s\<lparr>ts_connections := m\<rparr> in
      assertR ''n==1'' (n = 1) (Inr (s1, tc_queueInLoop FDestroy conn)))"

section \<open>The pool goes round\<close>

definition pool_ok :: "EventLoopThreadPool \<Rightarrow> bool" where
  "pool_ok p = (pl_loops p = [] \<or> pl_next p < length (pl_loops p))"

lemma startLoop_ctor: "startLoop tid EventLoopThread_ctor = Inr (tid, \<lparr>lt_loop = Some tid, lt_exiting = False, lt_started = True\<rparr>)"
  by (simp add: startLoop_def startLoop_begin_def threadFunc_publish_def EventLoopThread_ctor_def)

lemma start_loops:
  "foldR (\<lambda>i q. bindR (startLoop (newTid i) EventLoopThread_ctor) (\<lambda>(l, t).
        Inr (q\<lparr>pl_threads := pl_threads q @ [t], pl_loops := pl_loops q @ [l]\<rparr>))) is p
     = Inr (p\<lparr>pl_threads := pl_threads p @ map (\<lambda>i. \<lparr>lt_loop = Some (newTid i), lt_exiting = False, lt_started = True\<rparr>) is,
              pl_loops := pl_loops p @ map newTid is\<rparr>)"
  by (induction "is" arbitrary: p) (simp_all add: startLoop_ctor)

lemma pool_start:
  assumes "\<not> pl_started p" "tid = pl_baseLoop p"
  shows "\<exists>p'. EventLoopThreadPool_start tid newTid p = Inr p' \<and> pl_loops p' = pl_loops p @ map newTid [0..<nat (pl_numThreads p)]
     \<and> pl_next p' = pl_next p \<and> pl_baseLoop p' = pl_baseLoop p"
  using assms by (simp add: EventLoopThreadPool_start_def pl_assertInLoopThread_def start_loops)

text \<open>A number of calls in a row, and the loops they return.\<close>

fun next_loops :: "nat \<Rightarrow> nat \<Rightarrow> EventLoopThreadPool \<Rightarrow> (nat list \<times> EventLoopThreadPool) result" where
  "next_loops tid 0 p = Inr ([], p)"
| "next_loops tid (Suc k) p = bindR (getNextLoop tid p) (\<lambda>(l, p1). bindR (next_loops tid k p1) (\<lambda>(ls, p2). Inr (l # ls, p2)))"

lemma getNextLoop_ok:
  assumes "pool_ok p" "tid = pl_baseLoop p"
  shows "getNextLoop tid p = Inr (if pl_loops p = [] then pl_baseLoop p else pl_loops p ! pl_next p,
     if pl_loops p = [] then p else p\<lparr>pl_next := (pl_next p + 1) mod length (pl_loops p)\<rparr>)"
proof (cases "pl_loops p = []")
  case False
  then have lt: "pl_next p < length (pl_loops p)" using assms(1) by (simp add: pool_ok_def)
  then have "Suc (pl_next p) = length (pl_loops p) \<or> Suc (pl_next p) < length (pl_loops p)" by arith
  then show ?thesis using False lt assms(2) by (auto simp: getNextLoop_def pl_assertInLoopThread_def Let_def)
qed (use assms(2) in \<open>simp add: getNextLoop_def pl_assertInLoopThread_def\<close>)

lemma next_loops_ok:
  assumes "pl_loops p \<noteq> []" "pl_next p < length (pl_loops p)" "tid = pl_baseLoop p"
  shows "next_loops tid k p = Inr (map (\<lambda>i. pl_loops p ! ((pl_next p + i) mod length (pl_loops p))) [0..<k],
     p\<lparr>pl_next := (pl_next p + k) mod length (pl_loops p)\<rparr>)"
  using assms
proof (induction k arbitrary: p)
  case (Suc k)
  let ?n = "length (pl_loops p)"
  define p1 where "p1 = p\<lparr>pl_next := (pl_next p + 1) mod ?n\<rparr>"
  have g: "getNextLoop tid p = Inr (pl_loops p ! pl_next p, p1)"
    using getNextLoop_ok [of p tid] Suc.prems by (simp add: pool_ok_def p1_def)
  have "0 < ?n" using Suc.prems(1) by simp
  then have "pl_next p1 < ?n" by (simp add: p1_def)
  then have "next_loops tid k p1 = Inr (map (\<lambda>i. pl_loops p ! ((pl_next p1 + i) mod ?n)) [0..<k], p1\<lparr>pl_next := (pl_next p1 + k) mod ?n\<rparr>)"
    using Suc.IH [of p1] Suc.prems by (simp add: p1_def)
  moreover have "(pl_next p1 + i) mod ?n = (pl_next p + Suc i) mod ?n" for i by (simp add: p1_def mod_simps)
  moreover have "map (\<lambda>i. pl_loops p ! ((pl_next p + i) mod ?n)) [0..<Suc k]
      = pl_loops p ! pl_next p # map (\<lambda>i. pl_loops p ! ((pl_next p + Suc i) mod ?n)) [0..<k]"
    using Suc.prems(2) by (simp add: map_upt_Suc del: upt_Suc)
  ultimately show ?case using g by (simp add: p1_def)
qed simp

section \<open>The connection map\<close>

definition srv_inv :: "TcpServer \<Rightarrow> bool" where
  "srv_inv s = (map_ok (ts_connections s) \<and> pool_ok (ts_threadPool s) \<and> pl_baseLoop (ts_threadPool s) = ts_loop s
     \<and> 1 \<le> ts_nextConnId s
     \<and> (\<forall>nm c. map_find (ts_connections s) nm = Some c \<longrightarrow>
          tc_name c = nm \<and> (\<exists>k. 1 \<le> k \<and> k < ts_nextConnId s \<and> nm = conn_name (ts_name s) k)))"

lemma conn_name_inj:
  assumes "conn_name nm j = conn_name nm k" "1 \<le> j" "j < 2 ^ 31" "1 \<le> k" "k < 2 ^ 31"
  shows "j = k"
proof -
  have "snprintf 32 (''#'' @ dec_int i) = ''#'' @ dec_nat (nat i)" if "1 \<le> i" "i < 2 ^ 31" for i
  proof -
    have "length (dec_nat (nat i)) \<le> 10" by (rule length_dec_nat) (use that in auto)
    then show ?thesis using that by (simp add: dec_int_def snprintf_fits)
  qed
  then have "dec_nat (nat j) = dec_nat (nat k)" using assms by (simp add: conn_name_def)
  then show ?thesis using dec_nat_inj assms by fastforce
qed

lemma fresh_name:
  assumes "srv_inv s" "ts_nextConnId s < 2 ^ 31"
  shows "map_find (ts_connections s) (conn_name (ts_name s) (ts_nextConnId s)) = None"
proof (rule ccontr)
  assume "\<not> ?thesis"
  then obtain k where "1 \<le> k" "k < ts_nextConnId s" "conn_name (ts_name s) (ts_nextConnId s) = conn_name (ts_name s) k"
    using assms(1) by (fastforce simp: srv_inv_def)
  then show False using conn_name_inj [of "ts_name s" "ts_nextConnId s" k] assms by (simp add: srv_inv_def)
qed

text \<open>What a new connection is: the next loop of the pool owns it, and it is established at once
  when that is the server's own loop.\<close>

definition next_loop :: "EventLoopThreadPool \<Rightarrow> nat" where
  "next_loop p = (if pl_loops p = [] then pl_baseLoop p else pl_loops p ! pl_next p)"

definition registered :: "TcpServer \<Rightarrow> TcpServer \<Rightarrow> TcpConnection \<Rightarrow> bool" where
  "registered s s' c = (tc_name c = conn_name (ts_name s) (ts_nextConnId s) \<and> tc_thread c = next_loop (ts_threadPool s)
     \<and> tc_state c = (if tc_thread c = ts_loop s then kConnected else kConnecting)
     \<and> map_find (ts_connections s') = (map_find (ts_connections s))(tc_name c \<mapsto> c)
     \<and> ts_queued s' = ts_queued s @ (if tc_thread c = ts_loop s then [] else [tc_name c])
     \<and> ts_nextConnId s' = ts_nextConnId s + 1 \<and> ts_name s' = ts_name s \<and> ts_loop s' = ts_loop s
     \<and> ts_acceptor s' = ts_acceptor s \<and> pl_loops (ts_threadPool s') = pl_loops (ts_threadPool s))"

lemma TcpConnection_ctor_ok:
  "\<exists>b. TcpConnection_ctor t nm g = Inr \<lparr>tc_thread = t, tc_name = nm, tc_state = kConnecting, tc_events = 0,
            tc_inputBuffer = b, tc_outputBuffer = b, tc_highWaterMark = g,
            tc_hasHighWaterMarkCallback = False, tc_hasWriteCompleteCallback = False, tc_calls = [], tc_queue = [],
            tc_written = [], tc_trace = []\<rparr>"
proof -
  obtain b where b: "Buffer_ctor = Inr b" using Buffer_ctor_ok by blast
  show ?thesis by (intro exI [of _ b]) (simp add: TcpConnection_ctor_def b)
qed

lemma newConnection_ok:
  assumes inv: "srv_inv s" and tid: "tid = ts_loop s"
  shows "\<exists>s' c. TcpServer_newConnection g tid s = Inr s' \<and> registered s s' c \<and> pool_ok (ts_threadPool s')
     \<and> map_ok (ts_connections s') \<and> pl_baseLoop (ts_threadPool s') = pl_baseLoop (ts_threadPool s)"
proof -
  let ?p = "ts_threadPool s" and ?nm = "conn_name (ts_name s) (ts_nextConnId s)"
  have P: "pool_ok ?p" "tid = pl_baseLoop ?p" "map_ok (ts_connections s)" using inv tid by (simp_all add: srv_inv_def)
  define p' where "p' = (if pl_loops ?p = [] then ?p else ?p\<lparr>pl_next := (pl_next ?p + 1) mod length (pl_loops ?p)\<rparr>)"
  have nl: "getNextLoop tid ?p = Inr (next_loop ?p, p')"
    using getNextLoop_ok [OF P(1,2)] by (simp add: next_loop_def p'_def)
  have p': "pool_ok p'" "pl_loops p' = pl_loops ?p" "pl_baseLoop p' = pl_baseLoop ?p"
    using P(1) by (auto simp: p'_def pool_ok_def)
  obtain b where b: "TcpConnection_ctor (next_loop ?p) ?nm g = Inr \<lparr>tc_thread = next_loop ?p, tc_name = ?nm, tc_state = kConnecting,
      tc_events = 0, tc_inputBuffer = b, tc_outputBuffer = b, tc_highWaterMark = g, tc_hasHighWaterMarkCallback = False,
      tc_hasWriteCompleteCallback = False, tc_calls = [], tc_queue = [], tc_written = [], tc_trace = []\<rparr>"
    using TcpConnection_ctor_ok by blast
  define c0 where "c0 = setWriteCompleteCallback (ts_hasWriteCompleteCallback s) \<lparr>tc_thread = next_loop ?p, tc_name = ?nm,
      tc_state = kConnecting, tc_events = 0, tc_inputBuffer = b, tc_outputBuffer = b, tc_highWaterMark = g,
      tc_hasHighWaterMarkCallback = False, tc_hasWriteCompleteCallback = False, tc_calls = [], tc_queue = [], tc_written = [], tc_trace = []\<rparr>"
  define c where "c = (if next_loop ?p = tid
      then tc_emit (EvConnection kConnected) (tc_watch (tc_events c0 OR kReadEvent) (setState kConnected c0)) else c0)"
  define s2 where "s2 = s\<lparr>ts_nextConnId := ts_nextConnId s + 1, ts_threadPool := p', ts_connections := map_put ?nm c0 (ts_connections s)\<rparr>"
  define s' where "s' = (if next_loop ?p = tid then s2\<lparr>ts_connections := map_put ?nm c (ts_connections s2)\<rparr>
      else s2\<lparr>ts_queued := ts_queued s2 @ [?nm]\<rparr>)"
  have "connectEstablished tid c0 = Inr c" if "next_loop ?p = tid"
    using that by (simp add: c_def c0_def connectEstablished_def tc_ops setWriteCompleteCallback_def Let_def)
  then have run: "TcpServer_newConnection g tid s = Inr s'"
    using nl b tid by (auto simp: TcpServer_newConnection_def ts_assertInLoopThread_def Let_def s'_def s2_def c0_def)
  have c: "tc_name c = ?nm" "tc_thread c = next_loop ?p" "tc_state c = (if tc_thread c = ts_loop s then kConnected else kConnecting)"
    using tid by (auto simp: c_def c0_def tc_ops setWriteCompleteCallback_def)
  have "map_find (ts_connections s') = (map_find (ts_connections s))(?nm \<mapsto> c)" "map_ok (ts_connections s')"
    using P(3) by (auto simp: s'_def s2_def c_def map_laws)
  then have "registered s s' c" using c p' tid by (auto simp: registered_def s'_def s2_def)
  then show ?thesis using run p' \<open>map_ok (ts_connections s')\<close> by (intro exI [of _ s'] exI [of _ c]) (auto simp: s'_def s2_def)
qed

lemma registered_inv:
  assumes "srv_inv s" "registered s s' c" "pool_ok (ts_threadPool s')" "map_ok (ts_connections s')"
    "pl_baseLoop (ts_threadPool s') = pl_baseLoop (ts_threadPool s)"
  shows "srv_inv s'"
proof -
  have "tc_name d = nm \<and> (\<exists>k. 1 \<le> k \<and> k < ts_nextConnId s' \<and> nm = conn_name (ts_name s') k)"
    if "map_find (ts_connections s') nm = Some d" for nm d
  proof (cases "nm = tc_name c")
    case True
    then show ?thesis using that assms(1,2) by (auto simp: registered_def srv_inv_def intro!: exI [of _ "ts_nextConnId s"])
  next
    case False
    then show ?thesis using that assms(1,2) by (fastforce simp: registered_def srv_inv_def)
  qed
  moreover have "1 \<le> ts_nextConnId s'" "pl_baseLoop (ts_threadPool s') = ts_loop s'"
    using assms by (simp_all add: srv_inv_def registered_def)
  ultimately show ?thesis using assms(3,4) unfolding srv_inv_def by blast
qed

lemma server_newConnection_inv:
  assumes "srv_inv s" "tid = ts_loop s"
  shows "\<exists>s' c. TcpServer_newConnection g tid s = Inr s' \<and> registered s s' c \<and> srv_inv s'"
  using newConnection_ok [OF assms, of g] registered_inv [OF assms(1)] by blast

text \<open>A server that has accepted the sockets \<open>fds\<close>.\<close>

definition taken :: "int list \<Rightarrow> nat" where
  "taken fds = length (filter (\<lambda>fd. fd < 65535) fds)"

definition accepted :: "nat \<Rightarrow> TcpServer \<Rightarrow> TcpServer \<Rightarrow> bool" where
  "accepted n s s' = (srv_inv s' \<and> ts_nextConnId s' = ts_nextConnId s + int n \<and> ts_name s' = ts_name s \<and> ts_loop s' = ts_loop s
     \<and> dom (map_find (ts_connections s')) = dom (map_find (ts_connections s))
         \<union> conn_name (ts_name s) ` {ts_nextConnId s ..< ts_nextConnId s + int n})"

lemma accepted_step:
  assumes "registered s s1 c" "accepted n s1 s2"
  shows "accepted (Suc n) s s2"
proof -
  have "{ts_nextConnId s ..< ts_nextConnId s + int (Suc n)} = insert (ts_nextConnId s) {ts_nextConnId s1 ..< ts_nextConnId s1 + int n}"
    using assms(1) by (auto simp: registered_def)
  moreover have "dom (map_find (ts_connections s1)) = insert (conn_name (ts_name s) (ts_nextConnId s)) (dom (map_find (ts_connections s)))"
    using assms(1) by (simp add: registered_def)
  ultimately show ?thesis using assms by (auto simp: accepted_def registered_def)
qed

lemma accept_loop_ok:
  assumes "srv_inv s" "tid = ts_loop s" "e \<in> set accept_expected"
  shows "\<exists>s'. accept_loop (\<lambda>_. TcpServer_newConnection g tid) True (map SysOk fds @ [SysErr e]) s closed
       = Inr (e, s', closed @ filter (\<lambda>fd. fd \<ge> 65535) fds) \<and> accepted (taken fds) s s'"
  using assms(1,2)
proof (induction fds arbitrary: s closed)
  case Nil
  then show ?case using assms(3) by (simp add: sockets_accept_def accepted_def taken_def)
next
  case (Cons fd fds)
  show ?case
  proof (cases "fd < 65535")
    case True
    obtain s1 c where s1: "TcpServer_newConnection g tid s = Inr s1" "registered s s1 c" "srv_inv s1"
      using server_newConnection_inv [OF Cons.prems] by blast
    have "tid = ts_loop s1" using s1(2) Cons.prems(2) by (simp add: registered_def)
    from Cons.IH [OF s1(3) this, of closed] show ?thesis
      using s1 True accepted_step [OF s1(2)] by (auto simp: sockets_accept_def taken_def)
  next
    case False
    then show ?thesis using Cons.IH [OF Cons.prems, of "closed @ [fd]"] by (simp add: sockets_accept_def taken_def)
  qed
qed

lemma new_server_inv:
  assumes "TcpServer_ctor t ipPort nm opt r1 idle r2 = Inr s"
  shows "srv_inv s \<and> ts_loop s = t \<and> ac_hasCallback (ts_acceptor s) \<and> ac_thread (ts_acceptor s) = t \<and> ts_connections s = []"
  using assms
  by (auto simp: TcpServer_ctor_def Acceptor_ctor_def createNonblockingOrDie_def bindOrDie_def bindR_def assertR_def srv_inv_def
      map_laws pool_ok_def EventLoopThreadPool_ctor_def split: sum.splits sys_ret.splits if_splits)

section \<open>Properties\<close>

text \<open>C24. A new connection: while connection numbers fit an \<^verbatim>\<open>int\<close>, \<^verbatim>\<open>newConnection\<close> called in the
  server's loop never fails and never replaces a connection: it registers one under a name no other
  connection has, owned by the next loop of the pool, established at once in the server's own loop
  and through a queued functor in another; the server's invariant is kept.\<close>

theorem newConnection_registers:
  assumes "srv_inv s" and "tid = ts_loop s" and "ts_nextConnId s < 2 ^ 31"
  shows "\<exists>s' c. TcpServer_newConnection garbage tid s = Inr s' \<and> srv_inv s'
     \<and> map_find (ts_connections s) (tc_name c) = None
     \<and> map_find (ts_connections s') = (map_find (ts_connections s))(tc_name c \<mapsto> c)
     \<and> tc_thread c = next_loop (ts_threadPool s)
     \<and> tc_state c = (if tc_thread c = ts_loop s then kConnected else kConnecting)
     \<and> ts_queued s' = ts_queued s @ (if tc_thread c = ts_loop s then [] else [tc_name c])"
proof -
  obtain s' c where s': "TcpServer_newConnection garbage tid s = Inr s'" "registered s s' c" "srv_inv s'"
    using server_newConnection_inv [OF assms(1,2)] by blast
  moreover have "map_find (ts_connections s) (tc_name c) = None"
    using fresh_name [OF assms(1,3)] s'(2) by (simp add: registered_def)
  ultimately show ?thesis unfolding registered_def by blast
qed

definition demo_tcp_server :: TcpServer where
  "demo_tcp_server = (case TcpServer_ctor 1 ''0.0.0.0:80'' ''web'' kNoReusePort (SysOk 3) 4 (SysOk 0) of Inr s \<Rightarrow> s | Inl _ \<Rightarrow> undefined)"

lemma demo_server_new: "TcpServer_ctor 1 ''0.0.0.0:80'' ''web'' kNoReusePort (SysOk 3) 4 (SysOk 0) = Inr demo_tcp_server"
  by (simp add: demo_tcp_server_def TcpServer_ctor_def Acceptor_ctor_def createNonblockingOrDie_def bindOrDie_def)

theorem newConnection_registers_witness:
  "\<exists>s' c. TcpServer_newConnection 0 1 demo_tcp_server = Inr s' \<and> map_find (ts_connections s') (tc_name c) = Some c
     \<and> tc_thread c = 1 \<and> tc_state c = kConnected"
proof -
  have inv: "srv_inv demo_tcp_server" "(1::nat) = ts_loop demo_tcp_server" using new_server_inv [OF demo_server_new] by simp_all
  have id: "ts_nextConnId demo_tcp_server < 2 ^ 31" "next_loop (ts_threadPool demo_tcp_server) = 1" by code_simp+
  from newConnection_registers [OF inv id(1), of 0] obtain s' c where
    "TcpServer_newConnection 0 1 demo_tcp_server = Inr s'"
    "map_find (ts_connections s') = (map_find (ts_connections demo_tcp_server))(tc_name c \<mapsto> c)"
    "tc_thread c = next_loop (ts_threadPool demo_tcp_server)"
    "tc_state c = (if tc_thread c = ts_loop demo_tcp_server then kConnected else kConnecting)"
    by blast
  then show ?thesis using id(2) inv(2) by (intro exI [of _ s'] exI [of _ c]) simp
qed

text \<open>The accept loop: when the listening socket becomes readable, every pending connection is
  accepted until \<^verbatim>\<open>accept\<close> reports that there is none (or another expected error that is not the
  descriptor limit); descriptors from 65535 on are closed, each other one becomes a registered
  connection under the next number.\<close>

theorem accept_takes_all:
  assumes "srv_inv s" and "tid = ts_loop s" and "ac_thread a = tid" and "ac_hasCallback a"
    and "e \<in> set accept_expected" and "e \<noteq> EMFILE"
  shows "\<exists>s'. Acceptor_handleRead (\<lambda>_. TcpServer_newConnection garbage tid) tid (map SysOk fds @ [SysErr e]) a s
       = Inr (s', filter (\<lambda>fd. fd \<ge> 65535) fds)
     \<and> srv_inv s' \<and> ts_nextConnId s' = ts_nextConnId s + int (length (filter (\<lambda>fd. fd < 65535) fds))
     \<and> dom (map_find (ts_connections s')) = dom (map_find (ts_connections s))
         \<union> conn_name (ts_name s) ` {ts_nextConnId s ..< ts_nextConnId s'}"
  using accept_loop_ok [OF assms(1,2,5), of garbage fds "[]"] assms(3,4,6)
  by (auto simp: Acceptor_handleRead_def accepted_def taken_def)

theorem accept_takes_all_witness:
  "\<exists>s'. Acceptor_handleRead (\<lambda>_. TcpServer_newConnection 0 1) 1 (map SysOk [7, 70000, 8] @ [SysErr EAGAIN]) (ts_acceptor demo_tcp_server) demo_tcp_server
       = Inr (s', [70000]) \<and> ts_nextConnId s' = 3"
proof -
  have S: "srv_inv demo_tcp_server" "(1::nat) = ts_loop demo_tcp_server" "ac_thread (ts_acceptor demo_tcp_server) = 1" "ac_hasCallback (ts_acceptor demo_tcp_server)"
    using new_server_inv [OF demo_server_new] by simp_all
  have e: "EAGAIN \<in> set accept_expected" "EAGAIN \<noteq> EMFILE" by (simp_all add: accept_expected_def EAGAIN_def EMFILE_def)
  have "ts_nextConnId demo_tcp_server = 1" by code_simp
  then show ?thesis using accept_takes_all [OF S e, of 0 "[7, 70000, 8]"] by auto
qed

text \<open>A descriptor limit ends the server: when \<^verbatim>\<open>accept\<close> fails with \<^verbatim>\<open>EMFILE\<close> the handler ends the
  process, whatever was accepted before; the reserved descriptor \<^verbatim>\<open>idleFd_\<close> is never used to refuse
  the connection.\<close>

theorem descriptor_limit_is_fatal:
  assumes "srv_inv s" and "tid = ts_loop s" and "ac_thread a = tid" and "ac_hasCallback a"
  shows "Acceptor_handleRead (\<lambda>_. TcpServer_newConnection garbage tid) tid (map SysOk fds @ [SysErr EMFILE]) a s
     = Inl (LogFatal ''Open too many fd in Acceptor (hard limit)'')"
proof -
  have "EMFILE \<in> set accept_expected" by (simp add: accept_expected_def)
  from accept_loop_ok [OF assms(1,2) this, of garbage fds "[]"] show ?thesis
    using assms(3,4) by (auto simp: Acceptor_handleRead_def)
qed

theorem descriptor_limit_is_fatal_witness:
  "Acceptor_handleRead (\<lambda>_. TcpServer_newConnection 0 1) 1 (map SysOk [7] @ [SysErr EMFILE]) (ts_acceptor demo_tcp_server) demo_tcp_server
     = Inl (LogFatal ''Open too many fd in Acceptor (hard limit)'')"
  by (rule descriptor_limit_is_fatal) (use new_server_inv [OF demo_server_new] in simp_all)

text \<open>The pool is fair: after \<^verbatim>\<open>start\<close> with \<open>n\<close> threads the calls of \<^verbatim>\<open>getNextLoop\<close> return the loops
  of the threads in turn, the \<open>i\<close>-th call that of thread \<open>i mod n\<close>, however many calls there are;
  without threads every call returns the base loop.\<close>

theorem pool_round_robin:
  "\<exists>p q. EventLoopThreadPool_start tid newTid (pl_setThreadNum (int n) (EventLoopThreadPool_ctor tid)) = Inr p
     \<and> next_loops tid k p = Inr (map (\<lambda>i. if n = 0 then tid else newTid (i mod n)) [0..<k], q)"
proof -
  let ?p = "pl_setThreadNum (int n) (EventLoopThreadPool_ctor tid)"
  obtain p where p: "EventLoopThreadPool_start tid newTid ?p = Inr p" "pl_loops p = map newTid [0..<n]" "pl_next p = 0" "pl_baseLoop p = tid"
    using pool_start [of ?p tid newTid] by (auto simp: pl_setThreadNum_def EventLoopThreadPool_ctor_def)
  show ?thesis
  proof (cases "n = 0")
    case True
    have "next_loops tid k p = Inr (replicate k tid, p)"
      using getNextLoop_ok [of p tid] p True by (induction k) (auto simp: pool_ok_def)
    then show ?thesis using p(1) True by (auto simp: map_replicate_const)
  next
    case False
    then have "next_loops tid k p = Inr (map (\<lambda>i. map newTid [0..<n] ! (i mod n)) [0..<k], p\<lparr>pl_next := k mod n\<rparr>)"
      using next_loops_ok [of p tid k] p by simp
    then show ?thesis using p(1) False by (auto intro!: exI [of _ p])
  qed
qed

text \<open>The server implements what the connection system assumes of it: \<^verbatim>\<open>removeConnectionInLoop\<close> of
  the server, run in its loop, fails exactly when the system's removal step does, with the same
  assertion, and otherwise takes the connection out of the map, leaves all others, and queues the same
  destruction.\<close>

theorem server_removes:
  assumes "srv_inv srv" and "tid = ts_loop srv"
    and "s_inMap s \<longleftrightarrow> map_find (ts_connections srv) (tc_name (s_conn s)) \<noteq> None"
  shows "(case removeConnectionInLoop s of
       Inl e \<Rightarrow> TcpServer_removeConnectionInLoop tid (s_conn s) srv = Inl e
     | Inr s' \<Rightarrow> \<exists>srv'. TcpServer_removeConnectionInLoop tid (s_conn s) srv = Inr (srv', s_conn s')
         \<and> srv_inv srv' \<and> \<not> s_inMap s'
         \<and> map_find (ts_connections srv') = (map_find (ts_connections srv))(tc_name (s_conn s) := None))"
proof -
  let ?nm = "tc_name (s_conn s)" and ?m = "ts_connections srv"
  have ok: "map_ok ?m" using assms(1) by (simp add: srv_inv_def)
  let ?srv = "srv\<lparr>ts_connections := snd (map_erase ?nm ?m)\<rparr>"
  have inv: "srv_inv ?srv" using assms(1) ok by (auto simp: srv_inv_def map_laws)
  have "TcpServer_removeConnectionInLoop tid (s_conn s) srv =
     (if s_inMap s then Inr (?srv, tc_queueInLoop FDestroy (s_conn s)) else Inl (AssertFail ''n==1''))"
    using assms(2,3) ok by (simp add: TcpServer_removeConnectionInLoop_def ts_assertInLoopThread_def Let_def case_prod_beta map_laws assertR_def)
  then show ?thesis using inv ok by (simp add: removeConnectionInLoop_def assertR_def map_laws)
qed

theorem server_removes_witness:
  "TcpServer_removeConnectionInLoop 1 (s_conn (started\<lparr>s_inMap := False\<rparr>)) demo_tcp_server = Inl (AssertFail ''n==1'')"
proof -
  have S: "srv_inv demo_tcp_server" "(1::nat) = ts_loop demo_tcp_server" "ts_connections demo_tcp_server = []"
    using new_server_inv [OF demo_server_new] by simp_all
  have "s_inMap (started\<lparr>s_inMap := False\<rparr>) \<longleftrightarrow> map_find (ts_connections demo_tcp_server) (tc_name (s_conn (started\<lparr>s_inMap := False\<rparr>))) \<noteq> None"
    using S(3) by (simp add: map_find_def)
  from server_removes [OF S(1,2) this] show ?thesis by (simp add: removeConnectionInLoop_def assertR_def)
qed

end
