(* ===== verification/Net_Connector.thy ===== *)
theory Net_Connector
  imports Net_Tcp Net_Address "HOL-Library.Multiset"
begin

text \<open>
  \<^verbatim>\<open>net/Connector.cc\<close> and \<^verbatim>\<open>net/TcpClient.cc\<close>. The connector opens a socket, waits on a channel for the
  connection to complete and retries with growing delays. Its state records the sockets it opened,
  closed and handed to its owner, the functors it queued in the loop, and whether its retry timer
  runs. The results of the system calls are arguments.
\<close>

section \<open>The connector\<close>

datatype connector_States = cnDisconnected | cnConnecting | cnConnected

datatype connector_functor = FStartInLoop | FResetChannel

definition kMaxRetryDelayMs :: int where "kMaxRetryDelayMs = 30 * 1000"
definition kInitRetryDelayMs :: int where "kInitRetryDelayMs = 500"

record Connector =
  cn_thread :: nat
  cn_connect :: bool
  cn_state :: connector_States
  cn_channel :: "int option"
  cn_watching :: bool
  cn_retryDelayMs :: int
  cn_timer :: "int option"            \<comment> \<open>the delay of the pending retry timer\<close>
  cn_queue :: "connector_functor list"
  cn_opened :: "int list"
  cn_closed :: "int list"
  cn_handed :: "int list"             \<comment> \<open>given to \<^verbatim>\<open>newConnectionCallback_\<close>\<close>
  cn_delays :: "int list"             \<comment> \<open>the delays of all retries\<close>

definition Connector_ctor :: "nat \<Rightarrow> Connector" where
  "Connector_ctor loop_thread = \<lparr>cn_thread = loop_thread, cn_connect = False, cn_state = cnDisconnected, cn_channel = None,
     cn_watching = False, cn_retryDelayMs = kInitRetryDelayMs, cn_timer = None, cn_queue = [], cn_opened = [], cn_closed = [],
     cn_handed = [], cn_delays = []\<rparr>"

definition cn_setState :: "connector_States \<Rightarrow> Connector \<Rightarrow> Connector" where
  "cn_setState s c = c\<lparr>cn_state := s\<rparr>"

definition cn_close :: "int \<Rightarrow> Connector \<Rightarrow> Connector" where
  "cn_close sockfd c = c\<lparr>cn_closed := cn_closed c @ [sockfd]\<rparr>"

definition connecting :: "int \<Rightarrow> Connector \<Rightarrow> Connector result" where
  "connecting sockfd c =
     (let c1 = cn_setState cnConnecting c in
      assertR ''!channel_'' (cn_channel c1 = None) (Inr (c1\<lparr>cn_channel := Some sockfd, cn_watching := True\<rparr>)))"

definition retry :: "int \<Rightarrow> Connector \<Rightarrow> Connector" where
  "retry sockfd c =
     (let c1 = cn_setState cnDisconnected (cn_close sockfd c) in
      if cn_connect c1
      then c1\<lparr>cn_timer := Some (cn_retryDelayMs c1), cn_delays := cn_delays c1 @ [cn_retryDelayMs c1],
              cn_retryDelayMs := min (cn_retryDelayMs c1 * 2) kMaxRetryDelayMs\<rparr>
      else c1)"

text \<open>How \<^verbatim>\<open>connect\<close> sorts the errors: \<^verbatim>\<open>EINPROGRESS\<close>, \<^verbatim>\<open>EINTR\<close>, \<^verbatim>\<open>EISCONN\<close>; then \<^verbatim>\<open>EAGAIN\<close>, \<^verbatim>\<open>EADDRINUSE\<close>,
  \<^verbatim>\<open>EADDRNOTAVAIL\<close>, \<^verbatim>\<open>ECONNREFUSED\<close>, \<^verbatim>\<open>ENETUNREACH\<close>; everything else.\<close>

definition connect_pending :: "int list" where "connect_pending = [0, 115, EINTR, 106]"
definition connect_again :: "int list" where "connect_again = [EAGAIN, 98, 99, 111, 101]"

definition Connector_connect :: "sys_ret \<Rightarrow> int \<Rightarrow> Connector \<Rightarrow> Connector result" where
  "Connector_connect socket_ret savedErrno c =
     bindR (createNonblockingOrDie socket_ret) (\<lambda>sockfd.
       let c1 = c\<lparr>cn_opened := cn_opened c @ [sockfd]\<rparr> in
       if savedErrno \<in> set connect_pending then connecting sockfd c1
       else if savedErrno \<in> set connect_again then Inr (retry sockfd c1)
       else Inr (cn_close sockfd c1))"

definition startInLoop :: "nat \<Rightarrow> sys_ret \<Rightarrow> int \<Rightarrow> Connector \<Rightarrow> Connector result" where
  "startInLoop tid socket_ret savedErrno c =
     (if tid = cn_thread c then
        assertR ''state_ == kDisconnected'' (cn_state c = cnDisconnected)
          (if cn_connect c then Connector_connect socket_ret savedErrno c else Inr c)
      else Inl (LogFatal ''EventLoop::abortNotInLoopThread''))"

definition Connector_start :: "nat \<Rightarrow> sys_ret \<Rightarrow> int \<Rightarrow> Connector \<Rightarrow> Connector result" where
  "Connector_start tid socket_ret savedErrno c =
     (let c1 = c\<lparr>cn_connect := True\<rparr> in
      if tid = cn_thread c1 then startInLoop tid socket_ret savedErrno c1
      else Inr (c1\<lparr>cn_queue := cn_queue c1 @ [FStartInLoop]\<rparr>))"

definition removeAndResetChannel :: "Connector \<Rightarrow> (int \<times> Connector) result" where
  "removeAndResetChannel c =
     (case cn_channel c of
        None \<Rightarrow> Inl DanglingPointer
      | Some sockfd \<Rightarrow> Inr (sockfd, c\<lparr>cn_watching := False, cn_queue := cn_queue c @ [FResetChannel]\<rparr>))"

definition resetChannel :: "Connector \<Rightarrow> Connector" where
  "resetChannel c = c\<lparr>cn_channel := None\<rparr>"

definition Connector_handleWrite :: "int \<Rightarrow> bool \<Rightarrow> Connector \<Rightarrow> Connector result" where
  "Connector_handleWrite err selfConnect c =
     (if cn_state c = cnConnecting then
        bindR (removeAndResetChannel c) (\<lambda>(sockfd, c1).
          if err \<noteq> 0 then Inr (retry sockfd c1)
          else if selfConnect then Inr (retry sockfd c1)
          else (let c2 = cn_setState cnConnected c1 in
                if cn_connect c2 then Inr (c2\<lparr>cn_handed := cn_handed c2 @ [sockfd]\<rparr>) else Inr (cn_close sockfd c2)))
      else assertR ''state_ == kDisconnected'' (cn_state c = cnDisconnected) (Inr c))"

definition Connector_handleError :: "Connector \<Rightarrow> Connector result" where
  "Connector_handleError c =
     assertR ''state_ == kConnecting'' (cn_state c = cnConnecting)
       (bindR (removeAndResetChannel c) (\<lambda>(sockfd, c1). Inr (retry sockfd c1)))"

definition Connector_restart :: "nat \<Rightarrow> sys_ret \<Rightarrow> int \<Rightarrow> Connector \<Rightarrow> Connector result" where
  "Connector_restart tid socket_ret savedErrno c =
     (if tid = cn_thread c then
        startInLoop tid socket_ret savedErrno
          (cn_setState cnDisconnected c\<lparr>cn_retryDelayMs := kInitRetryDelayMs, cn_connect := True\<rparr>)
      else Inl (LogFatal ''EventLoop::abortNotInLoopThread''))"

definition Connector_stop :: "Connector \<Rightarrow> Connector result" where
  "Connector_stop c =
     (let c1 = c\<lparr>cn_connect := False, cn_timer := None\<rparr> in
      assertR ''!channel_'' (cn_channel c1 = None) (Inr c1))"

definition Connector_dtor :: "Connector \<Rightarrow> Connector result" where
  "Connector_dtor c = (let c1 = c\<lparr>cn_timer := None\<rparr> in assertR ''!channel_'' (cn_channel c1 = None) (Inr c1))"

section \<open>The connector in its loop\<close>

text \<open>Its owner starts it once, stops it, and restarts it after a connection it was given has ended,
  when the functors of the event that made the connection have long run. Timers fire in a later
  iteration of the loop than the one that set them, after its functors. \<open>ks_events\<close> are the callbacks
  of the current poll still to run.\<close>

record connector_sys =
  ks_conn :: Connector
  ks_events :: "event_callback list"
  ks_started :: bool

datatype connector_label =
    KStart nat sys_ret int
  | KRestart sys_ret int
  | KStop
  | KTimer sys_ret int
  | KPoll "32 word"
  | KEvent int bool
  | KFunctor sys_ret int

definition connector_channel :: "32 word \<Rightarrow> Connector \<Rightarrow> Channel" where
  "connector_channel revents c = (Channel_ctor 0)\<lparr>ch_events := kWriteEvent, ch_revents := revents, ch_writeCallback := True, ch_errorCallback := True\<rparr>"

primrec connector_enabled :: "connector_label \<Rightarrow> connector_sys \<Rightarrow> bool" where
  "connector_enabled (KStart tid r e) s = (\<not> ks_started s)"
| "connector_enabled (KRestart r e) s = (cn_state (ks_conn s) = cnConnected \<and> cn_queue (ks_conn s) = [] \<and> ks_events s = [])"
| "connector_enabled KStop s = True"
| "connector_enabled (KTimer r e) s = (cn_timer (ks_conn s) \<noteq> None \<and> cn_queue (ks_conn s) = [] \<and> ks_events s = [])"
| "connector_enabled (KPoll revents) s = (cn_watching (ks_conn s) \<and> cn_queue (ks_conn s) = [] \<and> ks_events s = [])"
| "connector_enabled (KEvent err self) s = (ks_events s \<noteq> [])"
| "connector_enabled (KFunctor r e) s = (cn_queue (ks_conn s) \<noteq> [] \<and> ks_events s = [])"

definition connector_dispatch :: "event_callback \<Rightarrow> int \<Rightarrow> bool \<Rightarrow> Connector \<Rightarrow> Connector result" where
  "connector_dispatch cb err selfConnect c =
     (case cb of WriteCallback \<Rightarrow> Connector_handleWrite err selfConnect c | ErrorCallback \<Rightarrow> Connector_handleError c | _ \<Rightarrow> Inr c)"

primrec connector_exec :: "connector_label \<Rightarrow> connector_sys \<Rightarrow> connector_sys result" where
  "connector_exec (KStart tid r e) s = bindR (Connector_start tid r e (ks_conn s)) (\<lambda>c. Inr (s\<lparr>ks_conn := c, ks_started := True\<rparr>))"
| "connector_exec (KRestart r e) s = bindR (Connector_restart (cn_thread (ks_conn s)) r e (ks_conn s)) (\<lambda>c. Inr (s\<lparr>ks_conn := c\<rparr>))"
| "connector_exec KStop s = bindR (Connector_stop (ks_conn s)) (\<lambda>c. Inr (s\<lparr>ks_conn := c\<rparr>))"
| "connector_exec (KTimer r e) s =
     bindR (startInLoop (cn_thread (ks_conn s)) r e ((ks_conn s)\<lparr>cn_timer := None\<rparr>)) (\<lambda>c. Inr (s\<lparr>ks_conn := c\<rparr>))"
| "connector_exec (KPoll revents) s = Inr (s\<lparr>ks_events := handleEvent True (connector_channel revents (ks_conn s))\<rparr>)"
| "connector_exec (KEvent err self) s =
     bindR (connector_dispatch (hd (ks_events s)) err self (ks_conn s)) (\<lambda>c. Inr (s\<lparr>ks_conn := c, ks_events := tl (ks_events s)\<rparr>))"
| "connector_exec (KFunctor r e) s =
     (let c0 = (ks_conn s)\<lparr>cn_queue := tl (cn_queue (ks_conn s))\<rparr> in
      case hd (cn_queue (ks_conn s)) of
        FStartInLoop \<Rightarrow> bindR (startInLoop (cn_thread c0) r e c0) (\<lambda>c. Inr (s\<lparr>ks_conn := c\<rparr>))
      | FResetChannel \<Rightarrow> Inr (s\<lparr>ks_conn := resetChannel c0\<rparr>))"

inductive connector_step :: "connector_sys \<Rightarrow> connector_sys \<Rightarrow> bool" where
  connector_step: "connector_enabled l s \<Longrightarrow> connector_exec l s = Inr s' \<Longrightarrow> connector_step s s'"

inductive_cases connector_stepE: "connector_step s s'"

definition connector_sys :: "nat \<Rightarrow> connector_sys" where
  "connector_sys t = \<lparr>ks_conn = Connector_ctor t, ks_events = [], ks_started = False\<rparr>"

section \<open>The invariant\<close>

definition accounted :: "Connector \<Rightarrow> bool" where
  "accounted c = (mset (cn_opened c) = mset (cn_closed c) + mset (cn_handed c)
     + (if cn_state c = cnConnecting then mset (case cn_channel c of Some fd \<Rightarrow> [fd] | None \<Rightarrow> []) else {#}))"

definition delays_ok :: "Connector \<Rightarrow> bool" where
  "delays_ok c = ((\<forall>d \<in> insert (cn_retryDelayMs c) (set (cn_delays c)). kInitRetryDelayMs \<le> d \<and> d \<le> kMaxRetryDelayMs))"

definition cn_shape :: "Connector \<Rightarrow> bool" where
  "cn_shape c = (case cn_state c of
       cnConnecting \<Rightarrow> cn_channel c \<noteq> None \<and> cn_watching c \<and> cn_queue c = [] \<and> cn_timer c = None
     | cnDisconnected \<Rightarrow> \<not> cn_watching c \<and> (cn_queue c = [] \<and> cn_channel c = None \<or> cn_queue c = [FResetChannel] \<and> cn_channel c \<noteq> None
         \<or> cn_queue c = [FStartInLoop] \<and> cn_channel c = None \<and> cn_timer c = None)
     | cnConnected \<Rightarrow> \<not> cn_watching c \<and> cn_timer c = None \<and> (cn_queue c = [] \<and> cn_channel c = None \<or> cn_queue c = [FResetChannel] \<and> cn_channel c \<noteq> None))"

definition cn_inv :: "Connector \<Rightarrow> bool" where
  "cn_inv c = (accounted c \<and> delays_ok c \<and> cn_shape c)"

lemmas cn_defs = cn_inv_def accounted_def delays_ok_def cn_shape_def

lemma startInLoop_ok:
  assumes "cn_inv c" "cn_state c = cnDisconnected" "cn_queue c = []" "cn_timer c = None" "tid = cn_thread c"
  shows "outcome (\<lambda>e. e = LogFatal ''sockets::createNonblockingOrDie'') cn_inv (startInLoop tid r e c)"
proof (cases r)
  case (SysOk fd)
  have ch: "cn_channel c = None" "\<not> cn_watching c" using assms by (auto simp: cn_defs)
  have ok: "accounted c" "delays_ok c" using assms(1) by (auto simp: cn_inv_def)
  show ?thesis
    using SysOk assms ch ok
    by (auto simp: startInLoop_def Connector_connect_def createNonblockingOrDie_def connecting_def retry_def cn_setState_def cn_close_def
        Let_def cn_defs kInitRetryDelayMs_def kMaxRetryDelayMs_def split: if_splits)
next
  case (SysErr n)
  then show ?thesis using assms by (auto simp: startInLoop_def Connector_connect_def createNonblockingOrDie_def)
qed

lemma removed_ok:
  assumes "cn_inv c" "cn_state c = cnConnecting"
  shows "\<exists>fd. cn_channel c = Some fd \<and> removeAndResetChannel c = Inr (fd, c\<lparr>cn_watching := False, cn_queue := [FResetChannel]\<rparr>)"
  using assms by (auto simp: cn_defs removeAndResetChannel_def)

lemma retry_ok:
  assumes "cn_inv c" "cn_state c = cnConnecting" "cn_channel c = Some fd"
  shows "cn_inv (retry fd (c\<lparr>cn_watching := False, cn_queue := [FResetChannel]\<rparr>))"
    "cn_state (retry fd (c\<lparr>cn_watching := False, cn_queue := [FResetChannel]\<rparr>)) = cnDisconnected"
  using assms by (auto simp: retry_def cn_setState_def cn_close_def Let_def cn_defs kInitRetryDelayMs_def kMaxRetryDelayMs_def)

lemma cn_handleError_ok:
  assumes "cn_inv c" "cn_state c = cnConnecting"
  shows "total (\<lambda>c'. cn_inv c' \<and> cn_state c' = cnDisconnected) (Connector_handleError c)"
proof -
  obtain fd where fd: "cn_channel c = Some fd" "removeAndResetChannel c = Inr (fd, c\<lparr>cn_watching := False, cn_queue := [FResetChannel]\<rparr>)"
    using removed_ok [OF assms] by blast
  then show ?thesis using retry_ok [OF assms fd(1)] assms(2) by (simp add: Connector_handleError_def)
qed

lemma cn_handleWrite_ok:
  assumes "cn_inv c" "cn_state c = cnConnecting"
  shows "total (\<lambda>c'. cn_inv c' \<and> cn_state c' \<noteq> cnConnecting) (Connector_handleWrite err self c)"
proof -
  obtain fd where fd: "cn_channel c = Some fd" "removeAndResetChannel c = Inr (fd, c\<lparr>cn_watching := False, cn_queue := [FResetChannel]\<rparr>)"
    using removed_ok [OF assms] by blast
  show ?thesis using fd retry_ok [OF assms fd(1)] assms
    by (auto simp: Connector_handleWrite_def cn_setState_def cn_close_def Let_def cn_defs)
qed

text \<open>The whole system: which callbacks of a poll can still be pending.\<close>

definition connector_inv :: "connector_sys \<Rightarrow> bool" where
  "connector_inv s = (cn_inv (ks_conn s)
     \<and> (\<not> ks_started s \<longrightarrow> cn_state (ks_conn s) = cnDisconnected \<and> cn_queue (ks_conn s) = [] \<and> cn_timer (ks_conn s) = None)
     \<and> (case cn_state (ks_conn s) of
          cnConnecting \<Rightarrow> ks_events s \<in> {[], [ErrorCallback], [WriteCallback], [ErrorCallback, WriteCallback]}
        | cnDisconnected \<Rightarrow> ks_events s = [] \<or> ks_events s = [WriteCallback] \<and> ks_started s
        | cnConnected \<Rightarrow> ks_events s = []))"

definition connector_fault :: "connector_label \<Rightarrow> connector_sys \<Rightarrow> fault \<Rightarrow> bool" where
  "connector_fault l s e = (e = LogFatal ''sockets::createNonblockingOrDie''
     \<or> l = KStop \<and> cn_channel (ks_conn s) \<noteq> None \<and> e = AssertFail ''!channel_'')"

lemma connector_invI:
  assumes "cn_inv c" "ks_events s = []" "ks_started s"
  shows "connector_inv (s\<lparr>ks_conn := c\<rparr>)"
  using assms by (cases "cn_state c") (auto simp: connector_inv_def)

lemma connector_start_sys:
  assumes "cn_inv c" "cn_state c = cnDisconnected" "cn_queue c = []" "cn_timer c = None" "ks_events s = []" "ks_started s"
  shows "outcome (connector_fault l s0) connector_inv (bindR (startInLoop (cn_thread c) r e c) (\<lambda>c. Inr (s\<lparr>ks_conn := c\<rparr>)))"
  using startInLoop_ok [OF assms(1-4) refl, of r e] connector_invI [of _ s] assms(5,6)
  by (auto simp: outcome_def bindR_def connector_fault_def split: sum.splits)

lemma connector_invD:
  assumes "connector_inv s"
  shows "cn_inv (ks_conn s)"
    "\<not> ks_started s \<Longrightarrow> cn_state (ks_conn s) = cnDisconnected \<and> cn_queue (ks_conn s) = [] \<and> cn_timer (ks_conn s) = None \<and> ks_events s = []"
    "cn_state (ks_conn s) = cnConnecting \<Longrightarrow> ks_events s \<in> {[], [ErrorCallback], [WriteCallback], [ErrorCallback, WriteCallback]}"
    "cn_state (ks_conn s) = cnDisconnected \<Longrightarrow> ks_events s = [] \<or> ks_events s = [WriteCallback]"
    "cn_state (ks_conn s) = cnConnected \<Longrightarrow> ks_events s = []"
  using assms by (auto simp: connector_inv_def)

lemma cn_inv_flags:
  "cn_inv c \<Longrightarrow> cn_inv (c\<lparr>cn_connect := b\<rparr>)" "cn_inv c \<Longrightarrow> cn_inv (c\<lparr>cn_timer := None\<rparr>)"
  "cn_inv c \<Longrightarrow> cn_state c = cnConnected \<Longrightarrow> cn_queue c = [] \<Longrightarrow> cn_inv (c\<lparr>cn_state := cnDisconnected, cn_retryDelayMs := kInitRetryDelayMs, cn_connect := True\<rparr>)"
  by (auto simp: cn_defs kInitRetryDelayMs_def kMaxRetryDelayMs_def split: connector_States.splits)

lemma KStart_ok:
  assumes "connector_inv s" "connector_enabled (KStart tid r e) s"
  shows "outcome (connector_fault l s) connector_inv (connector_exec (KStart tid r e) s)"
proof -
  let ?c = "(ks_conn s)\<lparr>cn_connect := True\<rparr>"
  have I: "cn_inv ?c" "cn_state ?c = cnDisconnected" "cn_queue ?c = []" "cn_timer ?c = None" "ks_events s = []"
    using connector_invD(1,2) [OF assms(1)] assms(2) cn_inv_flags(1) by auto
  show ?thesis
  proof (cases "tid = cn_thread (ks_conn s)")
    case True
    have "outcome (connector_fault l s) connector_inv
        (bindR (startInLoop (cn_thread ?c) r e ?c) (\<lambda>c. Inr ((s\<lparr>ks_started := True\<rparr>)\<lparr>ks_conn := c\<rparr>)))"
      by (rule connector_start_sys [OF I(1-4)]) (use I(5) in simp_all)
    moreover have "(s\<lparr>ks_started := True\<rparr>)\<lparr>ks_conn := c\<rparr> = s\<lparr>ks_conn := c, ks_started := True\<rparr>" for c by simp
    ultimately show ?thesis using True by (simp add: Connector_start_def)
  next
    case False
    have "cn_inv (?c\<lparr>cn_queue := [FStartInLoop]\<rparr>)" using I by (auto simp: cn_defs)
    then show ?thesis using False I by (simp add: Connector_start_def connector_inv_def Let_def)
  qed
qed

lemma KEvent_ok:
  assumes inv: "connector_inv s" and en: "connector_enabled (KEvent err self) s"
  shows "total connector_inv (connector_exec (KEvent err self) s)"
proof (cases "cn_state (ks_conn s)")
  case cnConnecting
  note I = connector_invD(1) [OF inv]
  have st: "ks_started s" using connector_invD(2) [OF inv] cnConnecting by auto
  from connector_invD(3) [OF inv cnConnecting] en
  consider "ks_events s = [ErrorCallback]" | "ks_events s = [WriteCallback]" | "ks_events s = [ErrorCallback, WriteCallback]" by auto
  then show ?thesis
  proof cases
    case 2
    from cn_handleWrite_ok [OF I cnConnecting, of err self] obtain c where
      c: "Connector_handleWrite err self (ks_conn s) = Inr c" "cn_inv c" "cn_state c \<noteq> cnConnecting" by (auto simp: total_iff)
    then show ?thesis using 2 st by (cases "cn_state c") (auto simp: connector_dispatch_def connector_inv_def)
  qed (use cn_handleError_ok [OF I cnConnecting] st in \<open>auto simp: total_iff connector_dispatch_def connector_inv_def\<close>)
next
  case cnDisconnected
  then have "ks_events s = [WriteCallback]" using connector_invD(4) [OF inv] en by auto
  then show ?thesis using inv cnDisconnected by (auto simp: connector_dispatch_def Connector_handleWrite_def connector_inv_def)
next
  case cnConnected
  then show ?thesis using connector_invD(5) [OF inv] en by simp
qed

lemma connector_exec_ok:
  assumes inv: "connector_inv s" and en: "connector_enabled l s"
  shows "outcome (connector_fault l s) connector_inv (connector_exec l s)"
proof (cases l)
  case (KStart tid r e)
  then show ?thesis using KStart_ok [OF inv] en by simp
next
  case (KRestart r e)
  let ?c = "(ks_conn s)\<lparr>cn_state := cnDisconnected, cn_retryDelayMs := kInitRetryDelayMs, cn_connect := True\<rparr>"
  have K: "cn_state (ks_conn s) = cnConnected" "cn_queue (ks_conn s) = []" "ks_events s = []" using en KRestart by auto
  have I: "cn_inv ?c" using cn_inv_flags(3) [OF connector_invD(1) [OF inv] K(1,2)] .
  have "cn_timer (ks_conn s) = None" "ks_started s" using connector_invD(1,2) [OF inv] K(1) by (auto simp: cn_defs)
  then have "outcome (connector_fault l s) connector_inv (bindR (startInLoop (cn_thread ?c) r e ?c) (\<lambda>c. Inr (s\<lparr>ks_conn := c\<rparr>)))"
    by (intro connector_start_sys [OF I]) (use K in simp_all)
  then show ?thesis using KRestart by (simp add: Connector_restart_def cn_setState_def)
next
  case KStop
  have I: "cn_inv ((ks_conn s)\<lparr>cn_connect := False, cn_timer := None\<rparr>)" using connector_invD(1) [OF inv] cn_inv_flags(1,2) by blast
  show ?thesis
  proof (cases "cn_channel (ks_conn s)")
    case None
    have "connector_inv (s\<lparr>ks_conn := (ks_conn s)\<lparr>cn_connect := False, cn_timer := None\<rparr>\<rparr>)"
      using inv I by (auto simp: connector_inv_def split: connector_States.splits)
    then show ?thesis using None KStop by (simp add: Connector_stop_def)
  qed (simp add: KStop Connector_stop_def connector_fault_def assertR_def)
next
  case (KTimer r e)
  let ?c = "(ks_conn s)\<lparr>cn_timer := None\<rparr>"
  have K: "cn_timer (ks_conn s) \<noteq> None" "cn_queue (ks_conn s) = []" "ks_events s = []" using en KTimer by auto
  have "cn_state (ks_conn s) = cnDisconnected" "ks_started s"
    using connector_invD(1,2) [OF inv] K(1) by (cases "cn_state (ks_conn s)"; auto simp: cn_defs)+
  then have "outcome (connector_fault l s) connector_inv (bindR (startInLoop (cn_thread ?c) r e ?c) (\<lambda>c. Inr (s\<lparr>ks_conn := c\<rparr>)))"
    by (intro connector_start_sys cn_inv_flags(2) connector_invD(1) [OF inv]) (use K in simp_all)
  then show ?thesis using KTimer by simp
next
  case (KPoll revents)
  have "cn_state (ks_conn s) = cnConnecting" using connector_invD(1) [OF inv] en KPoll by (cases "cn_state (ks_conn s)") (auto simp: cn_defs)
  then show ?thesis using inv KPoll
    by (auto simp: connector_inv_def handleEvent_def handleEventWithGuard_def connector_channel_def Channel_ctor_def Let_def)
next
  case (KEvent err self)
  then show ?thesis using KEvent_ok [OF inv] en outcome_weaken_fault by fastforce
next
  case (KFunctor r e)
  let ?c = "(ks_conn s)\<lparr>cn_queue := tl (cn_queue (ks_conn s))\<rparr>"
  have K: "cn_queue (ks_conn s) \<noteq> []" "ks_events s = []" using en KFunctor by auto
  have st: "ks_started s" using connector_invD(2) [OF inv] K(1) by auto
  consider "cn_queue (ks_conn s) = [FStartInLoop]" "cn_state (ks_conn s) = cnDisconnected" "cn_timer (ks_conn s) = None" "cn_inv ?c"
    | "cn_queue (ks_conn s) = [FResetChannel]" "cn_inv (resetChannel ?c)"
    using connector_invD(1) [OF inv] K(1) by (cases "cn_state (ks_conn s)") (auto simp: cn_defs resetChannel_def)
  then show ?thesis
  proof cases
    case 1
    have "outcome (connector_fault l s) connector_inv (bindR (startInLoop (cn_thread ?c) r e ?c) (\<lambda>c. Inr (s\<lparr>ks_conn := c\<rparr>)))"
      by (rule connector_start_sys [OF 1(4)]) (use 1 K st in simp_all)
    then show ?thesis using KFunctor 1(1) by simp
  next
    case 2
    then show ?thesis using KFunctor connector_invI [OF 2(2) K(2) st] by simp
  qed
qed

interpretation connector: step_invariant connector_step connector_inv
  by unfold_locales (metis outcome_simps(1) connector_exec_ok connector_stepE)

lemma connector_reachable: "reach connector_step (connector_sys t) s \<Longrightarrow> connector_inv s"
  by (erule connector.invariant) (simp add: connector_sys_def connector_inv_def Connector_ctor_def cn_defs kInitRetryDelayMs_def kMaxRetryDelayMs_def)

section \<open>The client\<close>

record TcpClient =
  cl_thread :: nat
  cl_connector :: Connector
  cl_connection :: "TcpConnection option"
  cl_name :: string
  cl_retry :: bool
  cl_connect :: bool
  cl_nextConnId :: int
  cl_hasWriteCompleteCallback :: bool

text \<open>\<^verbatim>\<open>nextConnId_\<close> is not initialised: its value is an argument.\<close>

definition TcpClient_ctor :: "nat \<Rightarrow> string \<Rightarrow> int \<Rightarrow> TcpClient" where
  "TcpClient_ctor loop_thread nameArg garbage =
     \<lparr>cl_thread = loop_thread, cl_connector = Connector_ctor loop_thread, cl_connection = None, cl_name = nameArg, cl_retry = False,
      cl_connect = True, cl_nextConnId = garbage, cl_hasWriteCompleteCallback = False\<rparr>"

definition enableRetry :: "TcpClient \<Rightarrow> TcpClient" where
  "enableRetry c = c\<lparr>cl_retry := True\<rparr>"

definition TcpClient_connect :: "nat \<Rightarrow> sys_ret \<Rightarrow> int \<Rightarrow> TcpClient \<Rightarrow> TcpClient result" where
  "TcpClient_connect tid r e c =
     bindR (Connector_start tid r e (cl_connector c)) (\<lambda>k. Inr (c\<lparr>cl_connect := True, cl_connector := k\<rparr>))"

definition TcpClient_disconnect :: "nat \<Rightarrow> TcpClient \<Rightarrow> TcpClient result" where
  "TcpClient_disconnect tid c =
     (let c1 = c\<lparr>cl_connect := False\<rparr> in
      case cl_connection c1 of
        None \<Rightarrow> Inr c1
      | Some conn \<Rightarrow> bindR (shutdown tid conn) (\<lambda>conn'. Inr (c1\<lparr>cl_connection := Some conn'\<rparr>)))"

definition TcpClient_stop :: "TcpClient \<Rightarrow> TcpClient result" where
  "TcpClient_stop c = bindR (Connector_stop (cl_connector c)) (\<lambda>k. Inr (c\<lparr>cl_connect := False, cl_connector := k\<rparr>))"

definition client_conn_name :: "string \<Rightarrow> string \<Rightarrow> int \<Rightarrow> string" where
  "client_conn_name nm peer k = nm @ snprintf 32 ('':'' @ peer @ ''#'' @ dec_int k)"

definition TcpClient_newConnection :: "(nat \<Rightarrow> string \<Rightarrow> string) \<Rightarrow> nat \<Rightarrow> InetAddress option \<Rightarrow> nat \<Rightarrow> TcpClient \<Rightarrow> TcpClient result" where
  "TcpClient_newConnection ntop garbage peername tid c =
     (if tid = cl_thread c then
        (let connName = client_conn_name (cl_name c) (toHostPort ntop (getPeerAddr peername)) (cl_nextConnId c);
             c1 = c\<lparr>cl_nextConnId := cl_nextConnId c + 1\<rparr>
         in bindR (TcpConnection_ctor (cl_thread c1) connName garbage) (\<lambda>conn0.
              let conn = setWriteCompleteCallback (cl_hasWriteCompleteCallback c1) conn0 in
              bindR (connectEstablished tid conn) (\<lambda>conn'. Inr (c1\<lparr>cl_connection := Some conn'\<rparr>))))
      else Inl (LogFatal ''EventLoop::abortNotInLoopThread''))"

text \<open>\<open>same\<close>: the connection being removed is the one the client holds. The removed connection is
  returned, with its destruction queued.\<close>

definition TcpClient_removeConnection :: "nat \<Rightarrow> sys_ret \<Rightarrow> int \<Rightarrow> bool \<Rightarrow> TcpConnection \<Rightarrow> TcpClient \<Rightarrow> (TcpClient \<times> TcpConnection) result" where
  "TcpClient_removeConnection tid r e same conn c =
     (if tid = cl_thread c then
        assertR ''loop_ == conn->getLoop()'' (cl_thread c = tc_thread conn)
        (assertR ''connection_ == conn'' (same \<and> cl_connection c \<noteq> None)
          (let c1 = c\<lparr>cl_connection := None\<rparr>; conn' = tc_queueInLoop FDestroy conn in
           if cl_retry c1 \<and> cl_connect c1
           then bindR (Connector_restart tid r e (cl_connector c1)) (\<lambda>k. Inr (c1\<lparr>cl_connector := k\<rparr>, conn'))
           else Inr (c1, conn')))
      else Inl (LogFatal ''EventLoop::abortNotInLoopThread''))"

text \<open>The destructor; \<open>unique\<close> tells whether the client holds the only reference.\<close>

definition TcpClient_dtor :: "bool \<Rightarrow> TcpClient \<Rightarrow> TcpClient result" where
  "TcpClient_dtor unique c =
     (case cl_connection c of
        Some conn \<Rightarrow> assertR ''loop_ == conn->getLoop()'' (cl_thread c = tc_thread conn)
          (Inr (if unique then c\<lparr>cl_connection := Some (forceClose conn)\<rparr> else c))
      | None \<Rightarrow> bindR (Connector_stop (cl_connector c)) (\<lambda>k. Inr (c\<lparr>cl_connector := k\<rparr>)))"

text \<open>The close callback that the destructor gives the connection, and the loop that runs the functors of the connection afterwards,
  calling it for each close.\<close>

definition detail_removeConnection :: "TcpConnection \<Rightarrow> TcpConnection" where
  "detail_removeConnection conn = tc_queueInLoop FDestroy conn"

definition after_close :: "TcpConnection \<Rightarrow> TcpConnection \<Rightarrow> TcpConnection" where
  "after_close c c' = (if closes c < closes c' then detail_removeConnection c' else c')"

primrec run_orphan :: "nat \<Rightarrow> TcpConnection \<Rightarrow> TcpConnection result" where
  "run_orphan 0 c = Inr c"
| "run_orphan (Suc n) c = (case tc_queue c of
      [] \<Rightarrow> Inr c
    | f # fs \<Rightarrow> bindR (run_functor (tc_thread c) None f (c\<lparr>tc_queue := fs\<rparr>)) (\<lambda>c'. run_orphan n (after_close c c')))"

section \<open>Properties\<close>

text \<open>C23. The connector keeps its books: in every reachable state each socket it opened was closed once,
  was handed to its owner once, or is the one being connected (none is leaked, none closed twice), the
  retry delays stay between half a second and thirty, and the poller watches a channel exactly while a
  connection is being made.\<close>

theorem connector_accounts:
  assumes "reach connector_step (connector_sys t) s"
  shows "mset (cn_opened (ks_conn s)) = mset (cn_closed (ks_conn s)) + mset (cn_handed (ks_conn s))
       + (if cn_state (ks_conn s) = cnConnecting then {#the (cn_channel (ks_conn s))#} else {#})
     \<and> (\<forall>d \<in> set (cn_delays (ks_conn s)). 500 \<le> d \<and> d \<le> 30000)
     \<and> (cn_watching (ks_conn s) \<longleftrightarrow> cn_state (ks_conn s) = cnConnecting)"
proof -
  have "cn_inv (ks_conn s)" using connector_invD(1) [OF connector_reachable [OF assms]] .
  then show ?thesis
    by (cases "cn_state (ks_conn s)") (auto simp: cn_defs kInitRetryDelayMs_def kMaxRetryDelayMs_def)
qed

fun connector_run :: "connector_label list \<Rightarrow> connector_sys \<Rightarrow> connector_sys option" where
  "connector_run [] s = Some s"
| "connector_run (l # ls) s =
     (if connector_enabled l s then (case connector_exec l s of Inr s' \<Rightarrow> connector_run ls s' | Inl _ \<Rightarrow> None) else None)"

lemma connector_run_reach: "connector_run ls s = Some s' \<Longrightarrow> reach connector_step s s'"
proof (induction ls arbitrary: s)
  case (Cons l ls)
  then obtain s1 where "connector_enabled l s" "connector_exec l s = Inr s1" "connector_run ls s1 = Some s'"
    by (auto split: if_splits sum.splits)
  then show ?case using Cons.IH reach_trans reach_one connector_step.intros by metis
qed (simp add: reach_refl)

definition refused_once :: "connector_label list" where
  "refused_once = [KStart 1 (SysOk 7) 115, KPoll POLLOUT, KEvent 111 False, KFunctor (SysOk 0) 0, KTimer (SysOk 8) 0, KPoll POLLOUT, KEvent 0 False]"

theorem connector_accounts_witness:
  "\<exists>s. reach connector_step (connector_sys 1) s \<and> cn_opened (ks_conn s) = [7, 8] \<and> mset (cn_closed (ks_conn s)) + mset (cn_handed (ks_conn s)) = {#7, 8#}"
proof -
  have "map_option (\<lambda>s. (cn_opened (ks_conn s), cn_state (ks_conn s))) (connector_run refused_once (connector_sys 1)) = Some ([7, 8], cnConnected)"
    by code_simp
  then obtain s where s: "connector_run refused_once (connector_sys 1) = Some s" "cn_opened (ks_conn s) = [7, 8]" "cn_state (ks_conn s) = cnConnected"
    by auto
  note r = connector_run_reach [OF s(1)]
  show ?thesis using conjunct1 [OF connector_accounts [OF r]] s(2,3) r by (intro exI [of _ s]) simp
qed

text \<open>What can fail in the connector: of all its steps in all its reachable states, only a failing
  \<^verbatim>\<open>socket\<close> call ends the program, and the only assertion that can fail is that of \<^verbatim>\<open>stop\<close>, when it is
  called while a channel exists, that is while a connection is being made or in the rest of the loop
  iteration that ended the attempt.\<close>

theorem connector_only_stop_fails:
  assumes "reach connector_step (connector_sys t) s" and "connector_enabled l s" and "connector_exec l s = Inl e"
  shows "e = LogFatal ''sockets::createNonblockingOrDie''
     \<or> l = KStop \<and> cn_channel (ks_conn s) \<noteq> None \<and> e = AssertFail ''!channel_''"
  using connector_exec_ok [OF connector_reachable [OF assms(1)] assms(2)] assms(3) by (simp add: connector_fault_def)

theorem connector_only_stop_fails_witness:
  "\<exists>s e. reach connector_step (connector_sys 1) s \<and> connector_exec KStop s = Inl e \<and> e = AssertFail ''!channel_''"
proof -
  have "map_option (\<lambda>s. cn_channel (ks_conn s)) (connector_run [KStart 1 (SysOk 7) 115] (connector_sys 1)) = Some (Some 7)" by code_simp
  then obtain s where s: "connector_run [KStart 1 (SysOk 7) 115] (connector_sys 1) = Some s" "cn_channel (ks_conn s) = Some 7" by auto
  note r = connector_run_reach [OF s(1)]
  obtain e where e: "connector_exec KStop s = Inl e" using s(2) by (simp add: Connector_stop_def assertR_def)
  have "connector_enabled KStop s" by simp
  from connector_only_stop_fails [OF r this e] have "e = AssertFail ''!channel_''"
    using e s(2) by (auto simp: Connector_stop_def assertR_def)
  then show ?thesis using r e by blast
qed

text \<open>Back-off: the delay of the \<open>n\<close>-th retry in a row is \<^verbatim>\<open>500 ms\<close> doubled \<open>n\<close> times, limited to
  \<^verbatim>\<open>30 s\<close>.\<close>

theorem retry_backoff:
  "cn_delays (fold retry fds ((Connector_ctor t)\<lparr>cn_connect := True\<rparr>)) = map (\<lambda>n. min (500 * 2 ^ n) 30000) [0..<length fds]"
proof -
  have "cn_delays (fold retry fds c) = cn_delays c @ map (\<lambda>n. min (500 * 2 ^ n) 30000) [k..<k + length fds]"
    if "cn_connect c" "cn_retryDelayMs c = min (500 * 2 ^ k) 30000" for c k
    using that
  proof (induction fds arbitrary: c k)
    case (Cons fd fds)
    let ?c = "retry fd c"
    have "cn_connect ?c" "cn_retryDelayMs ?c = min (500 * 2 ^ Suc k) 30000" "cn_delays ?c = cn_delays c @ [min (500 * 2 ^ k) 30000]"
      using Cons.prems by (simp_all add: retry_def Let_def cn_setState_def cn_close_def kMaxRetryDelayMs_def min_def)
    moreover have "[k..<k + length (fd # fds)] = k # [Suc k..<Suc k + length fds]" by (simp add: upt_conv_Cons del: upt_Suc)
    ultimately show ?case using Cons.IH [of ?c "Suc k"] by (simp del: upt_Suc)
  qed simp
  from this [of "(Connector_ctor t)\<lparr>cn_connect := True\<rparr>" 0] show ?thesis by (simp add: Connector_ctor_def kInitRetryDelayMs_def)
qed

text \<open>A client that loses its connection: \<^verbatim>\<open>removeConnection\<close>, in the client's loop and for the
  connection it holds, forgets the connection, queues its destruction, and reconnects exactly when
  retrying is enabled and the user has not disconnected.\<close>

theorem client_removes:
  assumes "cl_connection c = Some conn" and "tc_thread conn = cl_thread c"
    and "cn_inv (cl_connector c)" and "cn_state (cl_connector c) = cnConnected" and "cn_queue (cl_connector c) = []"
    and "cn_thread (cl_connector c) = cl_thread c"
  shows "\<exists>k. TcpClient_removeConnection (cl_thread c) (SysOk fd) 115 True conn c
       = Inr (c\<lparr>cl_connection := None, cl_connector := k\<rparr>, tc_queueInLoop FDestroy conn)
     \<and> (if cl_retry c \<and> cl_connect c then cn_state k = cnConnecting \<and> cn_channel k = Some fd \<and> cn_retryDelayMs k = 500 else k = cl_connector c)"
  using assms
  by (auto simp: TcpClient_removeConnection_def Let_def Connector_restart_def startInLoop_def Connector_connect_def createNonblockingOrDie_def
      connecting_def cn_setState_def connect_pending_def cn_defs kInitRetryDelayMs_def EINTR_def)

lemmas orphan_defs = detail_removeConnection_def after_close_def closes_def forceClose_def forceCloseInLoop_def handleClose_def connectDestroyed_def
  tc_assertInLoopThread_def tc_queueInLoop_def tc_emit_def tc_watch_def setState_def

text \<open>A client destroyed while it holds the only reference to an open connection: the loop closes the connection once and then
  destroys it; but if the peer closes before the queued forced close runs, the close callback runs twice and the second
  \<^verbatim>\<open>connectDestroyed\<close> fails its assertion.\<close>

theorem destroyed_client_closes:
  assumes "cl_connection c = Some conn" "cl_thread c = tc_thread conn" "tc_state conn = kConnected \<or> tc_state conn = kDisconnecting" "tc_queue conn = []"
  shows "\<exists>c' conn' conn''. TcpClient_dtor True c = Inr c' \<and> cl_connection c' = Some conn' \<and> run_orphan 2 conn' = Inr conn''
     \<and> tc_state conn'' = kDisconnected \<and> tc_queue conn'' = [] \<and> closes conn'' = closes conn + 1 \<and> last (tc_calls conn'') = Unwatch 0
     \<and> bindR (handleClose (tc_thread conn') conn') (\<lambda>d. run_orphan 3 (after_close conn' d))
         = Inl (AssertFail ''state_ == kConnected || state_ == kDisconnecting'')"
  using assms by (auto simp: TcpClient_dtor_def orphan_defs numeral_2_eq_2 numeral_3_eq_3)

theorem destroyed_client_closes_witness:
  "\<exists>c c' conn'. TcpClient_newConnection (\<lambda>_ _. ''h'') 0 None 1 (TcpClient_ctor 1 ''c'' 0) = Inr c \<and> TcpClient_dtor True c = Inr c'
     \<and> cl_connection c' = Some conn' \<and> is_ok (run_orphan 2 conn')"
proof -
  have "is_ok (TcpClient_newConnection (\<lambda>_ _. ''h'') 0 None 1 (TcpClient_ctor 1 ''c'' 0))" by code_simp
  then obtain c where c: "TcpClient_newConnection (\<lambda>_ _. ''h'') 0 None 1 (TcpClient_ctor 1 ''c'' 0) = Inr c" by (auto simp: is_ok_def split: sum.splits)
  have "(case TcpClient_newConnection (\<lambda>_ _. ''h'') 0 None 1 (TcpClient_ctor 1 ''c'' 0) of Inr c \<Rightarrow>
      map_option (\<lambda>conn. (tc_state conn, tc_queue conn, tc_thread conn)) (cl_connection c) = Some (kConnected, [], 1) \<and> cl_thread c = 1)" by code_simp
  then obtain conn where "cl_connection c = Some conn" "cl_thread c = tc_thread conn" "tc_state conn = kConnected \<or> tc_state conn = kDisconnecting" "tc_queue conn = []"
    using c by auto
  from destroyed_client_closes [OF this] show ?thesis using c by (auto simp: is_ok_def)
qed

end
