(* ===== verification/Base_Sync.thy ===== *)
theory Base_Sync
  imports Cpp_Prelude Step_System
begin

text \<open>
  \<^verbatim>\<open>base/Mutex.h\<close>, \<^verbatim>\<open>base/Condition.h\<close>, \<^verbatim>\<open>base/Atomic.h\<close> and \<^verbatim>\<open>base/CountDownLatch.cc\<close>. The POSIX
  mutex has at most one owner; locking and recording the holder are separate statements, so they are
  separate steps that other threads can interleave with. A thread is its kernel number, never \<open>0\<close>,
  and \<^verbatim>\<open>holder_ == 0\<close> stands for no holder.
\<close>

section \<open>The mutex\<close>

record MutexLock =
  mx_owner :: "nat option"   \<comment> \<open>the owner of \<^verbatim>\<open>mutex_\<close>, the POSIX mutex\<close>
  mx_holder :: nat           \<comment> \<open>\<^verbatim>\<open>holder_\<close>\<close>

definition MutexLock_ctor :: MutexLock where
  "MutexLock_ctor = \<lparr>mx_owner = None, mx_holder = 0\<rparr>"

definition MutexLock_dtor :: "MutexLock \<Rightarrow> unit result" where
  "MutexLock_dtor m = assertR ''holder_ == 0'' (mx_holder m = 0) (Inr ())"

definition isLockedByThisThread :: "nat \<Rightarrow> MutexLock \<Rightarrow> bool" where
  "isLockedByThisThread tid m = (mx_holder m = tid)"

definition assertLocked :: "nat \<Rightarrow> MutexLock \<Rightarrow> unit result" where
  "assertLocked tid m = assertR ''isLockedByThisThread()'' (isLockedByThisThread tid m) (Inr ())"

definition assignHolder :: "nat \<Rightarrow> MutexLock \<Rightarrow> MutexLock" where
  "assignHolder tid m = m\<lparr>mx_holder := tid\<rparr>"

definition unassignHolder :: "MutexLock \<Rightarrow> MutexLock" where
  "unassignHolder m = m\<lparr>mx_holder := 0\<rparr>"

definition pthread_lock :: "nat \<Rightarrow> MutexLock \<Rightarrow> MutexLock" where
  "pthread_lock tid m = m\<lparr>mx_owner := Some tid\<rparr>"

definition pthread_unlock :: "MutexLock \<Rightarrow> MutexLock" where
  "pthread_unlock m = m\<lparr>mx_owner := None\<rparr>"

text \<open>Where a thread is in \<^verbatim>\<open>lock\<close>, \<^verbatim>\<open>unlock\<close> and \<^verbatim>\<open>Condition::wait\<close>: between the POSIX lock and
  \<^verbatim>\<open>assignHolder\<close>, in the critical section, between \<^verbatim>\<open>unassignHolder\<close> and the unlock, and the same
  around the wait.\<close>

datatype lock_pc = Outside | Locking | Inside | Unlocking | WaitEntry | Waiting | WaitExit

inductive mutex_step :: "MutexLock \<times> (nat \<Rightarrow> lock_pc) \<Rightarrow> MutexLock \<times> (nat \<Rightarrow> lock_pc) \<Rightarrow> bool" where
  lock_acquire: "tid \<noteq> 0 \<Longrightarrow> pc tid = Outside \<Longrightarrow> mx_owner m = None \<Longrightarrow> mutex_step (m, pc) (pthread_lock tid m, pc(tid := Locking))"
| lock_assign: "pc tid = Locking \<Longrightarrow> mutex_step (m, pc) (assignHolder tid m, pc(tid := Inside))"
| unlock_unassign: "pc tid = Inside \<Longrightarrow> mutex_step (m, pc) (unassignHolder m, pc(tid := Unlocking))"
| unlock_release: "pc tid = Unlocking \<Longrightarrow> mutex_step (m, pc) (pthread_unlock m, pc(tid := Outside))"
| wait_unassign: "pc tid = Inside \<Longrightarrow> mutex_step (m, pc) (unassignHolder m, pc(tid := WaitEntry))"
| wait_release: "pc tid = WaitEntry \<Longrightarrow> mutex_step (m, pc) (pthread_unlock m, pc(tid := Waiting))"
| wait_acquire: "pc tid = Waiting \<Longrightarrow> mx_owner m = None \<Longrightarrow> mutex_step (m, pc) (pthread_lock tid m, pc(tid := WaitExit))"
| wait_assign: "pc tid = WaitExit \<Longrightarrow> mutex_step (m, pc) (assignHolder tid m, pc(tid := Inside))"

inductive_cases mutex_stepE: "mutex_step s s'"

definition owns :: "lock_pc \<Rightarrow> bool" where
  "owns p = (p \<in> {Locking, Inside, Unlocking, WaitEntry, WaitExit})"

definition mutex_inv :: "MutexLock \<times> (nat \<Rightarrow> lock_pc) \<Rightarrow> bool" where
  "mutex_inv s = (case s of (m, pc) \<Rightarrow>
     pc 0 = Outside
     \<and> (\<forall>t. owns (pc t) \<longleftrightarrow> mx_owner m = Some t)
     \<and> (\<forall>t. t \<noteq> 0 \<longrightarrow> (mx_holder m = t \<longleftrightarrow> pc t = Inside)))"

lemma mutex_invD:
  assumes "mutex_inv (m, pc)"
  shows "pc 0 = Outside" "owns (pc t) \<longleftrightarrow> mx_owner m = Some t" "t \<noteq> 0 \<Longrightarrow> mx_holder m = t \<longleftrightarrow> pc t = Inside"
  using assms unfolding mutex_inv_def by blast+

lemma owns_simps [simp]: "owns Locking" "owns Inside" "owns Unlocking" "owns WaitEntry" "owns WaitExit" "\<not> owns Outside" "\<not> owns Waiting"
  by (simp_all add: owns_def)

text \<open>A step of the owner, or of a thread that becomes the owner: nobody else is inside.\<close>

lemma mutex_inv_step:
  assumes inv: "mutex_inv (m, pc)" and "mx_owner m = Some tid \<or> mx_owner m = None" "tid \<noteq> 0"
    and "mx_owner m' = (if owns p then Some tid else None)" "mx_holder m' = (if p = Inside then tid else 0)"
  shows "mutex_inv (m', pc(tid := p))"
proof -
  have no: "\<not> owns (pc t)" if "t \<noteq> tid" for t using mutex_invD(2) [OF inv] assms(2) that by auto
  then have "pc t \<noteq> Inside" if "t \<noteq> tid" for t using that by (metis owns_simps(2))
  then show ?thesis using assms(3-5) no mutex_invD(1) [OF inv] unfolding mutex_inv_def by (simp split: if_splits)
qed

lemma mutex_inv_owner:
  assumes "mutex_inv (m, pc)" "owns (pc tid)"
  shows "mx_owner m = Some tid" "tid \<noteq> 0"
  using mutex_invD [OF assms(1)] assms(2) by (metis owns_simps(6))+

lemma mutex_holder_outside:
  assumes "mutex_inv (m, pc)" "\<forall>t. mx_owner m = Some t \<longrightarrow> pc t \<noteq> Inside"
  shows "mx_holder m = 0"
  using mutex_invD(2,3) [OF assms(1), of "mx_holder m"] assms(2) owns_simps(2) by metis

lemmas mutex_ops = pthread_lock_def pthread_unlock_def assignHolder_def unassignHolder_def

lemma mutex_inv_preserved:
  assumes "mutex_inv s" "mutex_step s s'"
  shows "mutex_inv s'"
  using assms(2)
proof (cases rule: mutex_step.cases)
  case (lock_acquire tid pc m)
  then show ?thesis using assms(1) mutex_holder_outside [of m pc]
    by (auto intro!: mutex_inv_step [of m pc tid] simp: mutex_ops)
next
  case (lock_assign pc tid m)
  then show ?thesis using assms(1) mutex_inv_owner [of m pc tid]
    by (auto intro!: mutex_inv_step [of m pc tid] simp: mutex_ops)
next
  case (unlock_unassign pc tid m)
  then show ?thesis using assms(1) mutex_inv_owner [of m pc tid]
    by (auto intro!: mutex_inv_step [of m pc tid] simp: mutex_ops)
next
  case (unlock_release pc tid m)
  then show ?thesis using assms(1) mutex_inv_owner [of m pc tid] mutex_holder_outside [of m pc]
    by (auto intro!: mutex_inv_step [of m pc tid] simp: mutex_ops)
next
  case (wait_unassign pc tid m)
  then show ?thesis using assms(1) mutex_inv_owner [of m pc tid]
    by (auto intro!: mutex_inv_step [of m pc tid] simp: mutex_ops)
next
  case (wait_release pc tid m)
  then show ?thesis using assms(1) mutex_inv_owner [of m pc tid] mutex_holder_outside [of m pc]
    by (auto intro!: mutex_inv_step [of m pc tid] simp: mutex_ops)
next
  case (wait_acquire pc tid m)
  then have "tid \<noteq> 0" using assms(1) mutex_invD(1) by (metis lock_pc.distinct(9))
  then show ?thesis using wait_acquire assms(1) mutex_holder_outside [of m pc]
    by (auto intro!: mutex_inv_step [of m pc tid] simp: mutex_ops)
next
  case (wait_assign pc tid m)
  then show ?thesis using assms(1) mutex_inv_owner [of m pc tid]
    by (auto intro!: mutex_inv_step [of m pc tid] simp: mutex_ops)
qed

interpretation mutex: step_invariant mutex_step mutex_inv
  by unfold_locales (rule mutex_inv_preserved)

section \<open>Timed waits\<close>

text \<open>The deadline of \<^verbatim>\<open>waitForSeconds\<close>: the clock's seconds and nanoseconds plus the wait. The product
  of the \<^verbatim>\<open>double\<close> is the argument.\<close>

definition kNanoSecondsPerSecond :: int where "kNanoSecondsPerSecond = 1000000000"

definition wait_deadline :: "int \<Rightarrow> int \<Rightarrow> int \<Rightarrow> int \<times> int" where
  "wait_deadline tv_sec tv_nsec nanoseconds =
     (tv_sec + cdiv (tv_nsec + nanoseconds) kNanoSecondsPerSecond, cmod (tv_nsec + nanoseconds) kNanoSecondsPerSecond)"

section \<open>Atomic integers\<close>

type_synonym 'a AtomicIntegerT = "'a word"

definition AtomicIntegerT_ctor :: "'a::len AtomicIntegerT" where "AtomicIntegerT_ctor = 0"

text \<open>\<^verbatim>\<open>get\<close> is a compare-and-swap of \<open>0\<close> for \<open>0\<close>.\<close>

definition val_compare_and_swap :: "'a::len word \<Rightarrow> 'a word \<Rightarrow> 'a AtomicIntegerT \<Rightarrow> 'a word \<times> 'a AtomicIntegerT" where
  "val_compare_and_swap old new v = (v, if v = old then new else v)"

definition at_get :: "'a::len AtomicIntegerT \<Rightarrow> 'a word \<times> 'a AtomicIntegerT" where
  "at_get v = val_compare_and_swap 0 0 v"

definition getAndAdd :: "'a::len word \<Rightarrow> 'a AtomicIntegerT \<Rightarrow> 'a word \<times> 'a AtomicIntegerT" where
  "getAndAdd x v = (v, v + x)"

definition addAndGet :: "'a::len word \<Rightarrow> 'a AtomicIntegerT \<Rightarrow> 'a word \<times> 'a AtomicIntegerT" where
  "addAndGet x v = (let (old, v') = getAndAdd x v in (old + x, v'))"

definition incrementAndGet :: "'a::len AtomicIntegerT \<Rightarrow> 'a word \<times> 'a AtomicIntegerT" where
  "incrementAndGet v = addAndGet 1 v"

definition decrementAndGet :: "'a::len AtomicIntegerT \<Rightarrow> 'a word \<times> 'a AtomicIntegerT" where
  "decrementAndGet v = addAndGet (- 1) v"

definition at_add :: "'a::len word \<Rightarrow> 'a AtomicIntegerT \<Rightarrow> 'a AtomicIntegerT" where
  "at_add x v = snd (getAndAdd x v)"

definition increment :: "'a::len AtomicIntegerT \<Rightarrow> 'a AtomicIntegerT" where
  "increment v = snd (incrementAndGet v)"

definition decrement :: "'a::len AtomicIntegerT \<Rightarrow> 'a AtomicIntegerT" where
  "decrement v = snd (decrementAndGet v)"

definition getAndSet :: "'a::len word \<Rightarrow> 'a AtomicIntegerT \<Rightarrow> 'a word \<times> 'a AtomicIntegerT" where
  "getAndSet newValue v = (v, newValue)"

text \<open>The numbers handed out by concurrent \<^verbatim>\<open>incrementAndGet\<close> calls, in the order the memory
  system serialises them.\<close>

fun increments :: "nat \<Rightarrow> 'a::len AtomicIntegerT \<Rightarrow> 'a word list \<times> 'a AtomicIntegerT" where
  "increments 0 v = ([], v)"
| "increments (Suc n) v = (let (x, v1) = incrementAndGet v; (xs, v2) = increments n v1 in (x # xs, v2))"

lemma increments_eq: "increments n v = (map (\<lambda>i. v + 1 + word_of_nat i) [0..<n], v + word_of_nat n)"
proof (induction n arbitrary: v)
  case (Suc n)
  have "map (\<lambda>i. v + 1 + word_of_nat i) [0..<Suc n] = (v + 1) # map (\<lambda>i. v + 1 + 1 + word_of_nat i) [0..<n]"
    by (simp add: map_upt_Suc add.assoc del: upt_Suc)
  then show ?case using Suc.IH [of "v + 1"] by (simp add: incrementAndGet_def addAndGet_def getAndAdd_def add.assoc del: upt_Suc)
qed simp

section \<open>The latch\<close>

text \<open>The latch with its users: how many threads wait on the condition, how many were woken (or have
  just called \<^verbatim>\<open>wait\<close>) and are about to test the count, how many returned, and how often \<^verbatim>\<open>countDown\<close>
  was called.\<close>

record CountDownLatch =
  cl_count :: int
  cl_waiting :: nat
  cl_testing :: nat
  cl_returned :: nat
  cl_downs :: nat

definition CountDownLatch_ctor :: "int \<Rightarrow> CountDownLatch" where
  "CountDownLatch_ctor count = \<lparr>cl_count = count, cl_waiting = 0, cl_testing = 0, cl_returned = 0, cl_downs = 0\<rparr>"

text \<open>One round of the loop of \<^verbatim>\<open>wait\<close>, under the lock.\<close>

definition latch_test :: "CountDownLatch \<Rightarrow> CountDownLatch" where
  "latch_test l = (if cl_count l > 0 then l\<lparr>cl_testing := cl_testing l - 1, cl_waiting := cl_waiting l + 1\<rparr>
     else l\<lparr>cl_testing := cl_testing l - 1, cl_returned := cl_returned l + 1\<rparr>)"

definition countDown :: "CountDownLatch \<Rightarrow> CountDownLatch" where
  "countDown l =
     (let l1 = l\<lparr>cl_count := cl_count l - 1, cl_downs := cl_downs l + 1\<rparr> in
      if cl_count l1 = 0 then l1\<lparr>cl_waiting := 0, cl_testing := cl_testing l1 + cl_waiting l1\<rparr> else l1)"

inductive latch_step :: "CountDownLatch \<Rightarrow> CountDownLatch \<Rightarrow> bool" where
  latch_call: "latch_step l (l\<lparr>cl_testing := cl_testing l + 1\<rparr>)"
| latch_round: "0 < cl_testing l \<Longrightarrow> latch_step l (latch_test l)"
| latch_spurious: "0 < cl_waiting l \<Longrightarrow> latch_step l (l\<lparr>cl_waiting := cl_waiting l - 1, cl_testing := cl_testing l + 1\<rparr>)"
| latch_down: "latch_step l (countDown l)"

definition latch_inv :: "int \<Rightarrow> CountDownLatch \<Rightarrow> bool" where
  "latch_inv n l = (cl_count l = n - int (cl_downs l) \<and> (0 < cl_waiting l \<longrightarrow> 0 < cl_count l)
     \<and> (0 < cl_returned l \<longrightarrow> cl_count l \<le> 0))"

interpretation latch: step_invariant latch_step "latch_inv n"
proof
  fix s s' assume "latch_inv n s" "latch_step s s'"
  from this(2,1) show "latch_inv n s'"
    by (cases rule: latch_step.cases) (auto simp: latch_inv_def latch_test_def countDown_def Let_def)
qed

section \<open>Properties\<close>

text \<open>C29. The recorded holder: under every interleaving of threads that lock, unlock and wait on
  conditions, at most one thread owns the mutex, and \<^verbatim>\<open>isLockedByThisThread\<close> is true for exactly the
  thread that is inside the critical section, also around a wait; so \<^verbatim>\<open>assertLocked\<close> never fails there,
  and the assertion of the destructor holds once every thread has left.\<close>

theorem mutex_holder_exact:
  assumes "reach mutex_step (MutexLock_ctor, \<lambda>_. Outside) (m, pc)" and "tid \<noteq> 0"
  shows "(isLockedByThisThread tid m \<longleftrightarrow> pc tid = Inside)
     \<and> (owns (pc tid) \<longrightarrow> (\<forall>t. owns (pc t) \<longrightarrow> t = tid))
     \<and> (pc tid = Inside \<longrightarrow> assertLocked tid m = Inr ())
     \<and> ((\<forall>t. pc t = Outside) \<longrightarrow> MutexLock_dtor m = Inr ())"
proof -
  have "mutex_inv (MutexLock_ctor, \<lambda>_. Outside)" by (simp add: mutex_inv_def MutexLock_ctor_def)
  then have inv: "mutex_inv (m, pc)" using mutex.invariant [OF assms(1)] by blast
  have "t = tid" if "owns (pc tid)" "owns (pc t)" for t using mutex_inv_owner(1) [OF inv] that by (metis option.inject)
  moreover have "mx_holder m = 0" if "\<forall>t. pc t = Outside" using mutex_holder_outside [OF inv] that by simp
  ultimately show ?thesis using mutex_invD(3) [OF inv assms(2)]
    by (simp add: isLockedByThisThread_def assertLocked_def MutexLock_dtor_def)
qed

theorem mutex_holder_exact_witness:
  "\<exists>m pc. reach mutex_step (MutexLock_ctor, \<lambda>_. Outside) (m, pc) \<and> isLockedByThisThread 7 m \<and> \<not> isLockedByThisThread 8 m"
proof -
  let ?m = "assignHolder 7 (pthread_lock 7 MutexLock_ctor)" and ?pc = "((\<lambda>_. Outside)(7 := Locking))(7 := Inside)"
  have "mutex_step (MutexLock_ctor, \<lambda>_. Outside) (pthread_lock 7 MutexLock_ctor, (\<lambda>_. Outside)(7 := Locking))"
    by (rule lock_acquire) (simp_all add: MutexLock_ctor_def)
  moreover have "mutex_step (pthread_lock 7 MutexLock_ctor, (\<lambda>_. Outside)(7 := Locking)) (?m, ?pc)"
    by (rule lock_assign) simp
  ultimately have r: "reach mutex_step (MutexLock_ctor, \<lambda>_. Outside) (?m, ?pc)"
    by (rule reach_step [OF reach_one])
  have "isLockedByThisThread 7 ?m" "\<not> isLockedByThisThread 8 ?m"
    using conjunct1 [OF mutex_holder_exact [OF r, of 7]] conjunct1 [OF mutex_holder_exact [OF r, of 8]] by simp_all
  with r show ?thesis by blast
qed

text \<open>The latch: no thread returns from \<^verbatim>\<open>wait\<close> before \<^verbatim>\<open>countDown\<close> was called as often as the
  initial count says, and from then on no thread is left waiting, whatever the order of calls and
  wake-ups.\<close>

theorem latch_opens:
  assumes "reach latch_step (CountDownLatch_ctor n) l"
  shows "(0 < cl_returned l \<longrightarrow> n \<le> int (cl_downs l)) \<and> (n \<le> int (cl_downs l) \<longrightarrow> cl_waiting l = 0)"
proof -
  have "latch_inv n (CountDownLatch_ctor n)" by (simp add: latch_inv_def CountDownLatch_ctor_def)
  then have "latch_inv n l" using latch.invariant [OF assms] by blast
  then show ?thesis by (auto simp: latch_inv_def)
qed

theorem latch_opens_witness:
  "\<exists>l. reach latch_step (CountDownLatch_ctor 1) l \<and> cl_downs l = 1 \<and> cl_testing l = 1 \<and> cl_waiting l = 0"
proof -
  let ?l0 = "CountDownLatch_ctor 1" let ?l1 = "?l0\<lparr>cl_testing := cl_testing ?l0 + 1\<rparr>"
  have "latch_step ?l0 ?l1" by (rule latch_call)
  moreover have "latch_step ?l1 (latch_test ?l1)" by (rule latch_round) simp
  moreover have "latch_step (latch_test ?l1) (countDown (latch_test ?l1))" by (rule latch_down)
  ultimately have r: "reach latch_step ?l0 (countDown (latch_test ?l1))" by (meson reach_refl reach_step)
  moreover have "cl_downs (countDown (latch_test ?l1)) = 1 \<and> cl_testing (countDown (latch_test ?l1)) = 1" by code_simp
  ultimately show ?thesis using latch_opens [OF r] by auto
qed

text \<open>Tickets are unique: the numbers that up to \<open>2^w\<close> calls of \<^verbatim>\<open>incrementAndGet\<close> return on a new
  atomic integer are distinct, one to the number of calls, modulo the width.\<close>

theorem increments_unique:
  assumes "n \<le> 2 ^ LENGTH('a::len)"
  shows "fst (increments n (AtomicIntegerT_ctor :: 'a AtomicIntegerT)) = map (\<lambda>i. word_of_nat (Suc i)) [0..<n]
     \<and> distinct (fst (increments n (AtomicIntegerT_ctor :: 'a AtomicIntegerT)))"
proof -
  have eq: "fst (increments n (AtomicIntegerT_ctor :: 'a AtomicIntegerT)) = map (\<lambda>i. 1 + word_of_nat i) [0..<n]"
    by (simp add: increments_eq AtomicIntegerT_ctor_def)
  have "inj_on (\<lambda>i. 1 + (word_of_nat i :: 'a word)) {0..<n}"
    using assms by (auto simp: inj_on_def word_of_nat_eq_iff take_bit_nat_eq_self)
  then show ?thesis unfolding eq by (simp add: distinct_map)
qed

theorem increments_unique_witness:
  "distinct (fst (increments 3 (AtomicIntegerT_ctor :: 32 AtomicIntegerT)))"
  using conjunct2 [OF increments_unique [where 'a = 32 and n = 3]] by simp

text \<open>The deadline of a timed wait of non-negative length is a valid time whose distance from now
  is exactly that length.\<close>

theorem wait_deadline_ok:
  assumes "0 \<le> tv_nsec" and "0 \<le> nanoseconds"
  shows "(case wait_deadline tv_sec tv_nsec nanoseconds of (s, ns) \<Rightarrow>
     0 \<le> ns \<and> ns < kNanoSecondsPerSecond
     \<and> s * kNanoSecondsPerSecond + ns = tv_sec * kNanoSecondsPerSecond + tv_nsec + nanoseconds)"
  using assms by (simp add: wait_deadline_def kNanoSecondsPerSecond_def)

end
