(* ===== verification/Base_Queue.thy ===== *)
theory Base_Queue
  imports Base_Sync
begin

text \<open>
  \<^verbatim>\<open>base/BlockingQueue.h\<close> and \<^verbatim>\<open>base/BoundedBlockingQueue.h\<close>. The body of an
  operation runs under the mutex, so it is atomic up to \<^verbatim>\<open>wait\<close>: an operation is a function that
  returns \<open>None\<close> when the thread has to wait on its condition and go round its loop again. The step
  relations interleave any number of threads that call, wait, are woken by \<^verbatim>\<open>notify\<close> or for no reason,
  and test their condition again. The locale \<open>blocking_fifo\<close> is the contract of a queue under which
  these systems are correct.
\<close>

section \<open>The unbounded queue\<close>

record 'a BlockingQueue = bq_queue :: "'a list"

definition BlockingQueue_ctor :: "'a BlockingQueue" where
  "BlockingQueue_ctor = \<lparr>bq_queue = []\<rparr>"

definition BlockingQueue_put :: "'a \<Rightarrow> 'a BlockingQueue \<Rightarrow> 'a BlockingQueue option" where
  "BlockingQueue_put x q = Some (q\<lparr>bq_queue := bq_queue q @ [x]\<rparr>)"

definition BlockingQueue_take :: "'a BlockingQueue \<Rightarrow> ('a \<times> 'a BlockingQueue) option" where
  "BlockingQueue_take q = (case bq_queue q of [] \<Rightarrow> None | front # rest \<Rightarrow> Some (front, q\<lparr>bq_queue := rest\<rparr>))"

definition BlockingQueue_size :: "'a BlockingQueue \<Rightarrow> nat" where
  "BlockingQueue_size q = length (bq_queue q)"

section \<open>The bounded queue\<close>

text \<open>\<^verbatim>\<open>boost::circular_buffer\<close> is a parameter: its operations, and the laws its documentation gives
  them over the sequence of its elements.\<close>

record ('a, 'b) circular_buffer =
  cb_make :: "nat \<Rightarrow> 'b"
  cb_full :: "'b \<Rightarrow> bool"
  cb_empty :: "'b \<Rightarrow> bool"
  cb_size :: "'b \<Rightarrow> nat"
  cb_capacity :: "'b \<Rightarrow> nat"
  cb_push_back :: "'a \<Rightarrow> 'b \<Rightarrow> 'b"
  cb_front :: "'b \<Rightarrow> 'a"
  cb_pop_front :: "'b \<Rightarrow> 'b"

definition circular_laws :: "('a, 'b) circular_buffer \<Rightarrow> ('b \<Rightarrow> 'a list) \<Rightarrow> bool" where
  "circular_laws ops items = (
     (\<forall>n. items (cb_make ops n) = [] \<and> cb_capacity ops (cb_make ops n) = n) \<and>
     (\<forall>b. cb_full ops b \<longleftrightarrow> length (items b) = cb_capacity ops b) \<and>
     (\<forall>b. cb_empty ops b \<longleftrightarrow> items b = []) \<and>
     (\<forall>b. cb_size ops b = length (items b) \<and> length (items b) \<le> cb_capacity ops b) \<and>
     (\<forall>b x. length (items b) < cb_capacity ops b \<longrightarrow>
        items (cb_push_back ops x b) = items b @ [x] \<and> cb_capacity ops (cb_push_back ops x b) = cb_capacity ops b) \<and>
     (\<forall>b. items b \<noteq> [] \<longrightarrow> cb_front ops b = hd (items b) \<and> items (cb_pop_front ops b) = tl (items b)
        \<and> cb_capacity ops (cb_pop_front ops b) = cb_capacity ops b))"

definition BoundedBlockingQueue_ctor :: "('a, 'b) circular_buffer \<Rightarrow> nat \<Rightarrow> 'b" where
  "BoundedBlockingQueue_ctor ops max_size = cb_make ops max_size"

definition BoundedBlockingQueue_put :: "('a, 'b) circular_buffer \<Rightarrow> 'a \<Rightarrow> 'b \<Rightarrow> 'b option" where
  "BoundedBlockingQueue_put ops x q = (if cb_full ops q then None else Some (cb_push_back ops x q))"

definition BoundedBlockingQueue_take :: "('a, 'b) circular_buffer \<Rightarrow> 'b \<Rightarrow> ('a \<times> 'b) option" where
  "BoundedBlockingQueue_take ops q = (if cb_empty ops q then None else Some (cb_front ops q, cb_pop_front ops q))"

section \<open>Threads around a queue\<close>

text \<open>\<open>qs_takers\<close> threads are about to test whether they can take, \<open>qs_waitTake\<close> wait; \<open>qs_putters\<close> and
  \<open>qs_waitPut\<close> are the same for threads with a value to put. \<open>qs_in\<close> and \<open>qs_out\<close> record the values
  that entered and left.\<close>

record ('a, 'q) queue_sys =
  qs_queue :: 'q
  qs_takers :: nat
  qs_waitTake :: nat
  qs_putters :: "'a list"
  qs_waitPut :: "'a list"
  qs_in :: "'a list"
  qs_out :: "'a list"

definition queue_sys :: "'q \<Rightarrow> ('a, 'q) queue_sys" where
  "queue_sys q = \<lparr>qs_queue = q, qs_takers = 0, qs_waitTake = 0, qs_putters = [], qs_waitPut = [], qs_in = [], qs_out = []\<rparr>"

text \<open>\<^verbatim>\<open>notEmpty_.notify()\<close> wakes one taker if one waits.\<close>

definition notify_taker :: "('a, 'q) queue_sys \<Rightarrow> ('a, 'q) queue_sys" where
  "notify_taker s = (if 0 < qs_waitTake s then s\<lparr>qs_waitTake := qs_waitTake s - 1, qs_takers := qs_takers s + 1\<rparr> else s)"

inductive notify_putter :: "('a, 'q) queue_sys \<Rightarrow> ('a, 'q) queue_sys \<Rightarrow> bool" where
  notify_none: "qs_waitPut s = [] \<Longrightarrow> notify_putter s s"
| notify_one: "qs_waitPut s = us @ x # vs \<Longrightarrow> notify_putter s (s\<lparr>qs_waitPut := us @ vs, qs_putters := x # qs_putters s\<rparr>)"

inductive queue_step :: "('a \<Rightarrow> 'q \<Rightarrow> 'q option) \<Rightarrow> ('q \<Rightarrow> ('a \<times> 'q) option) \<Rightarrow> ('a, 'q) queue_sys \<Rightarrow> ('a, 'q) queue_sys \<Rightarrow> bool"
  for put take where
  call_put: "queue_step put take s (s\<lparr>qs_putters := x # qs_putters s\<rparr>)"
| call_take: "queue_step put take s (s\<lparr>qs_takers := qs_takers s + 1\<rparr>)"
| put_done: "qs_putters s = us @ x # vs \<Longrightarrow> put x (qs_queue s) = Some q \<Longrightarrow>
    queue_step put take s (notify_taker (s\<lparr>qs_queue := q, qs_putters := us @ vs, qs_in := qs_in s @ [x]\<rparr>))"
| put_wait: "qs_putters s = us @ x # vs \<Longrightarrow> put x (qs_queue s) = None \<Longrightarrow>
    queue_step put take s (s\<lparr>qs_putters := us @ vs, qs_waitPut := x # qs_waitPut s\<rparr>)"
| put_wake: "qs_waitPut s = us @ x # vs \<Longrightarrow> queue_step put take s (s\<lparr>qs_waitPut := us @ vs, qs_putters := x # qs_putters s\<rparr>)"
| take_done: "0 < qs_takers s \<Longrightarrow> take (qs_queue s) = Some (x, q) \<Longrightarrow>
    notify_putter (s\<lparr>qs_queue := q, qs_takers := qs_takers s - 1, qs_out := qs_out s @ [x]\<rparr>) s' \<Longrightarrow> queue_step put take s s'"
| take_wait: "0 < qs_takers s \<Longrightarrow> take (qs_queue s) = None \<Longrightarrow>
    queue_step put take s (s\<lparr>qs_takers := qs_takers s - 1, qs_waitTake := qs_waitTake s + 1\<rparr>)"
| take_wake: "0 < qs_waitTake s \<Longrightarrow> queue_step put take s (s\<lparr>qs_waitTake := qs_waitTake s - 1, qs_takers := qs_takers s + 1\<rparr>)"

text \<open>The contract. \<open>room\<close> counts the values a bounded queue can still take.\<close>

locale blocking_fifo =
  fixes put :: "'a \<Rightarrow> 'q \<Rightarrow> 'q option"
    and take :: "'q \<Rightarrow> ('a \<times> 'q) option"
    and items :: "'q \<Rightarrow> 'a list"
    and room :: "'q \<Rightarrow> nat"
  assumes put_items: "put x q = Some q' \<Longrightarrow> items q' = items q @ [x] \<and> room q' \<le> room q - 1"
    and put_blocks: "put x q = None \<Longrightarrow> room q = 0"
    and take_items: "take q = Some (x, q') \<Longrightarrow> items q = x # items q' \<and> room q' \<le> room q + 1"
    and take_blocks: "take q = None \<Longrightarrow> items q = []"
begin

definition fifo_inv :: "('a, 'q) queue_sys \<Rightarrow> bool" where
  "fifo_inv s = (qs_in s = qs_out s @ items (qs_queue s)
     \<and> (0 < qs_waitTake s \<longrightarrow> length (items (qs_queue s)) \<le> qs_takers s)
     \<and> (qs_waitPut s \<noteq> [] \<longrightarrow> room (qs_queue s) \<le> length (qs_putters s)))"

lemma fifo_inv_notify_putter:
  assumes "notify_putter s s'" "qs_in s = qs_out s @ items (qs_queue s)"
    "0 < qs_waitTake s \<longrightarrow> length (items (qs_queue s)) \<le> qs_takers s"
    "qs_waitPut s \<noteq> [] \<longrightarrow> room (qs_queue s) \<le> length (qs_putters s) + 1"
  shows "fifo_inv s'"
  using assms by (cases rule: notify_putter.cases) (auto simp: fifo_inv_def)

lemma fifo_inv_step:
  assumes inv: "fifo_inv s" and step: "queue_step put take s s'"
  shows "fifo_inv s'"
  using step
proof (cases rule: queue_step.cases)
  case (put_done us x vs q)
  then show ?thesis using inv put_items [OF put_done(3)] by (auto simp: fifo_inv_def notify_taker_def)
next
  case (put_wait us x vs)
  then show ?thesis using inv put_blocks [OF put_wait(3)] by (auto simp: fifo_inv_def)
next
  case (take_done x q)
  show ?thesis
    by (rule fifo_inv_notify_putter [OF take_done(3)]) (use inv take_done take_items [OF take_done(2)] in \<open>auto simp: fifo_inv_def\<close>)
next
  case take_wait
  then show ?thesis using inv take_blocks [OF take_wait(3)] by (auto simp: fifo_inv_def)
qed (use inv in \<open>auto simp: fifo_inv_def\<close>)

lemma reach_fifo_inv:
  assumes "reach (queue_step put take) (queue_sys q) s" "items q = []"
  shows "fifo_inv s"
proof -
  have si: "step_invariant (queue_step put take) fifo_inv" by unfold_locales (rule fifo_inv_step)
  have init: "fifo_inv (queue_sys q)" using assms(2) by (simp add: fifo_inv_def queue_sys_def)
  show ?thesis by (rule step_invariant.invariant [OF si assms(1) init])
qed

text \<open>Values leave in the order they entered, each once; a taker waits while there is something to
  take only if another taker is on its way, and a putter waits while there is room only if another
  putter is.\<close>

lemma fifo:
  assumes "reach (queue_step put take) (queue_sys q) s" "items q = []"
  shows "qs_in s = qs_out s @ items (qs_queue s)"
    "0 < qs_waitTake s \<Longrightarrow> items (qs_queue s) \<noteq> [] \<Longrightarrow> 0 < qs_takers s"
    "qs_waitPut s \<noteq> [] \<Longrightarrow> 0 < room (qs_queue s) \<Longrightarrow> qs_putters s \<noteq> []"
proof -
  have inv: "fifo_inv s" by (rule reach_fifo_inv [OF assms])
  show "qs_in s = qs_out s @ items (qs_queue s)" using inv by (simp add: fifo_inv_def)
  show "0 < qs_takers s" if "0 < qs_waitTake s" "items (qs_queue s) \<noteq> []"
    using inv that by (cases "items (qs_queue s)") (auto simp: fifo_inv_def)
  show "qs_putters s \<noteq> []" if "qs_waitPut s \<noteq> []" "0 < room (qs_queue s)"
    using inv that by (auto simp: fifo_inv_def)
qed

end

interpretation bq: blocking_fifo BlockingQueue_put BlockingQueue_take bq_queue "\<lambda>_. 0"
  by unfold_locales (auto simp: BlockingQueue_put_def BlockingQueue_take_def split: list.splits)

lemma circular_lawsD:
  assumes "circular_laws ops items"
  shows "items (cb_make ops n) = []" "cb_capacity ops (cb_make ops n) = n"
    "cb_full ops b \<longleftrightarrow> length (items b) = cb_capacity ops b" "cb_empty ops b \<longleftrightarrow> items b = []"
    "length (items b) < cb_capacity ops b \<Longrightarrow> items (cb_push_back ops x b) = items b @ [x]"
    "length (items b) < cb_capacity ops b \<Longrightarrow> cb_capacity ops (cb_push_back ops x b) = cb_capacity ops b"
    "items b \<noteq> [] \<Longrightarrow> cb_front ops b = hd (items b)" "items b \<noteq> [] \<Longrightarrow> items (cb_pop_front ops b) = tl (items b)"
    "items b \<noteq> [] \<Longrightarrow> cb_capacity ops (cb_pop_front ops b) = cb_capacity ops b"
    "length (items b) \<le> cb_capacity ops b"
  using assms unfolding circular_laws_def by blast+

text \<open>Under the laws of the circular buffer the bounded queue meets the contract too.\<close>

lemma bounded_fifo:
  assumes laws: "circular_laws ops items"
  shows "blocking_fifo (BoundedBlockingQueue_put ops) (BoundedBlockingQueue_take ops) items (\<lambda>b. cb_capacity ops b - length (items b))"
proof
  note L = circular_lawsD [OF laws]
  fix x q q'
  show "items q' = items q @ [x] \<and> cb_capacity ops q' - length (items q') \<le> cb_capacity ops q - length (items q) - 1"
    if "BoundedBlockingQueue_put ops x q = Some q'"
  proof -
    have "length (items q) < cb_capacity ops q" "q' = cb_push_back ops x q"
      using that L(3) [of q] L(10) [of q] by (auto simp: BoundedBlockingQueue_put_def split: if_splits)
    then show ?thesis using L(5,6) by simp
  qed
  show "cb_capacity ops q - length (items q) = 0" if "BoundedBlockingQueue_put ops x q = None"
    using that L(3) [of q] by (simp add: BoundedBlockingQueue_put_def split: if_splits)
  show "items q = x # items q' \<and> cb_capacity ops q' - length (items q') \<le> cb_capacity ops q - length (items q) + 1"
    if "BoundedBlockingQueue_take ops q = Some (x, q')"
  proof -
    have "items q \<noteq> []" "x = cb_front ops q" "q' = cb_pop_front ops q"
      using that L(4) [of q] by (auto simp: BoundedBlockingQueue_take_def split: if_splits)
    then show ?thesis using L(7-9) by simp
  qed
  show "items q = []" if "BoundedBlockingQueue_take ops q = None"
    using that L(4) [of q] by (simp add: BoundedBlockingQueue_take_def split: if_splits)
qed

section \<open>Properties\<close>

text \<open>C16. The blocking queue under any number of threads: the values taken followed by the values in
  the queue are exactly the values put, in the order they were put; and no wake-up is lost: a thread
  waits in \<^verbatim>\<open>take\<close> beside a non-empty queue only while another taker is awake to empty it, and no thread
  ever waits in \<^verbatim>\<open>put\<close>.\<close>

theorem blocking_queue_fifo:
  assumes "reach (queue_step BlockingQueue_put BlockingQueue_take) (queue_sys BlockingQueue_ctor) s"
  shows "qs_in s = qs_out s @ bq_queue (qs_queue s)
     \<and> (0 < qs_waitTake s \<and> bq_queue (qs_queue s) \<noteq> [] \<longrightarrow> 0 < qs_takers s)"
  using bq.fifo [OF assms] by (simp add: BlockingQueue_ctor_def)

theorem blocking_queue_fifo_witness:
  "\<exists>s. reach (queue_step BlockingQueue_put BlockingQueue_take) (queue_sys BlockingQueue_ctor) s
     \<and> qs_in s = [5 :: nat] \<and> qs_out s @ bq_queue (qs_queue s) = [5]"
proof -
  let ?s0 = "queue_sys BlockingQueue_ctor :: (nat, nat BlockingQueue) queue_sys"
  let ?s1 = "?s0\<lparr>qs_putters := 5 # qs_putters ?s0\<rparr>"
  let ?s2 = "notify_taker (?s1\<lparr>qs_queue := \<lparr>bq_queue = [5]\<rparr>, qs_putters := [] @ [], qs_in := qs_in ?s1 @ [5]\<rparr>)"
  have "queue_step BlockingQueue_put BlockingQueue_take ?s0 ?s1" by (rule call_put)
  moreover have "queue_step BlockingQueue_put BlockingQueue_take ?s1 ?s2"
    by (rule put_done) (simp_all add: queue_sys_def BlockingQueue_put_def BlockingQueue_ctor_def)
  ultimately have r: "reach (queue_step BlockingQueue_put BlockingQueue_take) ?s0 ?s2"
    by (rule reach_step [OF reach_one])
  have "qs_in ?s2 = [5]" by (simp add: notify_taker_def queue_sys_def)
  then show ?thesis using blocking_queue_fifo [OF r] r by (intro exI [of _ ?s2]) simp
qed

text \<open>The bounded queue, given the documented laws of the circular buffer: first in, first out as
  above, never more values than its capacity, and neither kind of wake-up is lost: a taker waits
  beside a non-empty queue only while another taker is awake, a putter beside a queue that is not
  full only while another putter is.\<close>

theorem bounded_queue_fifo:
  assumes "circular_laws ops items"
    and "reach (queue_step (BoundedBlockingQueue_put ops) (BoundedBlockingQueue_take ops)) (queue_sys (BoundedBlockingQueue_ctor ops n)) s"
  shows "qs_in s = qs_out s @ items (qs_queue s) \<and> length (items (qs_queue s)) \<le> cb_capacity ops (qs_queue s)
     \<and> (0 < qs_waitTake s \<and> items (qs_queue s) \<noteq> [] \<longrightarrow> 0 < qs_takers s)
     \<and> (qs_waitPut s \<noteq> [] \<and> length (items (qs_queue s)) < cb_capacity ops (qs_queue s) \<longrightarrow> qs_putters s \<noteq> [])"
proof -
  note F = blocking_fifo.fifo [OF bounded_fifo [OF assms(1)] assms(2)]
  have "items (BoundedBlockingQueue_ctor ops n) = []"
    using circular_lawsD(1) [OF assms(1)] by (simp add: BoundedBlockingQueue_ctor_def)
  then show ?thesis using F circular_lawsD(10) [OF assms(1)] by simp
qed

text \<open>Lists with a capacity satisfy the laws.\<close>

definition list_buffer :: "('a, 'a list \<times> nat) circular_buffer" where
  "list_buffer = \<lparr>cb_make = (\<lambda>n. ([], n)), cb_full = (\<lambda>(xs, n). length (take n xs) = n), cb_empty = (\<lambda>(xs, n). take n xs = []),
     cb_size = (\<lambda>(xs, n). length (take n xs)), cb_capacity = snd, cb_push_back = (\<lambda>x (xs, n). (take n xs @ [x], n)),
     cb_front = (\<lambda>(xs, n). hd (take n xs)), cb_pop_front = (\<lambda>(xs, n). (tl (take n xs), n))\<rparr>"

lemma list_buffer_laws: "circular_laws list_buffer (\<lambda>(xs, n). take n xs)"
proof -
  have "take n (tl (take n xs)) = tl (take n xs)" for n and xs :: "'a list"
    using length_take [of n xs] by (intro take_all) simp
  then show ?thesis by (auto simp: circular_laws_def list_buffer_def)
qed

theorem bounded_queue_fifo_witness:
  "\<exists>s. reach (queue_step (BoundedBlockingQueue_put list_buffer) (BoundedBlockingQueue_take list_buffer))
       (queue_sys (BoundedBlockingQueue_ctor list_buffer 0)) s
     \<and> qs_waitPut s = [5 :: nat] \<and> qs_in s = [] \<and> qs_out s = []"
proof -
  let ?s0 = "queue_sys (BoundedBlockingQueue_ctor list_buffer 0) :: (nat, nat list \<times> nat) queue_sys"
  let ?s1 = "?s0\<lparr>qs_putters := 5 # qs_putters ?s0\<rparr>"
  let ?s2 = "?s1\<lparr>qs_putters := [] @ [], qs_waitPut := 5 # qs_waitPut ?s1\<rparr>"
  let ?step = "queue_step (BoundedBlockingQueue_put list_buffer) (BoundedBlockingQueue_take list_buffer)"
  have "?step ?s0 ?s1" by (rule call_put)
  moreover have "?step ?s1 ?s2"
    by (rule put_wait) (simp_all add: queue_sys_def BoundedBlockingQueue_put_def BoundedBlockingQueue_ctor_def list_buffer_def)
  ultimately have r: "reach ?step ?s0 ?s2" by (rule reach_step [OF reach_one])
  have "qs_in ?s2 = qs_out ?s2 @ (\<lambda>(xs, n). take n xs) (qs_queue ?s2)"
    using conjunct1 [OF bounded_queue_fifo [OF list_buffer_laws r]] .
  with r show ?thesis by (intro exI [of _ ?s2]) (simp add: queue_sys_def)
qed

end
