(* ===== verification/Base_Thread.thy ===== *)
theory Base_Thread
  imports Base_Sync Base_Timestamp
begin

text \<open>
  \<^verbatim>\<open>base/CurrentThread.h\<close>, \<^verbatim>\<open>base/CurrentThread.cc\<close>, \<^verbatim>\<open>base/Thread.h\<close> and \<^verbatim>\<open>base/Thread.cc\<close>: the thread-local
  variables and the start of a thread. A thread and its creator run interleaved: each statement that
  touches the \<^verbatim>\<open>Thread\<close> object is a step, the latch is that of \<^verbatim>\<open>base/CountDownLatch.cc\<close>, and an access of
  the new thread to an object its creator has destroyed is a fault. The kernel's thread number, the
  result of \<^verbatim>\<open>pthread_create\<close> and the way the thread function ends are arguments.
\<close>

section \<open>Thread-local variables\<close>

record CurrentThread =
  t_cachedTid :: int
  t_tidString :: string
  t_tidStringLength :: nat
  t_threadName :: string

definition CurrentThread_init :: CurrentThread where
  "CurrentThread_init = \<lparr>t_cachedTid = 0, t_tidString = [], t_tidStringLength = 6, t_threadName = ''unknown''\<rparr>"

definition cacheTid :: "int \<Rightarrow> 'a CurrentThread_scheme \<Rightarrow> 'a CurrentThread_scheme" where
  "cacheTid gettid t =
     (if t_cachedTid t = 0
      then t\<lparr>t_cachedTid := gettid, t_tidString := snprintf 32 (dec_blank 5 gettid @ '' ''),
             t_tidStringLength := length (dec_blank 5 gettid @ '' '')\<rparr>
      else t)"

text \<open>The number and the variables after the call; \<open>gettid\<close> is what the system call gives in this thread.\<close>

definition CurrentThread_tid :: "int \<Rightarrow> 'a CurrentThread_scheme \<Rightarrow> int \<times> 'a CurrentThread_scheme" where
  "CurrentThread_tid gettid t = (let t1 = (if t_cachedTid t = 0 then cacheTid gettid t else t) in (t_cachedTid t1, t1))"

definition isMainThread :: "int \<Rightarrow> int \<Rightarrow> 'a CurrentThread_scheme \<Rightarrow> bool \<times> 'a CurrentThread_scheme" where
  "isMainThread getpid gettid t = (let (n, t1) = CurrentThread_tid gettid t in (n = getpid, t1))"

text \<open>The seconds and nanoseconds given to \<^verbatim>\<open>nanosleep\<close>.\<close>

definition sleepUsec :: "int \<Rightarrow> int \<times> int" where
  "sleepUsec usec = (cdiv usec kMicroSecondsPerSecond, cmod usec kMicroSecondsPerSecond * 1000)"

definition afterFork :: "int \<Rightarrow> 'a CurrentThread_scheme \<Rightarrow> 'a CurrentThread_scheme" where
  "afterFork gettid t = snd (CurrentThread_tid gettid (t\<lparr>t_cachedTid := 0, t_threadName := ''main''\<rparr>))"

definition ThreadNameInitializer :: "int \<Rightarrow> 'a CurrentThread_scheme \<Rightarrow> 'a CurrentThread_scheme" where
  "ThreadNameInitializer gettid t = snd (CurrentThread_tid gettid (t\<lparr>t_threadName := ''main''\<rparr>))"

section \<open>The thread object\<close>

record Thread =
  th_started :: bool
  th_joined :: bool
  th_pthreadId :: nat
  th_tid :: int
  th_name :: string
  th_latch :: CountDownLatch

text \<open>\<open>numCreated\<close> is \<^verbatim>\<open>Thread::numCreated_\<close>.\<close>

definition setDefaultName :: "32 AtomicIntegerT \<Rightarrow> Thread \<Rightarrow> Thread \<times> 32 AtomicIntegerT" where
  "setDefaultName numCreated th =
     (let (num, numCreated1) = incrementAndGet numCreated in
      (if th_name th = [] then th\<lparr>th_name := snprintf 32 (''Thread'' @ dec_int (sint num))\<rparr> else th, numCreated1))"

definition Thread_ctor :: "string \<Rightarrow> 32 AtomicIntegerT \<Rightarrow> Thread \<times> 32 AtomicIntegerT" where
  "Thread_ctor n numCreated =
     setDefaultName numCreated \<lparr>th_started = False, th_joined = False, th_pthreadId = 0, th_tid = 0, th_name = n,
       th_latch = CountDownLatch_ctor 1\<rparr>"

text \<open>The pthread that the destructor detaches.\<close>

definition Thread_dtor :: "Thread \<Rightarrow> nat option" where
  "Thread_dtor th = (if th_started th \<and> \<not> th_joined th then Some (th_pthreadId th) else None)"

text \<open>The pthread that \<^verbatim>\<open>join\<close> joins.\<close>

definition Thread_join :: "Thread \<Rightarrow> (Thread \<times> nat) result" where
  "Thread_join th =
     assertR ''started_'' (th_started th) (assertR ''!joined_'' (\<not> th_joined th)
       (Inr (th\<lparr>th_joined := True\<rparr>, th_pthreadId th)))"

section \<open>Starting\<close>

record ThreadData =
  td_name :: string
  td_tid :: bool     \<comment> \<open>\<^verbatim>\<open>tid_\<close> is not null\<close>
  td_latch :: bool   \<comment> \<open>\<^verbatim>\<open>latch_\<close> is not null\<close>

definition ThreadData_ctor :: "string \<Rightarrow> ThreadData" where
  "ThreadData_ctor name = \<lparr>td_name = name, td_tid = True, td_latch = True\<rparr>"

text \<open>How the thread function ends.\<close>

datatype func_end = Returned | Threw_Exception | Threw_std_exception | Threw_other

text \<open>How the thread ends: it returns, the process is aborted, the exception leaves the thread.\<close>

datatype thread_end = Thread_exit | Thread_abort | Thread_rethrow

datatype creator_pc = Before_start | In_wait | After_start | Gone
datatype child_pc = Not_created | At_tid | At_latch | At_func | Ended thread_end

record ThreadSystem =
  sy_object :: "Thread option"     \<comment> \<open>the \<^verbatim>\<open>Thread\<close> object until its destructor has run\<close>
  sy_creator :: creator_pc
  sy_child :: child_pc
  sy_data :: "ThreadData option"   \<comment> \<open>\<^verbatim>\<open>ThreadData\<close>, owned by the new thread\<close>
  sy_locals :: CurrentThread       \<comment> \<open>the new thread's variables\<close>

definition with_object :: "(Thread \<Rightarrow> Thread) \<Rightarrow> ThreadSystem \<Rightarrow> ThreadSystem result" where
  "with_object f s = (case sy_object s of None \<Rightarrow> Inl DanglingPointer | Some th \<Rightarrow> Inr (s\<lparr>sy_object := Some (f th)\<rparr>))"

text \<open>\<^verbatim>\<open>start\<close> up to the wait; the new thread exists from then on. The caller of \<^verbatim>\<open>wait\<close> is about to test the
  count.\<close>

definition start_create :: "nat option \<Rightarrow> Thread \<Rightarrow> ThreadSystem \<Rightarrow> ThreadSystem result" where
  "start_create pthread_create th s =
     assertR ''!started_'' (\<not> th_started th)
       (let th1 = th\<lparr>th_started := True\<rparr>; data = ThreadData_ctor (th_name th) in
        case pthread_create of
          None \<Rightarrow> Inl (LogFatal ''Failed in pthread_create'')
        | Some p \<Rightarrow> Inr (s\<lparr>sy_object := Some (th1\<lparr>th_pthreadId := p, th_latch := (th_latch th1)\<lparr>cl_testing := cl_testing (th_latch th1) + 1\<rparr>\<rparr>),
                           sy_creator := In_wait, sy_child := At_tid, sy_data := Some data\<rparr>))"

text \<open>One round of \<^verbatim>\<open>latch_.wait()\<close>; when it returns, the assertion on the number.\<close>

definition start_wait :: "Thread \<Rightarrow> ThreadSystem \<Rightarrow> ThreadSystem result" where
  "start_wait th s =
     (let l = latch_test (th_latch th); s1 = s\<lparr>sy_object := Some (th\<lparr>th_latch := l\<rparr>)\<rparr> in
      if cl_returned l = 0 then Inr s1
      else assertR ''tid_ > 0'' (th_tid th > 0) (Inr (s1\<lparr>sy_creator := After_start\<rparr>)))"

definition start_woken :: "Thread \<Rightarrow> ThreadSystem \<Rightarrow> ThreadSystem" where
  "start_woken th s =
     (let l = th_latch th in s\<lparr>sy_object := Some (th\<lparr>th_latch := l\<lparr>cl_waiting := cl_waiting l - 1, cl_testing := cl_testing l + 1\<rparr>\<rparr>)\<rparr>)"

text \<open>\<^verbatim>\<open>runInThread\<close>: the statement that stores the number, the one that counts the latch down, and the rest,
  which touches only the thread's own variables.\<close>

definition run_tid :: "int \<Rightarrow> ThreadData \<Rightarrow> ThreadSystem \<Rightarrow> ThreadSystem result" where
  "run_tid gettid data s =
     (let (n, locals) = CurrentThread_tid gettid (sy_locals s) in
      if \<not> td_tid data then Inl DanglingPointer
      else bindR (with_object (\<lambda>th. th\<lparr>th_tid := n\<rparr>) s) (\<lambda>s1.
        Inr (s1\<lparr>sy_locals := locals, sy_data := Some (data\<lparr>td_tid := False\<rparr>), sy_child := At_latch\<rparr>)))"

definition run_latch :: "ThreadData \<Rightarrow> ThreadSystem \<Rightarrow> ThreadSystem result" where
  "run_latch data s =
     (if \<not> td_latch data then Inl DanglingPointer
      else bindR (with_object (\<lambda>th. th\<lparr>th_latch := countDown (th_latch th)\<rparr>) s) (\<lambda>s1.
        Inr (s1\<lparr>sy_data := Some (data\<lparr>td_latch := False\<rparr>),
                sy_locals := (sy_locals s1)\<lparr>t_threadName := (if td_name data = [] then ''webServerThread'' else td_name data)\<rparr>,
                sy_child := At_func\<rparr>)))"

primrec run_func :: "func_end \<Rightarrow> CurrentThread \<Rightarrow> CurrentThread \<times> thread_end" where
  "run_func Returned t = (t\<lparr>t_threadName := ''finished''\<rparr>, Thread_exit)"
| "run_func Threw_Exception t = (t\<lparr>t_threadName := ''crashed''\<rparr>, Thread_abort)"
| "run_func Threw_std_exception t = (t\<lparr>t_threadName := ''crashed''\<rparr>, Thread_abort)"
| "run_func Threw_other t = (t\<lparr>t_threadName := ''crashed''\<rparr>, Thread_rethrow)"

text \<open>\<^verbatim>\<open>startThread\<close> deletes the data when \<^verbatim>\<open>runInThread\<close> returns.\<close>

definition run_end :: "func_end \<Rightarrow> ThreadSystem \<Rightarrow> ThreadSystem" where
  "run_end f s =
     (let (locals, e) = run_func f (sy_locals s) in
      s\<lparr>sy_locals := locals, sy_child := Ended e, sy_data := (if e = Thread_exit then None else sy_data s)\<rparr>)"

inductive thread_step :: "int \<Rightarrow> ThreadSystem result \<Rightarrow> ThreadSystem result \<Rightarrow> bool" for gettid :: int where
  do_create: "sy_creator s = Before_start \<Longrightarrow> sy_object s = Some th \<Longrightarrow> thread_step gettid (Inr s) (start_create p th s)"
| do_wait: "sy_creator s = In_wait \<Longrightarrow> sy_object s = Some th \<Longrightarrow> 0 < cl_testing (th_latch th) \<Longrightarrow> thread_step gettid (Inr s) (start_wait th s)"
| do_woken: "sy_creator s = In_wait \<Longrightarrow> sy_object s = Some th \<Longrightarrow> 0 < cl_waiting (th_latch th) \<Longrightarrow> thread_step gettid (Inr s) (Inr (start_woken th s))"
| do_destroy: "sy_creator s \<in> {Before_start, After_start} \<Longrightarrow> thread_step gettid (Inr s) (Inr (s\<lparr>sy_object := None, sy_creator := Gone\<rparr>))"
| do_tid: "sy_child s = At_tid \<Longrightarrow> sy_data s = Some data \<Longrightarrow> thread_step gettid (Inr s) (run_tid gettid data s)"
| do_latch: "sy_child s = At_latch \<Longrightarrow> sy_data s = Some data \<Longrightarrow> thread_step gettid (Inr s) (run_latch data s)"
| do_func: "sy_child s = At_func \<Longrightarrow> thread_step gettid (Inr s) (Inr (run_end f s))"

definition ThreadSystem_init :: "Thread \<Rightarrow> ThreadSystem" where
  "ThreadSystem_init th = \<lparr>sy_object = Some th, sy_creator = Before_start, sy_child = Not_created, sy_data = None, sy_locals = CurrentThread_init\<rparr>"

section \<open>Lemmas\<close>

text \<open>The cached number is that of the thread and its text belongs to it.\<close>

definition current_ok :: "int \<Rightarrow> 'a CurrentThread_scheme \<Rightarrow> bool" where
  "current_ok gettid t =
     (t_cachedTid t = 0 \<or> (t_cachedTid t = gettid \<and> t_tidString t = dec_blank 5 gettid @ '' ''
        \<and> t_tidStringLength t = length (dec_blank 5 gettid) + 1))"

lemma tid_text_short:
  assumes "0 < gettid" "gettid < 2 ^ 31"
  shows "length (dec_blank 5 gettid) \<le> 10"
proof -
  have "length (dec_int gettid) \<le> 10" using assms by (intro length_dec_int_nonneg) simp_all
  then show ?thesis by (auto simp: dec_blank_def)
qed

lemma tid_ok:
  assumes "current_ok gettid t" "0 < gettid" "gettid < 2 ^ 31"
  shows "fst (CurrentThread_tid gettid t) = gettid" "current_ok gettid (snd (CurrentThread_tid gettid t))" "t_cachedTid (snd (CurrentThread_tid gettid t)) = gettid"
  using assms tid_text_short [of gettid] by (auto simp: CurrentThread_tid_def cacheTid_def current_ok_def Let_def snprintf_fits)

lemma current_init: "current_ok gettid CurrentThread_init"
  by (simp add: current_ok_def CurrentThread_init_def)

lemma current_name [simp]: "current_ok gettid (t\<lparr>t_threadName := n\<rparr>) = current_ok gettid t"
  by (simp add: current_ok_def)

lemma run_func_tid: "run_func f t = (t', e) \<Longrightarrow> t_cachedTid t' = t_cachedTid t"
  by (cases f) auto

text \<open>What holds of the creator, the new thread and the object between any two steps.\<close>

definition object_inv :: "int \<Rightarrow> creator_pc \<Rightarrow> child_pc \<Rightarrow> Thread \<Rightarrow> bool" where
  "object_inv gettid c p th =
     (cl_count (th_latch th) = (if p \<in> {Not_created, At_tid, At_latch} then 1 else 0)
      \<and> th_started th = (p \<noteq> Not_created)
      \<and> (p \<in> {Not_created, At_tid} \<or> th_tid th = gettid)
      \<and> cl_waiting (th_latch th) + cl_testing (th_latch th) = (if c = In_wait then 1 else 0)
      \<and> cl_returned (th_latch th) = (if c = After_start then 1 else 0)
      \<and> (0 < cl_waiting (th_latch th) \<longrightarrow> 0 < cl_count (th_latch th)))"

definition system_inv :: "int \<Rightarrow> ThreadSystem \<Rightarrow> bool" where
  "system_inv gettid s =
     ((sy_creator s = Before_start \<longrightarrow> sy_child s = Not_created)
      \<and> (sy_creator s = In_wait \<longrightarrow> sy_child s \<noteq> Not_created)
      \<and> (sy_creator s = After_start \<longrightarrow> sy_child s \<notin> {Not_created, At_tid, At_latch})
      \<and> (sy_creator s = Gone \<longrightarrow> sy_child s \<notin> {At_tid, At_latch})
      \<and> (case sy_object s of None \<Rightarrow> sy_creator s = Gone | Some th \<Rightarrow> sy_creator s \<noteq> Gone \<and> object_inv gettid (sy_creator s) (sy_child s) th)
      \<and> (sy_child s = At_tid \<longrightarrow> (\<exists>data. sy_data s = Some data \<and> td_tid data \<and> td_latch data))
      \<and> (sy_child s = At_latch \<longrightarrow> (\<exists>data. sy_data s = Some data \<and> td_latch data))
      \<and> current_ok gettid (sy_locals s)
      \<and> (sy_child s \<in> {Not_created, At_tid} \<or> t_cachedTid (sy_locals s) = gettid))"

text \<open>The kernel's numbers are positive and fit an \<^verbatim>\<open>int\<close>; the only fault is the fatal log line of a failed
  \<^verbatim>\<open>pthread_create\<close>.\<close>

definition thread_inv :: "int \<Rightarrow> ThreadSystem result \<Rightarrow> bool" where
  "thread_inv gettid r = (0 < gettid \<and> gettid < 2 ^ 31 \<and> outcome (\<lambda>e. e = LogFatal ''Failed in pthread_create'') (system_inv gettid) r)"

lemmas system_inv_defs = system_inv_def object_inv_def

lemma start_create_inv:
  assumes "system_inv gettid s" "sy_creator s = Before_start" "sy_object s = Some th"
  shows "outcome (\<lambda>e. e = LogFatal ''Failed in pthread_create'') (system_inv gettid) (start_create p th s)"
  using assms by (cases p) (simp_all add: system_inv_defs start_create_def ThreadData_ctor_def Let_def)

lemma start_wait_inv:
  assumes "system_inv gettid s" "sy_creator s = In_wait" "sy_object s = Some th" "0 < cl_testing (th_latch th)" "0 < gettid"
  shows "total (system_inv gettid) (start_wait th s)"
  using assms by (cases "cl_count (th_latch th) > 0") (auto simp: system_inv_defs start_wait_def latch_test_def Let_def split: if_splits)

lemma start_woken_inv:
  assumes "system_inv gettid s" "sy_creator s = In_wait" "sy_object s = Some th" "0 < cl_waiting (th_latch th)"
  shows "system_inv gettid (start_woken th s)"
  using assms by (auto simp: system_inv_defs start_woken_def Let_def)

lemma destroy_inv:
  assumes "system_inv gettid s" "sy_creator s \<in> {Before_start, After_start}"
  shows "system_inv gettid (s\<lparr>sy_object := None, sy_creator := Gone\<rparr>)"
  using assms by (auto simp: system_inv_def)

lemma run_tid_inv:
  assumes inv: "system_inv gettid s" and s: "sy_child s = At_tid" "sy_data s = Some data" and g: "0 < gettid" "gettid < 2 ^ 31"
  shows "total (system_inv gettid) (run_tid gettid data s)"
proof -
  have c: "current_ok gettid (sy_locals s)" using inv by (simp add: system_inv_def)
  obtain locals where l: "CurrentThread_tid gettid (sy_locals s) = (gettid, locals)" "current_ok gettid locals" "t_cachedTid locals = gettid"
    using tid_ok [OF c g] by (metis prod.collapse)
  obtain th where th: "sy_object s = Some th" "sy_creator s = In_wait" "object_inv gettid In_wait At_tid th"
    using inv s by (cases "sy_creator s") (auto simp: system_inv_def split: option.splits)
  have d: "td_tid data" "td_latch data" using inv s by (auto simp: system_inv_def)
  show ?thesis using l th d s(1) by (simp add: system_inv_defs run_tid_def with_object_def)
qed

lemma run_latch_inv:
  assumes inv: "system_inv gettid s" and s: "sy_child s = At_latch" "sy_data s = Some data"
  shows "total (system_inv gettid) (run_latch data s)"
proof -
  obtain th where th: "sy_object s = Some th" "sy_creator s = In_wait" "object_inv gettid In_wait At_latch th"
    using inv s by (cases "sy_creator s") (auto simp: system_inv_def split: option.splits)
  have d: "td_latch data" "current_ok gettid (sy_locals s)" "t_cachedTid (sy_locals s) = gettid" using inv s by (auto simp: system_inv_def)
  show ?thesis using th d by (auto simp: system_inv_defs run_latch_def with_object_def countDown_def Let_def)
qed

lemma run_end_inv:
  assumes "system_inv gettid s" "sy_child s = At_func"
  shows "system_inv gettid (run_end f s)"
  using assms by (cases f) (auto simp: system_inv_defs run_end_def split: option.splits)

interpretation thr: step_invariant "thread_step gettid" "thread_inv gettid" for gettid :: int
proof
  fix r r' assume inv: "thread_inv gettid r" and step: "thread_step gettid r r'"
  then have g: "0 < gettid" "gettid < 2 ^ 31" by (simp_all add: thread_inv_def)
  from step show "thread_inv gettid r'"
  proof (cases rule: thread_step.cases)
    case (do_create s th p)
    then show ?thesis using inv start_create_inv by (simp add: thread_inv_def)
  next
    case (do_wait s th)
    then show ?thesis using inv g outcome_weaken_fault [OF start_wait_inv [of gettid s th]] by (simp add: thread_inv_def)
  next
    case (do_woken s th)
    then show ?thesis using inv start_woken_inv by (simp add: thread_inv_def)
  next
    case (do_destroy s)
    then show ?thesis using inv destroy_inv [of gettid s] by (simp add: thread_inv_def)
  next
    case (do_tid s data)
    then show ?thesis using inv g outcome_weaken_fault [OF run_tid_inv [of gettid s data]] by (simp add: thread_inv_def)
  next
    case (do_latch s data)
    then show ?thesis using inv outcome_weaken_fault [OF run_latch_inv [of gettid s data]] by (simp add: thread_inv_def)
  next
    case (do_func s f)
    then show ?thesis using inv run_end_inv by (simp add: thread_inv_def)
  qed
qed

lemma system_init:
  assumes "0 < gettid" "gettid < 2 ^ 31"
  shows "thread_inv gettid (Inr (ThreadSystem_init (fst (Thread_ctor n numCreated))))"
  using assms current_init
  by (auto simp: thread_inv_def system_inv_defs ThreadSystem_init_def Thread_ctor_def setDefaultName_def CountDownLatch_ctor_def
      split: prod.splits)

text \<open>The steps that lead the creator out of \<^verbatim>\<open>start\<close>: each state of the new thread is one step from the next, and
  once the latch is open the creator's own test returns.\<close>

lemma wait_ends:
  assumes "system_inv gettid s" "sy_creator s = In_wait" "sy_child s \<notin> {At_tid, At_latch}" "0 < gettid"
  shows "\<exists>s'. thread_step gettid (Inr s) (Inr s') \<and> sy_creator s' = After_start"
proof -
  obtain th where th: "sy_object s = Some th" using assms by (auto simp: system_inv_def split: option.splits)
  have l: "cl_count (th_latch th) = 0" "cl_testing (th_latch th) = 1" "cl_returned (th_latch th) = 0" "th_tid th = gettid"
    using assms th by (auto simp: system_inv_defs split: if_splits)
  have "thread_step gettid (Inr s) (start_wait th s)" using assms(2) th l by (intro do_wait) simp_all
  moreover have "\<exists>s'. start_wait th s = Inr s' \<and> sy_creator s' = After_start"
    using l assms(4) by (simp add: start_wait_def latch_test_def Let_def)
  ultimately show ?thesis by auto
qed

lemma latch_then_wait:
  assumes "system_inv gettid s" "sy_creator s = In_wait" "sy_child s \<noteq> At_tid" "0 < gettid"
  shows "\<exists>s'. reach (thread_step gettid) (Inr s) (Inr s') \<and> sy_creator s' = After_start"
proof (cases "sy_child s = At_latch")
  case True
  then obtain data where d: "sy_data s = Some data" using assms(1) by (auto simp: system_inv_def)
  obtain s1 where s1: "run_latch data s = Inr s1" "system_inv gettid s1" using run_latch_inv [OF assms(1) True d] by (auto simp: total_iff)
  have "sy_creator s1 = In_wait" "sy_child s1 = At_func"
    using s1(1) assms(2) by (auto simp: run_latch_def with_object_def bindR_eq_Inr split: if_splits option.splits)
  then obtain s' where s': "thread_step gettid (Inr s1) (Inr s')" "sy_creator s' = After_start" using wait_ends [OF s1(2) _ _ assms(4)] by auto
  have "thread_step gettid (Inr s) (Inr s1)" using do_latch [of s data gettid] True d s1(1) by simp
  from reach_step [where step = "thread_step gettid", OF reach_one [where step = "thread_step gettid", OF this] s'(1)] s'(2) show ?thesis by (intro exI conjI)
next
  case False
  then obtain s' where s': "thread_step gettid (Inr s) (Inr s')" "sy_creator s' = After_start" using wait_ends [OF assms(1,2) _ assms(4)] assms(3) by auto
  from reach_one [where step = "thread_step gettid", OF s'(1)] s'(2) show ?thesis by (intro exI conjI)
qed

section \<open>Properties\<close>

text \<open>C33. Starting a thread: under every interleaving of the creator and the new thread, a \<^verbatim>\<open>Thread\<close> object
  that is started, waited for and destroyed is never touched after its destruction, and no assertion of
  \<^verbatim>\<open>start\<close> fails; when \<^verbatim>\<open>start\<close> has returned, the object holds the kernel's number of the new thread and
  can be joined. The one way out is the fatal log line of a failed \<^verbatim>\<open>pthread_create\<close>.\<close>

theorem thread_start_safe:
  assumes "reach (thread_step gettid) (Inr (ThreadSystem_init (fst (Thread_ctor n numCreated)))) r"
    and "0 < gettid" and "gettid < 2 ^ 31"
  shows "r = Inl (LogFatal ''Failed in pthread_create'')
     \<or> (\<exists>s. r = Inr s \<and> (sy_object s = None \<longrightarrow> sy_child s \<notin> {At_tid, At_latch})
          \<and> (\<forall>th. sy_creator s = After_start \<longrightarrow> sy_object s = Some th \<longrightarrow> th_started th \<and> th_tid th = gettid))"
proof -
  have inv: "thread_inv gettid r" using thr.invariant [OF assms(1) system_init [OF assms(2,3)]] .
  show ?thesis
  proof (cases r)
    case (Inr s)
    then have "system_inv gettid s" using inv by (simp add: thread_inv_def)
    then show ?thesis using Inr by (auto simp: system_inv_defs split: option.splits)
  qed (use inv in \<open>simp add: thread_inv_def\<close>)
qed

theorem thread_start_safe_witness:
  "\<exists>s. reach (thread_step 7) (Inr (ThreadSystem_init (fst (Thread_ctor ''io'' 0)))) (Inr s) \<and> sy_object s = None \<and> sy_child s \<notin> {At_tid, At_latch}"
proof -
  let ?s0 = "ThreadSystem_init (fst (Thread_ctor ''io'' 0))" let ?s1 = "?s0\<lparr>sy_object := None, sy_creator := Gone\<rparr>"
  have "thread_step 7 (Inr ?s0) (Inr ?s1)" by (rule do_destroy) (simp add: ThreadSystem_init_def)
  then have r: "reach (thread_step 7) (Inr ?s0) (Inr ?s1)" by (rule reach_one)
  have "sy_object ?s1 = None" by simp
  then show ?thesis using thread_start_safe [OF r] r by auto
qed

text \<open>\<^verbatim>\<open>start\<close> returns: whenever the creator is inside \<^verbatim>\<open>start\<close>, after whatever steps of both threads, the new
  thread's next statements and the creator's next test of the latch let it return, also when the wake-up
  came first or the thread function has already ended.\<close>

theorem thread_start_returns:
  assumes "reach (thread_step gettid) (Inr (ThreadSystem_init (fst (Thread_ctor n numCreated)))) (Inr s)"
    and "0 < gettid" and "gettid < 2 ^ 31" and "sy_creator s = In_wait"
  shows "\<exists>s'. reach (thread_step gettid) (Inr s) (Inr s') \<and> sy_creator s' = After_start"
proof -
  have inv: "system_inv gettid s" using thr.invariant [OF assms(1) system_init [OF assms(2,3)]] by (simp add: thread_inv_def)
  show ?thesis
  proof (cases "sy_child s = At_tid")
    case True
    then obtain data where d: "sy_data s = Some data" using inv by (auto simp: system_inv_def)
    obtain s1 where s1: "run_tid gettid data s = Inr s1" "system_inv gettid s1" using run_tid_inv [OF inv True d assms(2,3)] by (auto simp: total_iff)
    have "sy_creator s1 = In_wait" "sy_child s1 = At_latch"
      using s1(1) assms(4) by (auto simp: run_tid_def with_object_def bindR_eq_Inr split: if_splits option.splits prod.splits)
    then obtain s' where s': "reach (thread_step gettid) (Inr s1) (Inr s')" "sy_creator s' = After_start"
      using latch_then_wait [OF s1(2) _ _ assms(2)] by auto
    have "thread_step gettid (Inr s) (Inr s1)" using do_tid [of s data gettid] True d s1(1) by simp
    from reach_trans [OF s'(1) reach_one [where step = "thread_step gettid", OF this]] s'(2) show ?thesis by (intro exI conjI)
  qed (rule latch_then_wait [OF inv assms(4) _ assms(2)])
qed

theorem thread_start_returns_witness:
  "\<exists>s s'. sy_creator s = In_wait \<and> reach (thread_step 7) (Inr s) (Inr s') \<and> sy_creator s' = After_start"
proof -
  let ?th = "fst (Thread_ctor ''io'' 0)" let ?s0 = "ThreadSystem_init ?th"
  have st: "thread_step 7 (Inr ?s0) (start_create (Some 3) ?th ?s0)" by (rule do_create) (simp_all add: ThreadSystem_init_def)
  have "\<not> th_started ?th" by code_simp
  then obtain s where s: "start_create (Some 3) ?th ?s0 = Inr s" "sy_creator s = In_wait" by (auto simp: start_create_def Let_def)
  have "reach (thread_step 7) (Inr ?s0) (Inr s)" using st s(1) by (metis reach_one)
  from thread_start_returns [OF this _ _ s(2)] s(2) show ?thesis by auto
qed

text \<open>The cached number survives no fork: whatever a process had cached, after \<^verbatim>\<open>afterFork\<close> the child's
  variables hold its own number, the text of it and the name of a main thread.\<close>

theorem fork_refreshes_tid:
  assumes "0 < gettid" and "gettid < 2 ^ 31"
  shows "fst (CurrentThread_tid gettid (afterFork gettid t)) = gettid
     \<and> t_tidString (afterFork gettid t) = dec_blank 5 gettid @ '' ''
     \<and> t_tidStringLength (afterFork gettid t) = length (t_tidString (afterFork gettid t))
     \<and> t_threadName (afterFork gettid t) = ''main''"
  using assms tid_text_short [OF assms] by (simp add: afterFork_def CurrentThread_tid_def cacheTid_def Let_def snprintf_fits)

theorem fork_refreshes_tid_witness:
  "fst (CurrentThread_tid 4242 (afterFork 4242 (CurrentThread_init\<lparr>t_cachedTid := 7\<rparr>))) = 4242"
  using conjunct1 [OF fork_refreshes_tid [of 4242]] by simp

end
