(* ===== verification/Base_ThreadPool.thy ===== *)
theory Base_ThreadPool
  imports Base_Queue Base_Thread
begin

text \<open>
  \<^verbatim>\<open>base/ThreadPool.h\<close> and \<^verbatim>\<open>base/ThreadPool.cc\<close>. The bodies of \<^verbatim>\<open>run\<close> and \<^verbatim>\<open>take\<close> run under the mutex, so they are
  atomic up to \<^verbatim>\<open>wait\<close>. The step relation interleaves the workers, from the initial callback to the end of
  \<^verbatim>\<open>runInThread\<close>, the callers of \<^verbatim>\<open>run\<close>, spurious wake-ups, and \<^verbatim>\<open>stop\<close> with its joins. What a task or the initial
  callback throws ends the process: \<open>process_step\<close> adds these ends, with the text on \<^verbatim>\<open>stderr\<close>. The thread numbers
  of the kernel and the results of \<^verbatim>\<open>pthread_create\<close> are arguments.
\<close>

section \<open>The pool\<close>

record 'a ThreadPool =
  tp_name :: string
  tp_threadInitCallback :: bool   \<comment> \<open>one is set\<close>
  tp_threads :: "Thread list"
  tp_queue :: "'a list"
  tp_maxQueueSize :: nat
  tp_running :: bool

definition ThreadPool_ctor :: "string \<Rightarrow> 'a ThreadPool" where
  "ThreadPool_ctor nameArg =
     \<lparr>tp_name = nameArg, tp_threadInitCallback = False, tp_threads = [], tp_queue = [], tp_maxQueueSize = 0, tp_running = False\<rparr>"

text \<open>The \<^verbatim>\<open>int\<close> becomes a \<^verbatim>\<open>size_t\<close>.\<close>

definition setMaxQueueSize :: "int \<Rightarrow> 'a ThreadPool \<Rightarrow> 'a ThreadPool" where
  "setMaxQueueSize maxSize p = p\<lparr>tp_maxQueueSize := nat (maxSize mod 2 ^ 64)\<rparr>"

definition setThreadInitCallback :: "bool \<Rightarrow> 'a ThreadPool \<Rightarrow> 'a ThreadPool" where
  "setThreadInitCallback cb p = p\<lparr>tp_threadInitCallback := cb\<rparr>"

text \<open>\<^verbatim>\<open>Thread::start\<close> as its caller sees it: \<open>Thread_start_run\<close> below gives the run of the steps of \<open>Base_Thread\<close>.\<close>

definition Thread_start :: "nat option \<Rightarrow> int \<Rightarrow> Thread \<Rightarrow> Thread result" where
  "Thread_start pthread_create gettid th =
     assertR ''!started_'' (\<not> th_started th)
       (case pthread_create of
          None \<Rightarrow> Inl (LogFatal ''Failed in pthread_create'')
        | Some p \<Rightarrow> assertR ''tid_ > 0'' (0 < gettid)
            (Inr (th\<lparr>th_started := True, th_pthreadId := p, th_tid := gettid,
               th_latch := latch_test (countDown ((th_latch th)\<lparr>cl_testing := cl_testing (th_latch th) + 1\<rparr>))\<rparr>)))"

text \<open>One round of the loop of \<^verbatim>\<open>start\<close>; \<open>create i\<close> and \<open>gettid i\<close> belong to the thread \<open>i\<close>.\<close>

definition start_one :: "(nat \<Rightarrow> nat option) \<Rightarrow> (nat \<Rightarrow> int) \<Rightarrow> nat \<Rightarrow> 'a ThreadPool \<times> 32 AtomicIntegerT
    \<Rightarrow> ('a ThreadPool \<times> 32 AtomicIntegerT) result" where
  "start_one create gettid i = (\<lambda>(p, numCreated).
     let (th, numCreated) = Thread_ctor (tp_name p @ snprintf 32 (dec_int (int i + 1))) numCreated in
     bindR (Thread_start (create i) (gettid i) th) (\<lambda>th. Inr (p\<lparr>tp_threads := tp_threads p @ [th]\<rparr>, numCreated)))"

text \<open>The last component says whether \<^verbatim>\<open>start\<close> itself calls the initial callback.\<close>

definition ThreadPool_start :: "(nat \<Rightarrow> nat option) \<Rightarrow> (nat \<Rightarrow> int) \<Rightarrow> int \<Rightarrow> 'a ThreadPool \<Rightarrow> 32 AtomicIntegerT
    \<Rightarrow> ('a ThreadPool \<times> 32 AtomicIntegerT \<times> bool) result" where
  "ThreadPool_start create gettid numThreads p numCreated =
     assertR ''threads_.empty()'' (tp_threads p = [])
       (if numThreads < 0 then Inl BadAlloc
        else bindR (foldR (start_one create gettid) [0..<nat numThreads] (p\<lparr>tp_running := True\<rparr>, numCreated)) (\<lambda>(p, numCreated).
          Inr (p, numCreated, numThreads = 0 \<and> tp_threadInitCallback p)))"

definition ThreadPool_queueSize :: "'a ThreadPool \<Rightarrow> nat" where
  "ThreadPool_queueSize p = length (tp_queue p)"

definition isFull :: "'a ThreadPool \<Rightarrow> bool" where
  "isFull p = (0 < tp_maxQueueSize p \<and> tp_maxQueueSize p \<le> length (tp_queue p))"

text \<open>One round of \<^verbatim>\<open>run\<close>: it runs the task in the caller when there are no threads, waits, returns
  because the pool was stopped, or queues the task.\<close>

datatype 'a submission = RunInline | MustWait | Refused | Queued "'a ThreadPool"

definition ThreadPool_run :: "'a \<Rightarrow> 'a ThreadPool \<Rightarrow> 'a submission result" where
  "ThreadPool_run task p =
     (if tp_threads p = [] then Inr RunInline
      else if isFull p \<and> tp_running p then Inr MustWait
      else if \<not> tp_running p then Inr Refused
      else assertR ''!isFull()'' (\<not> isFull p) (Inr (Queued (p\<lparr>tp_queue := tp_queue p @ [task]\<rparr>))))"

text \<open>One round of \<^verbatim>\<open>take\<close>: \<open>None\<close> to wait; the task is empty when the pool was stopped with an empty
  queue.\<close>

definition ThreadPool_take :: "'a ThreadPool \<Rightarrow> ('a option \<times> 'a ThreadPool) option" where
  "ThreadPool_take p =
     (if tp_queue p = [] \<and> tp_running p then None
      else (case tp_queue p of
              [] \<Rightarrow> Some (None, p)
            | task # rest \<Rightarrow> Some (Some task, p\<lparr>tp_queue := rest\<rparr>)))"

text \<open>The joins of \<^verbatim>\<open>stop\<close>, with the pthreads they join.\<close>

fun join_all :: "Thread list \<Rightarrow> (Thread list \<times> nat list) result" where
  "join_all [] = Inr ([], [])"
| "join_all (th # ths) = bindR (Thread_join th) (\<lambda>(th, i). bindR (join_all ths) (\<lambda>(ths, is). Inr (th # ths, i # is)))"

definition stop_joins :: "'a ThreadPool \<Rightarrow> ('a ThreadPool \<times> nat list) result" where
  "stop_joins p = bindR (join_all (tp_threads p)) (\<lambda>(ths, is). Inr (p\<lparr>tp_threads := ths\<rparr>, is))"

text \<open>The destructor, with the pthreads that \<^verbatim>\<open>stop\<close> joins and those that the destructors of the threads detach.\<close>

definition ThreadPool_dtor :: "'a ThreadPool \<Rightarrow> (nat list \<times> nat list) result" where
  "ThreadPool_dtor p =
     bindR (if tp_running p then stop_joins (p\<lparr>tp_running := False\<rparr>) else Inr (p, [])) (\<lambda>(p, joined).
       Inr (joined, List.map_filter Thread_dtor (tp_threads p)))"

section \<open>The pool and its threads\<close>

text \<open>Workers before the initial callback, testing \<^verbatim>\<open>running_\<close> in \<^verbatim>\<open>runInThread\<close>, in \<^verbatim>\<open>take\<close>, waiting there,
  executing a task, or returned; and the callers of \<^verbatim>\<open>run\<close>. \<open>ps_inits\<close> counts the calls of the initial callback by workers,
  \<open>ps_in\<close> and \<open>ps_out\<close> record the tasks queued and started. A worker cannot tell whether \<^verbatim>\<open>start\<close> has made
  all threads yet, so all of them exist from the beginning.\<close>

record 'a pool_sys =
  ps_pool :: "'a ThreadPool"
  ps_starting :: nat
  ps_testing :: nat
  ps_taking :: nat
  ps_waitTake :: nat
  ps_executing :: nat
  ps_exited :: nat
  ps_inits :: nat
  ps_putters :: "'a list"
  ps_waitPut :: "'a list"
  ps_in :: "'a list"
  ps_out :: "'a list"

definition pool_sys :: "'a ThreadPool \<Rightarrow> 'a pool_sys" where
  "pool_sys p = \<lparr>ps_pool = p, ps_starting = length (tp_threads p), ps_testing = 0, ps_taking = 0, ps_waitTake = 0, ps_executing = 0,
     ps_exited = 0, ps_inits = 0, ps_putters = [], ps_waitPut = [], ps_in = [], ps_out = []\<rparr>"

definition tp_notify_taker :: "'a pool_sys \<Rightarrow> 'a pool_sys" where
  "tp_notify_taker s = (if 0 < ps_waitTake s then s\<lparr>ps_waitTake := ps_waitTake s - 1, ps_taking := ps_taking s + 1\<rparr> else s)"

inductive tp_notify_putter :: "'a pool_sys \<Rightarrow> 'a pool_sys \<Rightarrow> bool" where
  tp_notify_none: "ps_waitPut s = [] \<or> tp_maxQueueSize (ps_pool s) = 0 \<Longrightarrow> tp_notify_putter s s"
| tp_notify_one: "0 < tp_maxQueueSize (ps_pool s) \<Longrightarrow> ps_waitPut s = us @ x # vs \<Longrightarrow>
    tp_notify_putter s (s\<lparr>ps_waitPut := us @ vs, ps_putters := x # ps_putters s\<rparr>)"

text \<open>The steps of the workers.\<close>

inductive worker_step :: "'a pool_sys \<Rightarrow> 'a pool_sys \<Rightarrow> bool" where
  w_init: "0 < ps_starting s \<Longrightarrow> worker_step s (s\<lparr>ps_starting := ps_starting s - 1, ps_testing := ps_testing s + 1,
    ps_inits := ps_inits s + (if tp_threadInitCallback (ps_pool s) then 1 else 0)\<rparr>)"
| w_enter: "0 < ps_testing s \<Longrightarrow> tp_running (ps_pool s) \<Longrightarrow> worker_step s (s\<lparr>ps_testing := ps_testing s - 1, ps_taking := ps_taking s + 1\<rparr>)"
| w_exit: "0 < ps_testing s \<Longrightarrow> \<not> tp_running (ps_pool s) \<Longrightarrow> worker_step s (s\<lparr>ps_testing := ps_testing s - 1, ps_exited := ps_exited s + 1\<rparr>)"
| w_wait: "0 < ps_taking s \<Longrightarrow> ThreadPool_take (ps_pool s) = None \<Longrightarrow>
    worker_step s (s\<lparr>ps_taking := ps_taking s - 1, ps_waitTake := ps_waitTake s + 1\<rparr>)"
| w_task: "0 < ps_taking s \<Longrightarrow> ThreadPool_take (ps_pool s) = Some (Some task, p) \<Longrightarrow>
    tp_notify_putter (s\<lparr>ps_pool := p, ps_taking := ps_taking s - 1, ps_executing := ps_executing s + 1, ps_out := ps_out s @ [task]\<rparr>) s' \<Longrightarrow>
    worker_step s s'"
| w_empty: "0 < ps_taking s \<Longrightarrow> ThreadPool_take (ps_pool s) = Some (None, p) \<Longrightarrow>
    worker_step s (s\<lparr>ps_pool := p, ps_taking := ps_taking s - 1, ps_testing := ps_testing s + 1\<rparr>)"
| w_finish: "0 < ps_executing s \<Longrightarrow> worker_step s (s\<lparr>ps_executing := ps_executing s - 1, ps_testing := ps_testing s + 1\<rparr>)"

definition stop_signal :: "'a pool_sys \<Rightarrow> 'a pool_sys" where
  "stop_signal s = s\<lparr>ps_pool := (ps_pool s)\<lparr>tp_running := False\<rparr>, ps_waitTake := 0, ps_taking := ps_taking s + ps_waitTake s,
     ps_waitPut := [], ps_putters := ps_waitPut s @ ps_putters s\<rparr>"

text \<open>All steps: workers, callers of \<^verbatim>\<open>run\<close>, spurious wake-ups, \<^verbatim>\<open>stop\<close> up to its joins, and the joins, which return when
  every worker has.\<close>

inductive pool_step :: "'a pool_sys \<Rightarrow> 'a pool_sys \<Rightarrow> bool" where
  p_worker: "worker_step s s' \<Longrightarrow> pool_step s s'"
| p_call: "pool_step s (s\<lparr>ps_putters := x # ps_putters s\<rparr>)"
| p_inline: "ps_putters s = us @ x # vs \<Longrightarrow> ThreadPool_run x (ps_pool s) = Inr RunInline \<Longrightarrow> pool_step s (s\<lparr>ps_putters := us @ vs\<rparr>)"
| p_wait: "ps_putters s = us @ x # vs \<Longrightarrow> ThreadPool_run x (ps_pool s) = Inr MustWait \<Longrightarrow>
    pool_step s (s\<lparr>ps_putters := us @ vs, ps_waitPut := x # ps_waitPut s\<rparr>)"
| p_refused: "ps_putters s = us @ x # vs \<Longrightarrow> ThreadPool_run x (ps_pool s) = Inr Refused \<Longrightarrow> pool_step s (s\<lparr>ps_putters := us @ vs\<rparr>)"
| p_queued: "ps_putters s = us @ x # vs \<Longrightarrow> ThreadPool_run x (ps_pool s) = Inr (Queued p) \<Longrightarrow>
    pool_step s (tp_notify_taker (s\<lparr>ps_pool := p, ps_putters := us @ vs, ps_in := ps_in s @ [x]\<rparr>))"
| p_wakePut: "ps_waitPut s = us @ x # vs \<Longrightarrow> pool_step s (s\<lparr>ps_waitPut := us @ vs, ps_putters := x # ps_putters s\<rparr>)"
| p_wakeTake: "0 < ps_waitTake s \<Longrightarrow> pool_step s (s\<lparr>ps_waitTake := ps_waitTake s - 1, ps_taking := ps_taking s + 1\<rparr>)"
| p_stop: "pool_step s (stop_signal s)"
| p_join: "\<not> tp_running (ps_pool s) \<Longrightarrow> ps_exited s = length (tp_threads (ps_pool s)) \<Longrightarrow> stop_joins (ps_pool s) = Inr (p, is) \<Longrightarrow>
    pool_step s (s\<lparr>ps_pool := p\<rparr>)"

section \<open>Exceptions\<close>

datatype thrown = Throw_Exception string string | Throw_std_exception string | Throw_other

text \<open>The handlers of \<^verbatim>\<open>ThreadPool::runInThread\<close>: the text on \<^verbatim>\<open>stderr\<close>, and how the function ends if it does not abort.\<close>

definition stderr_line :: "string \<Rightarrow> string" where
  "stderr_line x = x @ [CHR 0x0A]"

primrec runInThread_catch :: "string \<Rightarrow> thrown \<Rightarrow> string \<times> func_end option" where
  "runInThread_catch name (Throw_Exception what stackTrace) =
     (stderr_line (''exception caught in ThreadPool '' @ name) @ stderr_line (''reason: '' @ what) @ stderr_line (''stack trace: '' @ stackTrace), None)"
| "runInThread_catch name (Throw_std_exception what) = (stderr_line (''exception caught in ThreadPool '' @ name) @ stderr_line (''reason: '' @ what), None)"
| "runInThread_catch name Throw_other = (stderr_line (''unknown exception caught in ThreadPool '' @ name), Some Threw_other)"

text \<open>What leaves it goes on through the handlers of \<^verbatim>\<open>ThreadData::runInThread\<close>, the last of which writes and throws again.\<close>

definition crash :: "string \<Rightarrow> Thread \<Rightarrow> thrown \<Rightarrow> string \<times> thread_end" where
  "crash name th x = (case runInThread_catch name x of
      (err, None) \<Rightarrow> (err, Thread_abort)
    | (err, Some f) \<Rightarrow> (err @ stderr_line (''unknown exception caught in Thread '' @ th_name th), snd (run_func f CurrentThread_init)))"

datatype 'a pool_process = Alive "'a pool_sys" | Crashed "string \<times> thread_end"

inductive process_step :: "'a pool_process \<Rightarrow> 'a pool_process \<Rightarrow> bool" where
  process_pool: "pool_step s s' \<Longrightarrow> process_step (Alive s) (Alive s')"
| task_throws: "0 < ps_executing s \<Longrightarrow> th \<in> set (tp_threads (ps_pool s)) \<Longrightarrow>
    process_step (Alive s) (Crashed (crash (tp_name (ps_pool s)) th x))"
| init_throws: "0 < ps_starting s \<Longrightarrow> tp_threadInitCallback (ps_pool s) \<Longrightarrow> th \<in> set (tp_threads (ps_pool s)) \<Longrightarrow>
    process_step (Alive s) (Crashed (crash (tp_name (ps_pool s)) th x))"

section \<open>Starting and joining\<close>

definition unjoined :: "Thread list \<Rightarrow> bool" where
  "unjoined ths = (\<forall>th \<in> set ths. th_started th \<and> \<not> th_joined th)"

text \<open>The threads of a pool have the name of the pool and their number.\<close>

definition worker_name :: "string \<Rightarrow> nat \<Rightarrow> string" where
  "worker_name name i = name @ snprintf 32 (dec_int (int i + 1))"

lemma Thread_ctor_worker:
  "\<exists>th. Thread_ctor (worker_name name i) nc = (th, snd (incrementAndGet nc)) \<and> th_name th = worker_name name i
     \<and> \<not> th_started th \<and> \<not> th_joined th \<and> th_latch th = CountDownLatch_ctor 1"
proof -
  have "dec_int (int i + 1) \<noteq> []" by (simp add: dec_int_def dec_nat_nonempty)
  then have "worker_name name i \<noteq> []" by (simp add: worker_name_def snprintf_def)
  then show ?thesis by (simp add: Thread_ctor_def setDefaultName_def split: prod.split)
qed

text \<open>The run of the creator and the new thread that \<open>Thread_start\<close> sums up.\<close>

lemma Thread_start_run:
  assumes "Thread_start p gettid th = Inr th'" "th_latch th = CountDownLatch_ctor 1"
  shows "\<exists>s. reach (thread_step gettid) (Inr (ThreadSystem_init th)) (Inr s) \<and> sy_creator s = After_start \<and> sy_object s = Some th'"
proof -
  let ?step = "thread_step gettid" and ?s0 = "ThreadSystem_init th"
  obtain q where q: "p = Some q" "0 < gettid" "\<not> th_started th"
    using assms(1) by (auto simp: Thread_start_def assertR_def split: option.splits if_splits)
  obtain s1 where s1: "start_create p th ?s0 = Inr s1" using q by (simp add: start_create_def Let_def)
  then have 1: "sy_creator s1 = In_wait" "sy_child s1 = At_tid" "sy_data s1 = Some (ThreadData_ctor (th_name th))" "sy_locals s1 = CurrentThread_init"
    "sy_object s1 = Some (th\<lparr>th_started := True, th_pthreadId := q, th_latch := (th_latch th)\<lparr>cl_testing := cl_testing (th_latch th) + 1\<rparr>\<rparr>)"
    using q by (auto simp: start_create_def ThreadSystem_init_def Let_def)
  obtain s2 data where s2: "run_tid gettid (ThreadData_ctor (th_name th)) s1 = Inr s2" "sy_creator s2 = In_wait" "sy_child s2 = At_latch"
    "sy_data s2 = Some data" "td_latch data"
    "sy_object s2 = Some (th\<lparr>th_started := True, th_pthreadId := q, th_tid := gettid, th_latch := (th_latch th)\<lparr>cl_testing := cl_testing (th_latch th) + 1\<rparr>\<rparr>)"
    using 1 by (auto simp: run_tid_def ThreadData_ctor_def with_object_def CurrentThread_tid_def CurrentThread_init_def cacheTid_def)
  let ?th = "th\<lparr>th_started := True, th_pthreadId := q, th_tid := gettid, th_latch := countDown ((th_latch th)\<lparr>cl_testing := cl_testing (th_latch th) + 1\<rparr>)\<rparr>"
  obtain s3 where s3: "run_latch data s2 = Inr s3" "sy_creator s3 = In_wait" "sy_object s3 = Some ?th"
    using s2 by (auto simp: run_latch_def with_object_def)
  have th': "th' = ?th\<lparr>th_latch := latch_test (th_latch ?th)\<rparr>" using assms(1) q by (simp add: Thread_start_def)
  obtain s4 where s4: "start_wait ?th s3 = Inr s4" "sy_creator s4 = After_start" "sy_object s4 = Some th'"
    using q(2) th' by (auto simp: start_wait_def latch_test_def countDown_def assms(2) CountDownLatch_ctor_def)
  have "?step (Inr ?s0) (Inr s1)" using do_create [of ?s0 th gettid p] s1 by (simp add: ThreadSystem_init_def)
  moreover have "?step (Inr s1) (Inr s2)" using do_tid [OF 1(2,3), of gettid] s2(1) by simp
  moreover have "?step (Inr s2) (Inr s3)" using do_latch [OF s2(3,4), of gettid] s3(1) by simp
  moreover have "?step (Inr s3) (Inr s4)" using do_wait [OF s3(2,3), of gettid] s4(1) by (simp add: countDown_def assms(2) CountDownLatch_ctor_def)
  ultimately show ?thesis using s4(2,3) by (meson reach_one reach_step)
qed

text \<open>If every thread can be made, \<^verbatim>\<open>start\<close> makes them in order.\<close>

lemma start_all:
  assumes "\<forall>i \<in> set is. create i \<noteq> None \<and> 0 < gettid i"
  shows "\<exists>ths nc'. foldR (start_one create gettid) is (p, nc) = Inr (p\<lparr>tp_threads := tp_threads p @ ths\<rparr>, nc') \<and> unjoined ths
     \<and> map th_name ths = map (worker_name (tp_name p)) is \<and> map th_pthreadId ths = map (the \<circ> create) is \<and> map th_tid ths = map gettid is"
  using assms
proof (induction "is" arbitrary: p nc)
  case (Cons i "is")
  obtain q where q: "create i = Some q" "0 < gettid i" using Cons.prems by auto
  obtain th where th: "start_one create gettid i (p, nc) = Inr (p\<lparr>tp_threads := tp_threads p @ [th]\<rparr>, snd (incrementAndGet nc))"
    "unjoined [th]" "th_name th = worker_name (tp_name p) i" "th_pthreadId th = q" "th_tid th = gettid i"
    using Thread_ctor_worker [of "tp_name p" i nc] q
    by (auto simp: start_one_def Thread_start_def unjoined_def simp flip: worker_name_def)
  obtain ths nc' where ih: "foldR (start_one create gettid) is (p\<lparr>tp_threads := tp_threads p @ [th]\<rparr>, snd (incrementAndGet nc))
      = Inr (p\<lparr>tp_threads := (tp_threads p @ [th]) @ ths\<rparr>, nc')" "unjoined ths" "map th_name ths = map (worker_name (tp_name p)) is"
    "map th_pthreadId ths = map (the \<circ> create) is" "map th_tid ths = map gettid is"
    using Cons.IH [of "p\<lparr>tp_threads := tp_threads p @ [th]\<rparr>" "snd (incrementAndGet nc)"] Cons.prems by auto
  show ?case using th ih q by (intro exI [of _ "th # ths"] exI [of _ nc']) (simp add: unjoined_def)
qed (simp add: unjoined_def)

lemma start_one_needs:
  assumes "start_one create gettid i x = Inr y"
  shows "create i \<noteq> None \<and> 0 < gettid i"
  using assms by (cases x) (auto simp: start_one_def Thread_start_def assertR_def bindR_eq_Inr Let_def split: prod.splits option.splits if_splits)

lemma start_all_needs:
  assumes "foldR (start_one create gettid) is x = Inr y"
  shows "\<forall>i \<in> set is. create i \<noteq> None \<and> 0 < gettid i"
  using assms by (induction "is" arbitrary: x) (auto simp: bindR_eq_Inr dest: start_one_needs)

lemma ThreadPool_start_ok:
  assumes "ThreadPool_start create gettid n p nc = Inr (p', nc', b)"
  shows "0 \<le> n \<and> b = (n = 0 \<and> tp_threadInitCallback p) \<and> length (tp_threads p') = nat n \<and> unjoined (tp_threads p')
    \<and> p' = p\<lparr>tp_running := True, tp_threads := tp_threads p'\<rparr>"
proof -
  have 1: "0 \<le> n" "tp_threads p = []" using assms by (auto simp: ThreadPool_start_def assertR_def split: if_splits)
  obtain ths nc1 where "foldR (start_one create gettid) [0..<nat n] (p\<lparr>tp_running := True\<rparr>, nc) = Inr (p\<lparr>tp_running := True, tp_threads := ths\<rparr>, nc1)"
    "unjoined ths" "map th_name ths = map (worker_name (tp_name p)) [0..<nat n]"
    using assms 1 start_all [of "[0..<nat n]" create gettid "p\<lparr>tp_running := True\<rparr>" nc] start_all_needs [of create gettid "[0..<nat n]" "(p\<lparr>tp_running := True\<rparr>, nc)"]
    by (auto simp: ThreadPool_start_def bindR_eq_Inr)
  then show ?thesis using assms 1 by (auto simp: ThreadPool_start_def dest: arg_cong [of _ _ length])
qed

lemma join_all_ok:
  assumes "unjoined ths"
  shows "join_all ths = Inr (map (th_joined_update (\<lambda>_. True)) ths, map th_pthreadId ths)"
  using assms by (induction ths) (auto simp: unjoined_def Thread_join_def)

lemma join_all_length: "join_all ths = Inr (ths', is) \<Longrightarrow> length ths' = length ths"
  by (induction ths arbitrary: ths' "is") (auto simp: bindR_eq_Inr split: prod.splits)

lemma join_all_again: "ths \<noteq> [] \<Longrightarrow> \<forall>th \<in> set ths. th_started th \<and> th_joined th \<Longrightarrow> join_all ths = Inl (AssertFail ''!joined_'')"
  by (cases ths) (auto simp: Thread_join_def assertR_def)

section \<open>The invariant\<close>

text \<open>The threads are joined only after all of them have returned.\<close>

definition pool_inv :: "nat \<Rightarrow> 'a pool_sys \<Rightarrow> bool" where
  "pool_inv n s = (let p = ps_pool s in
     ps_in s = ps_out s @ tp_queue p \<and> length (tp_threads p) = n
     \<and> ps_starting s + ps_testing s + ps_taking s + ps_waitTake s + ps_executing s + ps_exited s = n
     \<and> ps_inits s = of_bool (tp_threadInitCallback p) * (n - ps_starting s)
     \<and> (0 < tp_maxQueueSize p \<longrightarrow> length (tp_queue p) \<le> tp_maxQueueSize p)
     \<and> (0 < ps_waitTake s \<longrightarrow> tp_running p \<and> length (tp_queue p) \<le> ps_taking s)
     \<and> (ps_waitPut s \<noteq> [] \<longrightarrow> tp_running p \<and> 0 < n \<and> 0 < tp_maxQueueSize p
          \<and> tp_maxQueueSize p \<le> length (tp_queue p) + length (ps_putters s))
     \<and> (\<not> unjoined (tp_threads p) \<longrightarrow> \<not> tp_running p \<and> ps_exited s = n))"

lemma take_cases:
  "ThreadPool_take p = None \<Longrightarrow> tp_queue p = [] \<and> tp_running p"
  "ThreadPool_take p = Some (None, p') \<Longrightarrow> tp_queue p = [] \<and> \<not> tp_running p \<and> p' = p"
  "ThreadPool_take p = Some (Some t, p') \<Longrightarrow> \<exists>rest. tp_queue p = t # rest \<and> p' = p\<lparr>tp_queue := rest\<rparr>"
  by (auto simp: ThreadPool_take_def split: if_splits list.splits)

lemma run_cases:
  "ThreadPool_run x p = Inr MustWait \<Longrightarrow> isFull p \<and> tp_running p \<and> tp_threads p \<noteq> []"
  "ThreadPool_run x p = Inr (Queued p') \<Longrightarrow> \<not> isFull p \<and> tp_running p \<and> p' = p\<lparr>tp_queue := tp_queue p @ [x]\<rparr>"
  "ThreadPool_run x p = Inr Refused \<Longrightarrow> \<not> tp_running p"
  "ThreadPool_run x p = Inr RunInline \<Longrightarrow> tp_threads p = []"
  by (auto simp: ThreadPool_run_def assertR_def split: if_splits)

lemma run_never_fails: "\<exists>r. ThreadPool_run x p = Inr r"
  by (simp add: ThreadPool_run_def assertR_def)

lemma worker_inv:
  assumes inv: "pool_inv n s" and step: "worker_step s s'"
  shows "pool_inv n s'"
  using step
proof (cases rule: worker_step.cases)
  case w_wait
  then show ?thesis using inv take_cases(1) [OF w_wait(3)] by (auto simp: pool_inv_def Let_def)
next
  case (w_task task p)
  obtain rest where T: "tp_queue (ps_pool s) = task # rest" "p = (ps_pool s)\<lparr>tp_queue := rest\<rparr>" using take_cases(3) [OF w_task(2)] by blast
  from w_task(3) show ?thesis
    by (cases rule: tp_notify_putter.cases) (use inv w_task(1) T in \<open>auto simp: pool_inv_def Let_def\<close>)
next
  case (w_empty p)
  then show ?thesis using inv take_cases(2) [OF w_empty(3)] by (auto simp: pool_inv_def Let_def)
next
  case w_init
  then show ?thesis using inv by (cases "tp_threadInitCallback (ps_pool s)") (auto simp: pool_inv_def Let_def)
next
  case w_enter
  then show ?thesis using inv by (auto simp: pool_inv_def Let_def)
next
  case w_exit
  then show ?thesis using inv by (auto simp: pool_inv_def Let_def)
next
  case w_finish
  then show ?thesis using inv by (auto simp: pool_inv_def Let_def)
qed

lemma pool_inv_step:
  assumes inv: "pool_inv n s" and step: "pool_step s s'"
  shows "pool_inv n s'"
  using step
proof (cases rule: pool_step.cases)
  case p_worker
  then show ?thesis using worker_inv [OF inv] by blast
next
  case (p_wait us x vs)
  then show ?thesis using inv run_cases(1) [OF p_wait(3)] by (auto simp: pool_inv_def Let_def isFull_def)
next
  case (p_queued us x vs p)
  then show ?thesis using inv run_cases(2) [OF p_queued(3)] by (auto simp: pool_inv_def Let_def isFull_def tp_notify_taker_def)
next
  case (p_refused us x vs)
  then show ?thesis using inv run_cases(3) [OF p_refused(3)] by (auto simp: pool_inv_def Let_def)
next
  case (p_inline us x vs)
  then show ?thesis using inv run_cases(4) [OF p_inline(3)] by (auto simp: pool_inv_def Let_def)
next
  case (p_join p "is")
  obtain ths where "p = (ps_pool s)\<lparr>tp_threads := ths\<rparr>" "length ths = length (tp_threads (ps_pool s))"
    using p_join(4) by (auto simp: stop_joins_def bindR_eq_Inr dest: join_all_length)
  then show ?thesis using inv p_join by (auto simp: pool_inv_def Let_def)
qed (use inv in \<open>auto simp: pool_inv_def Let_def stop_signal_def\<close>)

interpretation tpool: step_invariant pool_step "pool_inv n"
  by unfold_locales (rule pool_inv_step)


lemma pool_sys_inv:
  assumes "ThreadPool_start create gettid n p nc = Inr (p', nc', b)" "tp_queue p = []"
  shows "pool_inv (nat n) (pool_sys p')"
proof -
  note S = ThreadPool_start_ok [OF assms(1)]
  then have "tp_queue p' = tp_queue p" by (metis ThreadPool.select_convs(4) ThreadPool.surjective ThreadPool.update_convs(3,6))
  then show ?thesis using S assms(2) by (simp add: pool_sys_def pool_inv_def)
qed

lemma pool_reach_inv:
  assumes "ThreadPool_start create gettid n (setMaxQueueSize m (setThreadInitCallback cb (ThreadPool_ctor name))) nc = Inr (p, nc', b)"
    and "reach pool_step (pool_sys p) s"
  shows "pool_inv (nat n) s"
  by (rule tpool.invariant [OF assms(2) pool_sys_inv [OF assms(1)]]) (simp add: setMaxQueueSize_def setThreadInitCallback_def ThreadPool_ctor_def)

text \<open>What the workers still have to do after a stop.\<close>

definition work_left :: "'a pool_sys \<Rightarrow> nat" where
  "work_left s = 3 * ps_taking s + 2 * ps_executing s + 2 * ps_starting s + ps_testing s"

lemma worker_progress:
  assumes "worker_step s s'" "\<not> tp_running (ps_pool s)"
  shows "work_left s' < work_left s"
  using assms(1)
proof (cases rule: worker_step.cases)
  case (w_task task p)
  from w_task(3) show ?thesis
    by (cases rule: tp_notify_putter.cases) (use w_task(1) in \<open>auto simp: work_left_def\<close>)
qed (use assms(2) take_cases(1) in \<open>auto simp: work_left_def\<close>)

lemma worker_enabled:
  assumes "\<not> tp_running (ps_pool s)" "0 < work_left s"
  shows "\<exists>s'. worker_step s s'"
proof -
  consider "0 < ps_testing s" | "0 < ps_executing s" | "0 < ps_starting s" | "0 < ps_taking s" using assms(2) by (auto simp: work_left_def)
  then show ?thesis
  proof cases
    case 4
    show ?thesis
    proof (cases "tp_queue (ps_pool s)")
      case Nil
      then show ?thesis using w_empty [OF 4] assms(1) by (auto simp: ThreadPool_take_def)
    next
      case (Cons t ts)
      let ?s = "s\<lparr>ps_pool := (ps_pool s)\<lparr>tp_queue := ts\<rparr>, ps_taking := ps_taking s - 1, ps_executing := ps_executing s + 1, ps_out := ps_out s @ [t]\<rparr>"
      have "\<exists>s'. tp_notify_putter ?s s'"
      proof (cases "ps_waitPut ?s = [] \<or> tp_maxQueueSize (ps_pool ?s) = 0")
        case False
        then show ?thesis using tp_notify_one [of ?s "[]"] by (cases "ps_waitPut ?s") auto
      qed (use tp_notify_none in blast)
      then show ?thesis using w_task [OF 4, of t] Cons by (auto simp: ThreadPool_take_def)
    qed
  qed (use assms(1) w_exit w_finish w_init in blast)+
qed

section \<open>Properties\<close>

text \<open>C20. The thread pool: tasks are started exactly once and in the order they were queued, under any
  interleaving of submitters, workers and \<^verbatim>\<open>stop\<close>; a limited queue never exceeds its limit; no wake-up
  is lost on either side; nobody waits in a stopped pool; each worker runs the initial callback once, before its
  first task.\<close>

theorem thread_pool_fifo:
  assumes "ThreadPool_start create gettid n (setMaxQueueSize m (setThreadInitCallback cb (ThreadPool_ctor name))) nc = Inr (p, nc', b)"
    and "reach pool_step (pool_sys p) s"
  shows "ps_in s = ps_out s @ tp_queue (ps_pool s)
     \<and> (0 < tp_maxQueueSize (ps_pool s) \<longrightarrow> ThreadPool_queueSize (ps_pool s) \<le> tp_maxQueueSize (ps_pool s))
     \<and> (0 < ps_waitTake s \<longrightarrow> tp_running (ps_pool s) \<and> length (tp_queue (ps_pool s)) \<le> ps_taking s)
     \<and> (ps_waitPut s \<noteq> [] \<longrightarrow> tp_running (ps_pool s)
          \<and> tp_maxQueueSize (ps_pool s) \<le> length (tp_queue (ps_pool s)) + length (ps_putters s))
     \<and> (tp_threadInitCallback (ps_pool s) \<longrightarrow> ps_testing s + ps_taking s + ps_waitTake s + ps_executing s + ps_exited s = ps_inits s)"
proof -
  have I: "pool_inv (nat n) s" by (rule pool_reach_inv [OF assms])
  have "nat n - ps_starting s = ps_testing s + ps_taking s + ps_waitTake s + ps_executing s + ps_exited s"
    using I by (auto simp: pool_inv_def Let_def)
  then show ?thesis using I by (simp add: pool_inv_def Let_def ThreadPool_queueSize_def)
qed

definition one_thread :: "nat \<Rightarrow> nat option" where "one_thread i = Some 70"

definition small_pool :: "nat ThreadPool" where
  "small_pool = (case ThreadPool_start one_thread (\<lambda>_. 5) 1 (setMaxQueueSize 2 (setThreadInitCallback True (ThreadPool_ctor ''p''))) 0 of
     Inr (p, _, _) \<Rightarrow> p)"

lemma small_pool_start:
  "ThreadPool_start one_thread (\<lambda>_. 5) 1 (setMaxQueueSize 2 (setThreadInitCallback True (ThreadPool_ctor ''p''))) 0 = Inr (small_pool, 1, False)"
  unfolding small_pool_def by code_simp

lemma small_pool_shape: "tp_threads small_pool \<noteq> []" "tp_running small_pool" "tp_maxQueueSize small_pool = 2" "tp_queue small_pool = []"
  unfolding small_pool_def by code_simp+

theorem thread_pool_fifo_witness:
  "\<exists>s. reach pool_step (pool_sys small_pool) s \<and> ps_in s = [9] \<and> ps_out s @ tp_queue (ps_pool s) = [9]"
proof -
  let ?s0 = "pool_sys small_pool" let ?s1 = "?s0\<lparr>ps_putters := 9 # ps_putters ?s0\<rparr>"
  let ?s2 = "tp_notify_taker (?s1\<lparr>ps_pool := small_pool\<lparr>tp_queue := [9]\<rparr>, ps_putters := [] @ [], ps_in := ps_in ?s1 @ [9]\<rparr>)"
  have "pool_step ?s0 ?s1" by (rule p_call)
  moreover have "pool_step ?s1 ?s2"
    by (rule p_queued) (simp_all add: pool_sys_def ThreadPool_run_def isFull_def small_pool_shape)
  ultimately have r: "reach pool_step ?s0 ?s2" by (rule reach_step [OF reach_one])
  have i: "ps_in ?s2 = [9]" by (simp add: tp_notify_taker_def pool_sys_def)
  have "ps_in ?s2 = ps_out ?s2 @ tp_queue (ps_pool ?s2)" using conjunct1 [OF thread_pool_fifo [OF small_pool_start r]] .
  with r i show ?thesis by metis
qed

text \<open>C21. Stopping ends: once a pool is stopped no worker is left waiting; every step of a worker
  brings the pool closer to the end (a step count bounded by the state), and as long as some worker has
  not returned one can take a step, so if the tasks under way end, every worker returns; then the joins of \<^verbatim>\<open>stop\<close>
  return too, each thread joined once, and a second \<^verbatim>\<open>stop\<close> of a pool with threads fails its assertion.\<close>

theorem thread_pool_stops:
  assumes "ThreadPool_start create gettid n (setMaxQueueSize m (setThreadInitCallback cb (ThreadPool_ctor name))) nc = Inr (p, nc', b)"
    and "reach pool_step (pool_sys p) s" and "\<not> tp_running (ps_pool s)"
  shows "ps_waitTake s = 0 \<and> (\<forall>s'. worker_step s s' \<longrightarrow> work_left s' < work_left s) \<and> (ps_exited s < nat n \<longrightarrow> (\<exists>s'. worker_step s s'))
     \<and> (ps_exited s = nat n \<and> unjoined (tp_threads (ps_pool s)) \<longrightarrow>
         (\<exists>q. stop_joins (ps_pool s) = Inr (q, map th_pthreadId (tp_threads (ps_pool s))) \<and> pool_step s (s\<lparr>ps_pool := q\<rparr>)
            \<and> (0 < n \<longrightarrow> stop_joins q = Inl (AssertFail ''!joined_''))))"
proof -
  have I: "pool_inv (nat n) s" by (rule pool_reach_inv [OF assms(1,2)])
  then have w: "ps_waitTake s = 0" using assms(3) by (auto simp: pool_inv_def Let_def)
  have "0 < work_left s" if "ps_exited s < nat n" using I that w by (auto simp: pool_inv_def Let_def work_left_def)
  moreover have "\<exists>q. stop_joins (ps_pool s) = Inr (q, map th_pthreadId (tp_threads (ps_pool s))) \<and> pool_step s (s\<lparr>ps_pool := q\<rparr>)
      \<and> (0 < n \<longrightarrow> stop_joins q = Inl (AssertFail ''!joined_''))"
    if "ps_exited s = nat n" "unjoined (tp_threads (ps_pool s))"
  proof -
    let ?ths = "map (th_joined_update (\<lambda>_. True)) (tp_threads (ps_pool s))"
    have j: "stop_joins (ps_pool s) = Inr ((ps_pool s)\<lparr>tp_threads := ?ths\<rparr>, map th_pthreadId (tp_threads (ps_pool s)))"
      using join_all_ok [OF that(2)] by (simp add: stop_joins_def)
    have n: "length (tp_threads (ps_pool s)) = nat n" using I by (simp add: pool_inv_def Let_def)
    have "stop_joins ((ps_pool s)\<lparr>tp_threads := ?ths\<rparr>) = Inl (AssertFail ''!joined_'')" if "0 < n"
    proof -
      have "?ths \<noteq> []" using n that by auto
      moreover have "\<forall>th \<in> set ?ths. th_started th \<and> th_joined th" using \<open>unjoined _\<close> by (auto simp: unjoined_def)
      ultimately have "join_all ?ths = Inl (AssertFail ''!joined_'')" by (rule join_all_again)
      then show ?thesis by (simp add: stop_joins_def)
    qed
    then show ?thesis using j p_join [OF assms(3) _ j] that(1) n by simp
  qed
  ultimately show ?thesis using w worker_progress [OF _ assms(3)] worker_enabled [OF assms(3)] by blast
qed

theorem thread_pool_stops_witness:
  "reach pool_step (pool_sys small_pool) (stop_signal (pool_sys small_pool))
     \<and> (\<exists>s'. worker_step (stop_signal (pool_sys small_pool)) s')"
proof -
  have r: "reach pool_step (pool_sys small_pool) (stop_signal (pool_sys small_pool))" by (rule reach_one) (rule p_stop)
  have "\<not> tp_running (ps_pool (stop_signal (pool_sys small_pool)))" "ps_exited (stop_signal (pool_sys small_pool)) < nat 1"
    by (simp_all add: stop_signal_def pool_sys_def)
  then show ?thesis using thread_pool_stops [OF small_pool_start r] r by blast
qed

text \<open>The destructor joins the threads of a pool that runs, and has nothing left to do for one that was stopped; it detaches none.\<close>

lemma dtor_joins:
  assumes "unjoined (tp_threads p)"
  shows "tp_running p \<Longrightarrow> ThreadPool_dtor p = Inr (map th_pthreadId (tp_threads p), [])"
    "stop_joins (p\<lparr>tp_running := False\<rparr>) = Inr (q, is) \<Longrightarrow> ThreadPool_dtor q = Inr ([], [])"
  using join_all_ok [OF assms] by (auto simp: ThreadPool_dtor_def stop_joins_def Thread_dtor_def map_filter_def)

text \<open>The threads of a pool are started in order, each under the name of the pool with its number; without threads \<^verbatim>\<open>start\<close> itself
  calls the initial callback; and a pool is started once in its life, also after a \<^verbatim>\<open>stop\<close>.\<close>

theorem pool_start_threads:
  assumes "\<forall>i < nat n. create i \<noteq> None \<and> 0 < gettid i" "0 \<le> n" "tp_threads p = []"
  shows "\<exists>p' nc'. ThreadPool_start create gettid n p nc = Inr (p', nc', n = 0 \<and> tp_threadInitCallback p) \<and> tp_running p'
     \<and> map th_name (tp_threads p') = map (worker_name (tp_name p)) [0..<nat n] \<and> map th_tid (tp_threads p') = map gettid [0..<nat n]
     \<and> (0 < n \<longrightarrow> ThreadPool_start create gettid n (p'\<lparr>tp_running := False\<rparr>) nc' = Inl (AssertFail ''threads_.empty()''))"
proof -
  obtain ths nc' where "foldR (start_one create gettid) [0..<nat n] (p\<lparr>tp_running := True\<rparr>, nc) = Inr (p\<lparr>tp_running := True, tp_threads := ths\<rparr>, nc')"
    "map th_name ths = map (worker_name (tp_name p)) [0..<nat n]" "map th_tid ths = map gettid [0..<nat n]"
    using start_all [of "[0..<nat n]" create gettid "p\<lparr>tp_running := True\<rparr>" nc] assms(1,3) by auto
  moreover from this(2) have "ths \<noteq> []" if "0 < n" using that by auto
  ultimately show ?thesis using assms(2,3) by (auto simp: ThreadPool_start_def)
qed

theorem pool_start_threads_witness:
  "\<exists>p nc. ThreadPool_start one_thread (\<lambda>_. 5) 2 (ThreadPool_ctor ''io'' :: nat ThreadPool) 0 = Inr (p, nc, False)
     \<and> map th_name (tp_threads p) = [''io1'', ''io2'']"
proof -
  have "[0..<nat 2] = [0, Suc 0]" by code_simp
  moreover have "worker_name ''io'' 0 = ''io1''" "worker_name ''io'' (Suc 0) = ''io2''" by code_simp+
  ultimately show ?thesis
    using pool_start_threads [of 2 one_thread "\<lambda>_. 5" "ThreadPool_ctor ''io'' :: nat ThreadPool" 0] by (auto simp: one_thread_def ThreadPool_ctor_def)
qed

lemma pool_step_name:
  assumes "pool_step s s'"
  shows "tp_name (ps_pool s') = tp_name (ps_pool s)"
proof -
  have "tp_name (ps_pool s') = tp_name (ps_pool s)" if "worker_step s s'"
    using that
  proof (cases rule: worker_step.cases)
    case (w_task task p)
    from w_task(3) show ?thesis by (cases rule: tp_notify_putter.cases) (use take_cases(3) [OF w_task(2)] in auto)
  qed (auto dest: take_cases(2))
  with assms show ?thesis
    by (cases rule: pool_step.cases) (auto simp: stop_signal_def tp_notify_taker_def stop_joins_def bindR_eq_Inr dest: run_cases(2))
qed

lemma process_reach:
  assumes "reach process_step q q'" "q = Alive s0"
  shows "case q' of Alive s \<Rightarrow> reach pool_step s0 s
    | Crashed r \<Rightarrow> \<exists>s th x. reach pool_step s0 s \<and> th \<in> set (tp_threads (ps_pool s)) \<and> r = crash (tp_name (ps_pool s)) th x
        \<and> (0 < ps_executing s \<or> 0 < ps_starting s \<and> tp_threadInitCallback (ps_pool s))"
  using assms
proof (induction rule: reach.induct)
  case (reach_step q q' q'')
  then have ih: "case q' of Alive s \<Rightarrow> reach pool_step s0 s | Crashed r \<Rightarrow> True" by (simp split: pool_process.splits)
  from reach_step.hyps(2) ih show ?case
    by (cases rule: process_step.cases) (auto intro: reach.reach_step)
qed (simp add: reach.reach_refl)

interpretation pname: step_invariant pool_step "\<lambda>s. tp_name (ps_pool s) = name"
  by unfold_locales (simp add: pool_step_name)

text \<open>Exceptions: the process with the pool ends before its time only if a task, or the initial callback, throws; then it has
  written on \<^verbatim>\<open>stderr\<close> first the name of the pool, the process is aborted or the exception leaves the
  thread, and nothing runs afterwards. Until then the pool behaves as without exceptions.\<close>

theorem pool_crash_reported:
  assumes "ThreadPool_start create gettid n (setMaxQueueSize m (setThreadInitCallback cb (ThreadPool_ctor name))) nc = Inr (p, nc', b)"
    and "reach process_step (Alive (pool_sys p)) (Crashed (err, e))"
  shows "e \<noteq> Thread_exit \<and> (\<exists>kind rest. kind \<in> {''exception'', ''unknown exception''} \<and> err = stderr_line (kind @ '' caught in ThreadPool '' @ name) @ rest)
     \<and> (\<exists>s. reach pool_step (pool_sys p) s \<and> pool_inv (nat n) s \<and> (0 < ps_executing s \<or> 0 < ps_starting s \<and> tp_threadInitCallback (ps_pool s)))
     \<and> (\<nexists>q. process_step (Crashed (err, e)) q)"
proof -
  obtain s th x where s: "reach pool_step (pool_sys p) s" "(err, e) = crash (tp_name (ps_pool s)) th x"
    "0 < ps_executing s \<or> 0 < ps_starting s \<and> tp_threadInitCallback (ps_pool s)"
    using process_reach [OF assms(2)] by auto
  have "p = (setMaxQueueSize m (setThreadInitCallback cb (ThreadPool_ctor name)))\<lparr>tp_running := True, tp_threads := tp_threads p\<rparr>"
    using ThreadPool_start_ok [OF assms(1)] by blast
  from arg_cong [OF this, of tp_name] have "tp_name p = name" by (simp add: setMaxQueueSize_def setThreadInitCallback_def ThreadPool_ctor_def)
  then have "tp_name (ps_pool s) = name" using pname.invariant [OF s(1)] by (simp add: pool_sys_def)
  then have "e \<noteq> Thread_exit \<and> (\<exists>kind rest. kind \<in> {''exception'', ''unknown exception''} \<and> err = stderr_line (kind @ '' caught in ThreadPool '' @ name) @ rest)"
    using s(2) by (cases x) (auto simp: crash_def)
  moreover have "\<nexists>q. process_step (Crashed (err, e)) q" by (auto elim: process_step.cases)
  ultimately show ?thesis using s(1,3) pool_reach_inv [OF assms(1)] by blast
qed

theorem pool_crash_reported_witness:
  "\<exists>err. reach process_step (Alive (pool_sys small_pool)) (Crashed (err, Thread_rethrow))
     \<and> (\<exists>kind rest. kind \<in> {''exception'', ''unknown exception''} \<and> err = stderr_line (kind @ '' caught in ThreadPool p'') @ rest)"
proof -
  let ?r = "crash (tp_name small_pool) (hd (tp_threads small_pool)) Throw_other"
  have "0 < ps_starting (pool_sys small_pool)" "tp_threadInitCallback small_pool" "hd (tp_threads small_pool) \<in> set (tp_threads small_pool)"
    using small_pool_shape(1) by (simp_all add: pool_sys_def, code_simp)
  then have "process_step (Alive (pool_sys small_pool)) (Crashed ?r)"
    using init_throws [of "pool_sys small_pool" "hd (tp_threads small_pool)" Throw_other] by (simp add: pool_sys_def)
  moreover obtain err where "?r = (err, Thread_rethrow)" by (simp add: crash_def)
  ultimately have r: "reach process_step (Alive (pool_sys small_pool)) (Crashed (err, Thread_rethrow))" by (metis reach_one)
  then show ?thesis using pool_crash_reported [OF small_pool_start r] by auto
qed

end
