(* ===== verification/Base_LogStream.thy ===== *)
theory Base_LogStream
  imports Cpp_Prelude "HOL-Library.Sublist"
begin

text \<open>
  \<^verbatim>\<open>base/LogStream.h\<close> and \<^verbatim>\<open>base/LogStream.cc\<close>: a fixed buffer, the conversion of integers by a table of
  digits, and the insertion operators. A buffer is its array and the index of \<^verbatim>\<open>cur_\<close>; writing outside
  the array is a fault. The text of a \<^verbatim>\<open>double\<close> is an argument.
\<close>

section \<open>Fixed buffers\<close>

definition kSmallBuffer :: nat where "kSmallBuffer = 4000"
definition kLargeBuffer :: nat where "kLargeBuffer = 4000 * 1000"

record FixedBuffer =
  fb_data :: string
  fb_cur :: nat

text \<open>The array is not initialised: its first contents are an argument.\<close>

definition FixedBuffer_ctor :: "string \<Rightarrow> FixedBuffer" where
  "FixedBuffer_ctor garbage = \<lparr>fb_data = garbage, fb_cur = 0\<rparr>"

definition fb_avail :: "FixedBuffer \<Rightarrow> nat" where
  "fb_avail b = length (fb_data b) - fb_cur b"

definition fb_length :: "FixedBuffer \<Rightarrow> nat" where "fb_length b = fb_cur b"

definition FixedBuffer_append :: "string \<Rightarrow> FixedBuffer \<Rightarrow> FixedBuffer result" where
  "FixedBuffer_append buf b =
     (if fb_avail b > length buf
      then bindR (vec_write (fb_data b) (fb_cur b) buf) (\<lambda>d. Inr (b\<lparr>fb_data := d, fb_cur := fb_cur b + length buf\<rparr>))
      else Inr b)"

definition fb_add :: "nat \<Rightarrow> FixedBuffer \<Rightarrow> FixedBuffer" where
  "fb_add len b = b\<lparr>fb_cur := fb_cur b + len\<rparr>"

definition fb_reset :: "FixedBuffer \<Rightarrow> FixedBuffer" where
  "fb_reset b = b\<lparr>fb_cur := 0\<rparr>"

definition fb_bzero :: "FixedBuffer \<Rightarrow> FixedBuffer" where
  "fb_bzero b = b\<lparr>fb_data := replicate (length (fb_data b)) (char_of (0::nat))\<rparr>"

definition fb_toString :: "FixedBuffer \<Rightarrow> string" where
  "fb_toString b = take (fb_length b) (fb_data b)"

text \<open>\<open>debugString\<close> ends the text with a NUL character.\<close>

definition fb_debugString :: "FixedBuffer \<Rightarrow> FixedBuffer result" where
  "fb_debugString b = bindR (vec_write (fb_data b) (fb_cur b) [char_of (0::nat)]) (\<lambda>d. Inr (b\<lparr>fb_data := d\<rparr>))"

section \<open>Converting integers\<close>

definition digits :: string where "digits = ''9876543210123456789''"

definition zero_digit :: "int \<Rightarrow> char" where "zero_digit lsd = digits ! nat (9 + lsd)"

definition digitsHex :: string where "digitsHex = ''0123456789ABCDEF''"

lemma cdiv_smaller: "cdiv i 10 \<noteq> 0 \<Longrightarrow> nat \<bar>cdiv i 10\<bar> < nat \<bar>i\<bar>"
proof -
  assume "cdiv i 10 \<noteq> 0"
  then have i: "i \<noteq> 0" by (auto simp: cdiv_def)
  have "\<bar>cdiv i 10\<bar> = \<bar>i\<bar> div 10" using i by (auto simp: cdiv_def abs_mult sgn_if)
  moreover have "\<bar>i\<bar> div 10 < \<bar>i\<bar>" using i by (intro int_div_less_self) auto
  ultimately show ?thesis by simp
qed

text \<open>The loop produces the digits from the last to the first; the remainder of a negative number is
  negative, which the table allows for.\<close>

function convert_loop :: "int \<Rightarrow> string" where
  "convert_loop i = zero_digit (cmod i 10) # (if cdiv i 10 \<noteq> 0 then convert_loop (cdiv i 10) else [])"
  by auto
termination
  by (relation "measure (\<lambda>i. nat \<bar>i\<bar>)") (simp_all only: wf_measure in_measure cdiv_smaller not_False_eq_True)

declare convert_loop.simps [simp del]

definition convert :: "int \<Rightarrow> string" where
  "convert v = (let p = convert_loop v @ (if v < 0 then ''-'' else []) in rev p)"

function convertHex_loop :: "nat \<Rightarrow> string" where
  "convertHex_loop i = digitsHex ! (i mod 16) # (if i div 16 \<noteq> 0 then convertHex_loop (i div 16) else [])"
  by auto
termination by (relation "measure id") auto

declare convertHex_loop.simps [simp del]

definition convertHex :: "nat \<Rightarrow> string" where
  "convertHex v = rev (convertHex_loop v)"

section \<open>The stream\<close>

definition kMaxNumericSize :: nat where "kMaxNumericSize = 32"

record LogStream = ls_buffer :: FixedBuffer

text \<open>What can be inserted: the integer types by their values, a pointer by its address, a
  \<^verbatim>\<open>double\<close> by the text of \<^verbatim>\<open>%.12g\<close>, a formatted number by its text.\<close>

datatype log_item =
    LBool bool
  | LInteger int
  | LPointer "64 word"
  | LDouble string
  | LChar char
  | LCString "string option"
  | LString string
  | LBuffer FixedBuffer
  | LFmt string

text \<open>\<open>convert\<close> writes its digits and a NUL at the given position.\<close>

definition write_number :: "string \<Rightarrow> FixedBuffer \<Rightarrow> FixedBuffer result" where
  "write_number t b = bindR (vec_write (fb_data b) (fb_cur b) (t @ [char_of (0::nat)])) (\<lambda>d. Inr (fb_add (length t) (b\<lparr>fb_data := d\<rparr>)))"

definition formatInteger :: "int \<Rightarrow> FixedBuffer \<Rightarrow> FixedBuffer result" where
  "formatInteger v b = (if fb_avail b \<ge> kMaxNumericSize then write_number (convert v) b else Inr b)"

definition put_pointer :: "64 word \<Rightarrow> FixedBuffer \<Rightarrow> FixedBuffer result" where
  "put_pointer p b = (if fb_avail b \<ge> kMaxNumericSize then write_number (''0x'' @ convertHex (unat p)) b else Inr b)"

definition put_double :: "string \<Rightarrow> FixedBuffer \<Rightarrow> FixedBuffer result" where
  "put_double t b = (if fb_avail b \<ge> kMaxNumericSize
     then bindR (vec_write (fb_data b) (fb_cur b) (snprintf kMaxNumericSize t @ [char_of (0::nat)])) (\<lambda>d. Inr (fb_add (length t) (b\<lparr>fb_data := d\<rparr>)))
     else Inr b)"

text \<open>\<^verbatim>\<open>Fmt\<close>: the text of one number, at most 31 characters.\<close>

definition Fmt_ctor :: "string \<Rightarrow> string result" where
  "Fmt_ctor t = assertR ''static_cast<size_t>(length_) < sizeof buf_'' (length t < 32) (Inr (snprintf 32 t))"

primrec put_item :: "log_item \<Rightarrow> FixedBuffer \<Rightarrow> FixedBuffer result" where
  "put_item (LBool v) b = FixedBuffer_append (if v then ''1'' else ''0'') b"
| "put_item (LInteger v) b = formatInteger v b"
| "put_item (LPointer p) b = put_pointer p b"
| "put_item (LDouble t) b = put_double t b"
| "put_item (LChar c) b = FixedBuffer_append [c] b"
| "put_item (LCString s) b = (case s of Some t \<Rightarrow> FixedBuffer_append t b | None \<Rightarrow> FixedBuffer_append ''(null)'' b)"
| "put_item (LString t) b = FixedBuffer_append t b"
| "put_item (LBuffer v) b = FixedBuffer_append (fb_toString v) b"
| "put_item (LFmt t) b = bindR (Fmt_ctor t) (\<lambda>u. FixedBuffer_append u b)"

definition LogStream_put :: "log_item \<Rightarrow> LogStream \<Rightarrow> LogStream result" where
  "LogStream_put x s = bindR (put_item x (ls_buffer s)) (\<lambda>b. Inr (s\<lparr>ls_buffer := b\<rparr>))"

definition LogStream_append :: "string \<Rightarrow> LogStream \<Rightarrow> LogStream result" where
  "LogStream_append t s = bindR (FixedBuffer_append t (ls_buffer s)) (\<lambda>b. Inr (s\<lparr>ls_buffer := b\<rparr>))"

definition resetBuffer :: "LogStream \<Rightarrow> LogStream" where
  "resetBuffer s = s\<lparr>ls_buffer := fb_reset (ls_buffer s)\<rparr>"

section \<open>Units\<close>

text \<open>\<open>formatSI\<close> chooses decimals, divisor and unit by integer comparisons; \<open>fixed d s den\<close> is the text
  of \<^verbatim>\<open>%.df\<close> for the \<^verbatim>\<open>double\<close> quotient \<open>s / den\<close>.\<close>

definition SI_format :: "int \<Rightarrow> (nat \<times> int \<times> string) option" where
  "SI_format s =
     (if s < 1000 then None
      else if s < 9995 then Some (2, 10 ^ 3, ''k'')
      else if s < 99950 then Some (1, 10 ^ 3, ''k'')
      else if s < 999500 then Some (0, 10 ^ 3, ''k'')
      else if s < 9995000 then Some (2, 10 ^ 6, ''M'')
      else if s < 99950000 then Some (1, 10 ^ 6, ''M'')
      else if s < 999500000 then Some (0, 10 ^ 6, ''M'')
      else if s < 9995000000 then Some (2, 10 ^ 9, ''G'')
      else if s < 99950000000 then Some (1, 10 ^ 9, ''G'')
      else if s < 999500000000 then Some (0, 10 ^ 9, ''G'')
      else if s < 9995000000000 then Some (2, 10 ^ 12, ''T'')
      else if s < 99950000000000 then Some (1, 10 ^ 12, ''T'')
      else if s < 999500000000000 then Some (0, 10 ^ 12, ''T'')
      else if s < 9995000000000000 then Some (2, 10 ^ 15, ''P'')
      else if s < 99950000000000000 then Some (1, 10 ^ 15, ''P'')
      else if s < 999500000000000000 then Some (0, 10 ^ 15, ''P'')
      else Some (2, 10 ^ 18, ''E''))"

definition formatSI :: "(nat \<Rightarrow> int \<Rightarrow> int \<Rightarrow> string) \<Rightarrow> int \<Rightarrow> string" where
  "formatSI fixed s = (case SI_format s of None \<Rightarrow> snprintf 64 (dec_int s) | Some (d, den, u) \<Rightarrow> snprintf 64 (fixed d s den @ u))"

section \<open>Lemmas\<close>

lemma zero_digit_eq:
  assumes "-9 \<le> k" "k \<le> 9"
  shows "zero_digit k = char_of (48 + nat \<bar>k\<bar>)"
proof -
  have "k \<in> set [-9, -8, -7, -6, -5, -4, -3, -2, -1, 0, 1, 2, 3, 4, 5, 6, 7, 8, 9]"
    using assms unfolding list.set insert_iff empty_iff by presburger
  moreover have "list_all (\<lambda>k. zero_digit k = char_of (48 + nat \<bar>k\<bar>)) [-9, -8, -7, -6, -5, -4, -3, -2, -1, 0, 1, 2, 3, 4, 5, 6, 7, 8, 9]"
    by code_simp
  ultimately show ?thesis by (simp only: list_all_iff)
qed

lemma cmod_abs: "\<bar>cmod i 10\<bar> = \<bar>i\<bar> mod 10"
  by (cases "0 \<le> i") (auto simp: cmod_def cdiv_def sgn_if minus_mult_div_eq_mod [symmetric] abs_if not_le; presburger)+

lemma cdiv_abs: "\<bar>cdiv i 10\<bar> = \<bar>i\<bar> div 10"
  by (auto simp: cdiv_def abs_mult sgn_if)

lemma convert_loop_eq: "rev (convert_loop i) = dec_nat (nat \<bar>i\<bar>)"
proof (induction i rule: convert_loop.induct)
  case (1 i)
  have m: "\<bar>cmod i 10\<bar> = \<bar>i\<bar> mod 10" by (rule cmod_abs)
  then have "-9 \<le> cmod i 10 \<and> cmod i 10 \<le> 9" using pos_mod_bound [of 10 "\<bar>i\<bar>"] by arith
  then have z: "zero_digit (cmod i 10) = char_of (48 + nat \<bar>i\<bar> mod 10)"
    using zero_digit_eq m by (simp add: nat_mod_distrib)
  show ?case
  proof (cases "cdiv i 10 = 0")
    case True
    then have "nat \<bar>i\<bar> < 10" using cdiv_abs [of i] by (auto simp: zdiv_eq_0_iff)
    then show ?thesis using True z by (subst convert_loop.simps, subst dec_nat.simps) simp
  next
    case False
    then have "\<not> nat \<bar>i\<bar> < 10" using cdiv_abs [of i] by (auto simp: not_less) 
    moreover have "nat \<bar>cdiv i 10\<bar> = nat \<bar>i\<bar> div 10" using cdiv_abs [of i] by (simp add: nat_div_distrib)
    ultimately show ?thesis using False z 1 by (subst convert_loop.simps, subst dec_nat.simps) simp
  qed
qed

lemma convert_eq: "convert v = dec_int v"
  using convert_loop_eq [of v] by (simp add: convert_def dec_int_def Let_def)

definition hex_value :: "string \<Rightarrow> nat" where
  "hex_value t = foldl (\<lambda>a c. 16 * a + (if of_char c < (58::nat) then of_char c - 48 else of_char c - 55)) 0 t"

lemma hex_digit:
  assumes "d < 16"
  shows "(if of_char (digitsHex ! d) < (58::nat) then of_char (digitsHex ! d) - 48 else of_char (digitsHex ! d) - 55) = d"
proof -
  have "list_all (\<lambda>d. (if of_char (digitsHex ! d) < (58::nat) then of_char (digitsHex ! d) - 48 else of_char (digitsHex ! d) - 55) = d) [0..<16]"
    by code_simp
  then show ?thesis using assms unfolding list_all_iff set_upt by (meson atLeastLessThan_iff le0)
qed

lemma hex_value_convertHex: "hex_value (convertHex n) = n"
  unfolding convertHex_def
proof (induction n rule: convertHex_loop.induct)
  case (1 n)
  have snoc: "hex_value (t @ [digitsHex ! d]) = 16 * hex_value t + d" if "d < 16" for t d
    using hex_digit [OF that] by (simp add: hex_value_def)
  show ?case
  proof (cases "n div 16 = 0")
    case True
    then have "convertHex_loop n = [digitsHex ! (n mod 16)]" by (subst convertHex_loop.simps) simp
    then show ?thesis using snoc [of "n mod 16" "[]"] True by (simp add: hex_value_def)
  next
    case False
    then have "rev (convertHex_loop n) = rev (convertHex_loop (n div 16)) @ [digitsHex ! (n mod 16)]" by (subst convertHex_loop.simps) simp
    then show ?thesis using snoc [of "n mod 16" "rev (convertHex_loop (n div 16))"] 1 [OF False] by simp
  qed
qed

lemma length_convertHex_loop: "0 < k \<Longrightarrow> n < 16 ^ k \<Longrightarrow> length (convertHex_loop n) \<le> k"
proof (induction k arbitrary: n)
  case (Suc k)
  show ?case
  proof (cases "n div 16 = 0")
    case True
    then show ?thesis by (subst convertHex_loop.simps) simp
  next
    case False
    then have "0 < k" using Suc.prems by (cases k) auto
    moreover have "n div 16 < 16 ^ k" using Suc.prems by (simp add: less_mult_imp_div_less mult.commute)
    ultimately show ?thesis using False Suc.IH by (subst convertHex_loop.simps) simp
  qed
qed simp

lemma length_convert:
  assumes "\<bar>v\<bar> < 2 ^ 64"
  shows "length (convert v) \<le> 21"
proof -
  have "nat \<bar>v\<bar> < 10 ^ 20" using assms by simp
  then have "length (dec_nat (nat \<bar>v\<bar>)) \<le> 20" by (intro length_dec_nat) simp_all
  then show ?thesis by (auto simp: convert_eq dec_int_def abs_if split: if_splits)
qed

lemma length_convertHex: "length (convertHex (unat (p :: 64 word))) \<le> 16"
proof -
  have "unat p < 16 ^ 16" using unat_less_pow [of p] by simp
  then show ?thesis using length_convertHex_loop [of 16 "unat p"] by (simp add: convertHex_def)
qed

definition fb_ok :: "FixedBuffer \<Rightarrow> bool" where
  "fb_ok b = (fb_cur b \<le> length (fb_data b))"

lemma vec_write_prefix:
  assumes "fb_ok b" "fb_cur b + length (t @ u) \<le> length (fb_data b)"
  shows "\<exists>d. vec_write (fb_data b) (fb_cur b) (t @ u) = Inr d \<and> length d = length (fb_data b)
     \<and> take (fb_cur b + length t) d = fb_toString b @ t"
  using assms by (simp add: vec_write_def fb_toString_def fb_length_def fb_ok_def)

text \<open>What an operation does that either appends a text or leaves the buffer as it is.\<close>

definition appends :: "string \<Rightarrow> FixedBuffer \<Rightarrow> FixedBuffer \<Rightarrow> bool" where
  "appends t b b' = (fb_ok b' \<and> length (fb_data b') = length (fb_data b) \<and> fb_toString b' = fb_toString b @ t)"

lemma FixedBuffer_append_ok:
  assumes "fb_ok b"
  shows "total (appends (if fb_avail b > length t then t else []) b) (FixedBuffer_append t b)"
proof (cases "fb_avail b > length t")
  case True
  then have "fb_cur b + length (t @ []) \<le> length (fb_data b)" by (simp add: fb_avail_def)
  from vec_write_prefix [OF assms this] True show ?thesis
    by (auto simp: FixedBuffer_append_def appends_def fb_ok_def fb_toString_def fb_length_def fb_avail_def)
qed (use assms in \<open>simp add: FixedBuffer_append_def appends_def\<close>)

lemma write_number_ok:
  assumes "fb_ok b" "length t < kMaxNumericSize" "kMaxNumericSize \<le> fb_avail b"
  shows "total (appends t b) (write_number t b)"
proof -
  have "fb_cur b + length (t @ [char_of (0::nat)]) \<le> length (fb_data b)" using assms by (simp add: fb_avail_def kMaxNumericSize_def)
  from vec_write_prefix [OF assms(1) this] assms show ?thesis
    by (auto simp: write_number_def fb_add_def appends_def fb_ok_def fb_toString_def fb_length_def fb_avail_def kMaxNumericSize_def)
qed

text \<open>The text of an item, and whether there is room for it.\<close>

primrec item_text :: "log_item \<Rightarrow> string" where
  "item_text (LBool v) = (if v then ''1'' else ''0'')"
| "item_text (LInteger v) = dec_int v"
| "item_text (LPointer p) = ''0x'' @ convertHex (unat p)"
| "item_text (LDouble t) = t"
| "item_text (LChar c) = [c]"
| "item_text (LCString s) = (case s of Some t \<Rightarrow> t | None \<Rightarrow> ''(null)'')"
| "item_text (LString t) = t"
| "item_text (LBuffer v) = fb_toString v"
| "item_text (LFmt t) = t"

definition item_fits :: "log_item \<Rightarrow> FixedBuffer \<Rightarrow> bool" where
  "item_fits x b = (case x of
       LInteger _ \<Rightarrow> kMaxNumericSize \<le> fb_avail b
     | LPointer _ \<Rightarrow> kMaxNumericSize \<le> fb_avail b
     | LDouble _ \<Rightarrow> kMaxNumericSize \<le> fb_avail b
     | _ \<Rightarrow> length (item_text x) < fb_avail b)"

text \<open>Integers are those of the C++ types; \<^verbatim>\<open>%.12g\<close> and a format of \<^verbatim>\<open>Fmt\<close> give less than 32 characters.\<close>

definition item_ok :: "log_item \<Rightarrow> bool" where
  "item_ok x = (case x of LInteger v \<Rightarrow> - (2 ^ 63) \<le> v \<and> v < 2 ^ 64 | LDouble t \<Rightarrow> length t < 32 | LFmt t \<Rightarrow> length t < 32 | _ \<Rightarrow> True)"

lemma put_item_ok:
  assumes "fb_ok b" "item_ok x"
  shows "total (appends (if item_fits x b then item_text x else []) b) (put_item x b)"
proof -
  have same: "appends [] b b" using assms(1) by (simp add: appends_def)
  have app: "total (appends (if length (item_text x) < fb_avail b then item_text x else []) b) (FixedBuffer_append (item_text x) b)"
    by (rule FixedBuffer_append_ok [OF assms(1)])
  show ?thesis
  proof (cases x)
    case (LInteger v)
    have "\<bar>v\<bar> < 2 ^ 64" using assms(2) LInteger by (auto simp: item_ok_def)
    then have "length (convert v) < kMaxNumericSize" using length_convert [of v] by (simp add: kMaxNumericSize_def)
    then show ?thesis using LInteger write_number_ok [OF assms(1), of "convert v"] same
      by (auto simp: formatInteger_def item_fits_def convert_eq)
  next
    case (LPointer p)
    have "length (''0x'' @ convertHex (unat p)) < kMaxNumericSize" using length_convertHex [of p] by (simp add: kMaxNumericSize_def)
    then show ?thesis using LPointer write_number_ok [OF assms(1), of "''0x'' @ convertHex (unat p)"] same
      by (auto simp: put_pointer_def item_fits_def)
  next
    case (LDouble t)
    then have l: "length t < kMaxNumericSize" using assms(2) by (simp add: item_ok_def kMaxNumericSize_def)
    have "put_double t b = (if kMaxNumericSize \<le> fb_avail b then write_number t b else Inr b)"
      using l by (simp add: put_double_def write_number_def snprintf_fits)
    then show ?thesis using LDouble write_number_ok [OF assms(1) l] same by (auto simp: item_fits_def)
  next
    case (LFmt t)
    then have "Fmt_ctor t = Inr t" using assms(2) by (simp add: Fmt_ctor_def item_ok_def snprintf_fits)
    then show ?thesis using LFmt FixedBuffer_append_ok [OF assms(1), of t] by (simp add: item_fits_def split: if_splits)
  qed (use app in \<open>auto simp: item_fits_def split: option.splits if_splits\<close>)
qed

lemma LogStream_put_ok:
  assumes "fb_ok (ls_buffer s)" "item_ok x"
  shows "total (\<lambda>s'. appends (if item_fits x (ls_buffer s) then item_text x else []) (ls_buffer s) (ls_buffer s')) (LogStream_put x s)"
  using put_item_ok [OF assms] by (auto simp: LogStream_put_def total_iff)

lemma item_fits_room: "item_ok x \<Longrightarrow> length (item_text x) + kMaxNumericSize \<le> fb_avail b \<Longrightarrow> item_fits x b"
  by (cases x) (auto simp: item_fits_def kMaxNumericSize_def)

lemma appends_avail: "fb_ok b \<Longrightarrow> appends t b b' \<Longrightarrow> fb_avail b' + length t = fb_avail b"
  by (auto simp: appends_def fb_ok_def fb_avail_def fb_toString_def fb_length_def dest: arg_cong [where f = length])

text \<open>A sequence of insertions keeps some of the items, whole and in order, and all of them when there is
  room.\<close>

lemma puts_ok:
  assumes "fb_ok (ls_buffer s)" and "\<forall>x \<in> set xs. item_ok x"
  shows "\<exists>s' ys. foldR LogStream_put xs s = Inr s' \<and> subseq ys xs \<and> appends (concat (map item_text ys)) (ls_buffer s) (ls_buffer s')
     \<and> (length (concat (map item_text xs)) + 32 \<le> fb_avail (ls_buffer s) \<longrightarrow> ys = xs)"
  using assms
proof (induction xs arbitrary: s)
  case (Cons x xs)
  let ?fits = "item_fits x (ls_buffer s)"
  have ok: "fb_ok (ls_buffer s)" "item_ok x" using Cons.prems by auto
  obtain s1 where s1: "LogStream_put x s = Inr s1" "appends (if ?fits then item_text x else []) (ls_buffer s) (ls_buffer s1)"
    using LogStream_put_ok [OF ok] by (auto simp: total_iff)
  have av: "fb_avail (ls_buffer s1) + length (if ?fits then item_text x else []) = fb_avail (ls_buffer s)"
    by (rule appends_avail [OF ok(1) s1(2)])
  obtain s' ys where s': "foldR LogStream_put xs s1 = Inr s'" "subseq ys xs" "appends (concat (map item_text ys)) (ls_buffer s1) (ls_buffer s')"
    "length (concat (map item_text xs)) + 32 \<le> fb_avail (ls_buffer s1) \<longrightarrow> ys = xs"
    using Cons.IH [of s1] s1(2) Cons.prems(2) by (auto simp: appends_def)
  let ?ys = "if ?fits then x # ys else ys"
  have "subseq ?ys (x # xs)" using s'(2) by auto
  moreover have "appends (concat (map item_text ?ys)) (ls_buffer s) (ls_buffer s')"
    using s'(3) s1(2) by (simp add: appends_def)
  moreover have "?ys = x # xs" if "length (concat (map item_text (x # xs))) + 32 \<le> fb_avail (ls_buffer s)"
    using that item_fits_room [OF ok(2), of "ls_buffer s"] av s'(4) by (simp add: kMaxNumericSize_def)
  ultimately show ?case using s1(1) s'(1) by (intro exI [of _ s'] exI [of _ ?ys]) simp
qed (auto simp: appends_def intro: exI [of _ "[]"])

section \<open>Properties\<close>

text \<open>Integer conversion: \<^verbatim>\<open>convert\<close>, which indexes a table of digits with possibly negative
  remainders, gives the decimal text of every integer, the smallest of its type included, and
  \<^verbatim>\<open>convertHex\<close> gives digits whose value is the number.\<close>

theorem convert_correct: "convert v = dec_int v \<and> hex_value (convertHex n) = n"
  by (simp add: convert_eq hex_value_convertHex)

text \<open>C40. The stream: inserting any sequence of items never writes outside the buffer and never fails;
  the buffer then holds what it held before followed by the texts of some of the items, whole and in
  order (an item that does not fit is skipped), and of all of them when they leave 32 characters
  free.\<close>

theorem stream_holds_items:
  assumes "fb_ok (ls_buffer s)" and "\<forall>x \<in> set xs. item_ok x"
  shows "\<exists>s' ys. foldR LogStream_put xs s = Inr s' \<and> fb_ok (ls_buffer s') \<and> length (fb_data (ls_buffer s')) = length (fb_data (ls_buffer s))
     \<and> subseq ys xs \<and> fb_toString (ls_buffer s') = fb_toString (ls_buffer s) @ concat (map item_text ys)
     \<and> (length (concat (map item_text xs)) + 32 \<le> fb_avail (ls_buffer s) \<longrightarrow> ys = xs)"
  using puts_ok [OF assms] by (auto simp: appends_def)

theorem stream_holds_items_witness:
  "\<exists>s'. foldR LogStream_put [LString ''n = '', LInteger (- 42), LBool True] \<lparr>ls_buffer = FixedBuffer_ctor (replicate 4000 (CHR ''x''))\<rparr> = Inr s'
     \<and> fb_toString (ls_buffer s') = ''n = -421''"
proof -
  let ?s = "\<lparr>ls_buffer = FixedBuffer_ctor (replicate 4000 (CHR ''x''))\<rparr>" let ?xs = "[LString ''n = '', LInteger (- 42), LBool True]"
  have ok: "fb_ok (ls_buffer ?s)" "\<forall>x \<in> set ?xs. item_ok x" by (simp_all add: fb_ok_def FixedBuffer_ctor_def item_ok_def)
  have t: "concat (map item_text ?xs) = ''n = -421''" by code_simp
  have "length (concat (map item_text ?xs)) + 32 \<le> fb_avail (ls_buffer ?s)" "fb_toString (ls_buffer ?s) = []"
    unfolding t by (simp_all add: fb_avail_def FixedBuffer_ctor_def fb_toString_def fb_length_def)
  then show ?thesis using stream_holds_items [OF ok] t by (metis append_Nil)
qed

text \<open>\<^verbatim>\<open>formatSI\<close> chooses its unit so that three digits remain: from a thousand up to the largest
  unit, the exact quotient, rounded to the chosen number of decimals, is at least \<open>100\<close> and at most
  \<open>999\<close> units of its last place.\<close>

theorem SI_three_digits:
  assumes "1000 \<le> s" and "s < 999500000000000000"
  shows "\<exists>d den u. SI_format s = Some (d, den, u) \<and> 199 * den \<le> 2 * s * 10 ^ d \<and> 2 * s * 10 ^ d < 1999 * den"
  using assms by (auto simp: SI_format_def)

theorem SI_three_digits_witness:
  "\<exists>d den u. SI_format 123456 = Some (d, den, u) \<and> 199 * den \<le> 2 * 123456 * 10 ^ d \<and> 2 * 123456 * 10 ^ d < 1999 * den"
  by (rule SI_three_digits) simp_all

end
