(* ===== verification/Base_Units.thy ===== *)
theory Base_Units
  imports Base_LogStream
begin

text \<open>
  \<^verbatim>\<open>formatSI\<close> and \<^verbatim>\<open>formatIEC\<close> of \<^verbatim>\<open>base/LogStream.cc\<close> with the \<^verbatim>\<open>double\<close> arithmetic they use: a positive
  \<^verbatim>\<open>double\<close> is an integer of at most 53 bits times a power of two, conversion and division round to the
  nearest one, ties to the even one, and \<^verbatim>\<open>printf\<close> rounds the exact value of a \<^verbatim>\<open>double\<close> the same way.
\<close>

section \<open>Rounding\<close>

text \<open>The integer nearest to \<open>p / q\<close>, the even one of two.\<close>

definition half_even :: "int \<Rightarrow> int \<Rightarrow> int" where
  "half_even p q = (let d = p div q; r = p mod q in if 2 * r < q \<or> 2 * r = q \<and> even d then d else d + 1)"

function bits :: "int \<Rightarrow> nat" where
  "bits n = (if n \<le> 0 then 0 else Suc (bits (n div 2)))"
  by pat_completeness auto
termination
  by (relation "measure nat") auto

declare bits.simps [simp del]

text \<open>\<^verbatim>\<open>static_cast<double>\<close> of an integer.\<close>

definition to_double :: "int \<Rightarrow> int" where
  "to_double s = (let k = bits \<bar>s\<bar> - 53 in sgn s * (half_even \<bar>s\<bar> (2 ^ k) * 2 ^ k))"

text \<open>The quotient of two positive \<^verbatim>\<open>double\<close>s below \<open>2 ^ 52\<close>, as \<open>(m, k)\<close> for \<open>m / 2 ^ k\<close>.\<close>

definition double_div :: "int \<Rightarrow> int \<Rightarrow> int \<times> nat" where
  "double_div p q =
     (let k = 53 + bits q - bits p; k = (if 2 ^ 53 * q \<le> p * 2 ^ k then k - 1 else k) in (half_even (p * 2 ^ k) q, k))"

text \<open>The text of \<^verbatim>\<open>%.df\<close> for the exact value \<open>p / q\<close>.\<close>

definition fixed_text :: "nat \<Rightarrow> int \<Rightarrow> int \<Rightarrow> string" where
  "fixed_text d p q =
     (let r = half_even (p * 10 ^ d) q in dec_int (r div 10 ^ d) @ (if d = 0 then [] else ''.'' @ dec_pad d (r mod 10 ^ d)))"

definition fixed_double :: "nat \<Rightarrow> int \<Rightarrow> int \<Rightarrow> string" where
  "fixed_double d s den = (let (m, k) = double_div (to_double s) den in fixed_text d m (2 ^ k))"

section \<open>Binary units\<close>

text \<open>The literals \<^verbatim>\<open>9.995\<close> and \<^verbatim>\<open>99.95\<close> are the nearest \<^verbatim>\<open>double\<close>s, with 49 and 46 bits after the point;
  multiplying one by a power of two is exact.\<close>

definition d9_995 :: "int \<times> int" where "d9_995 = (half_even (9995 * 2 ^ 49) 1000, 2 ^ 49)"

definition d99_95 :: "int \<times> int" where "d99_95 = (half_even (9995 * 2 ^ 46) 100, 2 ^ 46)"

definition d1023_5 :: "int \<times> int" where "d1023_5 = (2047, 2)"

definition below :: "int \<Rightarrow> int \<Rightarrow> int \<times> int \<Rightarrow> bool" where
  "below n unit f = (n * snd f < unit * fst f)"

definition IEC_format :: "int \<Rightarrow> (nat \<times> int \<times> string) option" where
  "IEC_format n =
     (let Ki = 1024; Mi = Ki * 1024; Gi = Mi * 1024; Ti = Gi * 1024; Pi = Ti * 1024; Ei = Pi * 1024 in
      if n < Ki then None
      else if below n Ki d9_995 then Some (2, Ki, ''Ki'')
      else if below n Ki d99_95 then Some (1, Ki, ''Ki'')
      else if below n Ki d1023_5 then Some (0, Ki, ''Ki'')
      else if below n Mi d9_995 then Some (2, Mi, ''Mi'')
      else if below n Mi d99_95 then Some (1, Mi, ''Mi'')
      else if below n Mi d1023_5 then Some (0, Mi, ''Mi'')
      else if below n Gi d9_995 then Some (2, Gi, ''Gi'')
      else if below n Gi d99_95 then Some (1, Gi, ''Gi'')
      else if below n Gi d1023_5 then Some (0, Gi, ''Gi'')
      else if below n Ti d9_995 then Some (2, Ti, ''Ti'')
      else if below n Ti d99_95 then Some (1, Ti, ''Ti'')
      else if below n Ti d1023_5 then Some (0, Ti, ''Ti'')
      else if below n Pi d9_995 then Some (2, Pi, ''Pi'')
      else if below n Pi d99_95 then Some (1, Pi, ''Pi'')
      else if below n Pi d1023_5 then Some (0, Pi, ''Pi'')
      else if below n Ei d9_995 then Some (2, Ei, ''Ei'')
      else Some (1, Ei, ''Ei''))"

text \<open>Dividing by the unit, a power of two, is exact.\<close>

definition formatIEC :: "int \<Rightarrow> string" where
  "formatIEC s =
     (let n = to_double s in
      case IEC_format n of None \<Rightarrow> snprintf 64 (dec_int s) | Some (d, den, u) \<Rightarrow> snprintf 64 (fixed_text d n den @ u))"

section \<open>Lemmas\<close>

lemma half_even_le:
  assumes "0 < q" "2 * p < (2 * c + 1) * q"
  shows "half_even p q \<le> c"
proof -
  have p: "p = p div q * q + p mod q" by simp
  have r: "0 \<le> p mod q" "p mod q < q" using assms(1) by simp_all
  show ?thesis
  proof (cases "p div q < c")
    case True
    then show ?thesis by (simp add: half_even_def Let_def)
  next
    case False
    have "p div q \<le> c"
    proof (rule ccontr)
      assume "\<not> p div q \<le> c"
      then have "(c + 1) * q \<le> p div q * q" using assms(1) by (intro mult_right_mono) auto
      moreover have "p div q * q \<le> p" using p r(1) by linarith
      ultimately have "(c + 1) * q \<le> p" by linarith
      then show False using assms by (simp add: algebra_simps)
    qed
    then have "p div q = c" using False by simp
    moreover from this have "2 * (p mod q) < q" using p assms(2) by (simp add: algebra_simps)
    ultimately show ?thesis by (simp add: half_even_def Let_def)
  qed
qed

lemma half_even_nonneg: "0 \<le> p \<Longrightarrow> 0 < q \<Longrightarrow> 0 \<le> half_even p q"
  by (simp add: half_even_def Let_def pos_imp_zdiv_nonneg_iff)

lemma bits_le: "n < 2 ^ j \<Longrightarrow> bits n \<le> j"
proof (induction j arbitrary: n)
  case 0
  then show ?case by (subst bits.simps) simp
next
  case (Suc j)
  then show ?case by (subst bits.simps) simp
qed

lemma bits_less: "0 \<le> n \<Longrightarrow> n < 2 ^ bits n"
proof (induction n rule: bits.induct)
  case (1 n)
  then show ?case by (subst bits.simps) (cases "n \<le> 0", auto)
qed

lemma bits_ge: "0 < n \<Longrightarrow> 2 ^ bits n \<le> 2 * n"
proof (induction n rule: bits.induct)
  case (1 n)
  show ?case
  proof (cases "n div 2 = 0")
    case True
    then show ?thesis using "1.prems" by (subst bits.simps) (simp add: bits.simps [of 0])
  next
    case False
    then have "2 ^ bits (n div 2) \<le> 2 * (n div 2)" using 1 by auto
    then show ?thesis using "1.prems" by (subst bits.simps) simp
  qed
qed

text \<open>A converted number is at most the power of two above it, and large ones lie on the grid of their exponent.\<close>

lemma to_double_le:
  assumes "0 \<le> s" "s < 2 ^ j" "53 \<le> j"
  shows "0 \<le> to_double s \<and> to_double s \<le> 2 ^ j"
proof (cases "s = 0")
  case False
  define k where "k = bits s - 53"
  have k: "k \<le> j - 53" using bits_le [OF assms(2)] by (simp add: k_def)
  have "bits s \<le> k + 53" by (simp add: k_def)
  then have "s < 2 ^ (k + 53)" using bits_less [OF assms(1)] power_increasing [of "bits s" "k + 53" "2::int"] by linarith
  then have "s < 2 ^ 53 * 2 ^ k" by (simp only: power_add mult.commute)
  moreover have "(0::int) < 2 ^ k" by simp
  ultimately have "2 * s < (2 * 2 ^ 53 + 1) * 2 ^ k" by (simp only: distrib_right)
  then have "half_even s (2 ^ k) \<le> 2 ^ 53" by (intro half_even_le) simp_all
  then have "half_even s (2 ^ k) * 2 ^ k \<le> 2 ^ 53 * 2 ^ k" by (intro mult_right_mono) simp_all
  also have "\<dots> \<le> 2 ^ j" using k assms(3) by (subst power_add [symmetric]) (intro power_increasing, simp_all)
  finally have "half_even s (2 ^ k) * 2 ^ k \<le> 2 ^ j" .
  moreover have "0 \<le> half_even s (2 ^ k) * 2 ^ k" using half_even_nonneg [OF assms(1)] by simp
  ultimately show ?thesis using False assms(1) by (simp add: to_double_def k_def sgn_if Let_def)
qed (simp add: to_double_def half_even_def Let_def)

lemma to_double_ge:
  assumes "2 ^ 53 \<le> s"
  shows "s \<le> 2 * to_double s"
proof -
  define k where "k = bits s - 53"
  have s: "0 < s" using assms by simp
  have "bits s = k + 53 \<or> bits s < 53" by (auto simp: k_def)
  moreover have "\<not> bits s < 53" using bits_less [of s] s assms power_strict_increasing [of "bits s" 53 "2::int"] by linarith
  ultimately have b: "bits s = k + 53" by blast
  have half: "2 * x \<le> s" if "x * 2 ^ 53 \<le> 2 * s" "0 < x" for x :: int using that by simp
  have "2 ^ k * 2 ^ 53 \<le> 2 * s" using bits_ge [OF s] unfolding b power_add .
  then have "2 * 2 ^ k \<le> s" by (rule half) simp
  moreover have "s - 2 ^ k \<le> s div 2 ^ k * 2 ^ k" 
    using minus_mod_eq_div_mult [of s "2 ^ k"] pos_mod_bound [of "2 ^ k" s, OF zero_less_power [OF zero_less_numeral]] by linarith
  moreover have "s div 2 ^ k * 2 ^ k \<le> half_even s (2 ^ k) * 2 ^ k" by (intro mult_right_mono) (simp_all add: half_even_def Let_def)
  ultimately have "s \<le> 2 * (half_even s (2 ^ k) * 2 ^ k)" by linarith
  then show ?thesis using s by (simp add: to_double_def k_def Let_def)
qed

lemma to_double_grid:
  assumes "2 ^ (53 + i) \<le> s"
  shows "2 ^ Suc i dvd to_double s"
proof -
  have "0 \<le> s" using assms order_trans [of 0 "2 ^ (53 + i)" s] by simp
  have "\<not> bits s \<le> 53 + i"
    using bits_less [OF \<open>0 \<le> s\<close>] assms power_increasing [of "bits s" "53 + i" "2::int"] by linarith
  then have "(2::int) ^ Suc i dvd 2 ^ (bits s - 53)" by (intro le_imp_power_dvd) simp
  then show ?thesis using \<open>0 \<le> s\<close> by (simp add: to_double_def Let_def)
qed

lemma div_less_of_less:
  assumes "0 < (b::int)" "a < c * b"
  shows "a div b < c"
proof (rule ccontr)
  assume "\<not> a div b < c"
  then have "c * b \<le> a div b * b" using assms(1) by (intro mult_right_mono) auto
  also have "\<dots> \<le> a" using minus_mod_eq_div_mult [of a b] pos_mod_sign [OF assms(1), of a] by linarith
  finally show False using assms(2) by simp
qed

text \<open>The width of a printed number.\<close>

lemma length_fixed_text:
  assumes "0 \<le> p" "0 < q" "2 * (p * 10 ^ d) < (2 * c + 1) * q" "c < 10 ^ (d + i)" "0 < i"
  shows "length (fixed_text d p q) \<le> i + (if d = 0 then 0 else Suc d)"
proof -
  define r where "r = half_even (p * 10 ^ d) q"
  have r: "0 \<le> r" "r < 10 ^ (d + i)"
    using half_even_nonneg [of "p * 10 ^ d" q] half_even_le [OF assms(2,3)] assms(1,2,4) by (simp_all add: r_def)
  have "r div 10 ^ d < 10 ^ i" using r(2) by (intro div_less_of_less) (simp_all add: power_add mult.commute)
  then have "length (dec_int (r div 10 ^ d)) \<le> i" using r(1) assms(5) by (intro length_dec_int_nonneg) (simp_all add: pos_imp_zdiv_nonneg_iff)
  moreover have "d \<noteq> 0 \<Longrightarrow> length (dec_pad d (r mod 10 ^ d)) = d" by (intro length_dec_pad) simp_all
  ultimately show ?thesis by (auto simp: fixed_text_def Let_def r_def [symmetric])
qed

text \<open>The threshold of the branch bounds what is printed, because threshold and number lie on one grid.\<close>

definition fits_format :: "int \<Rightarrow> nat \<Rightarrow> int \<Rightarrow> bool" where
  "fits_format n d den = (0 < den \<and> (if d = 0 then 2 * n < 2047 * den else 2 * (n * 10 ^ d) < 1999 * den))"

lemma fits_length:
  assumes "fits_format n d den" "0 \<le> n" "d \<le> 2"
  shows "length (fixed_text d n den) \<le> 4"
proof -
  consider "d = 0" | "d = 1" | "d = 2" using assms(3) by linarith
  then show ?thesis
    using assms(1,2) length_fixed_text [of n den 0 1023 4] length_fixed_text [of n den 1 999 2] length_fixed_text [of n den 2 999 1]
    by cases (simp_all add: fits_format_def)
qed

lemma literals: "d9_995 = (5626684784446013, 2 ^ 49)" "d99_95 = (7033355980557517, 2 ^ 46)"
  by (simp_all add: d9_995_def d99_95_def half_even_def Let_def)

text \<open>\<^verbatim>\<open>9.995\<close> is stored a little smaller than it is, and \<^verbatim>\<open>1023.5\<close> exactly.\<close>

lemma below_9_995: "0 < unit \<Longrightarrow> below n unit d9_995 \<Longrightarrow> fits_format n 2 unit"
  by (simp add: below_def literals fits_format_def)

lemma below_1023_5: "0 < unit \<Longrightarrow> below n unit d1023_5 \<Longrightarrow> fits_format n 0 unit"
  by (simp add: below_def d1023_5_def fits_format_def)

text \<open>\<^verbatim>\<open>99.95\<close> is stored a little larger than it is, but no number lies between.\<close>

lemma below_99_95:
  assumes "unit \<in> {1024, 1048576, 1073741824, 1099511627776}" "below n unit d99_95"
  shows "fits_format n 1 unit"
  using assms by (auto simp: below_def literals fits_format_def)

lemma below_99_95_Pi:
  assumes "below (to_double s) 1125899906842624 d99_95" "0 \<le> s"
  shows "fits_format (to_double s) 1 1125899906842624"
proof (cases "s < 2 ^ 56")
  case True
  then show ?thesis using to_double_le [of s 56] assms(2) by (simp add: fits_format_def)
next
  case False
  then have "16 dvd to_double s" using to_double_grid [of 3 s] by simp
  then obtain x where x: "to_double s = 16 * x" by (elim dvdE)
  then show ?thesis using assms(1) by (simp add: below_def literals fits_format_def)
qed

lemma IEC_format_fits:
  assumes "0 \<le> s" "s < 2 ^ 63" "IEC_format (to_double s) = Some (d, den, u)"
  shows "fits_format (to_double s) d den \<and> d \<le> 2 \<and> length u = 2"
proof -
  have n: "0 \<le> to_double s" "to_double s \<le> 2 ^ 63" using to_double_le [of s 63] assms(1,2) by simp_all
  then have "below (to_double s) 1152921504606846976 d9_995" by (simp add: below_def literals)
  then show ?thesis
    using assms(3) below_9_995 [of _ "to_double s"] below_1023_5 [of _ "to_double s"] below_99_95 [of _ "to_double s"] below_99_95_Pi [OF _ assms(1)]
    by (simp add: IEC_format_def Let_def split: if_splits) auto
qed

lemma to_double_small: "0 \<le> s \<Longrightarrow> s < 2 ^ 53 \<Longrightarrow> to_double s = s"
  using bits_le [of s 53] by (simp add: to_double_def half_even_def sgn_if Let_def)

section \<open>Properties\<close>

text \<open>The width of a size in binary units, for every number the type can hold: at most six characters, as
  promised.\<close>

theorem formatIEC_width:
  assumes "0 \<le> s" and "s < 2 ^ 63"
  shows "length (formatIEC s) \<le> 6"
proof (cases "IEC_format (to_double s)")
  case None
  then have small: "to_double s < 1024" by (simp add: IEC_format_def Let_def split: if_splits)
  then have "s < 2 ^ 53" using to_double_ge [of s] by (cases "s < 2 ^ 53") auto
  then have "s < 10 ^ 4" using small to_double_small [OF assms(1)] by simp
  then have "length (dec_int s) \<le> 4" using assms(1) by (intro length_dec_int_nonneg) simp_all
  then show ?thesis by (simp add: formatIEC_def None snprintf_def)
next
  case (Some f)
  then obtain d den u where f: "IEC_format (to_double s) = Some (d, den, u)" by (cases f) auto
  have "length (fixed_text d (to_double s) den) \<le> 4" "length u = 2"
    using IEC_format_fits [OF assms f] fits_length to_double_le [of s 63] assms by auto
  then show ?thesis by (simp add: formatIEC_def f snprintf_def)
qed

theorem formatIEC_width_witness: "length (formatIEC 112532499999999999) \<le> 6 \<and> formatIEC 112532499999999999 = ''99.9Pi''"
proof
  show "length (formatIEC 112532499999999999) \<le> 6" by (rule formatIEC_width) simp_all
  have "bits 112532499999999999 = 57" by (simp add: bits.simps)
  then have n: "to_double 112532499999999999 = 112532500000000000" by (simp add: to_double_def half_even_def)
  have f: "IEC_format 112532500000000000 = Some (1, 1125899906842624, ''Pi'')" by (simp add: IEC_format_def below_def literals d1023_5_def Let_def)
  have "half_even (112532500000000000 * 10 ^ 1) 1125899906842624 = 999" by (simp add: half_even_def)
  then have "fixed_text 1 112532500000000000 1125899906842624 = ''99.9''" by (simp add: fixed_text_def print_simps)
  then show "formatIEC 112532499999999999 = ''99.9Pi''" by (simp add: formatIEC_def n f snprintf_def)
qed

text \<open>The width of a size in decimal units is promised to be at most five characters, and is not: the thresholds
  compare the integer, while the quotient that is printed was rounded to a \<^verbatim>\<open>double\<close>.\<close>

theorem formatSI_too_wide: "formatSI fixed_double 99949999999999999 = ''100.0P''"
proof -
  have b: "bits 99949999999999999 = 57" "bits 99950000000000000 = 57" "bits 1000000000000000 = 50" by (simp_all add: bits.simps)
  have n: "to_double 99949999999999999 = 99950000000000000" using b by (simp add: to_double_def half_even_def)
  have q: "double_div 99950000000000000 1000000000000000 = (7033355980557517, 46)" using b by (simp add: double_div_def half_even_def)
  have "half_even (7033355980557517 * 10 ^ 1) (2 ^ 46) = 1000" by (simp add: half_even_def)
  then have "fixed_text 1 7033355980557517 (2 ^ 46) = ''100.0''" by (simp add: fixed_text_def print_simps)
  then have "fixed_double 1 99949999999999999 1000000000000000 = ''100.0''" unfolding fixed_double_def n q by simp
  then show ?thesis by (simp add: formatSI_def SI_format_def snprintf_def)
qed

end
