(* ===== verification/Base_Seconds.thy ===== *)
theory Base_Seconds
  imports Base_Units Base_Timestamp
begin

text \<open>
  The arithmetic of \<^verbatim>\<open>base/Timestamp.h\<close> and \<^verbatim>\<open>base/ProcessInfo.cc\<close> on \<^verbatim>\<open>double\<close>s: \<^verbatim>\<open>timeDifference\<close>, \<^verbatim>\<open>addTime\<close> and \<^verbatim>\<open>cpuTime\<close>. A
  \<^verbatim>\<open>double\<close> is \<open>(m, k)\<close> for \<open>m / 2 ^ k\<close> with an \<open>m\<close> of at most 53 bits; each operation rounds its exact result once,
  as the processor's 64-bit arithmetic does. Results below \<open>2 ^ -1022\<close> do not occur.
\<close>

type_synonym double = "int \<times> nat"

text \<open>The quotient of two \<^verbatim>\<open>double\<close>s that are integers, the second one positive.\<close>

definition double_quotient :: "int \<Rightarrow> int \<Rightarrow> double" where
  "double_quotient p q = (if p = 0 then (0, 0) else let (m, k) = double_div \<bar>p\<bar> q in (sgn p * m, k))"

text \<open>The product with a positive integer.\<close>

definition double_times :: "double \<Rightarrow> int \<Rightarrow> double" where
  "double_times x n =
     (let (m, k) = x; p = \<bar>m\<bar> * n; j = bits p - 53 in (sgn m * (half_even p (2 ^ j) * 2 ^ j), k))"

text \<open>\<^verbatim>\<open>static_cast<int64_t>\<close>\<close>

definition to_int64 :: "double \<Rightarrow> int" where
  "to_int64 x = (let (m, k) = x in cdiv m (2 ^ k))"

definition timeDifference :: "Timestamp \<Rightarrow> Timestamp \<Rightarrow> double" where
  "timeDifference high low = double_quotient (to_double (high - low)) kMicroSecondsPerSecond"

text \<open>The conversion of \<^verbatim>\<open>addTime\<close>, and the whole function.\<close>

definition to_microseconds :: "double \<Rightarrow> int" where
  "to_microseconds seconds = to_int64 (double_times seconds kMicroSecondsPerSecond)"

definition addTime_seconds :: "Timestamp \<Rightarrow> double \<Rightarrow> Timestamp" where
  "addTime_seconds timestamp seconds = addTime timestamp (to_microseconds seconds)"

text \<open>The members of \<^verbatim>\<open>struct tms\<close> that are read, if \<^verbatim>\<open>times\<close> does not fail; \<open>clockTicks\<close> is \<^verbatim>\<open>g_clockTicks\<close>.\<close>

record CpuTime =
  userSeconds :: double
  systemSeconds :: double

definition CpuTime_ctor :: CpuTime where
  "CpuTime_ctor = \<lparr>userSeconds = (0, 0), systemSeconds = (0, 0)\<rparr>"

definition cpuTime :: "int \<Rightarrow> (int \<times> int) option \<Rightarrow> CpuTime" where
  "cpuTime clockTicks tms = (case tms of
      None \<Rightarrow> CpuTime_ctor
    | Some (tms_utime, tms_stime) \<Rightarrow>
        let hz = to_double clockTicks in
        CpuTime_ctor\<lparr>userSeconds := double_quotient (to_double tms_utime) hz, systemSeconds := double_quotient (to_double tms_stime) hz\<rparr>)"

section \<open>Rounding errors\<close>

lemma half_even_error:
  assumes "0 < q"
  shows "2 * \<bar>half_even p q * q - p\<bar> \<le> q"
proof -
  have p: "p = p div q * q + p mod q" by simp
  have r: "0 \<le> p mod q" "p mod q < q" using assms by simp_all
  have "half_even p q * q - p = (if 2 * (p mod q) < q \<or> 2 * (p mod q) = q \<and> even (p div q) then - (p mod q) else q - p mod q)"
    using p by (auto simp: half_even_def Let_def algebra_simps)
  then show ?thesis using r by auto
qed

lemma two_abs_leD: "2 * \<bar>x - y\<bar> \<le> (q :: int) \<Longrightarrow> 2 * x - 2 * y \<le> q \<and> 2 * y - 2 * x \<le> q"
  by (auto simp: abs_if split: if_splits)

lemma half_even_exact: "0 < q \<Longrightarrow> half_even (a * q) q = a"
  by (simp add: half_even_def Let_def)

text \<open>The exponent of the quotient of a number of microseconds below \<open>2 ^ 52\<close>.\<close>

lemma quotient_scale:
  assumes "0 < d" "d < 2 ^ 52" "double_div d kMicroSecondsPerSecond = (m, k)"
  shows "m = half_even (d * 2 ^ k) kMicroSecondsPerSecond" "20 \<le> k"
proof -
  have "bits kMicroSecondsPerSecond = 20" by (simp add: kMicroSecondsPerSecond_def bits.simps)
  moreover have "bits d \<le> 52" by (rule bits_le [OF assms(2)])
  ultimately show "m = half_even (d * 2 ^ k) kMicroSecondsPerSecond" "20 \<le> k"
    using assms(3) by (auto simp: double_div_def Let_def split: if_splits)
qed

lemma cdiv_pos: "0 \<le> a \<Longrightarrow> 0 < b \<Longrightarrow> cdiv a b = a div b"
  by (simp add: cdiv_def sgn_if)

text \<open>What comes back for \<open>d\<close> microseconds.\<close>

lemma microseconds_back:
  assumes d: "0 \<le> d" "d < 2 ^ 52"
  shows "to_microseconds (double_quotient d kMicroSecondsPerSecond) \<in> {d - 1, d}"
    "kMicroSecondsPerSecond dvd d \<Longrightarrow> to_microseconds (double_quotient d kMicroSecondsPerSecond) = d"
proof -
  let ?Q = kMicroSecondsPerSecond
  have both: "to_microseconds (double_quotient d ?Q) \<in> {d - 1, d} \<and> (?Q dvd d \<longrightarrow> to_microseconds (double_quotient d ?Q) = d)"
  proof (cases "d = 0")
    case True
    then show ?thesis by (simp add: to_microseconds_def double_quotient_def double_times_def to_int64_def cdiv_def)
  next
    case False
    have Q: "0 < ?Q" "?Q < 1048576" by (simp_all add: kMicroSecondsPerSecond_def)
    obtain m k where mk: "double_div d ?Q = (m, k)" by fastforce
    note S = quotient_scale [OF _ d(2) mk]
    define e where "e = (2 :: int) ^ k"
    have e: "1048576 \<le> e" unfolding e_def using S(2) False d(1) power_increasing [of 20 k "2 :: int"] by simp
    have m: "m = half_even (d * e) ?Q" unfolding e_def using S(1) False d(1) by simp
    have m0: "0 \<le> m" unfolding m using d(1) e Q(1) by (intro half_even_nonneg) simp_all
    define p where "p = m * ?Q"
    define j where "j = bits p - 53"
    define h where "h = half_even p (2 ^ j) * 2 ^ j"
    define x where "x = d * e"
    have err1: "2 * \<bar>p - x\<bar> \<le> ?Q" unfolding p_def x_def m by (rule half_even_error [OF Q(1)])
    have p: "0 \<le> p" unfolding p_def using m0 Q(1) by simp
    have err2: "2 * \<bar>h - p\<bar> \<le> 2 ^ j" unfolding h_def by (rule half_even_error) simp
    have e1: "2 * p - 2 * x \<le> ?Q" "2 * x - 2 * p \<le> ?Q" using two_abs_leD [OF err1] by simp_all
    have e2: "2 * h - 2 * p \<le> 2 ^ j" "2 * p - 2 * h \<le> 2 ^ j" using two_abs_leD [OF err2] by simp_all
    have de: "(d + 1) * e = x + e" "(d - 1) * e = x - e" by (simp_all add: x_def algebra_simps)
    have "p < (d + 1) * e" unfolding de using e1 Q(2) e by linarith
    also have "\<dots> \<le> 2 ^ 52 * e" using d(2) e by (intro mult_right_mono) simp_all
    finally have "bits p \<le> 52 + k" by (intro bits_le) (simp add: e_def power_add)
    then have "j \<le> k" by (simp add: j_def)
    then have je: "(2 :: int) ^ j \<le> e" unfolding e_def by (intro power_increasing) simp_all
    have r: "to_microseconds (double_quotient d ?Q) = h div e"
    proof -
      have sh: "sgn m * h = h" using m0 by (cases "m = 0") (simp_all add: h_def p_def half_even_def)
      have h: "0 \<le> h" unfolding h_def using p half_even_nonneg [of p "2 ^ j"] by simp
      have q: "double_quotient d ?Q = (m, k)" using False d(1) mk by (simp add: double_quotient_def)
      have "double_times (m, k) ?Q = (sgn m * h, k)" using m0 by (simp add: double_times_def Let_def h_def j_def p_def)
      then have "double_times (m, k) ?Q = (h, k)" by (simp only: sh)
      then show ?thesis using e h q by (simp add: to_microseconds_def to_int64_def cdiv_pos flip: e_def)
    qed
    have h: "(d - 1) * e \<le> h" "h < (d + 1) * e" unfolding de using e1 e2 je Q(2) e by linarith+
    have "d - 1 \<le> h div e" using zdiv_mono1 [OF h(1), of e] e by simp
    moreover have "h div e < d + 1" using e by (intro div_less_of_less h(2)) simp
    moreover have "h div e = d" if "?Q dvd d"
    proof -
      obtain s where s: "d = ?Q * s" using \<open>?Q dvd d\<close> by (rule dvdE)
      have de: "d * e = (s * e) * ?Q" unfolding s by (simp only: ac_simps)
      have "m = s * e" unfolding m de by (rule half_even_exact [OF Q(1)])
      then have pd: "p = d * e" unfolding p_def de by simp
      have "e = 2 ^ (k - j) * 2 ^ j" using \<open>j \<le> k\<close> by (simp add: e_def flip: power_add)
      then have "p = (d * 2 ^ (k - j)) * 2 ^ j" unfolding pd by (simp only: ac_simps)
      then have "h = p" unfolding h_def using half_even_exact [of "2 ^ j" "d * 2 ^ (k - j)"] by simp
      then show ?thesis using pd e by simp
    qed
    ultimately show ?thesis unfolding r by auto
  qed
  then show "to_microseconds (double_quotient d ?Q) \<in> {d - 1, d}" "?Q dvd d \<Longrightarrow> to_microseconds (double_quotient d ?Q) = d" by blast+
qed

section \<open>Properties\<close>

text \<open>C39. Adding a difference of time: for times less than \<open>2 ^ 52\<close> microseconds (142 years) apart, \<^verbatim>\<open>addTime(low, timeDifference(high, low))\<close> is
  \<^verbatim>\<open>high\<close> or one microsecond earlier, and exactly \<^verbatim>\<open>high\<close> for whole seconds.\<close>

theorem seconds_roundtrip:
  assumes "low \<le> high" and "high < low + 2 ^ 52"
  shows "addTime_seconds low (timeDifference high low) \<in> {high - 1, high}
     \<and> (kMicroSecondsPerSecond dvd high - low \<longrightarrow> addTime_seconds low (timeDifference high low) = high)"
proof -
  have "to_double (high - low) = high - low" using assms by (intro to_double_small) simp_all
  then show ?thesis using microseconds_back [of "high - low"] assms by (auto simp: addTime_seconds_def addTime_def timeDifference_def)
qed

theorem seconds_roundtrip_witness:
  "addTime_seconds 7 (timeDifference 3000007 7) = 3000007"
proof -
  have "kMicroSecondsPerSecond dvd (3000007 - 7)" by (simp add: kMicroSecondsPerSecond_def)
  then show ?thesis using seconds_roundtrip [of 7 3000007] by simp
qed

text \<open>The microsecond is lost already for 249 of them: \<^verbatim>\<open>addTime\<close> to_int64s a product that lies just below the integer.\<close>

theorem microsecond_lost: "addTime_seconds t (timeDifference (t + 249) t) = t + 248"
proof -
  have b: "bits 249 = 8" "bits 1000000 = 20" by (simp_all add: bits.simps)
  have q: "half_even 4593239274353678352384 1000000 = 4593239274353678" unfolding half_even_def Let_def by simp
  have "double_div 249 1000000 = (4593239274353678, 64)" by (simp add: double_div_def b q Let_def)
  then have d: "double_quotient 249 1000000 = (4593239274353678, 64)" by (simp add: double_quotient_def)
  have "bits 4593239274353678000000 = 72" by (simp add: bits.simps)
  moreover have "half_even 4593239274353678000000 524288 * 524288 = 4593239274353677828096" by (simp add: half_even_def)
  ultimately have "double_times (4593239274353678, 64) 1000000 = (4593239274353677828096, 64)" by (simp add: double_times_def Let_def)
  then have "to_microseconds (double_quotient 249 1000000) = 248"
    by (simp add: d to_microseconds_def kMicroSecondsPerSecond_def to_int64_def cdiv_def)
  then show ?thesis by (simp add: addTime_seconds_def addTime_def timeDifference_def to_double_small kMicroSecondsPerSecond_def)
qed

end
