(* ===== verification/Base_Calendar.thy ===== *)
theory Base_Calendar
  imports Base_Timestamp
begin

text \<open>
  \<^verbatim>\<open>base/Date.cc\<close>, \<^verbatim>\<open>base/TimeZone.cc\<close> and the formatted time of \<^verbatim>\<open>base/Timestamp.cc\<close>: dates as Julian day
  numbers, UTC times as broken-down times, and time zones as tables of transitions read from zone
  files. \<^verbatim>\<open>int\<close> and \<^verbatim>\<open>time_t\<close> are integers: for the years the library is meant for nothing overflows.
  The C library's \<^verbatim>\<open>gmtime_r\<close> and \<^verbatim>\<open>timegm\<close> are parameters.
\<close>

section \<open>Dates\<close>

record YearMonthDay =
  ymd_year :: int
  ymd_month :: int
  ymd_day :: int

definition getJulianDayNumber :: "int \<Rightarrow> int \<Rightarrow> int \<Rightarrow> int" where
  "getJulianDayNumber year month day =
     (let a = cdiv (14 - month) 12;
          y = year + 4800 - a;
          m = month + 12 * a - 3
      in day + cdiv (153 * m + 2) 5 + y * 365 + cdiv y 4 - cdiv y 100 + cdiv y 400 - 32045)"

definition getYearMonthDay :: "int \<Rightarrow> YearMonthDay" where
  "getYearMonthDay julianDayNumber =
     (let a = julianDayNumber + 32044;
          b = cdiv (4 * a + 3) 146097;
          c = a - cdiv (b * 146097) 4;
          d = cdiv (4 * c + 3) 1461;
          e = c - cdiv (1461 * d) 4;
          m = cdiv (5 * e + 2) 153
      in \<lparr>ymd_year = b * 100 + d - 4800 + cdiv m 10, ymd_month = m + 3 - 12 * cdiv m 10, ymd_day = e - cdiv (153 * m + 2) 5 + 1\<rparr>)"

definition kJulianDayOf1970_01_01 :: int where
  "kJulianDayOf1970_01_01 = getJulianDayNumber 1970 1 1"

definition kDaysPerWeek :: int where "kDaysPerWeek = 7"

record Date = julianDayNumber :: int

definition Date_ctor :: "int \<Rightarrow> int \<Rightarrow> int \<Rightarrow> Date" where
  "Date_ctor y m d = \<lparr>julianDayNumber = getJulianDayNumber y m d\<rparr>"

definition Date_invalid :: Date where "Date_invalid = \<lparr>julianDayNumber = 0\<rparr>"

definition Date_of_julian :: "int \<Rightarrow> Date" where "Date_of_julian julianDayNum = \<lparr>julianDayNumber = julianDayNum\<rparr>"

definition Date_swap :: "Date \<Rightarrow> Date \<Rightarrow> Date \<times> Date" where "Date_swap d that = (that, d)"

definition Date_less :: "Date \<Rightarrow> Date \<Rightarrow> bool" where "Date_less x y = (julianDayNumber x < julianDayNumber y)"

definition Date_eq :: "Date \<Rightarrow> Date \<Rightarrow> bool" where "Date_eq x y = (julianDayNumber x = julianDayNumber y)"

definition Date_valid :: "Date \<Rightarrow> bool" where "Date_valid d = (julianDayNumber d > 0)"

definition yearMonthDay :: "Date \<Rightarrow> YearMonthDay" where
  "yearMonthDay d = getYearMonthDay (julianDayNumber d)"

definition weekDay :: "Date \<Rightarrow> int" where
  "weekDay d = cmod (julianDayNumber d + 1) kDaysPerWeek"

definition toIsoString :: "Date \<Rightarrow> string" where
  "toIsoString d =
     (let ymd = yearMonthDay d in
      snprintf 32 (dec_blank 4 (ymd_year ymd) @ ''-'' @ dec_pad 2 (ymd_month ymd) @ ''-'' @ dec_pad 2 (ymd_day ymd)))"

section \<open>The calendar\<close>

text \<open>The Gregorian rules, as the reference.\<close>

definition is_leap :: "int \<Rightarrow> bool" where
  "is_leap y = (y mod 4 = 0 \<and> (y mod 100 \<noteq> 0 \<or> y mod 400 = 0))"

definition month_length :: "int \<Rightarrow> int \<Rightarrow> int" where
  "month_length y m = (if m = 2 then if is_leap y then 29 else 28 else if m \<in> {4, 6, 9, 11} then 30 else 31)"

definition is_date :: "YearMonthDay \<Rightarrow> bool" where
  "is_date d = (1 \<le> ymd_month d \<and> ymd_month d \<le> 12 \<and> 1 \<le> ymd_day d \<and> ymd_day d \<le> month_length (ymd_year d) (ymd_month d))"

definition next_day :: "YearMonthDay \<Rightarrow> YearMonthDay" where
  "next_day d =
     (if ymd_day d < month_length (ymd_year d) (ymd_month d) then d\<lparr>ymd_day := ymd_day d + 1\<rparr>
      else if ymd_month d < 12 then d\<lparr>ymd_day := 1, ymd_month := ymd_month d + 1\<rparr>
      else \<lparr>ymd_year = ymd_year d + 1, ymd_month = 1, ymd_day = 1\<rparr>)"

text \<open>Inside the algorithm a year starts in March: \<open>Y\<close> is its number, \<open>M\<close> the month from \<open>0\<close>, \<open>e\<close> the day of
  that year.\<close>

definition day_of :: "int \<Rightarrow> int \<Rightarrow> int \<Rightarrow> int" where
  "day_of Y M D = D - 1 + (153 * M + 2) div 5 + 365 * Y + Y div 4 - Y div 100 + Y div 400"

definition march_leap :: "int \<Rightarrow> bool" where "march_leap Y = is_leap (Y + 1)"

lemma julian_march:
  assumes "1 \<le> month" "month \<le> 12" "0 \<le> (if month \<le> 2 then year + 4799 else year + 4800)"
  shows "getJulianDayNumber year month day = day_of (if month \<le> 2 then year + 4799 else year + 4800) (if month \<le> 2 then month + 9 else month - 3) day - 32044"
proof -
  have a: "cdiv (14 - month) 12 = (if month \<le> 2 then 1 else 0)"
  proof (cases "month \<le> 2")
    case True
    then have "month = 1 \<or> month = 2" using assms by arith
    then show ?thesis by auto
  next
    case False
    then have "(14 - month) div 12 = 0" using assms by (intro div_pos_pos_trivial) auto
    then show ?thesis using False assms by simp
  qed
  show ?thesis using assms a by (cases "month \<le> 2") (simp_all add: getJulianDayNumber_def Let_def day_of_def add.commute)
qed

text \<open>The division steps of \<open>getYearMonthDay\<close>.\<close>

lemma div_bounds: "0 < k \<Longrightarrow> k * (x div k) \<le> x \<and> x < k * (x div k) + k" for x k :: int
  using pos_mod_bound [of k x] pos_mod_sign [of k x] mult_div_mod_eq [of k x] by linarith

lemma mod4_3: "b = 4 * k + 3 \<Longrightarrow> b mod 4 = 3" for b k :: int
  by presburger

lemma century_step:
  fixes a b c :: int
  assumes a: "0 \<le> a" and b: "b = (4 * a + 3) div 146097" and c: "c = a - (b * 146097) div 4"
  shows "0 \<le> b" "0 \<le> c" "c \<le> 36524" "c = 36524 \<Longrightarrow> b mod 4 = 3"
proof -
  have B: "146097 * b \<le> 4 * a + 3" "4 * a + 3 < 146097 * b + 146097"
    using div_bounds [of 146097 "4 * a + 3"] unfolding b by simp_all
  define q where "q = (b * 146097) div 4"
  have Q: "4 * q \<le> b * 146097" "b * 146097 < 4 * q + 4" using div_bounds [of 4 "b * 146097"] unfolding q_def by simp_all
  have cq: "c = a - q" using c q_def by simp
  show "0 \<le> b" using a unfolding b by simp
  show "0 \<le> c" using B Q cq by linarith
  show "c \<le> 36524" using B Q cq by linarith
  show "b mod 4 = 3" if "c = 36524"
  proof -
    have "b * 146097 = 4 * q + 3" using B Q cq that by linarith
    then have "b = 4 * (q - 36524 * b) + 3" by simp
    then show ?thesis by (rule mod4_3)
  qed
qed

lemma year_step:
  fixes c d e :: int
  assumes c: "0 \<le> c" "c \<le> 36524" and d: "d = (4 * c + 3) div 1461" and e: "e = c - (1461 * d) div 4"
  shows "0 \<le> d" "d \<le> 99" "0 \<le> e" "e \<le> 365" "e = 365 \<Longrightarrow> d mod 4 = 3" "e = 365 \<Longrightarrow> d = 99 \<Longrightarrow> c = 36524"
proof -
  have B: "1461 * d \<le> 4 * c + 3" "4 * c + 3 < 1461 * d + 1461" using div_bounds [of 1461 "4 * c + 3"] unfolding d by simp_all
  define q where "q = (1461 * d) div 4"
  have Q: "4 * q \<le> 1461 * d" "1461 * d < 4 * q + 4" using div_bounds [of 4 "1461 * d"] unfolding q_def by simp_all
  have eq: "e = c - q" using e q_def by simp
  show "0 \<le> d" using c unfolding d by simp
  show "d \<le> 99" "0 \<le> e" "e \<le> 365" using B Q eq c by linarith+
  show "d mod 4 = 3" if "e = 365"
  proof -
    have "1461 * d = 4 * q + 3" using B Q eq that by linarith
    then have "d = 4 * (q - 365 * d) + 3" by simp
    then show ?thesis by (rule mod4_3)
  qed
  show "c = 36524" if "e = 365" "d = 99" using eq that by (simp add: q_def)
qed

text \<open>The months of a year that starts in March.\<close>

lemma month_step:
  fixes e m :: int
  assumes "0 \<le> e" "e \<le> 365" "m = (5 * e + 2) div 153"
  shows "0 \<le> m" "m \<le> 11" "1 \<le> e - (153 * m + 2) div 5 + 1"
    "e - (153 * m + 2) div 5 + 1 \<le> (if m = 11 then if e = 365 then 29 else 28 else if m \<in> {1, 3, 6, 8} then 30 else 31)"
proof -
  have B: "153 * m \<le> 5 * e + 2" "5 * e + 2 < 153 * m + 153" using div_bounds [of 153 "5 * e + 2"] unfolding assms(3) by simp_all
  show m: "0 \<le> m" "m \<le> 11" using B assms(1,2) by linarith+
  have "m = 0 \<or> m = 1 \<or> m = 2 \<or> m = 3 \<or> m = 4 \<or> m = 5 \<or> m = 6 \<or> m = 7 \<or> m = 8 \<or> m = 9 \<or> m = 10 \<or> m = 11"
    using m by presburger
  then show "1 \<le> e - (153 * m + 2) div 5 + 1"
    "e - (153 * m + 2) div 5 + 1 \<le> (if m = 11 then if e = 365 then 29 else 28 else if m \<in> {1, 3, 6, 8} then 30 else 31)"
    using B assms(1,2) by auto
qed

text \<open>Number of days before a year that starts in March, by centuries and years.\<close>

lemma div_shift: "0 < k \<Longrightarrow> z = k * x + y \<Longrightarrow> z div k = x + y div k" for k x y z :: int
  by simp

lemma year_days:
  fixes b d :: int
  assumes "0 \<le> d" "d \<le> 99"
  shows "365 * (100 * b + d) + (100 * b + d) div 4 - (100 * b + d) div 100 + (100 * b + d) div 400
    = (b * 146097) div 4 + (1461 * d) div 4"
proof -
  have 1: "(100 * b + d) div 4 = 25 * b + d div 4" by (rule div_shift) simp_all
  have 2: "(100 * b + d) div 100 = b" using div_shift [of 100 "100 * b + d" b d] assms by simp
  have "(100 * b + d) div (100 * 4) = ((100 * b + d) div 100) div 4" by (rule zdiv_zmult2_eq) simp
  then have 3: "(100 * b + d) div 400 = b div 4" using 2 by simp
  have 4: "(b * 146097) div 4 = 36524 * b + b div 4" by (rule div_shift) simp_all
  have 5: "(1461 * d) div 4 = 365 * d + d div 4" by (rule div_shift) simp_all
  show ?thesis unfolding 1 2 3 4 5 by simp
qed

lemma div_pos_geq_unique: "0 < k \<Longrightarrow> k * q \<le> x \<Longrightarrow> x < k * q + k \<Longrightarrow> x div k = q" for k q x :: int
  using int_div_pos_eq [of x k q "x - k * q"] by simp

lemma is_leap_shift: "is_leap (y - 4800) = is_leap y"
proof -
  have "(y - 4800) mod 4 = y mod 4" "(y - 4800) mod 100 = y mod 100" "(y - 4800) mod 400 = y mod 400"
    using mod_mult_self2 [of y 4 "- 1200"] mod_mult_self2 [of y 100 "- 48"] mod_mult_self2 [of y 400 "- 12"] by simp_all
  then show ?thesis by (simp add: is_leap_def)
qed

lemma leap_march:
  fixes b d :: int
  assumes "d mod 4 = 3" "d = 99 \<longrightarrow> b mod 4 = 3" "0 \<le> d" "d \<le> 99"
  shows "is_leap (100 * b + d + 1)"
proof -
  have "(100 * b + d + 1) mod 4 = 0" using assms(1) by presburger
  moreover have "(100 * b + d + 1) mod 400 = 0" if "(100 * b + d + 1) mod 100 = 0"
  proof -
    have "(d + 1) mod 100 = 0" using that by (simp add: add.assoc)
    then have "d = 99" using assms(3,4) by presburger
    moreover from this obtain k where "b = 4 * k + 3" using assms(2) mult_div_mod_eq [of 4 b] by metis
    ultimately have "100 * b + d + 1 = 400 * (k + 1)" by simp
    then show ?thesis by simp
  qed
  ultimately show ?thesis by (auto simp: is_leap_def)
qed

text \<open>The other way: a leap day inside the century is the last day of its year.\<close>

lemma march_leap_digits:
  fixes b d :: int
  assumes "is_leap (100 * b + d + 1)" "0 \<le> d" "d \<le> 99"
  shows "d mod 4 = 3" "d = 99 \<Longrightarrow> b mod 4 = 3"
proof -
  have "(100 * b + d + 1) mod 4 = 0" using assms(1) by (simp add: is_leap_def)
  then show "d mod 4 = 3" by presburger
  show "b mod 4 = 3" if "d = 99"
  proof -
    have "(100 * b + d + 1) mod 100 = 0" using that by presburger
    then have "(100 * b + 100) mod 400 = 0" using assms(1) that by (simp add: is_leap_def add.assoc)
    moreover have "(100 * (b + 1)) mod (100 * 4) = 100 * ((b + 1) mod 4)" by (rule mult_mod_right [symmetric])
    ultimately have "(b + 1) mod 4 = 0" by (simp add: algebra_simps)
    then show ?thesis by presburger
  qed
qed

definition day_within :: "int \<Rightarrow> int \<Rightarrow> int \<Rightarrow> bool" where
  "day_within b d e = (0 \<le> b \<and> 0 \<le> d \<and> d \<le> 99 \<and> 0 \<le> e \<and> e \<le> 365 \<and> (e = 365 \<longrightarrow> is_leap (100 * b + d + 1)))"

lemma split_day:
  assumes "0 \<le> a"
  shows "\<exists>b d e. a = (b * 146097) div 4 + (1461 * d) div 4 + e \<and> day_within b d e
     \<and> b = (4 * a + 3) div 146097 \<and> d = (4 * (a - (b * 146097) div 4) + 3) div 1461"
proof -
  define b where "b = (4 * a + 3) div 146097"
  define c where "c = a - (b * 146097) div 4"
  define d where "d = (4 * c + 3) div 1461"
  define e where "e = c - (1461 * d) div 4"
  note C = century_step [OF assms b_def c_def]
  note Y = year_step [OF C(2,3) d_def e_def]
  have "is_leap (100 * b + d + 1)" if "e = 365" using leap_march [of d b] Y C(4) that by blast
  then have "day_within b d e" using C Y by (simp add: day_within_def)
  moreover have "a = (b * 146097) div 4 + (1461 * d) div 4 + e" by (simp add: e_def c_def)
  ultimately show ?thesis using b_def d_def c_def by blast
qed

lemma join_day:
  assumes w: "day_within b d e" and a: "a = (b * 146097) div 4 + (1461 * d) div 4 + e"
  shows "(4 * a + 3) div 146097 = b" "(4 * (a - (b * 146097) div 4) + 3) div 1461 = d" "0 \<le> a"
proof -
  define q where "q = (b * 146097) div 4"
  define r where "r = (1461 * d) div 4"
  have Q: "4 * q \<le> b * 146097" "b * 146097 < 4 * q + 4" using div_bounds [of 4 "b * 146097"] unfolding q_def by simp_all
  have R: "4 * r \<le> 1461 * d" "1461 * d < 4 * r + 4" using div_bounds [of 4 "1461 * d"] unfolding r_def by simp_all
  have W: "0 \<le> b" "0 \<le> d" "d \<le> 99" "0 \<le> e" "e \<le> 365" using w by (simp_all add: day_within_def)
  have q3: "4 * q + 3 = b * 146097" if "b mod 4 = 3"
    using div_shift [of 4 "b * 146097" "36524 * b" b] that unfolding q_def by simp presburger
  have r3: "4 * r + 3 = 1461 * d" if "d mod 4 = 3"
    using div_shift [of 4 "1461 * d" "365 * d" d] that unfolding r_def by simp presburger
  have D: "e = 365 \<Longrightarrow> d mod 4 = 3" "e = 365 \<Longrightarrow> d = 99 \<Longrightarrow> b mod 4 = 3"
    using march_leap_digits [of b d] w by (simp_all add: day_within_def)
  have up: "4 * (r + e) + 3 < 1461 * d + 1461" using R W D(1) r3 by (cases "e = 365") auto
  have "4 * (q + r + e) + 3 < b * 146097 + 146097"
  proof (cases "e = 365 \<and> d = 99")
    case True
    then show ?thesis using q3 D(2) r3 D(1) by auto
  next
    case False
    show ?thesis
    proof (cases "d = 99")
      case True
      then have "r = 36159" by (simp add: r_def)
      moreover have "e \<le> 364" using False True W(5) by auto
      ultimately have "4 * (q + r + e) + 3 \<le> 4 * q + 146095" by simp
      then show ?thesis using Q(1) by simp
    next
      case False
      then have "d \<le> 98" using W(3) by auto
      then have "4 * (r + e) + 3 < 144639" using up by simp
      then show ?thesis using Q(1) by simp
    qed
  qed
  moreover have "146097 * b \<le> 4 * (q + r + e) + 3"
  proof -
    have "b * 146097 \<le> 4 * q + 3" "0 \<le> r" using Q(2) W(2) by (simp_all add: r_def)
    then show ?thesis using W(4) by simp
  qed
  ultimately show "(4 * a + 3) div 146097 = b"
    by (intro div_pos_geq_unique) (simp_all add: a q_def [symmetric] r_def [symmetric])
  show "(4 * (a - (b * 146097) div 4) + 3) div 1461 = d"
    using up R W by (intro div_pos_geq_unique) (simp_all add: a q_def [symmetric] r_def [symmetric])
  show "0 \<le> a" using W by (simp add: a)
qed

text \<open>The month and the day of the month from the day of the year, and back.\<close>

definition march_length :: "int \<Rightarrow> bool \<Rightarrow> int" where
  "march_length m leap = (if m = 11 then if leap then 29 else 28 else if m \<in> {1, 3, 6, 8} then 30 else 31)"

lemma month_length_march:
  assumes "0 \<le> m" "m \<le> 11"
  shows "month_length (Y - 4800 + m div 10) (m + 3 - 12 * (m div 10)) = march_length m (is_leap (Y + 1))"
proof -
  have m: "m = 0 \<or> m = 1 \<or> m = 2 \<or> m = 3 \<or> m = 4 \<or> m = 5 \<or> m = 6 \<or> m = 7 \<or> m = 8 \<or> m = 9 \<or> m = 10 \<or> m = 11"
    using assms by presburger
  have "is_leap (Y - 4799) = is_leap (Y + 1)" using is_leap_shift [of "Y + 1"] by simp
  then show ?thesis using m by (auto simp: month_length_def march_length_def)
qed

lemma month_of_day:
  fixes m D :: int
  assumes m: "0 \<le> m" "m \<le> 11" and D: "1 \<le> D" "D \<le> march_length m leap"
    and e: "e = D - 1 + (153 * m + 2) div 5"
  shows "(5 * e + 2) div 153 = m" "0 \<le> e" "e \<le> 365" "e = 365 \<Longrightarrow> leap"
proof -
  have "m = 0 \<or> m = 1 \<or> m = 2 \<or> m = 3 \<or> m = 4 \<or> m = 5 \<or> m = 6 \<or> m = 7 \<or> m = 8 \<or> m = 9 \<or> m = 10 \<or> m = 11"
    using m by presburger
  then have "153 * m \<le> 5 * e + 2 \<and> 5 * e + 2 < 153 * m + 153 \<and> 0 \<le> e \<and> e \<le> 365 \<and> (e = 365 \<longrightarrow> leap)"
    using D unfolding e march_length_def by (auto split: if_splits)
  then show "(5 * e + 2) div 153 = m" "0 \<le> e" "e \<le> 365" "e = 365 \<Longrightarrow> leap"
    by (auto intro: div_pos_geq_unique)
qed

text \<open>\<open>getYearMonthDay\<close> in terms of the year, the month and the day counted from March.\<close>

definition march_date :: "int \<Rightarrow> int \<Rightarrow> int \<Rightarrow> YearMonthDay" where
  "march_date Y m D = \<lparr>ymd_year = Y - 4800 + m div 10, ymd_month = m + 3 - 12 * (m div 10), ymd_day = D\<rparr>"

lemma ymd_march:
  assumes "day_within b d e" "a = (b * 146097) div 4 + (1461 * d) div 4 + e"
  shows "getYearMonthDay (a - 32044) = march_date (100 * b + d) ((5 * e + 2) div 153) (e - (153 * ((5 * e + 2) div 153) + 2) div 5 + 1)"
proof -
  note J = join_day [OF assms]
  have W: "0 \<le> b" "0 \<le> d" "0 \<le> e" using assms(1) by (simp_all add: day_within_def)
  define q where "q = (b * 146097) div 4"
  define r where "r = (1461 * d) div 4"
  have r: "0 \<le> r" using W by (simp add: r_def)
  have a: "a = q + r + e" using assms(2) by (simp add: q_def r_def)
  have 1: "cdiv (4 * a + 3) 146097 = b" using J by simp
  have 2: "cdiv (b * 146097) 4 = q" using W by (simp add: q_def)
  have 3: "cdiv (4 * (a - q) + 3) 1461 = d" using J W r a by (simp add: q_def)
  have 4: "cdiv (1461 * d) 4 = r" using W by (simp add: r_def)
  have 5: "a - q - r = e" using a by simp
  have m: "0 \<le> (5 * e + 2) div 153" using W by simp
  have 6: "a - 32044 + 32044 = a" "cdiv (5 * e + 2) 153 = (5 * e + 2) div 153" using W by simp_all
  show ?thesis unfolding getYearMonthDay_def Let_def 6 1 2 3 4 5 march_date_def using W m by simp
qed

lemma julian_march_date:
  assumes "0 \<le> m" "m \<le> 11" "0 \<le> Y"
  shows "getJulianDayNumber (ymd_year (march_date Y m D)) (ymd_month (march_date Y m D)) (ymd_day (march_date Y m D)) = day_of Y m D - 32044"
proof -
  have "m \<le> 9 \<and> m div 10 = 0 \<or> (m = 10 \<or> m = 11) \<and> m div 10 = 1" using assms by presburger
  then show ?thesis using assms by (auto simp: march_date_def julian_march)
qed

lemma day_of_split: "0 \<le> d \<Longrightarrow> d \<le> 99 \<Longrightarrow>
  day_of (100 * b + d) m D = (b * 146097) div 4 + (1461 * d) div 4 + (D - 1 + (153 * m + 2) div 5)"
  using year_days [of d b] by (simp add: day_of_def)

lemma is_date_march: "0 \<le> m \<Longrightarrow> m \<le> 11 \<Longrightarrow> is_date (march_date Y m D) \<longleftrightarrow> 1 \<le> D \<and> D \<le> march_length m (is_leap (Y + 1))"
proof -
  assume m: "0 \<le> m" "m \<le> 11"
  then have "m \<le> 9 \<and> m div 10 = 0 \<or> (m = 10 \<or> m = 11) \<and> m div 10 = 1" by presburger
  then show ?thesis using m month_length_march [OF m, of Y] by (auto simp: is_date_def march_date_def)
qed

lemma date_march:
  assumes "is_date x"
  obtains Y m D where "x = march_date Y m D" "0 \<le> m" "m \<le> 11" "Y = (if ymd_month x \<le> 2 then ymd_year x + 4799 else ymd_year x + 4800)"
proof -
  have mo: "1 \<le> ymd_month x" "ymd_month x \<le> 12" using assms by (simp_all add: is_date_def)
  show thesis
  proof (cases "ymd_month x \<le> 2")
    case True
    then have "(ymd_month x + 9) div 10 = 1" using mo by presburger
    then show thesis using True mo
      by (intro that [of "ymd_year x + 4799" "ymd_month x + 9" "ymd_day x"]) (auto simp: march_date_def)
  next
    case False
    then have "(ymd_month x - 3) div 10 = 0" using mo by presburger
    then show thesis using False mo
      by (intro that [of "ymd_year x + 4800" "ymd_month x - 3" "ymd_day x"]) (auto simp: march_date_def)
  qed
qed

definition julian_day :: "YearMonthDay \<Rightarrow> int" where
  "julian_day x = getJulianDayNumber (ymd_year x) (ymd_month x) (ymd_day x)"

lemma ymd_of_julian:
  assumes "- 32044 \<le> j"
  shows "is_date (getYearMonthDay j)" "julian_day (getYearMonthDay j) = j"
proof -
  obtain b d e where a: "j + 32044 = (b * 146097) div 4 + (1461 * d) div 4 + e" and w: "day_within b d e"
  proof -
    have "0 \<le> j + 32044" using assms by simp
    from split_day [OF this] show thesis using that by blast
  qed
  define m where "m = (5 * e + 2) div 153"
  have W: "0 \<le> b" "0 \<le> d" "d \<le> 99" "0 \<le> e" "e \<le> 365" "e = 365 \<Longrightarrow> is_leap (100 * b + d + 1)"
    using w by (simp_all add: day_within_def)
  note M = month_step [OF W(4,5) m_def]
  have x: "getYearMonthDay j = march_date (100 * b + d) m (e - (153 * m + 2) div 5 + 1)"
    using ymd_march [OF w a] by (simp add: m_def)
  have "e - (153 * m + 2) div 5 + 1 \<le> march_length m (is_leap (100 * b + d + 1))"
    using M(4) W(6) by (auto simp: march_length_def split: if_splits)
  then show "is_date (getYearMonthDay j)" using M by (simp add: x is_date_march)
  show "julian_day (getYearMonthDay j) = j"
    using M W a by (simp add: x julian_day_def julian_march_date day_of_split)
qed

lemma julian_of_ymd:
  assumes "is_date x" "- 4799 \<le> ymd_year x"
  shows "getYearMonthDay (julian_day x) = x" "- 32044 \<le> julian_day x"
proof -
  obtain Y m D where x: "x = march_date Y m D" "0 \<le> m" "m \<le> 11" "0 \<le> Y"
  proof (rule date_march [OF assms(1)])
    fix Y m D
    assume H: "x = march_date Y m D" "0 \<le> m" "m \<le> 11" "Y = (if ymd_month x \<le> 2 then ymd_year x + 4799 else ymd_year x + 4800)"
    have "0 \<le> Y" using assms(2) unfolding H(4) by simp
    then show thesis using H that by blast
  qed
  define b where "b = Y div 100"
  define d where "d = Y mod 100"
  define e where "e = D - 1 + (153 * m + 2) div 5"
  have Y: "Y = 100 * b + d" "0 \<le> b" "0 \<le> d" "d \<le> 99" using x(4) by (simp_all add: b_def d_def)
  have D: "1 \<le> D" "D \<le> march_length m (is_leap (Y + 1))" using assms(1) x by (simp_all add: is_date_march)
  note E = month_of_day [OF x(2,3) D e_def]
  have w: "day_within b d e" using Y E by (simp add: day_within_def)
  have j: "julian_day x = (b * 146097) div 4 + (1461 * d) div 4 + e - 32044"
    using x Y by (simp add: julian_day_def julian_march_date day_of_split e_def)
  have "getYearMonthDay (julian_day x) = march_date (100 * b + d) m (e - (153 * m + 2) div 5 + 1)"
    using ymd_march [OF w refl] unfolding j E(1) .
  then show "getYearMonthDay (julian_day x) = x" by (simp add: x(1) Y(1) e_def)
  show "- 32044 \<le> julian_day x" using join_day(3) [OF w refl] by (simp add: j)
qed

text \<open>One day later is the next number.\<close>

lemma next_day_is_date: "is_date x \<Longrightarrow> is_date (next_day x)"
  by (auto simp: is_date_def next_day_def month_length_def)

lemma year_length:
  fixes Y :: int
  shows "365 * (Y + 1) + (Y + 1) div 4 - (Y + 1) div 100 + (Y + 1) div 400
    = 365 * Y + Y div 4 - Y div 100 + Y div 400 + (if is_leap (Y + 1) then 366 else 365)"
proof -
  have step: "(Y + 1) div k = Y div k + (if (Y + 1) mod k = 0 then 1 else 0)" if "0 < k" for k :: int
  proof (cases "(Y + 1) mod k = 0")
    case True
    then obtain q where "Y + 1 = k * q" by auto
    then have "Y = k * (q - 1) + (k - 1)" by (simp add: algebra_simps)
    then have "Y div k = q - 1" using that by simp
    then show ?thesis using True \<open>Y + 1 = k * q\<close> that by simp
  next
    case False
    then have "k * ((Y + 1) div k) \<noteq> Y + 1" using mult_div_mod_eq [of k "Y + 1"] by linarith
    then have "Y div k = (Y + 1) div k" using that div_bounds [of k "Y + 1"] by (intro div_pos_geq_unique) auto
    then show ?thesis using False by simp
  qed
  define l4 l100 l400 where "l4 = ((Y + 1) mod 4 = 0)" and "l100 = ((Y + 1) mod 100 = 0)" and "l400 = ((Y + 1) mod 400 = 0)"
  have "l400 \<Longrightarrow> l100" "l100 \<Longrightarrow> l4"
    using mod_mod_cancel [of 100 400 "Y + 1"] mod_mod_cancel [of 4 100 "Y + 1"] by (simp_all add: l4_def l100_def l400_def)
  moreover note S = step [of 4, folded l4_def, simplified] step [of 100, folded l100_def, simplified] step [of 400, folded l400_def, simplified]
  ultimately show ?thesis unfolding is_leap_def l4_def [symmetric] l100_def [symmetric] l400_def [symmetric] S
    by (cases l4; cases l100; cases l400) simp_all
qed

text \<open>The day after a date counted from March.\<close>

lemma next_march:
  assumes "0 \<le> m" "m \<le> 11"
  shows "next_day (march_date Y m D) =
    (if D < march_length m (is_leap (Y + 1)) then march_date Y m (D + 1)
     else if m < 11 then march_date Y (m + 1) 1 else march_date (Y + 1) 0 1)"
proof -
  have m: "m = 0 \<or> m = 1 \<or> m = 2 \<or> m = 3 \<or> m = 4 \<or> m = 5 \<or> m = 6 \<or> m = 7 \<or> m = 8 \<or> m = 9 \<or> m = 10 \<or> m = 11"
    using assms by presburger
  show ?thesis using m month_length_march [OF assms, of Y] by (auto simp: next_day_def march_date_def)
qed

lemma march_gap:
  assumes "0 \<le> m" "m < 11"
  shows "(153 * (m + 1) + 2) div 5 = (153 * m + 2) div 5 + march_length m leap"
proof -
  have "m = 0 \<or> m = 1 \<or> m = 2 \<or> m = 3 \<or> m = 4 \<or> m = 5 \<or> m = 6 \<or> m = 7 \<or> m = 8 \<or> m = 9 \<or> m = 10"
    using assms by presburger
  then show ?thesis by (auto simp: march_length_def)
qed

lemma julian_march_day: "0 \<le> m \<Longrightarrow> m \<le> 11 \<Longrightarrow> 0 \<le> Y \<Longrightarrow> julian_day (march_date Y m D) = day_of Y m D - 32044"
  unfolding julian_day_def by (rule julian_march_date)

lemma julian_next_day:
  assumes "is_date x" "- 4799 \<le> ymd_year x"
  shows "julian_day (next_day x) = julian_day x + 1"
proof (rule date_march [OF assms(1)])
  fix Y m D
  assume H: "x = march_date Y m D" "0 \<le> m" "m \<le> 11" "Y = (if ymd_month x \<le> 2 then ymd_year x + 4799 else ymd_year x + 4800)"
  have Y: "0 \<le> Y" using assms(2) unfolding H(4) by simp
  have D: "1 \<le> D" "D \<le> march_length m (is_leap (Y + 1))" using assms(1) H(2,3) unfolding H(1) by (simp_all add: is_date_march)
  note J = julian_march_day
  consider "D < march_length m (is_leap (Y + 1))" | "D = march_length m (is_leap (Y + 1))" "m < 11"
    | "D = march_length m (is_leap (Y + 1))" "m = 11" using D(2) H(3) unfolding le_less by blast
  then show ?thesis
  proof cases
    case 1
    then show ?thesis using H(2,3) Y unfolding H(1) by (simp add: next_march J day_of_def)
  next
    case 2
    then show ?thesis using H(2,3) Y march_gap [OF H(2) 2(2), of "is_leap (Y + 1)"] unfolding H(1) by (simp add: next_march J day_of_def)
  next
    case 3
    then show ?thesis using H(2,3) Y year_length [of Y] unfolding H(1)
      by (cases "is_leap (Y + 1)") (simp_all add: next_march J day_of_def march_length_def)
  qed
qed

end
