(* ===== verification/Base_TimeZone.thy ===== *)
theory Base_TimeZone
  imports Base_Calendar Net_Buffer
begin

text \<open>
  \<^verbatim>\<open>base/TimeZone.cc\<close> and the parts of \<^verbatim>\<open>base/Timestamp.cc\<close> and \<^verbatim>\<open>base/Date.cc\<close> that use broken-down times:
  UTC times, the reader of zone files, the search for the local time type in force, and the two
  conversions. The C library's \<^verbatim>\<open>gmtime_r\<close> and \<^verbatim>\<open>timegm\<close> are parameters; the locale \<open>libc_time\<close> states what
  is used of them, and the class's own \<open>toUtcTime\<close> and \<open>fromUtcTime\<close> are shown to fulfil it. A
  \<^verbatim>\<open>logic_error\<close> is a value; an out-of-range access is a fault. \<^verbatim>\<open>be32toh\<close> is the function the byte-order
  layer of the sockets uses.
\<close>

section \<open>Broken-down times\<close>

record tm =
  tm_sec :: int
  tm_min :: int
  tm_hour :: int
  tm_mday :: int
  tm_mon :: int
  tm_year :: int
  tm_wday :: int
  tm_yday :: int
  tm_isdst :: bool
  tm_gmtoff :: int
  tm_zone :: string

definition tm_zero :: tm where
  "tm_zero = \<lparr>tm_sec = 0, tm_min = 0, tm_hour = 0, tm_mday = 0, tm_mon = 0, tm_year = 0, tm_wday = 0, tm_yday = 0,
     tm_isdst = False, tm_gmtoff = 0, tm_zone = []\<rparr>"

definition kSecondsPerDay :: int where "kSecondsPerDay = 24 * 60 * 60"

definition fillHMS :: "int \<Rightarrow> tm \<Rightarrow> tm" where
  "fillHMS seconds utc =
     (let minutes = cdiv seconds 60
      in utc\<lparr>tm_sec := cmod seconds 60, tm_min := cmod minutes 60, tm_hour := cdiv minutes 60\<rparr>)"

definition Date_of_tm :: "tm \<Rightarrow> Date" where
  "Date_of_tm t = \<lparr>julianDayNumber = getJulianDayNumber (tm_year t + 1900) (tm_mon t + 1) (tm_mday t)\<rparr>"

definition toUtcTime :: "int \<Rightarrow> bool \<Rightarrow> tm" where
  "toUtcTime epochSeconds yday =
     (let utc = tm_zero\<lparr>tm_zone := ''GMT''\<rparr>;
          seconds = cmod epochSeconds kSecondsPerDay;
          days = cdiv epochSeconds kSecondsPerDay;
          (seconds, days) = (if seconds < 0 then (seconds + kSecondsPerDay, days - 1) else (seconds, days));
          utc = fillHMS seconds utc;
          date = Date_of_julian (days + kJulianDayOf1970_01_01);
          ymd = yearMonthDay date;
          utc = utc\<lparr>tm_year := ymd_year ymd - 1900, tm_mon := ymd_month ymd - 1, tm_mday := ymd_day ymd, tm_wday := weekDay date\<rparr>
      in if yday
         then let startOfYear = Date_ctor (ymd_year ymd) 1 1
              in utc\<lparr>tm_yday := julianDayNumber date - julianDayNumber startOfYear\<rparr>
         else utc)"

definition fromUtcTime_fields :: "int \<Rightarrow> int \<Rightarrow> int \<Rightarrow> int \<Rightarrow> int \<Rightarrow> int \<Rightarrow> int" where
  "fromUtcTime_fields year month day hour minute seconds =
     (let date = Date_ctor year month day;
          secondsInDay = hour * 3600 + minute * 60 + seconds;
          days = julianDayNumber date - kJulianDayOf1970_01_01
      in days * kSecondsPerDay + secondsInDay)"

definition fromUtcTime :: "tm \<Rightarrow> int" where
  "fromUtcTime utc = fromUtcTime_fields (tm_year utc + 1900) (tm_mon utc + 1) (tm_mday utc) (tm_hour utc) (tm_min utc) (tm_sec utc)"

definition toFormattedString :: "(int \<Rightarrow> tm) \<Rightarrow> bool \<Rightarrow> Timestamp \<Rightarrow> string" where
  "toFormattedString gmtime_r showMicroseconds t =
     (let seconds = cdiv t kMicroSecondsPerSecond;
          tm_time = gmtime_r seconds;
          head = dec_blank 4 (tm_year tm_time + 1900) @ dec_pad 2 (tm_mon tm_time + 1) @ dec_pad 2 (tm_mday tm_time) @ '' ''
            @ dec_pad 2 (tm_hour tm_time) @ '':'' @ dec_pad 2 (tm_min tm_time) @ '':'' @ dec_pad 2 (tm_sec tm_time)
      in if showMicroseconds
         then let microseconds = cmod t kMicroSecondsPerSecond in snprintf 64 (head @ ''.'' @ dec_pad 6 microseconds)
         else snprintf 64 head)"

section \<open>Zone files\<close>

record Transition =
  gmttime :: int
  tr_localtime :: int
  localtimeIdx :: nat

record Comp = compareGmt :: bool

definition Comp_less :: "Comp \<Rightarrow> Transition \<Rightarrow> Transition \<Rightarrow> bool" where
  "Comp_less cmp lhs rhs =
     (if compareGmt cmp then gmttime lhs < gmttime rhs else tr_localtime lhs < tr_localtime rhs)"

definition Comp_equal :: "Comp \<Rightarrow> Transition \<Rightarrow> Transition \<Rightarrow> bool" where
  "Comp_equal cmp lhs rhs =
     (if compareGmt cmp then gmttime lhs = gmttime rhs else tr_localtime lhs = tr_localtime rhs)"

record Localtime =
  gmtOffset :: int
  isDst :: bool
  arrbIdx :: nat

record Data =
  transitions :: "Transition list"
  localtimes :: "Localtime list"
  names :: "string list"
  data_abbreviation :: string

definition Data_ctor :: Data where
  "Data_ctor = \<lparr>transitions = [], localtimes = [], names = [], data_abbreviation = []\<rparr>"

text \<open>What a block can be left by: a \<^verbatim>\<open>logic_error\<close>, which \<open>readTimeZoneFile\<close> catches, or a fault. The
  state of a \<^verbatim>\<open>File\<close> is what \<^verbatim>\<open>fread\<close> has still to deliver.\<close>

datatype exn = logic_error string | undefined_behaviour fault

type_synonym 'a reader = "string \<Rightarrow> exn + 'a \<times> string"

definition bindF :: "'a reader \<Rightarrow> ('a \<Rightarrow> 'b reader) \<Rightarrow> 'b reader" where
  "bindF m f s = (case m s of Inl e \<Rightarrow> Inl e | Inr (a, s') \<Rightarrow> f a s')"

definition throwF :: "string \<Rightarrow> 'a reader" where "throwF msg s = Inl (logic_error msg)"

definition returnF :: "'a \<Rightarrow> 'a reader" where "returnF a s = Inr (a, s)"

text \<open>A buffer \<^verbatim>\<open>char buf[n]\<close> of negative length is undefined.\<close>

definition readBytes :: "int \<Rightarrow> string reader" where
  "readBytes n s =
     (if n < 0 then Inl (undefined_behaviour OutOfBounds)
      else if length s < nat n then Inl (logic_error ''no enough data'')
      else Inr (take (nat n) s, drop (nat n) s))"

definition readInt32 :: "32 word reader" where
  "readInt32 s =
     (if length s < 4 then Inl (logic_error ''bad int32_t data'')
      else Inr (networkToHost32 (word_of_nat (le_nat (take 4 s))), drop 4 s))"

definition readUInt8 :: "nat reader" where
  "readUInt8 s =
     (case s of [] \<Rightarrow> Inl (logic_error ''bad uint8_t data'') | c # s' \<Rightarrow> Inr (of_char c, s'))"

text \<open>The loops that read \<open>n\<close> values; \<^verbatim>\<open>trans.reserve(timecnt)\<close> throws \<^verbatim>\<open>length_error\<close>, a \<^verbatim>\<open>logic_error\<close>, when the count
  is negative.\<close>

primrec read_many :: "nat \<Rightarrow> 'a reader \<Rightarrow> 'a list reader" where
  "read_many 0 m = returnF []"
| "read_many (Suc n) m = bindF m (\<lambda>x. bindF (read_many n m) (\<lambda>xs. returnF (x # xs)))"

definition reserve :: "int \<Rightarrow> unit reader" where
  "reserve n = (if n < 0 then throwF ''vector::reserve'' else returnF ())"

definition read_localtime :: "Localtime reader" where
  "read_localtime =
     bindF readInt32 (\<lambda>gmtoff. bindF readUInt8 (\<lambda>isdst. bindF readUInt8 (\<lambda>abbrind.
       returnF \<lparr>gmtOffset = sint gmtoff, isDst = (isdst \<noteq> 0), arrbIdx = abbrind\<rparr>)))"

text \<open>The loop over the types pushes each into \<^verbatim>\<open>data->localtimes\<close> as it goes: what was read before an
  exception stays.\<close>

primrec read_localtimes :: "nat \<Rightarrow> Data \<Rightarrow> string \<Rightarrow> Data \<times> (exn + string)" where
  "read_localtimes 0 data s = (data, Inr s)"
| "read_localtimes (Suc n) data s =
     (case read_localtime s of
        Inl e \<Rightarrow> (data, Inl e)
      | Inr (l, s') \<Rightarrow> read_localtimes n (data\<lparr>localtimes := localtimes data @ [l]\<rparr>) s')"

text \<open>The loop that builds the transitions indexes \<^verbatim>\<open>data->localtimes\<close> without a check.\<close>

primrec push_transitions :: "(int \<times> nat) list \<Rightarrow> Data \<Rightarrow> Data result" where
  "push_transitions [] data = Inr data"
| "push_transitions (t # ts) data =
     (let localIdx = snd t in
      if localIdx < length (localtimes data)
      then push_transitions ts (data\<lparr>transitions := transitions data
             @ [\<lparr>gmttime = fst t, tr_localtime = fst t + gmtOffset (localtimes data ! localIdx), localtimeIdx = localIdx\<rparr>]\<rparr>)
      else Inl OutOfBounds)"

record Header =
  isgmtcnt :: int
  isstdcnt :: int
  leapcnt :: int
  timecnt :: int
  typecnt :: int
  charcnt :: int

definition read_head :: "Header reader" where
  "read_head =
     bindF (readBytes 4) (\<lambda>head. if head \<noteq> ''TZif'' then throwF ''bad head'' else
     bindF (readBytes 1) (\<lambda>version. bindF (readBytes 15) (\<lambda>_.
     bindF readInt32 (\<lambda>a. bindF readInt32 (\<lambda>b. bindF readInt32 (\<lambda>c.
     bindF readInt32 (\<lambda>d. bindF readInt32 (\<lambda>e. bindF readInt32 (\<lambda>f.
       returnF \<lparr>isgmtcnt = sint a, isstdcnt = sint b, leapcnt = sint c, timecnt = sint d, typecnt = sint e, charcnt = sint f\<rparr>)))))))))"

definition read_times :: "Header \<Rightarrow> (int list \<times> nat list) reader" where
  "read_times h =
     bindF (reserve (timecnt h)) (\<lambda>_.
     bindF (read_many (nat (timecnt h)) (bindF readInt32 (\<lambda>x. returnF (sint x)))) (\<lambda>ts.
     bindF (read_many (nat (timecnt h)) readUInt8) (\<lambda>idx. returnF (ts, idx))))"

text \<open>The \<^verbatim>\<open>try\<close> block: the data as they are when it is left, and how it is left.\<close>

definition read_body :: "string \<Rightarrow> Data \<Rightarrow> Data \<times> (exn + unit)" where
  "read_body s data =
     (case bindF read_head (\<lambda>h. bindF (read_times h) (\<lambda>t. returnF (h, t))) s of
        Inl e \<Rightarrow> (data, Inl e)
      | Inr ((h, ts, idx), s1) \<Rightarrow>
          (case read_localtimes (nat (typecnt h)) data s1 of
             (data, Inl e) \<Rightarrow> (data, Inl e)
           | (data, Inr s2) \<Rightarrow>
               (case push_transitions (zip ts idx) data of
                  Inl e \<Rightarrow> (data, Inl (undefined_behaviour e))
                | Inr data \<Rightarrow>
                    (case readBytes (charcnt h) s2 of
                       Inl e \<Rightarrow> (data, Inl e)
                     | Inr (abbr, s3) \<Rightarrow> (data\<lparr>data_abbreviation := abbr\<rparr>, Inr ())))))"

text \<open>\<open>file\<close> is what the file holds, or \<open>None\<close> when it cannot be opened. The function always returns
  \<^verbatim>\<open>true\<close>.\<close>

definition readTimeZoneFile :: "string option \<Rightarrow> Data \<Rightarrow> (Data \<times> bool) result" where
  "readTimeZoneFile file data =
     (case file of
        None \<Rightarrow> Inr (data, True)
      | Some s \<Rightarrow>
          (case read_body s data of
             (data, Inl (undefined_behaviour e)) \<Rightarrow> Inl e
           | (data, _) \<Rightarrow> Inr (data, True)))"

section \<open>The time zone\<close>

text \<open>\<^verbatim>\<open>std::lower_bound\<close> by halving.\<close>

function lower_bound_loop :: "('a \<Rightarrow> bool) \<Rightarrow> 'a list \<Rightarrow> nat \<Rightarrow> nat \<Rightarrow> nat" where
  "lower_bound_loop below xs first len =
     (if len = 0 then first
      else let half = len div 2; middle = first + half in
        if below (xs ! middle) then lower_bound_loop below xs (middle + 1) (len - half - 1)
        else lower_bound_loop below xs first half)"
  by auto
termination by (relation "measure (\<lambda>(_, _, _, len). len)") auto

declare lower_bound_loop.simps [simp del]

definition lower_bound :: "('a \<Rightarrow> bool) \<Rightarrow> 'a list \<Rightarrow> nat" where
  "lower_bound below xs = lower_bound_loop below xs 0 (length xs)"

definition findLocaltime :: "Data \<Rightarrow> Transition \<Rightarrow> Comp \<Rightarrow> Localtime result" where
  "findLocaltime data sentry cmp =
     (if transitions data = [] \<or> Comp_less cmp sentry (hd (transitions data))
      then nthR (localtimes data) 0
      else
        let transI = lower_bound (\<lambda>t. Comp_less cmp t sentry) (transitions data) in
        if transI \<noteq> length (transitions data)
        then if \<not> Comp_equal cmp sentry (transitions data ! transI)
             then assertR ''transI != data.transitions.begin()'' (transI \<noteq> 0)
                    (nthR (localtimes data) (localtimeIdx (transitions data ! (transI - 1))))
             else nthR (localtimes data) (localtimeIdx (transitions data ! transI))
        else nthR (localtimes data) (localtimeIdx (last (transitions data))))"

type_synonym TimeZone = "Data option"

definition TimeZone_file :: "string option \<Rightarrow> TimeZone result" where
  "TimeZone_file zonefile =
     bindR (readTimeZoneFile zonefile Data_ctor) (\<lambda>(data, ok). Inr (if \<not> ok then None else Some data))"

definition TimeZone_fixed :: "int \<Rightarrow> string \<Rightarrow> TimeZone" where
  "TimeZone_fixed eastOfUtc tzname =
     Some (Data_ctor\<lparr>localtimes := [\<lparr>gmtOffset = eastOfUtc, isDst = False, arrbIdx = 0\<rparr>], data_abbreviation := tzname\<rparr>)"

definition TimeZone_invalid :: TimeZone where "TimeZone_invalid = None"

definition TimeZone_valid :: "TimeZone \<Rightarrow> bool" where "TimeZone_valid z = (z \<noteq> None)"

text \<open>\<^verbatim>\<open>tm_zone\<close> points into the table of abbreviations: a C string that ends at the next \<^verbatim>\<open>NUL\<close>.\<close>

definition c_string_at :: "string \<Rightarrow> nat \<Rightarrow> string result" where
  "c_string_at s i = (if i \<le> length s then Inr (takeWhile (\<lambda>c. c \<noteq> CHR 0x00) (drop i s)) else Inl OutOfBounds)"

definition toLocalTime :: "(int \<Rightarrow> tm) \<Rightarrow> TimeZone \<Rightarrow> int \<Rightarrow> tm result" where
  "toLocalTime gmtime_r z seconds =
     (case z of
        None \<Rightarrow> Inl (AssertFail ''data_ != NULL'')
      | Some data \<Rightarrow>
          let sentry = \<lparr>gmttime = seconds, tr_localtime = 0, localtimeIdx = 0\<rparr> in
          bindR (findLocaltime data sentry \<lparr>compareGmt = True\<rparr>) (\<lambda>local.
            let localSeconds = seconds + gmtOffset local;
                localTime = gmtime_r localSeconds
            in bindR (c_string_at (data_abbreviation data) (arrbIdx local)) (\<lambda>zone.
                 Inr (localTime\<lparr>tm_isdst := isDst local, tm_gmtoff := gmtOffset local, tm_zone := zone\<rparr>))))"

definition fromLocalTime :: "(int \<Rightarrow> tm) \<Rightarrow> (tm \<Rightarrow> int) \<Rightarrow> TimeZone \<Rightarrow> tm \<Rightarrow> int result" where
  "fromLocalTime gmtime_r timegm z localTm =
     (case z of
        None \<Rightarrow> Inl (AssertFail ''data_ != NULL'')
      | Some data \<Rightarrow>
          let seconds = timegm localTm;
              sentry = \<lparr>gmttime = 0, tr_localtime = seconds, localtimeIdx = 0\<rparr> in
          bindR (findLocaltime data sentry \<lparr>compareGmt = False\<rparr>) (\<lambda>local.
            if tm_isdst localTm
            then bindR (toLocalTime gmtime_r z (seconds - gmtOffset local)) (\<lambda>tryTm.
                   let seconds = (if \<not> tm_isdst tryTm \<and> tm_hour tryTm = tm_hour localTm \<and> tm_min tryTm = tm_min localTm
                                  then seconds - 3600 else seconds)
                   in Inr (seconds - gmtOffset local))
            else Inr (seconds - gmtOffset local)))"

section \<open>UTC times\<close>

definition clock_ok :: "tm \<Rightarrow> bool" where
  "clock_ok t = (0 \<le> tm_sec t \<and> tm_sec t < 60 \<and> 0 \<le> tm_min t \<and> tm_min t < 60 \<and> 0 \<le> tm_hour t \<and> tm_hour t < 24)"

definition tm_date :: "tm \<Rightarrow> YearMonthDay" where
  "tm_date t = \<lparr>ymd_year = tm_year t + 1900, ymd_month = tm_mon t + 1, ymd_day = tm_mday t\<rparr>"

definition seconds_of_day :: "tm \<Rightarrow> int" where
  "seconds_of_day t = tm_hour t * 3600 + tm_min t * 60 + tm_sec t"

definition first_second :: int where "first_second = - 2472632 * 86400"

lemma k1970: "kJulianDayOf1970_01_01 = 2440588"
  by (simp add: kJulianDayOf1970_01_01_def getJulianDayNumber_def Let_def)

text \<open>Truncating division and its correction are division that rounds down.\<close>

lemma cdiv_correction:
  assumes "0 < k"
  shows "(if cmod x k < 0 then (cmod x k + k, cdiv x k - 1) else (cmod x k, cdiv x k)) = (x mod k, x div k)"
proof (cases "0 \<le> x")
  case True
  then show ?thesis using assms by (simp add: cmod_nonneg not_less)
next
  case False
  then have c: "cdiv x k = - ((- x) div k)" using assms by (simp add: cdiv_def)
  have m: "cmod x k = - ((- x) mod k)" unfolding cmod_def c by (simp add: minus_mult_div_eq_mod [symmetric])
  show ?thesis
  proof (cases "(- x) mod k = 0")
    case True
    then have "x = k * (- ((- x) div k))" using mult_div_mod_eq [of k "- x"] by simp
    then have "x mod k = 0" "x div k = - ((- x) div k)" using assms True by (metis mod_mult_self1_is_0, metis nonzero_mult_div_cancel_left less_irrefl)
    then show ?thesis using c m True by simp
  next
    case False
    have b: "0 \<le> (- x) mod k" "(- x) mod k < k" using assms by simp_all
    have e: "k * ((- x) div k) + (- x) mod k = - x" by simp
    have "x = k * (- ((- x) div k) - 1) + (k - (- x) mod k)" using e by (simp add: algebra_simps)
    then have "x div k = - ((- x) div k) - 1" "x mod k = k - (- x) mod k"
      using b False by (metis int_div_pos_eq add.commute diff_ge_0_iff_ge diff_less_eq less_add_same_cancel1 less_le order_less_le assms,
        metis int_mod_pos_eq add.commute diff_ge_0_iff_ge diff_less_eq less_add_same_cancel1 less_le order_less_le assms)
    then show ?thesis using c m b False by simp
  qed
qed

lemma toUtcTime_eq:
  "toUtcTime s yday =
     (let utc = fillHMS (s mod 86400) (tm_zero\<lparr>tm_zone := ''GMT''\<rparr>);
          j = s div 86400 + 2440588;
          ymd = getYearMonthDay j;
          utc = utc\<lparr>tm_year := ymd_year ymd - 1900, tm_mon := ymd_month ymd - 1, tm_mday := ymd_day ymd, tm_wday := weekDay \<lparr>julianDayNumber = j\<rparr>\<rparr>
      in if yday then utc\<lparr>tm_yday := j - getJulianDayNumber (ymd_year ymd) 1 1\<rparr> else utc)"
proof -
  have k: "kSecondsPerDay = 86400" by (simp add: kSecondsPerDay_def)
  show ?thesis unfolding toUtcTime_def k Let_def cdiv_correction [of 86400 s, simplified]
    by (simp add: k1970 yearMonthDay_def Date_ctor_def Date_of_julian_def)
qed

lemma fillHMS_fields:
  assumes "0 \<le> x" "x < 86400"
  shows "clock_ok (fillHMS x t)" "seconds_of_day (fillHMS x t) = x"
proof -
  have d: "0 \<le> x div 60" "x div 60 < 1440" using assms by (auto simp: div_less_iff_less_mult)
  have "x div 60 div 60 < 24" using d by (auto simp: div_less_iff_less_mult)
  then show "clock_ok (fillHMS x t)" using assms d by (simp add: clock_ok_def fillHMS_def Let_def)
  have "60 * (x div 60) + x mod 60 = x" "60 * (x div 60 div 60) + x div 60 mod 60 = x div 60" by simp_all
  then have "(x div 60 div 60) * 3600 + (x div 60 mod 60) * 60 + x mod 60 = x" by linarith
  then show "seconds_of_day (fillHMS x t) = x" using assms d unfolding seconds_of_day_def fillHMS_def Let_def by simp
qed

lemma digit: "0 \<le> y \<Longrightarrow> y < k \<Longrightarrow> z = k * x + y \<Longrightarrow> z div k = x \<and> z mod k = y" for k x y z :: int
  by simp

lemma clock_digits:
  assumes "clock_ok t"
  shows "seconds_of_day t mod 60 = tm_sec t" "seconds_of_day t div 60 mod 60 = tm_min t" "seconds_of_day t div 60 div 60 = tm_hour t"
proof -
  have H: "0 \<le> tm_sec t" "tm_sec t < 60" "0 \<le> tm_min t" "tm_min t < 60" using assms by (simp_all add: clock_ok_def)
  have q: "seconds_of_day t div 60 = 60 * tm_hour t + tm_min t \<and> seconds_of_day t mod 60 = tm_sec t"
    using H by (intro digit) (simp_all add: seconds_of_day_def)
  have "seconds_of_day t div 60 div 60 = tm_hour t \<and> seconds_of_day t div 60 mod 60 = tm_min t"
    using H q by (intro digit) simp_all
  with q show "seconds_of_day t mod 60 = tm_sec t" "seconds_of_day t div 60 mod 60 = tm_min t" "seconds_of_day t div 60 div 60 = tm_hour t"
    by blast+
qed

lemma seconds_of_day_bounds:
  assumes "clock_ok t"
  shows "0 \<le> seconds_of_day t" "seconds_of_day t < 86400"
  using assms unfolding clock_ok_def seconds_of_day_def by linarith+

lemma fromUtcTime_eq: "fromUtcTime t = (julian_day (tm_date t) - 2440588) * 86400 + seconds_of_day t"
  by (simp add: fromUtcTime_def fromUtcTime_fields_def Date_ctor_def k1970 kSecondsPerDay_def julian_day_def tm_date_def seconds_of_day_def)

lemma toUtcTime_date: "tm_date (toUtcTime s yday) = getYearMonthDay (s div 86400 + 2440588)"
  by (simp add: toUtcTime_eq Let_def tm_date_def fillHMS_def)

lemma toUtcTime_clock: "clock_ok (toUtcTime s yday)" "seconds_of_day (toUtcTime s yday) = s mod 86400"
  using fillHMS_fields [of "s mod 86400" "tm_zero\<lparr>tm_zone := ''GMT''\<rparr>"]
  by (simp_all add: toUtcTime_eq Let_def clock_ok_def seconds_of_day_def)

lemma first_second_day: "first_second \<le> s \<Longrightarrow> - 32044 \<le> s div 86400 + 2440588"
proof -
  assume "first_second \<le> s"
  then have "- 2472632 * 86400 div 86400 \<le> s div 86400" unfolding first_second_def by (rule zdiv_mono1) simp
  then show ?thesis by simp
qed

lemma fromUtcTime_toUtcTime: "first_second \<le> s \<Longrightarrow> fromUtcTime (toUtcTime s yday) = s"
  using ymd_of_julian(2) [OF first_second_day] by (simp add: fromUtcTime_eq toUtcTime_date toUtcTime_clock)

text \<open>The other direction: the fields that \<open>fromUtcTime\<close> reads come back.\<close>

lemma toUtcTime_fromUtcTime:
  assumes "is_date (tm_date t)" "clock_ok t" "- 4799 \<le> ymd_year (tm_date t)"
  shows "tm_date (toUtcTime (fromUtcTime t) yday) = tm_date t"
    "seconds_of_day (toUtcTime (fromUtcTime t) yday) = seconds_of_day t"
    "first_second \<le> fromUtcTime t"
proof -
  note B = seconds_of_day_bounds [OF assms(2)]
  note J = julian_of_ymd [OF assms(1,3)]
  have d: "fromUtcTime t div 86400 = julian_day (tm_date t) - 2440588" "fromUtcTime t mod 86400 = seconds_of_day t"
    using digit [OF B, of "fromUtcTime t" "julian_day (tm_date t) - 2440588"] by (simp_all add: fromUtcTime_eq)
  show "tm_date (toUtcTime (fromUtcTime t) yday) = tm_date t" using J(1) by (simp add: toUtcTime_date d(1))
  show "seconds_of_day (toUtcTime (fromUtcTime t) yday) = seconds_of_day t" by (simp add: toUtcTime_clock d(2))
  show "first_second \<le> fromUtcTime t" using J(2) B(1) unfolding fromUtcTime_eq first_second_def by simp
qed

lemma toUtcTime_fromUtcTime_clock:
  assumes "is_date (tm_date t)" "clock_ok t" "- 4799 \<le> ymd_year (tm_date t)"
  shows "tm_hour (toUtcTime (fromUtcTime t) yday) = tm_hour t" "tm_min (toUtcTime (fromUtcTime t) yday) = tm_min t"
    "tm_sec (toUtcTime (fromUtcTime t) yday) = tm_sec t"
  using clock_digits [OF toUtcTime_clock(1) [of "fromUtcTime t" yday]] clock_digits [OF assms(2)]
  unfolding toUtcTime_fromUtcTime(2) [OF assms] by simp_all

lemma tm_date_fields: "tm_date t = tm_date u \<Longrightarrow> tm_year t = tm_year u \<and> tm_mon t = tm_mon u \<and> tm_mday t = tm_mday u"
  by (simp add: tm_date_def)

text \<open>The weekday goes round with the days, and the first day is a Monday.\<close>

lemma weekDay_step:
  assumes "0 \<le> julianDayNumber d + 1"
  shows "0 \<le> weekDay d" "weekDay d < 7" "weekDay (d\<lparr>julianDayNumber := julianDayNumber d + 1\<rparr>) = (weekDay d + 1) mod 7"
proof -
  have w: "weekDay d = (julianDayNumber d + 1) mod 7" using assms by (simp add: weekDay_def kDaysPerWeek_def)
  show "0 \<le> weekDay d" "weekDay d < 7" unfolding w by simp_all
  have "weekDay (d\<lparr>julianDayNumber := julianDayNumber d + 1\<rparr>) = (julianDayNumber d + 1 + 1) mod 7"
    using assms by (simp add: weekDay_def kDaysPerWeek_def)
  then show "weekDay (d\<lparr>julianDayNumber := julianDayNumber d + 1\<rparr>) = (weekDay d + 1) mod 7"
    unfolding w mod_add_left_eq .
qed

section \<open>The type in force\<close>

text \<open>Binary search finds the end of the part of the list below the key.\<close>

lemma lower_bound_loop_ok:
  assumes "first + len \<le> length xs" "\<And>i. i < first \<Longrightarrow> below (xs ! i)"
    "\<And>i. first + len \<le> i \<Longrightarrow> i < length xs \<Longrightarrow> \<not> below (xs ! i)"
    "\<And>i j. i \<le> j \<Longrightarrow> j < length xs \<Longrightarrow> below (xs ! j) \<Longrightarrow> below (xs ! i)"
  shows "lower_bound_loop below xs first len \<le> length xs \<and>
    (\<forall>i<length xs. below (xs ! i) \<longleftrightarrow> i < lower_bound_loop below xs first len)"
  using assms
proof (induction below xs first len rule: lower_bound_loop.induct)
  case (1 below xs first len)
  show ?case
  proof (cases "len = 0")
    case True
    then show ?thesis using 1(3-5) by (subst lower_bound_loop.simps) (auto simp: lower_bound_loop.simps not_less, meson not_less)
  next
    case False
    define half where "half = len div 2"
    have h: "half < len" using False by (simp add: half_def)
    show ?thesis
    proof (cases "below (xs ! (first + half))")
      case True
      have b: "below (xs ! i)" if "i < first + half + 1" for i
        using 1(6) [of i "first + half"] True that h 1(3) by simp
      have "lower_bound_loop below xs first len = lower_bound_loop below xs (first + half + 1) (len - half - 1)"
        using False True by (subst lower_bound_loop.simps) (simp add: half_def Let_def)
      moreover have e: "first + half + 1 + (len - half - 1) = first + len" using h by simp
      ultimately show ?thesis using 1(1) [OF False half_def refl True, unfolded e, OF 1(3) b 1(5,6)] by simp
    next
      case B: False
      have b: "\<not> below (xs ! i)" if "first + half \<le> i" "i < length xs" for i
        using 1(6) [of "first + half" i] B that by blast
      have "lower_bound_loop below xs first len = lower_bound_loop below xs first half"
        using False B by (subst lower_bound_loop.simps) (simp add: half_def Let_def)
      moreover have l: "first + half \<le> length xs" using h 1(3) by simp
      ultimately show ?thesis using 1(2) [OF False half_def refl B l 1(4) b 1(6)] by simp
    qed
  qed
qed

lemma lower_bound_ok:
  assumes "\<And>i j. i \<le> j \<Longrightarrow> j < length xs \<Longrightarrow> below (xs ! j) \<Longrightarrow> below (xs ! i)"
  shows "lower_bound below xs \<le> length xs" "\<And>i. i < length xs \<Longrightarrow> below (xs ! i) \<longleftrightarrow> i < lower_bound below xs"
  using lower_bound_loop_ok [of 0 "length xs" xs below] assms unfolding lower_bound_def by simp_all

text \<open>The reference: the last transition that is not after the key, by a scan of the whole table.\<close>

definition tkey :: "Comp \<Rightarrow> Transition \<Rightarrow> int" where
  "tkey cmp t = (if compareGmt cmp then gmttime t else tr_localtime t)"

definition in_force :: "Data \<Rightarrow> Comp \<Rightarrow> int \<Rightarrow> Localtime" where
  "in_force data cmp k =
     (let past = filter (\<lambda>t. tkey cmp t \<le> k) (transitions data)
      in localtimes data ! (if past = [] then 0 else localtimeIdx (last past)))"

definition ascending :: "Comp \<Rightarrow> Data \<Rightarrow> bool" where
  "ascending cmp data = sorted_wrt (\<lambda>s t. tkey cmp s < tkey cmp t) (transitions data)"

definition zone_ok :: "Data \<Rightarrow> bool" where
  "zone_ok data = (localtimes data \<noteq> [] \<and>
     (\<forall>t \<in> set (transitions data). localtimeIdx t < length (localtimes data)
        \<and> tr_localtime t = gmttime t + gmtOffset (localtimes data ! localtimeIdx t)))"

lemma Comp_key: "Comp_less cmp s t \<longleftrightarrow> tkey cmp s < tkey cmp t" "Comp_equal cmp s t \<longleftrightarrow> tkey cmp s = tkey cmp t"
  by (simp_all add: Comp_less_def Comp_equal_def tkey_def)

lemma filter_prefix:
  assumes "n \<le> length xs" "\<And>i. i < length xs \<Longrightarrow> P (xs ! i) \<longleftrightarrow> i < n"
  shows "filter P xs = take n xs"
proof -
  have "\<forall>x \<in> set (take n xs). P x" using assms by (auto simp: in_set_conv_nth)
  moreover have "\<forall>x \<in> set (drop n xs). \<not> P x" using assms by (auto simp: in_set_conv_nth)
  ultimately have "filter P (take n xs @ drop n xs) = take n xs" unfolding filter_append by simp
  then show ?thesis by simp
qed

lemma last_take: "0 < n \<Longrightarrow> n \<le> length xs \<Longrightarrow> last (take n xs) = xs ! (n - 1)"
  by (subst last_conv_nth) auto

lemma findLocaltime_in_force:
  assumes z: "zone_ok data" and asc: "ascending cmp data"
  shows "findLocaltime data sentry cmp = Inr (in_force data cmp (tkey cmp sentry))"
proof -
  define xs where "xs = transitions data"
  define k where "k = tkey cmp sentry"
  define n where "n = lower_bound (\<lambda>t. Comp_less cmp t sentry) xs"
  have lt: "tkey cmp (xs ! i) < tkey cmp (xs ! j)" if "i < j" "j < length xs" for i j
    using asc that unfolding ascending_def xs_def by (rule sorted_wrt_nth_less)
  have mono: "Comp_less cmp (xs ! i) sentry" if "i \<le> j" "j < length xs" "Comp_less cmp (xs ! j) sentry" for i j
    using lt [of i j] that unfolding Comp_key by (cases "i = j") auto
  have n: "n \<le> length xs" "\<And>i. i < length xs \<Longrightarrow> tkey cmp (xs ! i) < k \<longleftrightarrow> i < n"
    using lower_bound_ok [of xs "\<lambda>t. Comp_less cmp t sentry"] mono unfolding n_def k_def Comp_key by blast+
  have idx: "nthR (localtimes data) (localtimeIdx (xs ! i)) = Inr (localtimes data ! localtimeIdx (xs ! i))" if "i < length xs" for i
    using z that by (simp add: zone_ok_def xs_def nthR_def)
  have front: "nthR (localtimes data) 0 = Inr (localtimes data ! 0)" using z by (simp add: zone_ok_def nthR_def)
  have found: "in_force data cmp k = localtimes data ! localtimeIdx (xs ! (m - 1))"
    if "0 < m" "m \<le> length xs" "\<And>i. i < length xs \<Longrightarrow> tkey cmp (xs ! i) \<le> k \<longleftrightarrow> i < m" for m
    using filter_prefix [of m xs "\<lambda>t. tkey cmp t \<le> k", OF that(2,3)] that(1,2)
    by (auto simp: in_force_def Let_def xs_def [symmetric] last_take)
  show ?thesis
  proof (cases "xs = [] \<or> k < tkey cmp (hd xs)")
    case True
    then have "filter (\<lambda>t. tkey cmp t \<le> k) xs = []"
    proof
      assume h: "k < tkey cmp (hd xs)"
      have "k < tkey cmp (xs ! i)" if "i < length xs" for i
      proof -
        have "hd xs = xs ! 0" using that by (intro hd_conv_nth) auto
        then show ?thesis using lt [of 0 i] that h by (cases "i = 0") auto
      qed
      then show ?thesis by (auto simp: filter_empty_conv in_set_conv_nth not_le)
    qed simp
    then show ?thesis using True front by (simp add: findLocaltime_def xs_def [symmetric] Comp_key k_def [symmetric] in_force_def)
  next
    case False
    then have ne: "0 < length xs" and first: "tkey cmp (xs ! 0) \<le> k" using hd_conv_nth [of xs] by (auto simp: not_less)
    consider "n = length xs" | "n < length xs" "tkey cmp (xs ! n) = k" | "n < length xs" "k < tkey cmp (xs ! n)"
      using n(1) n(2) [of n] by fastforce
    then show ?thesis
    proof cases
      case 1
      then have "in_force data cmp k = localtimes data ! localtimeIdx (xs ! (length xs - 1))"
        using ne n(2) by (intro found) (auto intro: less_imp_le)
      then show ?thesis using False 1 ne idx [of "length xs - 1"]
        by (simp add: findLocaltime_def xs_def [symmetric] Comp_key k_def [symmetric] n_def [unfolded Comp_key, folded k_def, symmetric] last_conv_nth)
    next
      case 2
      have "in_force data cmp k = localtimes data ! localtimeIdx (xs ! (Suc n - 1))"
      proof (rule found)
        show "0 < Suc n" "Suc n \<le> length xs" using 2 by simp_all
        show "tkey cmp (xs ! i) \<le> k \<longleftrightarrow> i < Suc n" if "i < length xs" for i
          using n(2) [OF that] 2 lt [of n i] that by (cases "i = n") (auto simp: le_less)
      qed
      then show ?thesis using False 2 idx [of n]
        by (simp add: findLocaltime_def xs_def [symmetric] Comp_key k_def [symmetric] n_def [unfolded Comp_key, folded k_def, symmetric])
    next
      case 3
      have "n \<noteq> 0" using 3 first by (cases n) auto
      moreover have "in_force data cmp k = localtimes data ! localtimeIdx (xs ! (n - 1))"
      proof (rule found)
        show "0 < n" "n \<le> length xs" using \<open>n \<noteq> 0\<close> 3 by simp_all
        show "tkey cmp (xs ! i) \<le> k \<longleftrightarrow> i < n" if "i < length xs" for i
          using n(2) [OF that] 3 lt [of n i] that by (cases "i = n") (auto simp: le_less)
      qed
      ultimately show ?thesis using False 3 idx [of "n - 1"]
        by (simp add: findLocaltime_def xs_def [symmetric] Comp_key k_def [symmetric] n_def [unfolded Comp_key, folded k_def, symmetric])
    qed
  qed
qed

section \<open>Local times\<close>

text \<open>What the conversions use of the C library: \<^verbatim>\<open>timegm\<close> undoes \<^verbatim>\<open>gmtime_r\<close> from some second on, and does not
  look at the fields for daylight saving and the zone.\<close>

locale libc_time =
  fixes gmtime_r :: "int \<Rightarrow> tm" and timegm :: "tm \<Rightarrow> int" and lo :: int
  assumes timegm_gmtime: "lo \<le> s \<Longrightarrow> timegm (gmtime_r s) = s"
    and timegm_fields: "timegm (t\<lparr>tm_isdst := b, tm_gmtoff := off, tm_zone := z\<rparr>) = timegm t"
begin

text \<open>Away from the hours that a change of the clock repeats or skips, a local time determines the instant it
  was made from.\<close>

lemma local_roundtrip:
  assumes z: "zone_ok data" "ascending \<lparr>compareGmt = True\<rparr> data" "ascending \<lparr>compareGmt = False\<rparr> data"
    and l: "l = in_force data \<lparr>compareGmt = True\<rparr> t" "arrbIdx l \<le> length (data_abbreviation data)"
    and lo: "lo \<le> t + gmtOffset l"
    and clear: "\<forall>tr \<in> set (transitions data). gmttime tr \<le> t \<longleftrightarrow> tr_localtime tr \<le> t + gmtOffset l"
  shows "bindR (toLocalTime gmtime_r (Some data) t) (fromLocalTime gmtime_r timegm (Some data)) = Inr t"
proof -
  define out where "out = (gmtime_r (t + gmtOffset l))\<lparr>tm_isdst := isDst l, tm_gmtoff := gmtOffset l,
      tm_zone := takeWhile (\<lambda>c. c \<noteq> CHR 0x00) (drop (arrbIdx l) (data_abbreviation data))\<rparr>"
  have to: "toLocalTime gmtime_r (Some data) t = Inr out"
    using l(2) by (simp add: toLocalTime_def findLocaltime_in_force z tkey_def l(1) [symmetric] c_string_at_def out_def)
  have dst: "tm_isdst out = isDst l" by (simp add: out_def)
  have sec: "timegm out = t + gmtOffset l" using lo by (simp add: out_def timegm_fields timegm_gmtime)
  have "filter (\<lambda>tr. tkey \<lparr>compareGmt = False\<rparr> tr \<le> t + gmtOffset l) (transitions data)
      = filter (\<lambda>tr. tkey \<lparr>compareGmt = True\<rparr> tr \<le> t) (transitions data)"
    using clear by (intro filter_cong) (auto simp: tkey_def)
  then have "in_force data \<lparr>compareGmt = False\<rparr> (t + gmtOffset l) = l" by (simp add: in_force_def l(1))
  then have "fromLocalTime gmtime_r timegm (Some data) out = Inr t"
    using to by (simp add: fromLocalTime_def findLocaltime_in_force z sec tkey_def Let_def dst)
  then show ?thesis using to by simp
qed

end

text \<open>The class's own conversions fulfil the contract of the C library's.\<close>

lemma fromUtcTime_adorned: "fromUtcTime (t\<lparr>tm_isdst := b, tm_gmtoff := off, tm_zone := z\<rparr>) = fromUtcTime t"
  by (simp add: fromUtcTime_def)

interpretation utc: libc_time "\<lambda>s. toUtcTime s False" fromUtcTime first_second
  by unfold_locales (simp_all add: fromUtcTime_toUtcTime fromUtcTime_adorned)

text \<open>A zone with a fixed offset.\<close>

lemma fixed_zone:
  "zone_ok (the (TimeZone_fixed off n))" "ascending cmp (the (TimeZone_fixed off n))"
  "in_force (the (TimeZone_fixed off n)) cmp k = \<lparr>gmtOffset = off, isDst = False, arrbIdx = 0\<rparr>"
  by (simp_all add: TimeZone_fixed_def Data_ctor_def zone_ok_def ascending_def in_force_def)

section \<open>Reading zone files\<close>

text \<open>What the reader leaves behind is a table whose entries are in range, whatever the file holds and wherever
  the reader stops.\<close>

definition table_ok :: "Data \<Rightarrow> bool" where
  "table_ok data = (\<forall>t \<in> set (transitions data). localtimeIdx t < length (localtimes data)
     \<and> tr_localtime t = gmttime t + gmtOffset (localtimes data ! localtimeIdx t))"

lemma read_localtimes_transitions: "transitions (fst (read_localtimes n data s)) = transitions data"
  by (induction n arbitrary: data s) (auto split: sum.splits)

lemma push_transitions_table: "table_ok data \<Longrightarrow> push_transitions ts data = Inr data' \<Longrightarrow> table_ok data'"
proof (induction ts arbitrary: data)
  case (Cons t ts)
  then have i: "snd t < length (localtimes data)" by (simp add: Let_def split: if_splits)
  have "table_ok (data\<lparr>transitions := transitions data @ [\<lparr>gmttime = fst t,
      tr_localtime = fst t + gmtOffset (localtimes data ! snd t), localtimeIdx = snd t\<rparr>]\<rparr>)"
    using Cons.prems(1) i by (auto simp: table_ok_def)
  then show ?case using Cons i by (simp add: Let_def)
qed simp

lemma table_ok_empty: "transitions d = [] \<Longrightarrow> table_ok d"
  by (simp add: table_ok_def)

lemma read_localtimes_table:
  "transitions data = [] \<Longrightarrow> read_localtimes n data s = (d, r) \<Longrightarrow> table_ok d"
  using read_localtimes_transitions [of n data s] by (simp add: table_ok_empty)

lemma table_ok_abbreviation: "table_ok (d\<lparr>data_abbreviation := a\<rparr>) = table_ok d"
  by (simp add: table_ok_def)

lemma read_body_table:
  assumes "transitions data = []" "read_body s data = (data', r)"
  shows "table_ok data'"
proof (cases "bindF read_head (\<lambda>h. bindF (read_times h) (\<lambda>t. returnF (h, t))) s")
  case (Inl e)
  then show ?thesis using assms by (simp add: read_body_def table_ok_empty)
next
  case (Inr x)
  obtain h ts idx s1 where x: "x = ((h, ts, idx), s1)" by (metis prod.collapse)
  obtain d1 r1 where d1: "read_localtimes (nat (typecnt h)) data s1 = (d1, r1)" by (metis prod.collapse)
  note t1 = read_localtimes_table [OF assms(1) d1]
  show ?thesis
  proof (cases r1)
    case (Inr s2)
    show ?thesis
    proof (cases "push_transitions (zip ts idx) d1")
      case (Inr d2)
      note t2 = push_transitions_table [OF t1 Inr]
      then show ?thesis using assms(2) \<open>r1 = Inr s2\<close> \<open>bindF _ _ s = Inr x\<close> x d1 Inr
        by (cases "readBytes (charcnt h) s2") (auto simp: read_body_def table_ok_abbreviation)
    qed (use assms(2) t1 Inr \<open>bindF _ _ s = Inr x\<close> x d1 in \<open>simp add: read_body_def\<close>)
  qed (use assms(2) t1 \<open>bindF _ _ s = Inr x\<close> x d1 in \<open>simp add: read_body_def\<close>)
qed

lemma TimeZone_file_table:
  assumes "TimeZone_file f = Inr z"
  obtains data where "z = Some data" "table_ok data"
proof (cases f)
  case None
  then show thesis using assms that by (auto simp: TimeZone_file_def readTimeZoneFile_def table_ok_def Data_ctor_def)
next
  case (Some s)
  obtain data r where b: "read_body s Data_ctor = (data, r)" by (cases "read_body s Data_ctor")
  have "table_ok data" by (rule read_body_table [OF _ b]) (simp add: Data_ctor_def)
  moreover have "z = Some data" using assms Some b
    by (auto simp: TimeZone_file_def readTimeZoneFile_def split: sum.splits exn.splits)
  ultimately show thesis using that by blast
qed

text \<open>A well-formed file, written down from the tables, is read back as these tables.\<close>

definition int32_bytes :: "32 word \<Rightarrow> string" where "int32_bytes x = be_bytes 4 (unat x)"

definition type_bytes :: "32 word \<times> bool \<times> nat \<Rightarrow> string" where
  "type_bytes l = int32_bytes (fst l) @ [char_of (if fst (snd l) then 1 else (0::nat)), char_of (snd (snd l))]"

definition zone_bytes ::
  "char \<Rightarrow> string \<Rightarrow> 32 word \<Rightarrow> 32 word \<Rightarrow> 32 word \<Rightarrow> (32 word \<times> nat) list \<Rightarrow> (32 word \<times> bool \<times> nat) list \<Rightarrow> string \<Rightarrow> string" where
  "zone_bytes version reserved gmt std leap ts ls abbr =
     ''TZif'' @ [version] @ reserved @ int32_bytes gmt @ int32_bytes std @ int32_bytes leap
     @ int32_bytes (word_of_nat (length ts)) @ int32_bytes (word_of_nat (length ls)) @ int32_bytes (word_of_nat (length abbr))
     @ concat (map (\<lambda>t. int32_bytes (fst t)) ts) @ concat (map (\<lambda>t. [char_of (snd t)]) ts)
     @ concat (map type_bytes ls) @ abbr"

definition Localtime_of :: "32 word \<times> bool \<times> nat \<Rightarrow> Localtime" where
  "Localtime_of l = \<lparr>gmtOffset = sint (fst l), isDst = fst (snd l), arrbIdx = snd (snd l)\<rparr>"

definition Transition_of :: "(32 word \<times> bool \<times> nat) list \<Rightarrow> 32 word \<times> nat \<Rightarrow> Transition" where
  "Transition_of ls t = \<lparr>gmttime = sint (fst t), tr_localtime = sint (fst t) + sint (fst (ls ! snd t)), localtimeIdx = snd t\<rparr>"

lemma readInt32_ok: "readInt32 (int32_bytes x @ r) = Inr (x, r)"
  by (simp add: readInt32_def int32_bytes_def ntoh32_be_bytes)

lemma readUInt8_ok: "n < 256 \<Longrightarrow> readUInt8 (char_of n # r) = Inr (n, r)"
  by (simp add: readUInt8_def)

lemma readBytes_ok: "int (length b) = n \<Longrightarrow> readBytes n (b @ r) = Inr (b, r)"
  by (auto simp: readBytes_def)

lemma read_many_ok:
  assumes "\<And>x r. x \<in> set xs \<Longrightarrow> m (enc x @ r) = Inr (dec x, r)"
  shows "read_many (length xs) m (concat (map enc xs) @ r) = Inr (map dec xs, r)"
  using assms by (induction xs) (simp_all add: returnF_def bindF_def)

lemma read_localtimes_ok:
  assumes "\<forall>l \<in> set ls. snd (snd l) < 256"
  shows "read_localtimes (length ls) data (concat (map type_bytes ls) @ r)
    = (data\<lparr>localtimes := localtimes data @ map Localtime_of ls\<rparr>, Inr r)"
  using assms
proof (induction ls arbitrary: data)
  case (Cons l ls)
  have "read_localtime (type_bytes l @ q) = Inr (Localtime_of l, q)" for q
    using Cons.prems by (simp add: read_localtime_def type_bytes_def bindF_def returnF_def readInt32_ok readUInt8_ok Localtime_of_def)
  then show ?case using Cons by simp
qed simp

lemma push_transitions_ok:
  assumes "\<forall>t \<in> set ts. snd t < length ls" "localtimes data = map Localtime_of ls"
  shows "push_transitions (map (\<lambda>t. (sint (fst t), snd t)) ts) data = Inr (data\<lparr>transitions := transitions data @ map (Transition_of ls) ts\<rparr>)"
  using assms by (induction ts arbitrary: data) (simp_all add: Let_def Transition_of_def Localtime_of_def)

lemma read_head_ok:
  assumes "length reserved = 15"
  shows "read_head (''TZif'' @ [version] @ reserved @ int32_bytes a @ int32_bytes b @ int32_bytes c
      @ int32_bytes d @ int32_bytes e @ int32_bytes f @ r)
    = Inr (\<lparr>isgmtcnt = sint a, isstdcnt = sint b, leapcnt = sint c, timecnt = sint d, typecnt = sint e, charcnt = sint f\<rparr>, r)"
proof -
  have "readBytes 4 (''TZif'' @ q) = Inr (''TZif'', q)" for q by (rule readBytes_ok) simp
  moreover have "readBytes 1 ([version] @ q) = Inr ([version], q)" for q by (rule readBytes_ok) simp
  moreover have "readBytes 15 (reserved @ q) = Inr (reserved, q)" for q using assms by (intro readBytes_ok) simp
  ultimately show ?thesis by (simp only: read_head_def bindF_def returnF_def readInt32_ok sum.case prod.case not_not refl if_True if_False simp_thms)
qed

lemma read_times_ok:
  assumes "timecnt h = int (length ts)" "\<forall>t \<in> set ts. snd t < 256"
  shows "read_times h (concat (map (\<lambda>t. int32_bytes (fst t)) ts) @ concat (map (\<lambda>t. [char_of (snd t)]) ts) @ r)
    = Inr ((map (\<lambda>t. sint (fst t)) ts, map snd ts), r)"
proof -
  have "read_many (length ts) (bindF readInt32 (\<lambda>x. returnF (sint x))) (concat (map (\<lambda>t. int32_bytes (fst t)) ts) @ q)
      = Inr (map (\<lambda>t. sint (fst t)) ts, q)" for q
    by (rule read_many_ok) (simp add: bindF_def returnF_def readInt32_ok)
  moreover have "read_many (length ts) readUInt8 (concat (map (\<lambda>t. [char_of (snd t)]) ts) @ q) = Inr (map snd ts, q)" for q
    using assms(2) by (intro read_many_ok) (simp add: readUInt8_ok)
  ultimately show ?thesis using assms(1) by (simp add: read_times_def reserve_def bindF_def returnF_def)
qed

definition zone_counts_ok :: "string \<Rightarrow> (32 word \<times> nat) list \<Rightarrow> (32 word \<times> bool \<times> nat) list \<Rightarrow> string \<Rightarrow> bool" where
  "zone_counts_ok reserved ts ls abbr = (length reserved = 15 \<and> length ts < 2 ^ 31 \<and> length ls < 2 ^ 31 \<and> length abbr < 2 ^ 31
     \<and> (\<forall>t \<in> set ts. snd t < 256 \<and> snd t < length ls) \<and> (\<forall>l \<in> set ls. snd (snd l) < 256))"

lemma read_zone:
  assumes "zone_counts_ok reserved ts ls abbr"
  shows "read_body (zone_bytes version reserved gmt std leap ts ls abbr @ rest) Data_ctor
    = (\<lparr>transitions = map (Transition_of ls) ts, localtimes = map Localtime_of ls, names = [], data_abbreviation = abbr\<rparr>, Inr ())"
proof -
  note A = assms [unfolded zone_counts_ok_def]
  define h where "h = \<lparr>isgmtcnt = sint gmt, isstdcnt = sint std, leapcnt = sint leap, timecnt = int (length ts),
     typecnt = int (length ls), charcnt = int (length abbr)\<rparr>"
  define r where "r = concat (map (\<lambda>t. int32_bytes (fst t)) ts) @ concat (map (\<lambda>t. [char_of (snd t)]) ts)
     @ concat (map type_bytes ls) @ abbr @ rest"
  have 1: "read_head (zone_bytes version reserved gmt std leap ts ls abbr @ rest) = Inr (h, r)"
    using read_head_ok [of reserved version gmt std leap "word_of_nat (length ts)" "word_of_nat (length ls)" "word_of_nat (length abbr)" r] A
    by (simp add: zone_bytes_def h_def r_def sint_of_nat)
  have 2: "read_times h r = Inr ((map (\<lambda>t. sint (fst t)) ts, map snd ts), concat (map type_bytes ls) @ abbr @ rest)"
    unfolding r_def using A by (intro read_times_ok) (auto simp: h_def)
  have 3: "read_localtimes (nat (typecnt h)) Data_ctor (concat (map type_bytes ls) @ abbr @ rest)
      = (Data_ctor\<lparr>localtimes := map Localtime_of ls\<rparr>, Inr (abbr @ rest))"
    using read_localtimes_ok [of ls Data_ctor "abbr @ rest"] A by (simp add: h_def Data_ctor_def)
  have z: "zip (map (\<lambda>t. sint (fst t)) ts) (map snd ts) = map (\<lambda>t. (sint (fst t), snd t)) ts" by (induction ts) simp_all
  have 4: "push_transitions (zip (map (\<lambda>t. sint (fst t)) ts) (map snd ts)) (Data_ctor\<lparr>localtimes := map Localtime_of ls\<rparr>)
      = Inr (Data_ctor\<lparr>localtimes := map Localtime_of ls, transitions := map (Transition_of ls) ts\<rparr>)"
    using push_transitions_ok [of ts ls "Data_ctor\<lparr>localtimes := map Localtime_of ls\<rparr>"] A unfolding z by (simp add: Data_ctor_def)
  have 5: "readBytes (charcnt h) (abbr @ rest) = Inr (abbr, rest)" by (rule readBytes_ok) (simp add: h_def)
  show ?thesis unfolding read_body_def bindF_def 1 sum.case prod.case 2 returnF_def 3 4 5 by (simp add: Data_ctor_def)
qed

section \<open>Properties\<close>

text \<open>C25. Dates: from the first day of the algorithm's calendar on (1 March of the year -4800), \<open>getYearMonthDay\<close> delivers
  a date of the Gregorian calendar whose Julian day number is the one given, \<open>getYearMonthDay\<close> undoes
  \<open>getJulianDayNumber\<close> on every date of the calendar, and the next date of the calendar has the next number.\<close>

theorem calendar_exact:
  fixes x :: YearMonthDay and j :: int
  assumes "- 32044 \<le> j" "is_date x" "- 4799 \<le> ymd_year x"
  shows "is_date (getYearMonthDay j)
    \<and> getJulianDayNumber (ymd_year (getYearMonthDay j)) (ymd_month (getYearMonthDay j)) (ymd_day (getYearMonthDay j)) = j
    \<and> getYearMonthDay (getJulianDayNumber (ymd_year x) (ymd_month x) (ymd_day x)) = x
    \<and> getJulianDayNumber (ymd_year (next_day x)) (ymd_month (next_day x)) (ymd_day (next_day x))
        = getJulianDayNumber (ymd_year x) (ymd_month x) (ymd_day x) + 1"
  using ymd_of_julian [OF assms(1)] julian_of_ymd(1) [OF assms(2,3)] julian_next_day [OF assms(2,3)]
  unfolding julian_day_def by blast

theorem calendar_exact_witness:
  "getYearMonthDay (getJulianDayNumber 2000 2 29) = \<lparr>ymd_year = 2000, ymd_month = 2, ymd_day = 29\<rparr>
   \<and> is_date (getYearMonthDay 2440588)
   \<and> getJulianDayNumber 2000 3 1 = getJulianDayNumber 2000 2 29 + 1"
proof -
  let ?x = "\<lparr>ymd_year = 2000, ymd_month = 2, ymd_day = 29\<rparr>"
  have x: "is_date ?x" "next_day ?x = \<lparr>ymd_year = 2000, ymd_month = 3, ymd_day = 1\<rparr>"
    by (simp_all add: is_date_def month_length_def is_leap_def next_day_def)
  show ?thesis using calendar_exact [of 2440588 ?x] x by simp
qed

text \<open>C27. UTC times: \<open>fromUtcTime\<close> undoes \<open>toUtcTime\<close>, whose fields are always a date of the calendar and a time
  of day; and for such fields \<open>toUtcTime\<close> undoes \<open>fromUtcTime\<close>.\<close>

theorem utc_roundtrip:
  assumes "first_second \<le> s" "is_date (tm_date t)" "clock_ok t" "- 4799 \<le> ymd_year (tm_date t)"
  shows "fromUtcTime (toUtcTime s yday) = s \<and> is_date (tm_date (toUtcTime s yday)) \<and> clock_ok (toUtcTime s yday)
    \<and> tm_date (toUtcTime (fromUtcTime t) yday) = tm_date t
    \<and> tm_hour (toUtcTime (fromUtcTime t) yday) = tm_hour t \<and> tm_min (toUtcTime (fromUtcTime t) yday) = tm_min t
    \<and> tm_sec (toUtcTime (fromUtcTime t) yday) = tm_sec t"
  using fromUtcTime_toUtcTime [OF assms(1)] ymd_of_julian(1) [OF first_second_day [OF assms(1)]]
    toUtcTime_clock(1) [of s yday] toUtcTime_fromUtcTime(1) [OF assms(2,3,4)] toUtcTime_fromUtcTime_clock [OF assms(2,3,4)]
  by (simp add: toUtcTime_date)

theorem utc_roundtrip_witness:
  "fromUtcTime (toUtcTime (- 1) True) = - 1
   \<and> tm_hour (toUtcTime (fromUtcTime (tm_zero\<lparr>tm_year := 100, tm_mon := 1, tm_mday := 29, tm_hour := 23\<rparr>)) True) = 23"
  using utc_roundtrip [of "- 1" "tm_zero\<lparr>tm_year := 100, tm_mon := 1, tm_mday := 29, tm_hour := 23\<rparr>" True]
  by (simp add: first_second_def tm_date_def tm_zero_def clock_ok_def is_date_def month_length_def is_leap_def)

text \<open>The local time type in force: on a table in ascending order, the binary search of \<open>findLocaltime\<close> finds the
  type of the last transition that is not after the given time, the first type when there is none. The
  assertion in it holds.\<close>

theorem findLocaltime_exact:
  assumes "zone_ok data" "ascending cmp data"
  shows "findLocaltime data sentry cmp = Inr (in_force data cmp (tkey cmp sentry))"
  using assms by (rule findLocaltime_in_force)

theorem findLocaltime_exact_witness:
  "findLocaltime \<lparr>transitions = [\<lparr>gmttime = 10, tr_localtime = 13, localtimeIdx = 1\<rparr>, \<lparr>gmttime = 20, tr_localtime = 22, localtimeIdx = 0\<rparr>],
      localtimes = [\<lparr>gmtOffset = 2, isDst = False, arrbIdx = 0\<rparr>, \<lparr>gmtOffset = 3, isDst = True, arrbIdx = 4\<rparr>],
      names = [], data_abbreviation = []\<rparr> \<lparr>gmttime = 15, tr_localtime = 0, localtimeIdx = 0\<rparr> \<lparr>compareGmt = True\<rparr>
   = Inr \<lparr>gmtOffset = 3, isDst = True, arrbIdx = 4\<rparr>"
  by (subst findLocaltime_exact) (simp_all add: zone_ok_def ascending_def tkey_def in_force_def)

text \<open>Local times: when the clock's changes do not make the local time ambiguous, \<open>fromLocalTime\<close> delivers the
  instant \<open>toLocalTime\<close> was given, for any \<^verbatim>\<open>gmtime_r\<close> and \<^verbatim>\<open>timegm\<close> that are inverse to each other.\<close>

theorem zone_roundtrip:
  assumes libc: "libc_time gmtime_r timegm lo"
    and "zone_ok data" "ascending \<lparr>compareGmt = True\<rparr> data" "ascending \<lparr>compareGmt = False\<rparr> data"
    and "l = in_force data \<lparr>compareGmt = True\<rparr> t" "arrbIdx l \<le> length (data_abbreviation data)" "lo \<le> t + gmtOffset l"
    and "\<forall>tr \<in> set (transitions data). gmttime tr \<le> t \<longleftrightarrow> tr_localtime tr \<le> t + gmtOffset l"
  shows "bindR (toLocalTime gmtime_r (Some data) t) (fromLocalTime gmtime_r timegm (Some data)) = Inr t"
  by (rule libc_time.local_roundtrip [OF libc assms(2-8)])

theorem zone_roundtrip_witness:
  "bindR (toLocalTime (\<lambda>s. toUtcTime s False) (TimeZone_fixed 28800 ''CST'') 0)
     (fromLocalTime (\<lambda>s. toUtcTime s False) fromUtcTime (TimeZone_fixed 28800 ''CST'')) = Inr 0"
proof -
  have z: "TimeZone_fixed 28800 ''CST'' = Some (the (TimeZone_fixed 28800 ''CST''))" by (simp add: TimeZone_fixed_def)
  have "bindR (toLocalTime (\<lambda>s. toUtcTime s False) (Some (the (TimeZone_fixed 28800 ''CST''))) 0)
     (fromLocalTime (\<lambda>s. toUtcTime s False) fromUtcTime (Some (the (TimeZone_fixed 28800 ''CST'')))) = Inr 0"
    by (rule zone_roundtrip [OF utc.libc_time_axioms fixed_zone(1,2,2) refl])
      (simp_all add: fixed_zone(3), simp_all add: TimeZone_fixed_def Data_ctor_def first_second_def)
  then show ?thesis using z by simp
qed

text \<open>Zone files: a file with consistent counts and indexes is read as exactly the tables it holds.\<close>

theorem zone_file_roundtrip:
  assumes "zone_counts_ok reserved ts ls abbr"
  shows "TimeZone_file (Some (zone_bytes version reserved gmt std leap ts ls abbr @ rest))
    = Inr (Some \<lparr>transitions = map (Transition_of ls) ts, localtimes = map Localtime_of ls, names = [], data_abbreviation = abbr\<rparr>)"
  using read_zone [OF assms] by (simp add: TimeZone_file_def readTimeZoneFile_def)

theorem zone_file_roundtrip_witness:
  "TimeZone_file (Some (zone_bytes (CHR ''2'') (replicate 15 (CHR 0x00)) 0 0 0 [(5, 0)] [(28800, False, 0)] ''CST'' @ []))
   = Inr (Some \<lparr>transitions = [Transition_of [(28800, False, 0)] (5, 0)], localtimes = [Localtime_of (28800, False, 0)], names = [], data_abbreviation = ''CST''\<rparr>)"
  by (subst zone_file_roundtrip) (simp_all add: zone_counts_ok_def)

text \<open>A zone whose file cannot be opened counts as valid, and the first conversion reads past the end of its empty
  table.\<close>

theorem unreadable_zone_is_valid:
  assumes "TimeZone_file None = Inr z"
  shows "TimeZone_valid z \<and> toLocalTime g z t = Inl OutOfBounds"
  using assms
  by (auto simp: TimeZone_file_def readTimeZoneFile_def TimeZone_valid_def toLocalTime_def findLocaltime_def nthR_def Data_ctor_def)

theorem unreadable_zone_is_valid_witness:
  "TimeZone_valid (Some Data_ctor) \<and> toLocalTime (\<lambda>s. toUtcTime s False) (Some Data_ctor) 7 = Inl OutOfBounds"
  by (rule unreadable_zone_is_valid) (simp add: TimeZone_file_def readTimeZoneFile_def)

text \<open>C37. Whatever bytes a zone file holds: if reading it does not itself run out of range, every transition of the
  resulting table refers to an existing type, and its local time is its UTC time plus that type's offset.\<close>

theorem zone_table_in_range:
  assumes "TimeZone_file f = Inr z"
  shows "\<exists>data. z = Some data \<and> table_ok data"
  using TimeZone_file_table [OF assms] by blast

theorem zone_table_in_range_witness:
  "\<exists>data. Some Data_ctor = Some data \<and> table_ok data"
  by (rule zone_table_in_range [of "Some ''TZxx''"])
    (simp add: TimeZone_file_def readTimeZoneFile_def read_body_def bindF_def read_head_def readBytes_def throwF_def)

end
