(* ===== verification/Base_AsyncLog.thy ===== *)
theory Base_AsyncLog
  imports Base_LogStream Step_System
begin

text \<open>
  \<^verbatim>\<open>base/FileUtil.cc\<close> (the appending file), \<^verbatim>\<open>base/LogFile.cc\<close> and \<^verbatim>\<open>base/AsyncLogging.cc\<close>: log lines of any number of threads
  are collected in buffers under a mutex, a background thread writes the buffers to a log file, and the log
  file starts a new file when the old one is large enough or a day has passed. The answers of \<^verbatim>\<open>fwrite\<close>, of
  \<^verbatim>\<open>time\<close> and of \<^verbatim>\<open>strftime\<close> are arguments.
\<close>

section \<open>The appending file\<close>

text \<open>The file system as a list of names and contents in the order in which the files were made; \<open>af_name\<close> is the
  file a stream is open on.\<close>

type_synonym file_system = "(string \<times> string) list"

record AppendFile =
  af_name :: string
  af_writtenBytes :: nat

definition fs_append :: "string \<Rightarrow> string \<Rightarrow> file_system \<Rightarrow> file_system" where
  "fs_append name d fs = map (\<lambda>f. if fst f = name then (fst f, snd f @ d) else f) fs"

text \<open>\<^verbatim>\<open>fopen(\<dots>, "ae")\<close> makes the file when it does not exist.\<close>

definition AppendFile_ctor :: "string \<Rightarrow> file_system \<Rightarrow> AppendFile \<times> file_system" where
  "AppendFile_ctor filename fs =
     (\<lparr>af_name = filename, af_writtenBytes = 0\<rparr>, if filename \<in> fst ` set fs then fs else fs @ [(filename, [])])"

text \<open>\<open>ws\<close> are the numbers of bytes the calls of \<^verbatim>\<open>fwrite_unlocked\<close> report, at most what they were given; a call beyond the
  list fails.\<close>

primrec append_rest :: "nat list \<Rightarrow> string \<Rightarrow> string" where
  "append_rest [] rest = []"
| "append_rest (x # ws) rest =
     (if rest = [] then []
      else let x = min x (length rest) in if x = 0 then [] else take x rest @ append_rest ws (drop x rest))"

definition AppendFile_append :: "nat list \<Rightarrow> string \<Rightarrow> AppendFile \<Rightarrow> file_system \<Rightarrow> AppendFile \<times> file_system" where
  "AppendFile_append ws logline f fs =
     (let n = (case ws of [] \<Rightarrow> 0 | x # _ \<Rightarrow> min x (length logline));
          written = take n logline @ append_rest (tl ws) (drop n logline)
      in (f\<lparr>af_writtenBytes := af_writtenBytes f + length logline\<rparr>, fs_append (af_name f) written fs))"

section \<open>The log file\<close>

record LogFile =
  lf_basename :: string
  lf_rollSize :: nat
  lf_flushInterval :: int
  lf_checkEveryN :: int
  lf_count :: int
  lf_startOfPeriod :: int
  lf_lastRoll :: int
  lf_lastFlush :: int
  lf_file :: "AppendFile option"

definition kRollPerSeconds :: int where "kRollPerSeconds = 60 * 60 * 24"

text \<open>\<open>timebuf\<close> is the text \<^verbatim>\<open>gmtime_r\<close> and \<^verbatim>\<open>strftime\<close> make of a time.\<close>

definition getLogFileName :: "(int \<Rightarrow> string) \<Rightarrow> string \<Rightarrow> int \<Rightarrow> string \<Rightarrow> int \<Rightarrow> string" where
  "getLogFileName timebuf hostname pid basename now = basename @ timebuf now @ hostname @ snprintf 32 (''.'' @ dec_int pid) @ ''.log''"

definition rollFile :: "(int \<Rightarrow> string) \<Rightarrow> string \<Rightarrow> int \<Rightarrow> int \<Rightarrow> LogFile \<Rightarrow> file_system \<Rightarrow> (bool \<times> LogFile) \<times> file_system" where
  "rollFile timebuf hostname pid now l fs =
     (let filename = getLogFileName timebuf hostname pid (lf_basename l) now;
          start = cdiv now kRollPerSeconds * kRollPerSeconds
      in if lf_lastRoll l < now
         then let (f, fs) = AppendFile_ctor filename fs
              in ((True, l\<lparr>lf_lastRoll := now, lf_lastFlush := now, lf_startOfPeriod := start, lf_file := Some f\<rparr>), fs)
         else ((False, l), fs))"

definition LogFile_ctor :: "(int \<Rightarrow> string) \<Rightarrow> string \<Rightarrow> int \<Rightarrow> int \<Rightarrow> string \<Rightarrow> nat \<Rightarrow> int \<Rightarrow> int \<Rightarrow> file_system \<Rightarrow> (LogFile \<times> file_system) result" where
  "LogFile_ctor timebuf hostname pid now basename rollSize flushInterval checkEveryN fs =
     assertR ''basename.find('/') == string::npos'' (CHR ''/'' \<notin> set basename)
       (let l = \<lparr>lf_basename = basename, lf_rollSize = rollSize, lf_flushInterval = flushInterval, lf_checkEveryN = checkEveryN,
                 lf_count = 0, lf_startOfPeriod = 0, lf_lastRoll = 0, lf_lastFlush = 0, lf_file = None\<rparr>;
            ((_, l), fs) = rollFile timebuf hostname pid now l fs
        in Inr (l, fs))"

text \<open>\<open>now\<close> is the time \<open>append_unlocked\<close> reads, \<open>now'\<close> the one \<open>rollFile\<close> reads after it. Flushing moves bytes the file already counts.\<close>

definition append_unlocked ::
  "(int \<Rightarrow> string) \<Rightarrow> string \<Rightarrow> int \<Rightarrow> int \<Rightarrow> int \<Rightarrow> nat list \<Rightarrow> string \<Rightarrow> LogFile \<Rightarrow> file_system \<Rightarrow> (LogFile \<times> file_system) result" where
  "append_unlocked timebuf hostname pid now now' ws logline l fs =
     (case lf_file l of
        None \<Rightarrow> Inl DanglingPointer
      | Some f \<Rightarrow>
          let (f, fs) = AppendFile_append ws logline f fs; l = l\<lparr>lf_file := Some f\<rparr> in
          if lf_rollSize l < af_writtenBytes f
          then let ((_, l), fs) = rollFile timebuf hostname pid now' l fs in Inr (l, fs)
          else let l = l\<lparr>lf_count := lf_count l + 1\<rparr> in
            if lf_checkEveryN l \<le> lf_count l
            then let l = l\<lparr>lf_count := 0\<rparr>; thisPeriod = cdiv now kRollPerSeconds * kRollPerSeconds in
                 if thisPeriod \<noteq> lf_startOfPeriod l
                 then let ((_, l), fs) = rollFile timebuf hostname pid now' l fs in Inr (l, fs)
                 else if lf_flushInterval l < now - lf_lastFlush l then Inr (l\<lparr>lf_lastFlush := now\<rparr>, fs) else Inr (l, fs)
            else Inr (l, fs))"

definition LogFile_append ::
  "(int \<Rightarrow> string) \<Rightarrow> string \<Rightarrow> int \<Rightarrow> int \<Rightarrow> int \<Rightarrow> nat list \<Rightarrow> string \<Rightarrow> LogFile \<Rightarrow> file_system \<Rightarrow> (LogFile \<times> file_system) result" where
  "LogFile_append timebuf hostname pid now now' ws logline l fs = append_unlocked timebuf hostname pid now now' ws logline l fs"

section \<open>The asynchronous log\<close>

text \<open>Where the background thread is: at the head of its loop, in the timed wait, outside the critical section with buffers to
  write, or at its end.\<close>

datatype log_pc = LHead | LWait | LWrite | LDone

record AsyncLogging =
  al_running :: bool
  al_current :: FixedBuffer
  al_next :: "FixedBuffer option"
  al_buffers :: "FixedBuffer list"
  al_newBuffer1 :: "FixedBuffer option"
  al_newBuffer2 :: "FixedBuffer option"
  al_buffersToWrite :: "FixedBuffer list"
  al_output :: "string list"      \<comment> \<open>what was given to the log file\<close>
  al_pc :: log_pc
  al_accepted :: string           \<comment> \<open>the lines put into a buffer, in order\<close>
  al_dropped :: nat               \<comment> \<open>buffers thrown away\<close>

text \<open>\<open>blank\<close> is the memory of a new buffer.\<close>

definition new_buffer :: "string \<Rightarrow> FixedBuffer" where "new_buffer blank = FixedBuffer_ctor blank"

text \<open>The log after its constructor, \<open>start\<close> and the local variables of \<open>threadFunc\<close>.\<close>

definition AsyncLogging_start :: "string \<Rightarrow> AsyncLogging" where
  "AsyncLogging_start blank = \<lparr>al_running = True, al_current = fb_bzero (new_buffer blank), al_next = Some (fb_bzero (new_buffer blank)), al_buffers = [],
     al_newBuffer1 = Some (fb_bzero (new_buffer blank)), al_newBuffer2 = Some (fb_bzero (new_buffer blank)), al_buffersToWrite = [],
     al_output = [], al_pc = LHead, al_accepted = [], al_dropped = 0\<rparr>"

definition AsyncLogging_append :: "string \<Rightarrow> string \<Rightarrow> AsyncLogging \<Rightarrow> AsyncLogging result" where
  "AsyncLogging_append blank logline s =
     (if length logline < fb_avail (al_current s)
      then bindR (FixedBuffer_append logline (al_current s)) (\<lambda>b.
             Inr (s\<lparr>al_current := b, al_accepted := al_accepted s @ logline\<rparr>))
      else
        let (cur, next) = (case al_next s of Some b \<Rightarrow> (b, None) | None \<Rightarrow> (new_buffer blank, None)) in
        bindR (FixedBuffer_append logline cur) (\<lambda>b.
          Inr (s\<lparr>al_buffers := al_buffers s @ [al_current s], al_current := b, al_next := next,
                 al_accepted := al_accepted s @ (if length logline < fb_avail cur then logline else [])\<rparr>)))"

definition log_stop :: "AsyncLogging \<Rightarrow> AsyncLogging" where
  "log_stop s = s\<lparr>al_running := False\<rparr>"

text \<open>The head of the loop: the test of \<^verbatim>\<open>running_\<close>, the assertions, and the entry into the critical section.\<close>

definition is_empty_buffer :: "FixedBuffer option \<Rightarrow> bool" where
  "is_empty_buffer b = (case b of Some b \<Rightarrow> fb_length b = 0 | None \<Rightarrow> False)"

text \<open>The end of the critical section, after the wait if there was one. Dereferencing a null buffer faults.\<close>

definition log_swap :: "AsyncLogging \<Rightarrow> AsyncLogging result" where
  "log_swap s =
     (case al_newBuffer1 s of
        None \<Rightarrow> Inl DanglingPointer
      | Some n1 \<Rightarrow>
          let (next, n2) = (case al_next s of None \<Rightarrow> (al_newBuffer2 s, None) | Some b \<Rightarrow> (Some b, al_newBuffer2 s))
          in Inr (s\<lparr>al_buffersToWrite := al_buffers s @ [al_current s], al_buffers := [], al_current := n1, al_next := next,
                    al_newBuffer1 := None, al_newBuffer2 := n2, al_pc := LWrite\<rparr>))"

definition log_head :: "AsyncLogging \<Rightarrow> AsyncLogging result" where
  "log_head s =
     (if \<not> al_running s then Inr (s\<lparr>al_pc := LDone\<rparr>)
      else assertR ''newBuffer1 && newBuffer1->length() == 0'' (is_empty_buffer (al_newBuffer1 s))
       (assertR ''newBuffer2 && newBuffer2->length() == 0'' (is_empty_buffer (al_newBuffer2 s))
       (assertR ''buffersToWrite.empty()'' (al_buffersToWrite s = [])
         (if al_buffers s = [] then Inr (s\<lparr>al_pc := LWait\<rparr>) else log_swap s))))"

text \<open>\<open>refill new bs\<close>: a null \<open>newBuffer\<close> is replaced by the last of the buffers written.\<close>

definition refill :: "FixedBuffer option \<Rightarrow> FixedBuffer list \<Rightarrow> (FixedBuffer option \<times> FixedBuffer list) result" where
  "refill new bs =
     (case new of
        Some b \<Rightarrow> Inr (Some b, bs)
      | None \<Rightarrow> assertR ''!buffersToWrite.empty()'' (bs \<noteq> []) (Inr (Some (fb_reset (last bs)), butlast bs)))"

text \<open>\<open>notice\<close> is the line that reports dropped buffers.\<close>

definition log_write :: "string \<Rightarrow> AsyncLogging \<Rightarrow> AsyncLogging result" where
  "log_write notice s =
     assertR ''!buffersToWrite.empty()'' (al_buffersToWrite s \<noteq> [])
     (let many = 25 < length (al_buffersToWrite s);
          bs = (if many then take 2 (al_buffersToWrite s) else al_buffersToWrite s);
          out = al_output s @ (if many then [notice] else []) @ map fb_toString bs;
          dropped = al_dropped s + (length (al_buffersToWrite s) - length bs);
          bs = (if 2 < length bs then take 2 bs else bs)
      in bindR (refill (al_newBuffer1 s) bs) (\<lambda>(n1, bs).
         bindR (refill (al_newBuffer2 s) bs) (\<lambda>(n2, bs).
           Inr (s\<lparr>al_newBuffer1 := n1, al_newBuffer2 := n2, al_buffersToWrite := [], al_output := out, al_dropped := dropped, al_pc := LHead\<rparr>))))"

text \<open>The steps of the threads. Every buffer has the same size \<open>n\<close>, the template argument of its class
  (\<^verbatim>\<open>kLargeBuffer\<close> in the source).\<close>

inductive log_step :: "nat \<Rightarrow> AsyncLogging \<Rightarrow> AsyncLogging \<Rightarrow> bool" for n :: nat where
  log_line: "length blank = n \<Longrightarrow> AsyncLogging_append blank logline s = Inr s' \<Longrightarrow> log_step n s s'"
| log_stopped: "log_step n s (log_stop s)"
| log_headed: "al_pc s = LHead \<Longrightarrow> log_head s = Inr s' \<Longrightarrow> log_step n s s'"
| log_woken: "al_pc s = LWait \<Longrightarrow> log_swap s = Inr s' \<Longrightarrow> log_step n s s'"
| log_written: "al_pc s = LWrite \<Longrightarrow> log_write notice s = Inr s' \<Longrightarrow> log_step n s s'"

section \<open>Nothing is lost before it is dropped\<close>

definition fb_sized :: "nat \<Rightarrow> FixedBuffer \<Rightarrow> bool" where
  "fb_sized n b = (fb_ok b \<and> length (fb_data b) = n)"

definition empty_ok :: "nat \<Rightarrow> FixedBuffer option \<Rightarrow> bool" where
  "empty_ok n b = (\<forall>x. b = Some x \<longrightarrow> fb_cur x = 0 \<and> length (fb_data x) = n)"

definition log_inv :: "nat \<Rightarrow> AsyncLogging \<Rightarrow> bool" where
  "log_inv n s = (fb_sized n (al_current s) \<and> (\<forall>b \<in> set (al_buffers s @ al_buffersToWrite s). fb_sized n b)
     \<and> empty_ok n (al_next s) \<and> empty_ok n (al_newBuffer1 s) \<and> empty_ok n (al_newBuffer2 s)
     \<and> (al_next s = None \<longrightarrow> al_buffers s \<noteq> [])
     \<and> (if al_pc s = LWrite
        then al_newBuffer1 s = None \<and> al_buffersToWrite s \<noteq> [] \<and> (al_newBuffer2 s = None \<longrightarrow> 2 \<le> length (al_buffersToWrite s))
        else al_newBuffer1 s \<noteq> None \<and> al_newBuffer2 s \<noteq> None \<and> al_buffersToWrite s = [])
     \<and> (al_dropped s = 0 \<longrightarrow> al_accepted s =
          concat (al_output s) @ concat (map fb_toString (al_buffersToWrite s @ al_buffers s @ [al_current s]))))"

lemma fb_empty: "fb_cur b = 0 \<Longrightarrow> fb_ok b \<and> fb_toString b = []"
  by (simp add: fb_ok_def fb_toString_def fb_length_def)

lemma fb_empty_sized: "fb_cur b = 0 \<Longrightarrow> length (fb_data b) = n \<Longrightarrow> fb_sized n b \<and> fb_toString b = [] \<and> fb_avail b = n"
  by (simp add: fb_sized_def fb_empty fb_avail_def)

lemma fb_sized_append:
  assumes "fb_sized n b"
  shows "\<exists>b'. FixedBuffer_append m b = Inr b' \<and> fb_sized n b' \<and> fb_toString b' = fb_toString b @ (if length m < fb_avail b then m else [])"
  using FixedBuffer_append_ok [of b m] assms by (auto simp: fb_sized_def total_iff appends_def)

text \<open>A line shorter than a buffer is always accepted whole.\<close>

lemma append_ok:
  assumes inv: "log_inv n s" and blank: "length blank = n"
  shows "\<exists>s'. AsyncLogging_append blank m s = Inr s' \<and> log_inv n s'
     \<and> al_accepted s' = al_accepted s @ (if length m < n then m else []) \<and> al_dropped s' = al_dropped s"
proof (cases "length m < fb_avail (al_current s)")
  case True
  obtain b where b: "FixedBuffer_append m (al_current s) = Inr b" "fb_sized n b" "fb_toString b = fb_toString (al_current s) @ m"
    using fb_sized_append [of n "al_current s" m] inv True by (auto simp: log_inv_def)
  have "length m < n" using True inv by (simp add: log_inv_def fb_sized_def fb_avail_def)
  moreover have "log_inv n (s\<lparr>al_current := b, al_accepted := al_accepted s @ m\<rparr>)"
    using inv b(2,3) unfolding log_inv_def by (simp split: if_splits)
  ultimately show ?thesis using True b(1) by (simp add: AsyncLogging_append_def)
next
  case False
  define cur where "cur = (case al_next s of Some b \<Rightarrow> b | None \<Rightarrow> new_buffer blank)"
  have "fb_cur cur = 0" "length (fb_data cur) = n"
    using inv blank by (auto simp: cur_def log_inv_def empty_ok_def new_buffer_def FixedBuffer_ctor_def split: option.splits)
  then have cur: "fb_sized n cur" "fb_toString cur = []" "fb_avail cur = n" using fb_empty_sized by blast+
  obtain b where b: "FixedBuffer_append m cur = Inr b" "fb_sized n b" "fb_toString b = (if length m < n then m else [])"
    using fb_sized_append [OF cur(1), of m] cur(2,3) by auto
  let ?s = "s\<lparr>al_buffers := al_buffers s @ [al_current s], al_current := b, al_next := None,
      al_accepted := al_accepted s @ (if length m < n then m else [])\<rparr>"
  have "AsyncLogging_append blank m s = Inr ?s"
    using False b(1) cur(3) by (cases "al_next s") (simp_all add: AsyncLogging_append_def cur_def)
  moreover have "log_inv n ?s" using inv b(2,3) unfolding log_inv_def empty_ok_def by (simp split: if_splits)
  ultimately show ?thesis by simp
qed

lemma swap_ok:
  assumes "log_inv n s" "al_pc s \<noteq> LWrite"
  shows "\<exists>s'. log_swap s = Inr s' \<and> log_inv n s'"
proof -
  obtain n1 n2 where n: "al_newBuffer1 s = Some n1" "al_newBuffer2 s = Some n2" "fb_cur n1 = 0" "fb_cur n2 = 0"
    "length (fb_data n1) = n" "length (fb_data n2) = n"
    using assms by (auto simp: log_inv_def empty_ok_def)
  note E = fb_empty_sized [OF n(3,5)]
  show ?thesis
  proof (cases "al_next s")
    case None
    then have "al_buffers s \<noteq> []" using assms(1) by (simp add: log_inv_def)
    then have "2 \<le> length (al_buffers s @ [al_current s])" by (cases "al_buffers s") simp_all
    then show ?thesis using assms None n E unfolding log_inv_def empty_ok_def by (simp add: log_swap_def)
  next
    case (Some b)
    then show ?thesis using assms n E unfolding log_inv_def empty_ok_def by (simp add: log_swap_def)
  qed
qed

lemma head_ok:
  assumes "log_inv n s" "al_pc s = LHead"
  shows "\<exists>s'. log_head s = Inr s' \<and> log_inv n s'"
proof -
  obtain n1 n2 where n: "al_newBuffer1 s = Some n1" "al_newBuffer2 s = Some n2" "fb_cur n1 = 0" "fb_cur n2 = 0" "al_buffersToWrite s = []"
    using assms by (auto simp: log_inv_def empty_ok_def)
  have eq: "log_head s = (if \<not> al_running s then Inr (s\<lparr>al_pc := LDone\<rparr>) else if al_buffers s = [] then Inr (s\<lparr>al_pc := LWait\<rparr>) else log_swap s)"
    using n by (simp add: log_head_def is_empty_buffer_def fb_length_def)
  have "log_inv n (s\<lparr>al_pc := LDone\<rparr>)" "log_inv n (s\<lparr>al_pc := LWait\<rparr>)" using assms by (simp_all add: log_inv_def)
  then show ?thesis using eq swap_ok [OF assms(1)] assms(2) by simp
qed

lemma refill_ok:
  assumes "empty_ok n new" "new \<noteq> None \<or> bs \<noteq> []" "\<forall>b \<in> set bs. fb_sized n b"
  shows "\<exists>b. refill new bs = Inr (Some b, if new = None then butlast bs else bs) \<and> fb_cur b = 0 \<and> length (fb_data b) = n"
  using assms by (cases new) (auto simp: refill_def empty_ok_def fb_reset_def fb_sized_def)

lemma write_ok:
  assumes inv: "log_inv n s" and pc: "al_pc s = LWrite"
  shows "\<exists>s'. log_write notice s = Inr s' \<and> log_inv n s'"
proof -
  define w where "w = al_buffersToWrite s"
  have W: "al_newBuffer1 s = None" "w \<noteq> []" "al_newBuffer2 s = None \<Longrightarrow> 2 \<le> length w" "empty_ok n (al_newBuffer2 s)" "\<forall>b \<in> set w. fb_sized n b"
    using inv pc by (simp_all add: log_inv_def w_def)
  define many where "many = (25 < length w)"
  define bs where "bs = (if many then take 2 w else w)"
  define bs2 where "bs2 = (if 2 < length bs then take 2 bs else bs)"
  have b2: "bs2 = take 2 w" by (auto simp: bs2_def bs_def)
  have ne: "bs2 \<noteq> []" using W(2) by (simp add: b2)
  have sized: "\<forall>b \<in> set bs2. fb_sized n b" "\<forall>b \<in> set (butlast bs2). fb_sized n b"
    using W(5) by (auto simp: b2 dest: in_set_takeD in_set_butlastD)
  obtain x1 where x1: "refill None bs2 = Inr (Some x1, butlast bs2)" "fb_cur x1 = 0 \<and> length (fb_data x1) = n"
    using refill_ok [of n None bs2] ne sized(1) by (auto simp: empty_ok_def)
  have "al_newBuffer2 s \<noteq> None \<or> butlast bs2 \<noteq> []"
  proof (cases "al_newBuffer2 s")
    case None
    then have "length bs2 = 2" using W(3) by (simp add: b2)
    then show ?thesis by (cases bs2) auto
  qed simp
  then obtain x2 r where x2: "refill (al_newBuffer2 s) (butlast bs2) = Inr (Some x2, r)" "fb_cur x2 = 0 \<and> length (fb_data x2) = n"
    using refill_ok [OF W(4) _ sized(2)] by blast
  let ?s = "s\<lparr>al_newBuffer1 := Some x1, al_newBuffer2 := Some x2, al_buffersToWrite := [],
     al_output := al_output s @ (if many then [notice] else []) @ map fb_toString bs,
     al_dropped := al_dropped s + (length w - length bs), al_pc := LHead\<rparr>"
  have eq: "log_write notice s = Inr ?s"
    using W(1,2) x1(1) x2(1) unfolding log_write_def Let_def w_def [symmetric] many_def [symmetric] bs_def [symmetric] bs2_def [symmetric] by simp
  have "log_inv n ?s"
  proof (cases many)
    case True
    then have "length w - length bs \<noteq> 0" by (simp add: bs_def many_def)
    then show ?thesis using inv pc x1(2) x2(2) by (simp add: log_inv_def empty_ok_def)
  next
    case False
    then show ?thesis using inv pc x1(2) x2(2) by (simp add: log_inv_def empty_ok_def bs_def w_def)
  qed
  then show ?thesis using eq by blast
qed

interpretation alog: step_invariant "log_step n" "log_inv n" for n :: nat
proof
  fix s s'
  assume inv: "log_inv n s" and step: "log_step n s s'"
  from step show "log_inv n s'"
  proof cases
    case (log_line blank m)
    then show ?thesis using append_ok [OF inv, of blank m] by auto
  next
    case log_stopped
    then show ?thesis using inv by (simp add: log_stop_def log_inv_def)
  next
    case log_headed
    then show ?thesis using head_ok [OF inv] by auto
  next
    case log_woken
    then show ?thesis using swap_ok [OF inv] by auto
  next
    case (log_written notice)
    then show ?thesis using write_ok [OF inv, of notice] by auto
  qed
qed

lemma start_inv: "length blank = n \<Longrightarrow> log_inv n (AsyncLogging_start blank)"
  by (simp add: log_inv_def AsyncLogging_start_def empty_ok_def fb_sized_def new_buffer_def FixedBuffer_ctor_def fb_bzero_def fb_ok_def fb_toString_def fb_length_def)

text \<open>What was accepted stays accepted.\<close>

interpretation alog_mono: step_invariant "log_step n" "\<lambda>s. prefix a (al_accepted s)" for n :: nat and a :: string
proof
  fix s s'
  assume a: "prefix a (al_accepted s)" and "log_step n s s'"
  from this(2) have "prefix (al_accepted s) (al_accepted s')"
  proof cases
    case (log_line blank m)
    then show ?thesis by (auto simp: AsyncLogging_append_def Let_def bindR_eq_Inr split: if_splits option.splits)
  next
    case (log_written notice)
    then show ?thesis by (auto simp: log_write_def Let_def bindR_eq_Inr assertR_eq_Inr)
  qed (auto simp: log_stop_def log_head_def log_swap_def Let_def assertR_eq_Inr split: if_splits option.splits)
  then show "prefix a (al_accepted s')" using a by (rule prefix_order.trans [rotated])
qed

section \<open>Log files hold the lines in order\<close>

text \<open>The loop of \<open>AppendFile_append\<close> writes everything as long as the calls make progress and suffice.\<close>

lemma append_rest_all: "\<forall>x \<in> set ws. 0 < x \<Longrightarrow> length m \<le> sum_list ws \<Longrightarrow> append_rest ws m = m"
proof (induction ws arbitrary: m)
  case (Cons x ws)
  show ?case
  proof (cases "m = []")
    case False
    have "append_rest ws (drop (min x (length m)) m) = drop (min x (length m)) m" using Cons by (intro Cons.IH) auto
    then show ?thesis using False Cons.prems(1) by (simp add: Let_def)
  qed simp
qed simp

definition progress :: "nat list \<Rightarrow> string \<Rightarrow> bool" where
  "progress ws m = ((\<forall>x \<in> set ws. 0 < x) \<and> length m \<le> sum_list ws)"

lemma AppendFile_append_all:
  assumes "progress ws m"
  shows "AppendFile_append ws m f fs = (f\<lparr>af_writtenBytes := af_writtenBytes f + length m\<rparr>, fs_append (af_name f) m fs)"
proof (cases ws)
  case Nil
  then show ?thesis using assms by (simp add: progress_def AppendFile_append_def)
next
  case (Cons x xs)
  have "append_rest xs (drop (min x (length m)) m) = drop (min x (length m)) m"
    using assms Cons by (intro append_rest_all) (auto simp: progress_def)
  then show ?thesis using Cons by (simp add: AppendFile_append_def)
qed

text \<open>The invariant: the file in use is the one made last, every file made before has an earlier time in its name, and the files
  hold the text, one after the other.\<close>

definition lf_inv :: "(int \<Rightarrow> string) \<Rightarrow> string \<Rightarrow> LogFile \<Rightarrow> file_system \<Rightarrow> bool" where
  "lf_inv fname logged l fs = (\<exists>older c f. lf_file l = Some f \<and> fs = older @ [(fname (lf_lastRoll l), c)] \<and> af_name f = fname (lf_lastRoll l)
     \<and> 0 < lf_lastRoll l \<and> (\<forall>x \<in> set older. \<exists>t. 0 < t \<and> t < lf_lastRoll l \<and> fst x = fname t) \<and> concat (map snd fs) = logged)"

definition names_differ :: "(int \<Rightarrow> string) \<Rightarrow> bool" where
  "names_differ fname = (\<forall>t u. 0 < t \<longrightarrow> t < u \<longrightarrow> fname t \<noteq> fname u)"

lemma fs_append_last:
  assumes "\<forall>x \<in> set older. fst x \<noteq> n"
  shows "fs_append n d (older @ [(n, c)]) = older @ [(n, c @ d)]"
proof -
  have "map (\<lambda>f. if fst f = n then (fst f, snd f @ d) else f) older = older" using assms by (intro map_idI) auto
  then show ?thesis by (simp add: fs_append_def)
qed

lemma rollFile_inv:
  assumes fname: "names_differ fname" "getLogFileName timebuf hostname pid (lf_basename l) = fname" and inv: "lf_inv fname logged l fs"
  shows "\<exists>r l' fs'. rollFile timebuf hostname pid now l fs = ((r, l'), fs') \<and> lf_inv fname logged l' fs' \<and> lf_basename l' = lf_basename l"
proof (cases "lf_lastRoll l < now")
  case True
  from inv obtain older c f where I: "fs = older @ [(fname (lf_lastRoll l), c)]" "0 < lf_lastRoll l"
      "\<forall>x \<in> set older. \<exists>t. 0 < t \<and> t < lf_lastRoll l \<and> fst x = fname t" "concat (map snd fs) = logged"
    unfolding lf_inv_def by blast
  have all: "\<forall>x \<in> set fs. \<exists>t. 0 < t \<and> t < now \<and> fst x = fname t" using I True by fastforce
  then have new: "fname now \<notin> fst ` set fs" using fname(1) unfolding names_differ_def by fastforce
  let ?l = "l\<lparr>lf_lastRoll := now, lf_lastFlush := now, lf_startOfPeriod := cdiv now kRollPerSeconds * kRollPerSeconds,
     lf_file := Some \<lparr>af_name = fname now, af_writtenBytes = 0\<rparr>\<rparr>"
  have eq: "rollFile timebuf hostname pid now l fs = ((True, ?l), fs @ [(fname now, [])])"
    using True new by (simp add: rollFile_def fname(2) AppendFile_ctor_def Let_def)
  have "0 < now" using True I(2) by simp
  then have "lf_inv fname logged ?l (fs @ [(fname now, [])])"
    unfolding lf_inv_def using all I(4) by (intro exI [of _ fs] exI [of _ "[]"] exI [of _ "\<lparr>af_name = fname now, af_writtenBytes = 0\<rparr>"]) simp
  then show ?thesis using eq by (intro exI conjI) (assumption, simp_all)
next
  case False
  then show ?thesis using inv by (intro exI [of _ False]) (simp add: rollFile_def)
qed

lemma lf_inv_fields: "lf_inv fname logged (l\<lparr>lf_count := n\<rparr>) fs = lf_inv fname logged l fs" "lf_inv fname logged (l\<lparr>lf_lastFlush := t\<rparr>) fs = lf_inv fname logged l fs"
  by (simp_all add: lf_inv_def)

lemma append_unlocked_inv:
  assumes fname: "names_differ fname" "getLogFileName timebuf hostname pid (lf_basename l) = fname"
    and inv: "lf_inv fname logged l fs" and ws: "progress ws m"
  shows "\<exists>l' fs'. append_unlocked timebuf hostname pid now now' ws m l fs = Inr (l', fs') \<and> lf_inv fname (logged @ m) l' fs' \<and> lf_basename l' = lf_basename l"
proof -
  from inv obtain older c f where I: "lf_file l = Some f" "fs = older @ [(fname (lf_lastRoll l), c)]" "af_name f = fname (lf_lastRoll l)"
      "0 < lf_lastRoll l" "\<forall>x \<in> set older. \<exists>t. 0 < t \<and> t < lf_lastRoll l \<and> fst x = fname t" "concat (map snd fs) = logged"
    unfolding lf_inv_def by blast
  define f1 where "f1 = f\<lparr>af_writtenBytes := af_writtenBytes f + length m\<rparr>"
  define fs1 where "fs1 = older @ [(fname (lf_lastRoll l), c @ m)]"
  define l1 where "l1 = l\<lparr>lf_file := Some f1\<rparr>"
  have "\<forall>x \<in> set older. fst x \<noteq> fname (lf_lastRoll l)" using I(5) fname(1) unfolding names_differ_def by fastforce
  then have app: "AppendFile_append ws m f fs = (f1, fs1)"
    using AppendFile_append_all [OF ws] fs_append_last by (simp add: I(2,3) f1_def fs1_def)
  have inv1: "lf_inv fname (logged @ m) l1 fs1"
    unfolding lf_inv_def l1_def using I by (intro exI [of _ older] exI [of _ "c @ m"] exI [of _ f1]) (simp add: f1_def fs1_def)
  have b: "lf_basename l1 = lf_basename l" by (simp add: l1_def)
  obtain r2 l2 fs2 where roll: "rollFile timebuf hostname pid now' l1 fs1 = ((r2, l2), fs2)" "lf_inv fname (logged @ m) l2 fs2" "lf_basename l2 = lf_basename l"
    using rollFile_inv [OF fname(1) _ inv1, of timebuf hostname pid now'] fname(2) b by auto
  have inv0: "lf_inv fname (logged @ m) (l1\<lparr>lf_count := 0\<rparr>) fs1" using inv1 by (simp add: lf_inv_fields)
  obtain r3 l3 fs3 where roll0: "rollFile timebuf hostname pid now' (l1\<lparr>lf_count := 0\<rparr>) fs1 = ((r3, l3), fs3)" "lf_inv fname (logged @ m) l3 fs3" "lf_basename l3 = lf_basename l"
    using rollFile_inv [OF fname(1) _ inv0, of timebuf hostname pid now'] fname(2) b by auto
  show ?thesis
    using roll roll0 inv1 b unfolding append_unlocked_def I(1) app l1_def [symmetric]
    by (auto simp: Let_def app l1_def [symmetric] lf_inv_fields)
qed

definition log_run :: "(int \<Rightarrow> string) \<Rightarrow> string \<Rightarrow> int \<Rightarrow> (int \<times> int \<times> nat list \<times> string) list \<Rightarrow> LogFile \<times> file_system \<Rightarrow> (LogFile \<times> file_system) result" where
  "log_run timebuf hostname pid = foldR (\<lambda>(now, now', ws, m) (l, fs). LogFile_append timebuf hostname pid now now' ws m l fs)"

lemma log_run_inv:
  assumes fname: "names_differ fname" "getLogFileName timebuf hostname pid base = fname"
  shows "lf_inv fname logged l fs \<Longrightarrow> lf_basename l = base \<Longrightarrow> \<forall>(now, now', ws, m) \<in> set ts. progress ws m \<Longrightarrow>
    \<exists>l' fs'. log_run timebuf hostname pid ts (l, fs) = Inr (l', fs') \<and> lf_inv fname (logged @ concat (map (\<lambda>(now, now', ws, m). m) ts)) l' fs'"
proof (induction ts arbitrary: logged l fs)
  case (Cons t ts)
  obtain now now' ws m where t: "t = (now, now', ws, m)" by (cases t) auto
  obtain l1 fs1 where 1: "append_unlocked timebuf hostname pid now now' ws m l fs = Inr (l1, fs1)" "lf_inv fname (logged @ m) l1 fs1" "lf_basename l1 = lf_basename l"
    using append_unlocked_inv [OF fname(1) _ Cons.prems(1), of timebuf hostname pid ws m now now'] fname(2) Cons.prems(2,3) t by auto
  show ?case using Cons.IH [OF 1(2)] 1 Cons.prems(2,3) t by (simp add: log_run_def LogFile_append_def)
qed (simp add: log_run_def)

lemma log_run_from_start:
  assumes "\<forall>t u. 0 < t \<longrightarrow> t < u \<longrightarrow> timebuf t \<noteq> timebuf u" "0 < now" "CHR ''/'' \<notin> set base"
    and "\<forall>(now, now', ws, m) \<in> set ts. progress ws m"
  shows "\<exists>l fs l' fs'. LogFile_ctor timebuf hostname pid now base rollSize flushInterval checkEveryN [] = Inr (l, fs)
     \<and> log_run timebuf hostname pid ts (l, fs) = Inr (l', fs')
     \<and> concat (map snd fs') = concat (map (\<lambda>(now, now', ws, m). m) ts)"
proof -
  let ?fname = "getLogFileName timebuf hostname pid base"
  have d: "names_differ ?fname" using assms(1) by (simp add: names_differ_def getLogFileName_def)
  let ?l = "\<lparr>lf_basename = base, lf_rollSize = rollSize, lf_flushInterval = flushInterval, lf_checkEveryN = checkEveryN, lf_count = 0,
     lf_startOfPeriod = cdiv now kRollPerSeconds * kRollPerSeconds, lf_lastRoll = now, lf_lastFlush = now, lf_file = Some \<lparr>af_name = ?fname now, af_writtenBytes = 0\<rparr>\<rparr>"
  have c: "LogFile_ctor timebuf hostname pid now base rollSize flushInterval checkEveryN [] = Inr (?l, [(?fname now, [])])"
    using assms(2,3) by (simp add: LogFile_ctor_def rollFile_def AppendFile_ctor_def Let_def)
  have "lf_inv ?fname [] ?l [(?fname now, [])]" using assms(2) by (simp add: lf_inv_def)
  from log_run_inv [OF d refl this _ assms(4)] obtain l' fs' where
    "log_run timebuf hostname pid ts (?l, [(?fname now, [])]) = Inr (l', fs')" "concat (map snd fs') = concat (map (\<lambda>(now, now', ws, m). m) ts)"
    by (auto simp: lf_inv_def)
  then show ?thesis using c by blast
qed

section \<open>Properties\<close>

text \<open>C14. The four-buffer log, under any interleaving of logging threads, the background thread, wake-ups and \<open>stop\<close>: as long as no
  buffer was dropped, the lines accepted so far are, in their order, what was given to the log file, followed by the
  buffers to be written, the full buffers and the current buffer. A line that is shorter than a buffer is always accepted, whole,
  and a longer one leaves no part of itself. No assertion of the background thread fails and no null buffer is dereferenced, in
  whatever state the threads meet.\<close>

theorem async_log_fifo:
  assumes "reach (log_step (length blank)) (AsyncLogging_start blank) s" and "length blank' = length blank"
  shows "(al_dropped s = 0 \<longrightarrow> al_accepted s = concat (al_output s) @ concat (map fb_toString (al_buffersToWrite s @ al_buffers s @ [al_current s])))
     \<and> (\<exists>s'. AsyncLogging_append blank' m s = Inr s' \<and> al_accepted s' = al_accepted s @ (if length m < length blank then m else []))
     \<and> (al_pc s = LHead \<longrightarrow> (\<exists>s'. log_head s = Inr s')) \<and> (al_pc s = LWait \<longrightarrow> (\<exists>s'. log_swap s = Inr s'))
     \<and> (al_pc s = LWrite \<longrightarrow> (\<exists>s'. log_write notice s = Inr s'))"
proof -
  have inv: "log_inv (length blank) s" by (rule alog.invariant [OF assms(1) start_inv [OF refl]])
  have "al_dropped s = 0 \<Longrightarrow> al_accepted s = concat (al_output s) @ concat (map fb_toString (al_buffersToWrite s @ al_buffers s @ [al_current s]))"
    using inv unfolding log_inv_def by blast
  then show ?thesis using append_ok [OF inv assms(2), of m] head_ok [OF inv] swap_ok [OF inv] write_ok [OF inv, of notice] by auto
qed

theorem async_log_fifo_witness:
  "\<exists>s. reach (log_step (length ''....'')) (AsyncLogging_start ''....'') s \<and> al_accepted s = ''ab'' \<and> al_output s = [] \<and> fb_toString (al_current s) = ''ab''"
proof -
  have app: "AsyncLogging_append ''....'' ''ab'' (AsyncLogging_start ''....'')
      = Inr ((AsyncLogging_start ''....'')\<lparr>al_current := \<lparr>fb_data = ''ab'' @ replicate 2 (char_of (0::nat)), fb_cur = 2\<rparr>, al_accepted := ''ab''\<rparr>)"
    by (simp add: AsyncLogging_append_def AsyncLogging_start_def new_buffer_def FixedBuffer_ctor_def fb_bzero_def fb_avail_def FixedBuffer_append_def
        vec_write_def numeral_eq_Suc)
  let ?s = "(AsyncLogging_start ''....'')\<lparr>al_current := \<lparr>fb_data = ''ab'' @ replicate 2 (char_of (0::nat)), fb_cur = 2\<rparr>, al_accepted := ''ab''\<rparr>"
  have r: "reach (log_step (length ''....'')) (AsyncLogging_start ''....'') ?s" by (rule reach_one) (rule log_line [OF refl app])
  have "al_dropped ?s = 0 \<longrightarrow> al_accepted ?s = concat (al_output ?s) @ concat (map fb_toString (al_buffersToWrite ?s @ al_buffers ?s @ [al_current ?s]))"
    using async_log_fifo [OF r refl, of "''x''" "[]"] by blast
  then have "fb_toString (al_current ?s) = ''ab''" by (simp add: AsyncLogging_start_def fb_toString_def fb_length_def)
  then show ?thesis using r by (intro exI [of _ ?s]) (simp add: AsyncLogging_start_def)
qed

text \<open>\<open>stop\<close> ends the background thread without a last exchange of buffers: lines logged since the last one never reach the log
  file, although \<open>append\<close> accepted them before \<open>stop\<close> was called.\<close>

theorem stop_loses_lines:
  assumes "length m < length blank"
  shows "\<exists>s. reach (log_step (length blank)) (AsyncLogging_start blank) s \<and> al_pc s = LDone \<and> al_accepted s = m \<and> al_dropped s = 0 \<and> al_output s = []"
proof -
  let ?s = "AsyncLogging_start blank"
  obtain b where b: "FixedBuffer_append m (al_current ?s) = Inr b"
    using fb_sized_append [of "length blank" "al_current ?s" m] start_inv [OF refl, of blank] by (auto simp: log_inv_def)
  let ?s1 = "?s\<lparr>al_current := b, al_accepted := m\<rparr>"
  have "length m < fb_avail (al_current ?s)"
    using assms by (simp add: AsyncLogging_start_def new_buffer_def FixedBuffer_ctor_def fb_bzero_def fb_avail_def)
  then have "AsyncLogging_append blank m ?s = Inr ?s1" using b by (simp add: AsyncLogging_append_def) (simp add: AsyncLogging_start_def)
  then have 1: "reach (log_step (length blank)) ?s ?s1" by (intro reach_one log_line [OF refl])
  let ?s2 = "log_stop ?s1"
  have 2: "reach (log_step (length blank)) ?s ?s2" by (rule reach_step [OF 1 log_stopped])
  have "al_pc ?s2 = LHead" "log_head ?s2 = Inr (?s2\<lparr>al_pc := LDone\<rparr>)" by (simp_all add: log_head_def log_stop_def AsyncLogging_start_def)
  then have "log_step (length blank) ?s2 (?s2\<lparr>al_pc := LDone\<rparr>)" by (rule log_headed)
  from reach_step [OF 2 this] show ?thesis
    by (intro exI [of _ "?s2\<lparr>al_pc := LDone\<rparr>"]) (simp add: log_stop_def AsyncLogging_start_def)
qed

theorem stop_loses_lines_witness:
  "\<exists>s. reach (log_step (length ''....'')) (AsyncLogging_start ''....'') s \<and> al_pc s = LDone \<and> al_accepted s = ''ab'' \<and> al_dropped s = 0 \<and> al_output s = []"
  by (rule stop_loses_lines) simp

text \<open>Log files: however often a new file is begun, the files in the order in which they were made hold the lines in the order in
  which they were appended, each once. The writing loop may need any number of partial writes.\<close>

theorem log_files_hold_lines:
  assumes "\<forall>t u. 0 < t \<longrightarrow> t < u \<longrightarrow> timebuf t \<noteq> timebuf u" "0 < now" "CHR ''/'' \<notin> set base"
    and "\<forall>(now, now', ws, m) \<in> set ts. progress ws m"
  shows "\<exists>l fs l' fs'. LogFile_ctor timebuf hostname pid now base rollSize flushInterval checkEveryN [] = Inr (l, fs)
     \<and> log_run timebuf hostname pid ts (l, fs) = Inr (l', fs')
     \<and> concat (map snd fs') = concat (map (\<lambda>(now, now', ws, m). m) ts)"
  by (rule log_run_from_start [OF assms])

theorem log_files_hold_lines_witness:
  "\<exists>l fs l' fs'. LogFile_ctor (\<lambda>t. dec_nat (nat t)) ''host'' 1 5 ''log'' 3 3 1 [] = Inr (l, fs)
     \<and> log_run (\<lambda>t. dec_nat (nat t)) ''host'' 1 [(6, 7, [2, 2], ''abcd''), (8, 8, [3], ''xyz'')] (l, fs) = Inr (l', fs')
     \<and> concat (map snd fs') = ''abcdxyz''"
proof -
  have "\<forall>t u. 0 < t \<longrightarrow> t < u \<longrightarrow> dec_nat (nat t) \<noteq> dec_nat (nat u)" by (auto dest: dec_nat_inj)
  from log_files_hold_lines [OF this, of 5 "''log''" "[(6, 7, [2, 2], ''abcd''), (8, 8, [3], ''xyz'')]" "''host''" 1 3 3 1]
  show ?thesis by (simp add: progress_def)
qed

end
