(* ===== verification/Base_Logging.thy ===== *)
theory Base_Logging
  imports Base_Thread Base_TimeZone Base_LogStream
begin

text \<open>
  \<^verbatim>\<open>base/Logging.h\<close> and \<^verbatim>\<open>base/Logging.cc\<close>: one log statement from the macro to the output function. The
  globals of the logger are a record, its thread-local cache of the formatted second extends the
  variables of the current thread, and the output function and its state are arguments. \<^verbatim>\<open>gmtime_r\<close>,
  \<^verbatim>\<open>strerror_r\<close>, the clock, \<^verbatim>\<open>errno\<close> and the first contents of the buffer are arguments too.
\<close>

section \<open>Levels\<close>

datatype LogLevel = TRACE | DEBUG | INFO | WARN | ERROR | FATAL | NUM_LOG_LEVELS

primrec level_index :: "LogLevel \<Rightarrow> nat" where
  "level_index TRACE = 0"
| "level_index DEBUG = 1"
| "level_index INFO = 2"
| "level_index WARN = 3"
| "level_index ERROR = 4"
| "level_index FATAL = 5"
| "level_index NUM_LOG_LEVELS = 6"

lemma level_index_inj: "level_index x = level_index y \<Longrightarrow> x = y"
  by (cases x; cases y) auto

instantiation LogLevel :: linorder
begin

definition less_eq_LogLevel :: "LogLevel \<Rightarrow> LogLevel \<Rightarrow> bool" where
  "less_eq_LogLevel x y = (level_index x \<le> level_index y)"

definition less_LogLevel :: "LogLevel \<Rightarrow> LogLevel \<Rightarrow> bool" where
  "less_LogLevel x y = (level_index x < level_index y)"

instance
  by intro_classes (auto simp: less_eq_LogLevel_def less_LogLevel_def dest: level_index_inj)

end

text \<open>\<open>getenv\<close> tells whether a variable is set.\<close>

definition initLogLevel :: "(string \<Rightarrow> bool) \<Rightarrow> LogLevel" where
  "initLogLevel getenv = (if getenv ''WEB_LOG_TRACE'' then TRACE else if getenv ''WEB_LOG_DEBUG'' then DEBUG else INFO)"

definition LogLevelName :: "string list" where
  "LogLevelName = [''TRACE '', ''DEBUG '', ''INFO  '', ''WARN  '', ''ERROR '', ''FATAL '']"

section \<open>Source files\<close>

record SourceFile =
  sf_data :: string
  sf_size :: nat

definition SourceFile_array :: "string \<Rightarrow> SourceFile" where
  "SourceFile_array arr =
     (case strrchr (CHR ''/'') arr of
        None \<Rightarrow> \<lparr>sf_data = arr, sf_size = length arr\<rparr>
      | Some slash \<Rightarrow> \<lparr>sf_data = drop (slash + 1) arr, sf_size = length arr - (slash + 1)\<rparr>)"

definition SourceFile_pointer :: "string \<Rightarrow> SourceFile" where
  "SourceFile_pointer filename =
     (let data = (case strrchr (CHR ''/'') filename of None \<Rightarrow> filename | Some slash \<Rightarrow> drop (slash + 1) filename)
      in \<lparr>sf_data = data, sf_size = length data\<rparr>)"

section \<open>The logger\<close>

record 'o LogGlobals =
  g_logLevel :: LogLevel
  g_output :: "string \<Rightarrow> 'o \<Rightarrow> 'o"
  g_flush :: "'o \<Rightarrow> 'o"
  g_logTimeZone :: TimeZone

definition setLogLevel :: "LogLevel \<Rightarrow> 'o LogGlobals \<Rightarrow> 'o LogGlobals" where
  "setLogLevel level g = g\<lparr>g_logLevel := level\<rparr>"

definition setOutput :: "(string \<Rightarrow> 'o \<Rightarrow> 'o) \<Rightarrow> 'o LogGlobals \<Rightarrow> 'o LogGlobals" where
  "setOutput out g = g\<lparr>g_output := out\<rparr>"

definition setFlush :: "('o \<Rightarrow> 'o) \<Rightarrow> 'o LogGlobals \<Rightarrow> 'o LogGlobals" where
  "setFlush flush g = g\<lparr>g_flush := flush\<rparr>"

definition setTimeZone :: "TimeZone \<Rightarrow> 'o LogGlobals \<Rightarrow> 'o LogGlobals" where
  "setTimeZone tz g = g\<lparr>g_logTimeZone := tz\<rparr>"

record LogThread = CurrentThread +
  t_time :: string
  t_lastSecond :: int

record Impl =
  im_time :: Timestamp
  im_stream :: LogStream
  im_level :: LogLevel
  im_line :: int
  im_basename :: SourceFile

text \<open>Inserting a text whose length is known, and a file name.\<close>

definition put_T :: "string \<Rightarrow> nat \<Rightarrow> LogStream \<Rightarrow> LogStream result" where
  "put_T str len s = assertR ''strlen(str) == len_'' (length str = len) (LogStream_append str s)"

definition put_SourceFile :: "SourceFile \<Rightarrow> LogStream \<Rightarrow> LogStream result" where
  "put_SourceFile v s = bindR (vec_read (sf_data v) 0 (sf_size v)) (\<lambda>t. LogStream_append t s)"

definition time_text :: "tm \<Rightarrow> string" where
  "time_text t =
     dec_blank 4 (tm_year t + 1900) @ dec_pad 2 (tm_mon t + 1) @ dec_pad 2 (tm_mday t) @ '' ''
     @ dec_pad 2 (tm_hour t) @ '':'' @ dec_pad 2 (tm_min t) @ '':'' @ dec_pad 2 (tm_sec t)"

definition zone_time :: "(int \<Rightarrow> tm) \<Rightarrow> TimeZone \<Rightarrow> int \<Rightarrow> tm result" where
  "zone_time gmtime_r z seconds = (if TimeZone_valid z then toLocalTime gmtime_r z seconds else Inr (gmtime_r seconds))"

text \<open>The first half of \<^verbatim>\<open>formatTime\<close>: the cached text of the second.\<close>

definition format_second :: "(int \<Rightarrow> tm) \<Rightarrow> TimeZone \<Rightarrow> int \<Rightarrow> LogThread \<Rightarrow> LogThread result" where
  "format_second gmtime_r z seconds th =
     (if seconds \<noteq> t_lastSecond th
      then bindR (zone_time gmtime_r z seconds) (\<lambda>tm_time.
        let th1 = th\<lparr>t_lastSecond := seconds, t_time := snprintf 64 (time_text tm_time)\<rparr>
        in assertR ''len == 17'' (length (time_text tm_time) = 17) (Inr th1))
      else Inr th)"

definition formatTime :: "(int \<Rightarrow> tm) \<Rightarrow> TimeZone \<Rightarrow> Timestamp \<Rightarrow> LogThread \<Rightarrow> LogStream \<Rightarrow> (LogThread \<times> LogStream) result" where
  "formatTime gmtime_r z time th s =
     (let seconds = cdiv time kMicroSecondsPerSecond; microseconds = cmod time kMicroSecondsPerSecond in
      bindR (format_second gmtime_r z seconds th) (\<lambda>th1.
        if TimeZone_valid z
        then bindR (Fmt_ctor (''.'' @ dec_pad 6 microseconds @ '' '')) (\<lambda>us.
          assertR ''us.length() == 8'' (length us = 8)
            (bindR (put_T (t_time th1) 17 s) (\<lambda>s1. bindR (put_T us 8 s1) (\<lambda>s2. Inr (th1, s2)))))
        else bindR (Fmt_ctor (''.'' @ dec_pad 6 microseconds @ ''Z '')) (\<lambda>us.
          assertR ''us.length() == 9'' (length us = 9)
            (bindR (put_T (t_time th1) 17 s) (\<lambda>s1. bindR (put_T us 9 s1) (\<lambda>s2. Inr (th1, s2)))))))"

text \<open>What the environment gives to one statement.\<close>

record LogEnv =
  en_gmtime_r :: "int \<Rightarrow> tm"
  en_strerror :: "int \<Rightarrow> string"
  en_gettid :: int
  en_now :: Timestamp
  en_errno :: int
  en_garbage :: string   \<comment> \<open>the uninitialised array of the stream\<close>

definition Impl_ctor :: "LogEnv \<Rightarrow> TimeZone \<Rightarrow> LogLevel \<Rightarrow> int \<Rightarrow> SourceFile \<Rightarrow> int \<Rightarrow> LogThread \<Rightarrow> (LogThread \<times> Impl) result" where
  "Impl_ctor e z level savedErrno file line th =
     bindR (formatTime (en_gmtime_r e) z (en_now e) th \<lparr>ls_buffer = FixedBuffer_ctor (en_garbage e)\<rparr>) (\<lambda>(th1, s1).
       let th2 = snd (CurrentThread_tid (en_gettid e) th1) in
       bindR (put_T (t_tidString th2) (t_tidStringLength th2) s1) (\<lambda>s2.
       bindR (nthR LogLevelName (level_index level)) (\<lambda>name.
       bindR (put_T name 6 s2) (\<lambda>s3.
       bindR (if savedErrno \<noteq> 0
              then foldR LogStream_put [LCString (Some (en_strerror e savedErrno)), LCString (Some '' (errno=''), LInteger savedErrno, LCString (Some '') '')] s3
              else Inr s3) (\<lambda>s4.
         Inr (th2, \<lparr>im_time = en_now e, im_stream = s4, im_level = level, im_line = line, im_basename = file\<rparr>))))))"

definition finish :: "Impl \<Rightarrow> Impl result" where
  "finish i =
     bindR (LogStream_put (LCString (Some '' - '')) (im_stream i)) (\<lambda>s1.
     bindR (put_SourceFile (im_basename i) s1) (\<lambda>s2.
     bindR (foldR LogStream_put [LChar (CHR '':''), LInteger (im_line i), LChar (CHR 0x0A)] s2) (\<lambda>s3.
       Inr (i\<lparr>im_stream := s3\<rparr>))))"

text \<open>The four constructors.\<close>

definition Logger_info :: "LogEnv \<Rightarrow> TimeZone \<Rightarrow> SourceFile \<Rightarrow> int \<Rightarrow> LogThread \<Rightarrow> (LogThread \<times> Impl) result" where
  "Logger_info e z file line th = Impl_ctor e z INFO 0 file line th"

definition Logger_func :: "LogEnv \<Rightarrow> TimeZone \<Rightarrow> SourceFile \<Rightarrow> int \<Rightarrow> LogLevel \<Rightarrow> string \<Rightarrow> LogThread \<Rightarrow> (LogThread \<times> Impl) result" where
  "Logger_func e z file line level func th =
     bindR (Impl_ctor e z level 0 file line th) (\<lambda>(th1, i).
       bindR (foldR LogStream_put [LCString (Some func), LChar (CHR '' '')] (im_stream i)) (\<lambda>s. Inr (th1, i\<lparr>im_stream := s\<rparr>)))"

definition Logger_level :: "LogEnv \<Rightarrow> TimeZone \<Rightarrow> SourceFile \<Rightarrow> int \<Rightarrow> LogLevel \<Rightarrow> LogThread \<Rightarrow> (LogThread \<times> Impl) result" where
  "Logger_level e z file line level th = Impl_ctor e z level 0 file line th"

definition Logger_sys :: "LogEnv \<Rightarrow> TimeZone \<Rightarrow> SourceFile \<Rightarrow> int \<Rightarrow> bool \<Rightarrow> LogThread \<Rightarrow> (LogThread \<times> Impl) result" where
  "Logger_sys e z file line toAbort th = Impl_ctor e z (if toAbort then FATAL else ERROR) (en_errno e) file line th"

text \<open>The destructor: the state of the output afterwards and whether the process was aborted.\<close>

definition Logger_dtor :: "'o LogGlobals \<Rightarrow> Impl \<Rightarrow> 'o \<Rightarrow> ('o \<times> bool) result" where
  "Logger_dtor g i out =
     bindR (finish i) (\<lambda>i1.
       let out1 = g_output g (fb_toString (ls_buffer (im_stream i1))) out in
       if im_level i1 = FATAL then Inr (g_flush g out1, True) else Inr (out1, False))"

section \<open>Log statements\<close>

datatype log_macro = LOG_TRACE | LOG_DEBUG | LOG_INFO | LOG_WARN | LOG_ERROR | LOG_FATAL | LOG_SYSERR | LOG_SYSFATAL

primrec macro_logger :: "log_macro \<Rightarrow> LogEnv \<Rightarrow> TimeZone \<Rightarrow> SourceFile \<Rightarrow> int \<Rightarrow> string \<Rightarrow> LogThread \<Rightarrow> (LogThread \<times> Impl) result" where
  "macro_logger LOG_TRACE e z file line func th = Logger_func e z file line TRACE func th"
| "macro_logger LOG_DEBUG e z file line func th = Logger_func e z file line DEBUG func th"
| "macro_logger LOG_INFO e z file line func th = Logger_info e z file line th"
| "macro_logger LOG_WARN e z file line func th = Logger_level e z file line WARN th"
| "macro_logger LOG_ERROR e z file line func th = Logger_level e z file line ERROR th"
| "macro_logger LOG_FATAL e z file line func th = Logger_level e z file line FATAL th"
| "macro_logger LOG_SYSERR e z file line func th = Logger_sys e z file line False th"
| "macro_logger LOG_SYSFATAL e z file line func th = Logger_sys e z file line True th"

definition macro_enabled :: "LogLevel \<Rightarrow> log_macro \<Rightarrow> bool" where
  "macro_enabled level m = (case m of LOG_TRACE \<Rightarrow> level \<le> TRACE | LOG_DEBUG \<Rightarrow> level \<le> DEBUG | LOG_INFO \<Rightarrow> level \<le> INFO | _ \<Rightarrow> True)"

text \<open>\<^verbatim>\<open>LOG_X << a << b << ...\<close> in the function \<open>func\<close>: the temporary is made, the items are inserted, the
  temporary is destroyed.\<close>

definition log_statement ::
    "log_macro \<Rightarrow> LogEnv \<Rightarrow> 'o LogGlobals \<Rightarrow> string \<Rightarrow> int \<Rightarrow> string \<Rightarrow> log_item list \<Rightarrow> LogThread \<Rightarrow> 'o \<Rightarrow> (LogThread \<times> 'o \<times> bool) result" where
  "log_statement m e g file line func items th out =
     (if macro_enabled (g_logLevel g) m
      then bindR (macro_logger m e (g_logTimeZone g) (SourceFile_array file) line func th) (\<lambda>(th1, i).
           bindR (foldR LogStream_put items (im_stream i)) (\<lambda>s.
           bindR (Logger_dtor g (i\<lparr>im_stream := s\<rparr>) out) (\<lambda>(out1, aborted). Inr (th1, out1, aborted))))
      else Inr (th, out, False))"

text \<open>\<^verbatim>\<open>CHECK_NOTNULL\<close>: a null pointer is a fatal log line.\<close>

definition CheckNotNull ::
    "LogEnv \<Rightarrow> 'o LogGlobals \<Rightarrow> string \<Rightarrow> int \<Rightarrow> string \<Rightarrow> 'p option \<Rightarrow> LogThread \<Rightarrow> 'o \<Rightarrow> ('p option \<times> LogThread \<times> 'o \<times> bool) result" where
  "CheckNotNull e g file line what ptr th out =
     (if ptr = None
      then bindR (Logger_level e (g_logTimeZone g) (SourceFile_array file) line FATAL th) (\<lambda>(th1, i).
           bindR (LogStream_put (LCString (Some what)) (im_stream i)) (\<lambda>s.
           bindR (Logger_dtor g (i\<lparr>im_stream := s\<rparr>) out) (\<lambda>(out1, aborted). Inr (ptr, th1, out1, aborted))))
      else Inr (ptr, th, out, False))"

section \<open>Lemmas\<close>

lemma append_put: "LogStream_append t s = LogStream_put (LString t) s"
  by (simp add: LogStream_append_def LogStream_put_def)

lemma put_T_put: "length t = n \<Longrightarrow> put_T t n s = LogStream_put (LString t) s"
  by (simp add: put_T_def append_put)

definition base_name :: "string \<Rightarrow> string" where
  "base_name path = rev (takeWhile (\<lambda>c. c \<noteq> CHR ''/'') (rev path))"

lemma SourceFile_base: "SourceFile_array path = \<lparr>sf_data = base_name path, sf_size = length (base_name path)\<rparr>"
proof (cases "strrchr (CHR ''/'') path")
  case None
  then have "\<forall>c \<in> set (rev path). c \<noteq> CHR ''/''" by (auto simp: strrchr_def split: if_splits)
  then have w: "takeWhile (\<lambda>c. c \<noteq> CHR ''/'') (rev path) = rev path" by (simp only: takeWhile_eq_all_conv)
  show ?thesis unfolding base_name_def w using None by (simp add: SourceFile_array_def)
next
  case (Some i)
  have d: "drop (i + 1) path = base_name path" using drop_strrchr [OF Some] by (simp add: base_name_def)
  then have "length path - (i + 1) = length (base_name path)" by (metis length_drop)
  then show ?thesis using d Some by (simp add: SourceFile_array_def)
qed

lemma SourceFile_pointer_array: "SourceFile_pointer path = SourceFile_array path"
  by (simp add: SourceFile_pointer_def SourceFile_array_def split: option.split)

lemma put_SourceFile_put: "put_SourceFile (SourceFile_array path) s = LogStream_put (LString (base_name path)) s"
  by (simp add: put_SourceFile_def SourceFile_base vec_read_def append_put)

text \<open>Times that \<^verbatim>\<open>%4d%02d%02d %02d:%02d:%02d\<close> prints in 17 characters.\<close>

definition printable :: "tm \<Rightarrow> bool" where
  "printable t = (0 \<le> tm_year t + 1900 \<and> tm_year t + 1900 \<le> 9999 \<and> 0 \<le> tm_mon t \<and> tm_mon t \<le> 11 \<and> 1 \<le> tm_mday t \<and> tm_mday t \<le> 31
     \<and> 0 \<le> tm_hour t \<and> tm_hour t \<le> 23 \<and> 0 \<le> tm_min t \<and> tm_min t \<le> 59 \<and> 0 \<le> tm_sec t \<and> tm_sec t \<le> 60)"

lemma length_time_text: "printable t \<Longrightarrow> length (time_text t) = 17"
  by (simp add: time_text_def printable_def length_dec_pad length_dec_blank length_dec_int_nonneg)

definition time_cached :: "(int \<Rightarrow> tm) \<Rightarrow> TimeZone \<Rightarrow> LogThread \<Rightarrow> bool" where
  "time_cached gmtime_r z th =
     (t_lastSecond th = 0 \<or> (\<exists>t. zone_time gmtime_r z (t_lastSecond th) = Inr t \<and> t_time th = time_text t))"

lemma format_second_ok:
  assumes "time_cached gm z th" "zone_time gm z seconds = Inr t" "printable t" "seconds \<noteq> 0"
  shows "\<exists>th1. format_second gm z seconds th = Inr th1 \<and> t_time th1 = time_text t \<and> t_lastSecond th1 = seconds
     \<and> t_cachedTid th1 = t_cachedTid th \<and> t_tidString th1 = t_tidString th \<and> t_tidStringLength th1 = t_tidStringLength th"
  using assms length_time_text [OF assms(3)] by (auto simp: format_second_def time_cached_def snprintf_fits)

definition us_text :: "TimeZone \<Rightarrow> Timestamp \<Rightarrow> string" where
  "us_text z time = ''.'' @ dec_pad 6 (time mod 1000000) @ (if TimeZone_valid z then '' '' else ''Z '')"

lemma formatTime_ok:
  assumes "time_cached gm z th" "zone_time gm z (time div 1000000) = Inr t" "printable t" "1000000 \<le> time"
  shows "\<exists>th1. formatTime gm z time th s = bindR (foldR LogStream_put [LString (time_text t), LString (us_text z time)] s) (\<lambda>s2. Inr (th1, s2))
     \<and> time_cached gm z th1 \<and> t_cachedTid th1 = t_cachedTid th \<and> t_tidString th1 = t_tidString th \<and> t_tidStringLength th1 = t_tidStringLength th"
proof -
  have sec: "cdiv time kMicroSecondsPerSecond = time div 1000000" "cmod time kMicroSecondsPerSecond = time mod 1000000"
    using assms(4) by (simp_all add: kMicroSecondsPerSecond_def)
  have "1 \<le> time div 1000000" using assms(4) by simp
  then obtain th1 where th1: "format_second gm z (time div 1000000) th = Inr th1" "t_time th1 = time_text t" "t_lastSecond th1 = time div 1000000"
    "t_cachedTid th1 = t_cachedTid th" "t_tidString th1 = t_tidString th" "t_tidStringLength th1 = t_tidStringLength th"
    using format_second_ok [OF assms(1-3)] by auto
  have us: "length (dec_pad 6 (time mod 1000000)) = 6" by (intro length_dec_pad) simp_all
  have "formatTime gm z time th s = bindR (foldR LogStream_put [LString (time_text t), LString (us_text z time)] s) (\<lambda>s2. Inr (th1, s2))"
    using th1 us length_time_text [OF assms(3)]
    by (simp add: formatTime_def sec Fmt_ctor_def snprintf_fits put_T_put us_text_def bindR_assoc Let_def)
  moreover have "time_cached gm z th1" using th1 assms(2) by (simp add: time_cached_def)
  ultimately show ?thesis using th1 by blast
qed

definition errno_items :: "LogEnv \<Rightarrow> int \<Rightarrow> log_item list" where
  "errno_items e err = (if err \<noteq> 0
     then [LCString (Some (en_strerror e err)), LCString (Some '' (errno=''), LInteger err, LCString (Some '') '')] else [])"

definition head_items :: "LogEnv \<Rightarrow> TimeZone \<Rightarrow> tm \<Rightarrow> LogLevel \<Rightarrow> int \<Rightarrow> log_item list" where
  "head_items e z t level err =
     [LString (time_text t), LString (us_text z (en_now e)), LString (dec_blank 5 (en_gettid e) @ '' ''), LString (LogLevelName ! level_index level)]
     @ errno_items e err"

definition tail_items :: "string \<Rightarrow> int \<Rightarrow> log_item list" where
  "tail_items file line = [LCString (Some '' - ''), LString (base_name file), LChar (CHR '':''), LInteger line, LChar (CHR 0x0A)]"

lemma level_name: "level \<noteq> NUM_LOG_LEVELS \<Longrightarrow>
    nthR LogLevelName (level_index level) = Inr (LogLevelName ! level_index level) \<and> length (LogLevelName ! level_index level) = 6"
  by (cases level) (simp_all add: LogLevelName_def nthR_def)

text \<open>What one statement relies on: the thread's caches are right, its number is one of the kernel's, the
  clock is past the first second and its local time has four digits of year.\<close>

definition log_ready :: "LogEnv \<Rightarrow> TimeZone \<Rightarrow> tm \<Rightarrow> LogThread \<Rightarrow> bool" where
  "log_ready e z t th =
     (time_cached (en_gmtime_r e) z th \<and> current_ok (en_gettid e) th \<and> 0 < en_gettid e \<and> en_gettid e < 2 ^ 31
      \<and> 1000000 \<le> en_now e \<and> zone_time (en_gmtime_r e) z (en_now e div 1000000) = Inr t \<and> printable t
      \<and> length (en_garbage e) = kSmallBuffer \<and> - (2 ^ 31) \<le> en_errno e \<and> en_errno e < 2 ^ 31)"

definition new_stream :: "LogEnv \<Rightarrow> LogStream" where
  "new_stream e = \<lparr>ls_buffer = FixedBuffer_ctor (en_garbage e)\<rparr>"

lemma Impl_ctor_ok:
  assumes ready: "log_ready e z t th" and "level \<noteq> NUM_LOG_LEVELS"
  shows "\<exists>th'. Impl_ctor e z level err file line th
        = bindR (foldR LogStream_put (head_items e z t level err) (new_stream e))
            (\<lambda>s. Inr (th', \<lparr>im_time = en_now e, im_stream = s, im_level = level, im_line = line, im_basename = file\<rparr>))
     \<and> log_ready e z t th'"
proof -
  obtain th1 where th1: "formatTime (en_gmtime_r e) z (en_now e) th (new_stream e)
        = bindR (foldR LogStream_put [LString (time_text t), LString (us_text z (en_now e))] (new_stream e)) (\<lambda>s2. Inr (th1, s2))"
    "time_cached (en_gmtime_r e) z th1" "t_cachedTid th1 = t_cachedTid th" "t_tidString th1 = t_tidString th" "t_tidStringLength th1 = t_tidStringLength th"
    using formatTime_ok [of "en_gmtime_r e" z th "en_now e" t] ready by (auto simp: log_ready_def)
  have cur: "current_ok (en_gettid e) th1" and g: "0 < en_gettid e" "en_gettid e < 2 ^ 31"
    using ready th1(3-5) by (simp_all add: log_ready_def current_ok_def)
  let ?th2 = "snd (CurrentThread_tid (en_gettid e) th1)"
  have th2: "t_tidString ?th2 = dec_blank 5 (en_gettid e) @ '' ''" "t_tidStringLength ?th2 = length (dec_blank 5 (en_gettid e)) + 1"
    using tid_ok(2,3) [OF cur g] g by (auto simp: current_ok_def)
  have "t_lastSecond ?th2 = t_lastSecond th1 \<and> t_time ?th2 = t_time th1" by (simp add: CurrentThread_tid_def cacheTid_def Let_def)
  then have "log_ready e z t ?th2" using ready th1(2) tid_ok(2) [OF cur g] by (simp add: log_ready_def time_cached_def)
  moreover have "Impl_ctor e z level err file line th
        = bindR (foldR LogStream_put (head_items e z t level err) (new_stream e))
            (\<lambda>s. Inr (?th2, \<lparr>im_time = en_now e, im_stream = s, im_level = level, im_line = line, im_basename = file\<rparr>))"
    using th1(1) level_name [OF assms(2)] unfolding Impl_ctor_def new_stream_def [symmetric]
    by (simp add: th2 put_T_put head_items_def errno_items_def bindR_assoc Let_def del: append_assoc)
  ultimately show ?thesis by blast
qed

lemma finish_ok:
  "im_basename i = SourceFile_array file \<Longrightarrow>
   finish i = bindR (foldR LogStream_put (tail_items file (im_line i)) (im_stream i)) (\<lambda>s. Inr (i\<lparr>im_stream := s\<rparr>))"
  by (simp add: finish_def tail_items_def put_SourceFile_put bindR_assoc)

primrec macro_level :: "log_macro \<Rightarrow> LogLevel" where
  "macro_level LOG_TRACE = TRACE"
| "macro_level LOG_DEBUG = DEBUG"
| "macro_level LOG_INFO = INFO"
| "macro_level LOG_WARN = WARN"
| "macro_level LOG_ERROR = ERROR"
| "macro_level LOG_FATAL = FATAL"
| "macro_level LOG_SYSERR = ERROR"
| "macro_level LOG_SYSFATAL = FATAL"

definition macro_errno :: "LogEnv \<Rightarrow> log_macro \<Rightarrow> int" where
  "macro_errno e m = (if m \<in> {LOG_SYSERR, LOG_SYSFATAL} then en_errno e else 0)"

definition func_items :: "log_macro \<Rightarrow> string \<Rightarrow> log_item list" where
  "func_items m func = (if m \<in> {LOG_TRACE, LOG_DEBUG} then [LCString (Some func), LChar (CHR '' '')] else [])"

lemma macro_logger_ok:
  assumes "log_ready e z t th"
  shows "\<exists>th'. macro_logger m e z file line func th
        = bindR (foldR LogStream_put (head_items e z t (macro_level m) (macro_errno e m) @ func_items m func) (new_stream e))
            (\<lambda>s. Inr (th', \<lparr>im_time = en_now e, im_stream = s, im_level = macro_level m, im_line = line, im_basename = file\<rparr>))
     \<and> log_ready e z t th'"
proof -
  have "macro_level m \<noteq> NUM_LOG_LEVELS" by (cases m) simp_all
  from Impl_ctor_ok [OF assms this, of "macro_errno e m" "file" line] obtain th' where th': "log_ready e z t th'"
    "Impl_ctor e z (macro_level m) (macro_errno e m) file line th
        = bindR (foldR LogStream_put (head_items e z t (macro_level m) (macro_errno e m)) (new_stream e))
            (\<lambda>s. Inr (th', \<lparr>im_time = en_now e, im_stream = s, im_level = macro_level m, im_line = line, im_basename = file\<rparr>))"
    by (elim exE conjE)
  show ?thesis using th'
    by (cases m) (auto simp: Logger_func_def Logger_info_def Logger_level_def Logger_sys_def macro_errno_def func_items_def foldR_append bindR_assoc
        simp del: foldR.simps intro!: exI [of _ th'])
qed

definition line_items :: "log_macro \<Rightarrow> LogEnv \<Rightarrow> TimeZone \<Rightarrow> tm \<Rightarrow> string \<Rightarrow> int \<Rightarrow> string \<Rightarrow> log_item list \<Rightarrow> log_item list" where
  "line_items m e z t file line func items =
     head_items e z t (macro_level m) (macro_errno e m) @ func_items m func @ items @ tail_items file line"

lemma log_statement_fold:
  assumes "log_ready e (g_logTimeZone g) t th" "macro_enabled (g_logLevel g) m"
  shows "\<exists>th'. log_statement m e g file line func items th out
        = bindR (foldR LogStream_put (line_items m e (g_logTimeZone g) t file line func items) (new_stream e))
            (\<lambda>s. let out1 = g_output g (fb_toString (ls_buffer s)) out in
              Inr (th', if macro_level m = FATAL then (g_flush g out1, True) else (out1, False)))
     \<and> log_ready e (g_logTimeZone g) t th'"
proof -
  let ?head = "head_items e (g_logTimeZone g) t (macro_level m) (macro_errno e m) @ func_items m func"
  obtain th' where th': "log_ready e (g_logTimeZone g) t th'"
    "macro_logger m e (g_logTimeZone g) (SourceFile_array file) line func th
        = bindR (foldR LogStream_put ?head (new_stream e))
            (\<lambda>s. Inr (th', \<lparr>im_time = en_now e, im_stream = s, im_level = macro_level m, im_line = line, im_basename = SourceFile_array file\<rparr>))"
    using macro_logger_ok [OF assms(1), of m "SourceFile_array file" line func] by (elim exE conjE)
  have "log_statement m e g file line func items th out
      = bindR (foldR LogStream_put ?head (new_stream e)) (\<lambda>s. bindR (foldR LogStream_put items s) (\<lambda>s1.
          bindR (foldR LogStream_put (tail_items file line) s1) (\<lambda>s2. let out1 = g_output g (fb_toString (ls_buffer s2)) out in
            Inr (th', if macro_level m = FATAL then (g_flush g out1, True) else (out1, False)))))"
    using assms(2) th'(2) by (cases "macro_level m = FATAL") (simp_all add: log_statement_def Logger_dtor_def finish_ok [of _ "file"] bindR_assoc Let_def)
  then show ?thesis using th'(1) by (auto simp: line_items_def foldR_append bindR_assoc intro!: exI [of _ th'])
qed

lemma new_stream_ok:
  assumes "log_ready e z t th"
  shows "fb_ok (ls_buffer (new_stream e))" "fb_avail (ls_buffer (new_stream e)) = 4000" "fb_toString (ls_buffer (new_stream e)) = []"
  using assms by (simp_all add: new_stream_def FixedBuffer_ctor_def fb_ok_def fb_avail_def fb_toString_def fb_length_def log_ready_def kSmallBuffer_def)

lemma line_items_ok:
  assumes "log_ready e z t th" "\<forall>x \<in> set items. item_ok x" "- (2 ^ 31) \<le> line" "line < 2 ^ 31"
  shows "\<forall>x \<in> set (line_items m e z t file line func items). item_ok x"
  using assms by (auto simp: line_items_def head_items_def errno_items_def func_items_def tail_items_def macro_errno_def item_ok_def log_ready_def)

text \<open>The text of a line.\<close>

definition line_text :: "log_macro \<Rightarrow> LogEnv \<Rightarrow> TimeZone \<Rightarrow> tm \<Rightarrow> string \<Rightarrow> int \<Rightarrow> string \<Rightarrow> string \<Rightarrow> string" where
  "line_text m e z t file line func message =
     time_text t @ us_text z (en_now e) @ dec_blank 5 (en_gettid e) @ '' '' @ LogLevelName ! level_index (macro_level m)
     @ (if macro_errno e m \<noteq> 0 then en_strerror e (macro_errno e m) @ '' (errno='' @ dec_int (macro_errno e m) @ '') '' else [])
     @ (if m \<in> {LOG_TRACE, LOG_DEBUG} then func @ '' '' else [])
     @ message @ '' - '' @ base_name file @ '':'' @ dec_int line @ [CHR 0x0A]"

lemma line_items_text: "concat (map item_text (line_items m e z t file line func items)) = line_text m e z t file line func (concat (map item_text items))"
  by (simp add: line_items_def head_items_def errno_items_def func_items_def tail_items_def line_text_def)

lemma log_statement_ok:
  assumes "log_ready e (g_logTimeZone g) t th" and "macro_enabled (g_logLevel g) m"
    and "\<forall>x \<in> set items. item_ok x" and "- (2 ^ 31) \<le> line" and "line < 2 ^ 31"
  shows "\<exists>th' sent. log_statement m e g file line func items th out
         = Inr (th', if macro_level m = FATAL then (g_flush g (g_output g sent out), True) else (g_output g sent out, False))
     \<and> log_ready e (g_logTimeZone g) t th'
     \<and> (\<exists>parts. subseq parts (line_items m e (g_logTimeZone g) t file line func items) \<and> sent = concat (map item_text parts))
     \<and> (length (line_text m e (g_logTimeZone g) t file line func (concat (map item_text items))) + 32 \<le> 4000
        \<longrightarrow> sent = line_text m e (g_logTimeZone g) t file line func (concat (map item_text items)))"
proof -
  let ?xs = "line_items m e (g_logTimeZone g) t file line func items"
  obtain th' where th': "log_ready e (g_logTimeZone g) t th'" "log_statement m e g file line func items th out
        = bindR (foldR LogStream_put ?xs (new_stream e)) (\<lambda>s. let out1 = g_output g (fb_toString (ls_buffer s)) out in
              Inr (th', if macro_level m = FATAL then (g_flush g out1, True) else (out1, False)))"
    using log_statement_fold [OF assms(1,2), of "file" line func items out] by (elim exE conjE)
  note new = new_stream_ok [OF assms(1)]
  obtain s' ys where s': "foldR LogStream_put ?xs (new_stream e) = Inr s'" "subseq ys ?xs"
    "appends (concat (map item_text ys)) (ls_buffer (new_stream e)) (ls_buffer s')"
    "length (concat (map item_text ?xs)) + 32 \<le> fb_avail (ls_buffer (new_stream e)) \<longrightarrow> ys = ?xs"
    using puts_ok [OF new(1) line_items_ok [OF assms(1,3-5), of m "file" func]] by (elim exE conjE)
  have "fb_toString (ls_buffer s') = concat (map item_text ys)" using s'(3) new(3) by (simp add: appends_def)
  then show ?thesis using th' s' new(2)
    by (intro exI [of _ th'] exI [of _ "concat (map item_text ys)"]) (auto simp: line_items_text Let_def)
qed

section \<open>Properties\<close>

text \<open>C19. One log statement that is enabled by its level: no assertion fails and nothing is written outside
  the buffer; the output function is called once, with the time, the thread, the level, the error if
  there is one, the function for a trace or debug line, the inserted items, the base name of the file and
  the line number, ended by a newline, when that leaves 32 characters of the buffer free, and otherwise
  with a subsequence of these parts; the thread's caches stay right; a fatal line is flushed and ends the
  process.\<close>

theorem log_line_exact:
  assumes "log_ready e (g_logTimeZone g) t th" and "macro_enabled (g_logLevel g) m"
    and "\<forall>x \<in> set items. item_ok x" and "- (2 ^ 31) \<le> line" and "line < 2 ^ 31"
  shows "\<exists>th' sent. log_statement m e g file line func items th out
         = Inr (th', if macro_level m = FATAL then (g_flush g (g_output g sent out), True) else (g_output g sent out, False))
     \<and> log_ready e (g_logTimeZone g) t th'
     \<and> (\<exists>parts. subseq parts (line_items m e (g_logTimeZone g) t file line func items) \<and> sent = concat (map item_text parts))
     \<and> (length (line_text m e (g_logTimeZone g) t file line func (concat (map item_text items))) + 32 \<le> 4000
        \<longrightarrow> sent = line_text m e (g_logTimeZone g) t file line func (concat (map item_text items)))"
  by (rule log_statement_ok [OF assms])

text \<open>A concrete process: UTC, thread 4242, the thirteenth of September 2020.\<close>

definition sample_env :: LogEnv where
  "sample_env = \<lparr>en_gmtime_r = (\<lambda>s. toUtcTime s False), en_strerror = (\<lambda>_. ''Success''), en_gettid = 4242, en_now = 1600000000123456,
     en_errno = 0, en_garbage = replicate 4000 (CHR ''x'')\<rparr>"

definition sample_globals :: "string list LogGlobals" where
  "sample_globals = \<lparr>g_logLevel = INFO, g_output = (\<lambda>l ls. ls @ [l]), g_flush = (\<lambda>ls. ls), g_logTimeZone = TimeZone_invalid\<rparr>"

definition new_thread :: LogThread where
  "new_thread = CurrentThread.extend CurrentThread_init \<lparr>t_time = [], t_lastSecond = 0\<rparr>"

lemma sample_time:
  "tm_year (toUtcTime 1600000000 False) = 120" "tm_mon (toUtcTime 1600000000 False) = 8" "tm_mday (toUtcTime 1600000000 False) = 13"
  "tm_hour (toUtcTime 1600000000 False) = 12" "tm_min (toUtcTime 1600000000 False) = 26" "tm_sec (toUtcTime 1600000000 False) = 40"
proof -
  let ?t = "tm_zero\<lparr>tm_year := 120, tm_mon := 8, tm_mday := 13, tm_hour := 12, tm_min := 26, tm_sec := 40\<rparr>"
  have f: "fromUtcTime ?t = 1600000000"
    by (simp add: fromUtcTime_def fromUtcTime_fields_def Date_ctor_def getJulianDayNumber_def kJulianDayOf1970_01_01_def kSecondsPerDay_def)
  have ok: "is_date (tm_date ?t)" "clock_ok ?t" "- 4799 \<le> ymd_year (tm_date ?t)"
    by (simp_all add: tm_date_def is_date_def month_length_def clock_ok_def)
  show "tm_year (toUtcTime 1600000000 False) = 120" "tm_mon (toUtcTime 1600000000 False) = 8" "tm_mday (toUtcTime 1600000000 False) = 13"
    using tm_date_fields [OF toUtcTime_fromUtcTime(1) [OF ok, of False]] unfolding f by simp_all
  show "tm_hour (toUtcTime 1600000000 False) = 12" "tm_min (toUtcTime 1600000000 False) = 26" "tm_sec (toUtcTime 1600000000 False) = 40"
    using toUtcTime_fromUtcTime_clock [OF ok, of False] unfolding f by simp_all
qed

lemma sample_ready: "log_ready sample_env TimeZone_invalid (toUtcTime 1600000000 False) new_thread"
  by (simp add: log_ready_def printable_def sample_time sample_env_def new_thread_def CurrentThread_init_def CurrentThread.defs time_cached_def
      current_ok_def zone_time_def TimeZone_valid_def TimeZone_invalid_def kSmallBuffer_def)

definition sample_items :: "log_item list" where
  "sample_items = [LCString (Some ''left ''), LInteger (- 7)]"

lemma sample_line:
  "line_text LOG_WARN sample_env TimeZone_invalid (toUtcTime 1600000000 False) ''net/Buffer.cc'' 12 ''f'' (concat (map item_text sample_items))
     = ''20200913 12:26:40.123456Z  4242 WARN  left -7 - Buffer.cc:12'' @ [CHR 0x0A]"
proof -
  have time: "time_text (toUtcTime 1600000000 False) = ''20200913 12:26:40''" by (simp add: time_text_def sample_time print_simps)
  have parts: "dec_pad 6 123456 = ''123456''" "dec_blank 5 4242 = '' 4242''"
    "concat (map item_text sample_items) = ''left -7''" "base_name ''net/Buffer.cc'' = ''Buffer.cc''" "dec_int 12 = ''12''"
    by (simp_all add: print_simps base_name_def sample_items_def)
  show ?thesis unfolding line_text_def parts time
    by (simp add: sample_env_def us_text_def TimeZone_valid_def TimeZone_invalid_def macro_errno_def LogLevelName_def parts)
qed

theorem log_line_exact_witness:
  "\<exists>th'. log_statement LOG_WARN sample_env sample_globals ''net/Buffer.cc'' 12 ''f'' [LCString (Some ''left ''), LInteger (- 7)] new_thread []
     = Inr (th', [''20200913 12:26:40.123456Z  4242 WARN  left -7 - Buffer.cc:12'' @ [CHR 0x0A]], False)"
proof -
  let ?items = "[LCString (Some ''left ''), LInteger (- 7)]"
  let ?line = "''20200913 12:26:40.123456Z  4242 WARN  left -7 - Buffer.cc:12'' @ [CHR 0x0A]"
  have z: "g_logTimeZone sample_globals = TimeZone_invalid" "g_logLevel sample_globals = INFO" "g_output sample_globals = (\<lambda>l ls. ls @ [l])" by (simp_all add: sample_globals_def)
  note t = sample_line [unfolded sample_items_def]
  have "\<exists>th' sent. log_statement LOG_WARN sample_env sample_globals ''net/Buffer.cc'' 12 ''f'' ?items new_thread []
      = Inr (th', if macro_level LOG_WARN = FATAL then (g_flush sample_globals (g_output sample_globals sent []), True) else (g_output sample_globals sent [], False))
     \<and> log_ready sample_env (g_logTimeZone sample_globals) (toUtcTime 1600000000 False) th'
     \<and> (\<exists>parts. subseq parts (line_items LOG_WARN sample_env (g_logTimeZone sample_globals) (toUtcTime 1600000000 False) ''net/Buffer.cc'' 12 ''f'' ?items)
        \<and> sent = concat (map item_text parts))
     \<and> (length (line_text LOG_WARN sample_env (g_logTimeZone sample_globals) (toUtcTime 1600000000 False) ''net/Buffer.cc'' 12 ''f'' (concat (map item_text ?items))) + 32 \<le> 4000
        \<longrightarrow> sent = line_text LOG_WARN sample_env (g_logTimeZone sample_globals) (toUtcTime 1600000000 False) ''net/Buffer.cc'' 12 ''f'' (concat (map item_text ?items)))"
    by (rule log_line_exact) (simp_all add: z sample_ready macro_enabled_def item_ok_def)
  then show ?thesis unfolding z t by (elim exE conjE) (simp add: z)
qed

text \<open>The level: a statement does nothing exactly when it is a trace, debug or info statement whose level is
  below the one that was set; warnings and errors are always written.\<close>

theorem level_filter:
  "macro_enabled (g_logLevel (setLogLevel level g)) m \<longleftrightarrow> (macro_level m \<le> INFO \<longrightarrow> level \<le> macro_level m)"
  by (cases m) (simp_all add: macro_enabled_def setLogLevel_def less_eq_LogLevel_def)

theorem level_filter_witness: "\<not> macro_enabled (g_logLevel (setLogLevel ERROR sample_globals)) LOG_INFO"
  unfolding level_filter by (simp add: less_eq_LogLevel_def)

text \<open>A change of the time zone is late: within the second that is cached, the time of a line is the cached
  text, whatever the zone is now, while the mark after the microseconds already follows the new zone.\<close>

theorem zone_change_is_late:
  assumes "t_lastSecond th = time div 1000000" and "length (t_time th) = 17" and "0 \<le> time"
  shows "formatTime gm z time th s = bindR (foldR LogStream_put [LString (t_time th), LString (us_text z time)] s) (\<lambda>s2. Inr (th, s2))"
proof -
  have us: "length (dec_pad 6 (time mod 1000000)) = 6" by (intro length_dec_pad) simp_all
  show ?thesis using assms us
    by (simp add: formatTime_def kMicroSecondsPerSecond_def format_second_def Fmt_ctor_def snprintf_fits put_T_put us_text_def bindR_assoc Let_def)
qed

theorem zone_change_is_late_witness:
  "\<exists>th. formatTime (\<lambda>s. toUtcTime s False) (TimeZone_fixed 3600 ''CET'') 1600000000123456 th (new_stream sample_env)
       = bindR (foldR LogStream_put [LString ''20200913 12:26:40'', LString ''.123456 ''] (new_stream sample_env)) (\<lambda>s2. Inr (th, s2))"
proof (rule exI)
  let ?th = "new_thread\<lparr>t_time := ''20200913 12:26:40'', t_lastSecond := 1600000000\<rparr>"
  have "dec_pad 6 123456 = ''123456''" by (simp add: print_simps)
  then have u: "us_text (TimeZone_fixed 3600 ''CET'') 1600000000123456 = ''.123456 ''" by (simp add: us_text_def TimeZone_valid_def TimeZone_fixed_def)
  have f: "formatTime (\<lambda>s. toUtcTime s False) (TimeZone_fixed 3600 ''CET'') 1600000000123456 ?th (new_stream sample_env)
       = bindR (foldR LogStream_put [LString (t_time ?th), LString (us_text (TimeZone_fixed 3600 ''CET'') 1600000000123456)] (new_stream sample_env)) (\<lambda>s2. Inr (?th, s2))"
    by (rule zone_change_is_late) simp_all
  have t: "t_time ?th = ''20200913 12:26:40''" by simp
  show "formatTime (\<lambda>s. toUtcTime s False) (TimeZone_fixed 3600 ''CET'') 1600000000123456 ?th (new_stream sample_env)
       = bindR (foldR LogStream_put [LString ''20200913 12:26:40'', LString ''.123456 ''] (new_stream sample_env)) (\<lambda>s2. Inr (?th, s2))"
    using f unfolding u t .
qed

end
