(* ===== verification/Base_StringPiece.thy ===== *)
theory Base_StringPiece
  imports Cpp_Prelude "HOL-Library.Char_ord" "HOL-Library.List_Lexorder" "HOL-Library.Sublist"
begin

text \<open>
  \<^verbatim>\<open>base/StringPiece.h\<close>: a pointer and a length. The pointer is null or an offset into an allocated block,
  the length is an \<^verbatim>\<open>int\<close> that nothing checks; reading outside the block is a fault. The order of pieces
  is compared with the lexicographic order that the library gives to lists of characters.
\<close>

record StringPiece =
  sp_block :: "string option"   \<comment> \<open>the block \<^verbatim>\<open>ptr_\<close> points into, nothing for \<^verbatim>\<open>NULL\<close>\<close>
  sp_off :: int                 \<comment> \<open>where in the block\<close>
  sp_length :: int

text \<open>\<^verbatim>\<open>static_cast<int>\<close> of a size.\<close>

definition int_of_size :: "nat \<Rightarrow> int" where "int_of_size n = sint (word_of_nat n :: 32 word)"

definition strlen :: "string \<Rightarrow> nat" where "strlen s = length (takeWhile (\<lambda>c. c \<noteq> CHR 0x00) s)"

definition StringPiece_null :: StringPiece where
  "StringPiece_null = \<lparr>sp_block = None, sp_off = 0, sp_length = 0\<rparr>"

definition StringPiece_cstr :: "string \<Rightarrow> StringPiece" where
  "StringPiece_cstr str = \<lparr>sp_block = Some str, sp_off = 0, sp_length = int_of_size (strlen str)\<rparr>"

definition StringPiece_string :: "string \<Rightarrow> StringPiece" where
  "StringPiece_string str = \<lparr>sp_block = Some str, sp_off = 0, sp_length = int_of_size (length str)\<rparr>"

definition StringPiece_range :: "string \<Rightarrow> int \<Rightarrow> int \<Rightarrow> StringPiece" where
  "StringPiece_range block offset len = \<lparr>sp_block = Some block, sp_off = offset, sp_length = len\<rparr>"

definition sp_empty :: "StringPiece \<Rightarrow> bool" where "sp_empty p = (sp_length p = 0)"

definition sp_clear :: "StringPiece \<Rightarrow> StringPiece" where
  "sp_clear p = p\<lparr>sp_block := None, sp_off := 0, sp_length := 0\<rparr>"

definition sp_set :: "string \<Rightarrow> int \<Rightarrow> int \<Rightarrow> StringPiece \<Rightarrow> StringPiece" where
  "sp_set block offset len p = p\<lparr>sp_block := Some block, sp_off := offset, sp_length := len\<rparr>"

definition sp_set_cstr :: "string \<Rightarrow> StringPiece \<Rightarrow> StringPiece" where
  "sp_set_cstr str p = p\<lparr>sp_block := Some str, sp_off := 0, sp_length := int_of_size (strlen str)\<rparr>"

text \<open>\<open>n\<close> bytes from the pointer on, as \<^verbatim>\<open>memcmp\<close> and the string constructor read them: a negative count is
  a huge \<^verbatim>\<open>size_t\<close>.\<close>

definition sp_bytes :: "StringPiece \<Rightarrow> int \<Rightarrow> string result" where
  "sp_bytes p n =
     (if n = 0 then Inr []
      else case sp_block p of
        None \<Rightarrow> Inl DanglingPointer
      | Some b \<Rightarrow> if 0 < n \<and> 0 \<le> sp_off p then vec_read b (nat (sp_off p)) (nat (sp_off p + n)) else Inl OutOfBounds)"

definition sp_index :: "StringPiece \<Rightarrow> int \<Rightarrow> char result" where
  "sp_index p i =
     (case sp_block p of
        None \<Rightarrow> Inl DanglingPointer
      | Some b \<Rightarrow> if 0 \<le> sp_off p + i then nthR b (nat (sp_off p + i)) else Inl OutOfBounds)"

definition remove_prefix :: "int \<Rightarrow> StringPiece \<Rightarrow> StringPiece" where
  "remove_prefix n p = p\<lparr>sp_off := sp_off p + n, sp_length := sp_length p - n\<rparr>"

definition remove_suffix :: "int \<Rightarrow> StringPiece \<Rightarrow> StringPiece" where
  "remove_suffix n p = p\<lparr>sp_length := sp_length p - n\<rparr>"

text \<open>The sign of the first difference of two byte sequences of the same length.\<close>

fun memcmp_bytes :: "string \<Rightarrow> string \<Rightarrow> int" where
  "memcmp_bytes (c # cs) (d # ds) = (if c = d then memcmp_bytes cs ds else if (of_char c :: nat) < of_char d then - 1 else 1)"
| "memcmp_bytes _ _ = 0"

definition memcmp :: "StringPiece \<Rightarrow> StringPiece \<Rightarrow> int \<Rightarrow> int result" where
  "memcmp p q n = bindR (sp_bytes p n) (\<lambda>a. bindR (sp_bytes q n) (\<lambda>b. Inr (memcmp_bytes a b)))"

definition sp_eq :: "StringPiece \<Rightarrow> StringPiece \<Rightarrow> bool result" where
  "sp_eq p x = (if sp_length p = sp_length x then bindR (memcmp p x (sp_length p)) (\<lambda>r. Inr (r = 0)) else Inr False)"

definition sp_neq :: "StringPiece \<Rightarrow> StringPiece \<Rightarrow> bool result" where
  "sp_neq p x = bindR (sp_eq p x) (\<lambda>b. Inr (\<not> b))"

text \<open>The macro \<^verbatim>\<open>STRINGPIECE_BINARY_PREDICATE\<close>, with the comparison of lengths and that of the result, and
  its four instances.\<close>

definition binary_predicate :: "(int \<Rightarrow> int \<Rightarrow> bool) \<Rightarrow> (int \<Rightarrow> int \<Rightarrow> bool) \<Rightarrow> StringPiece \<Rightarrow> StringPiece \<Rightarrow> bool result" where
  "binary_predicate cmp auxcmp p x =
     bindR (memcmp p x (if sp_length p < sp_length x then sp_length p else sp_length x)) (\<lambda>r.
       Inr (auxcmp r 0 \<or> (r = 0 \<and> cmp (sp_length p) (sp_length x))))"

definition sp_less :: "StringPiece \<Rightarrow> StringPiece \<Rightarrow> bool result" where "sp_less = binary_predicate (<) (<)"
definition sp_le :: "StringPiece \<Rightarrow> StringPiece \<Rightarrow> bool result" where "sp_le = binary_predicate (\<le>) (<)"
definition sp_ge :: "StringPiece \<Rightarrow> StringPiece \<Rightarrow> bool result" where "sp_ge = binary_predicate (\<ge>) (>)"
definition sp_gt :: "StringPiece \<Rightarrow> StringPiece \<Rightarrow> bool result" where "sp_gt = binary_predicate (>) (>)"

definition sp_compare :: "StringPiece \<Rightarrow> StringPiece \<Rightarrow> int result" where
  "sp_compare p x =
     bindR (memcmp p x (if sp_length p < sp_length x then sp_length p else sp_length x)) (\<lambda>r.
       Inr (if r = 0 then if sp_length p < sp_length x then - 1 else if sp_length p > sp_length x then 1 else r else r))"

definition as_string :: "StringPiece \<Rightarrow> string result" where "as_string p = sp_bytes p (sp_length p)"

definition CopyToString :: "StringPiece \<Rightarrow> string \<Rightarrow> string result" where "CopyToString p target = sp_bytes p (sp_length p)"

definition starts_with :: "StringPiece \<Rightarrow> StringPiece \<Rightarrow> bool result" where
  "starts_with p x = (if sp_length p \<ge> sp_length x then bindR (memcmp p x (sp_length x)) (\<lambda>r. Inr (r = 0)) else Inr False)"

section \<open>Lemmas\<close>

text \<open>A piece inside its block, and the text it stands for.\<close>

definition piece_ok :: "StringPiece \<Rightarrow> bool" where
  "piece_ok p = (case sp_block p of None \<Rightarrow> sp_length p = 0
     | Some b \<Rightarrow> 0 \<le> sp_off p \<and> 0 \<le> sp_length p \<and> sp_off p + sp_length p \<le> int (length b))"

definition piece_text :: "StringPiece \<Rightarrow> string" where
  "piece_text p = (case sp_block p of None \<Rightarrow> [] | Some b \<Rightarrow> take (nat (sp_length p)) (drop (nat (sp_off p)) b))"

lemma length_piece_text: "piece_ok p \<Longrightarrow> int (length (piece_text p)) = sp_length p"
  by (auto simp: piece_ok_def piece_text_def split: option.splits)

lemma sp_bytes_ok:
  assumes "piece_ok p" "0 \<le> n" "n \<le> sp_length p"
  shows "sp_bytes p n = Inr (take (nat n) (piece_text p))"
proof (cases "sp_block p")
  case (Some b)
  have "nat (sp_off p + n) - nat (sp_off p) = nat n" using assms Some by (auto simp: piece_ok_def)
  then show ?thesis using assms Some by (auto simp: sp_bytes_def piece_ok_def piece_text_def vec_read_def min_def)
qed (use assms in \<open>auto simp: sp_bytes_def piece_ok_def piece_text_def\<close>)

lemma memcmp_bytes_zero: "length xs = length ys \<Longrightarrow> memcmp_bytes xs ys = 0 \<longleftrightarrow> xs = ys"
  by (induction xs ys rule: list_induct2) auto

lemma memcmp_bytes_neg: "length xs = length ys \<Longrightarrow> memcmp_bytes xs ys < 0 \<longleftrightarrow> xs < ys"
  by (induction xs ys rule: list_induct2) (auto simp: less_char_def)

lemma memcmp_bytes_pos: "length xs = length ys \<Longrightarrow> memcmp_bytes xs ys > 0 \<longleftrightarrow> xs > ys"
  using memcmp_bytes_zero [of xs ys] memcmp_bytes_neg [of xs ys] by (metis linorder_less_linear less_asym)

text \<open>Two lists compare as their common length does, then as their lengths do.\<close>

lemma lex_common:
  fixes xs ys :: string
  defines "m \<equiv> min (length xs) (length ys)"
  shows "xs < ys \<longleftrightarrow> take m xs < take m ys \<or> (take m xs = take m ys \<and> length xs < length ys)"
    "xs = ys \<longleftrightarrow> take m xs = take m ys \<and> length xs = length ys"
  unfolding m_def by (induction xs ys rule: list_induct2') auto

text \<open>What the comparisons rest on: the bytes of the common length.\<close>

lemma memcmp_common:
  assumes "piece_ok p" "piece_ok q"
  defines "m \<equiv> min (length (piece_text p)) (length (piece_text q))"
  shows "memcmp p q (if sp_length p < sp_length q then sp_length p else sp_length q) = Inr (memcmp_bytes (take m (piece_text p)) (take m (piece_text q)))"
proof -
  let ?n = "if sp_length p < sp_length q then sp_length p else sp_length q"
  have n: "?n = int m" using length_piece_text [OF assms(1)] length_piece_text [OF assms(2)] by (auto simp: m_def)
  then have "0 \<le> ?n" "?n \<le> sp_length p" "?n \<le> sp_length q" by (simp_all split: if_splits)
  then have "sp_bytes p ?n = Inr (take m (piece_text p))" "sp_bytes q ?n = Inr (take m (piece_text q))"
    using sp_bytes_ok [OF assms(1)] sp_bytes_ok [OF assms(2)] n by auto
  then show ?thesis by (simp add: memcmp_def)
qed

text \<open>The sign of that comparison, with the lengths, decides the order of the texts.\<close>

lemma memcmp_order:
  assumes "piece_ok p" "piece_ok q"
  shows "\<exists>r. memcmp p q (if sp_length p < sp_length q then sp_length p else sp_length q) = Inr r
     \<and> (piece_text p < piece_text q \<longleftrightarrow> r < 0 \<or> (r = 0 \<and> sp_length p < sp_length q))
     \<and> (piece_text q < piece_text p \<longleftrightarrow> r > 0 \<or> (r = 0 \<and> sp_length q < sp_length p))
     \<and> (piece_text p = piece_text q \<longleftrightarrow> r = 0 \<and> sp_length p = sp_length q)"
proof -
  define m where "m = min (length (piece_text p)) (length (piece_text q))"
  let ?a = "take m (piece_text p)" and ?b = "take m (piece_text q)"
  have len: "length ?a = length ?b" by (simp add: m_def)
  have L: "sp_length p < sp_length q \<longleftrightarrow> length (piece_text p) < length (piece_text q)" "sp_length q < sp_length p \<longleftrightarrow> length (piece_text q) < length (piece_text p)"
    "sp_length p = sp_length q \<longleftrightarrow> length (piece_text p) = length (piece_text q)"
    using length_piece_text [OF assms(1)] length_piece_text [OF assms(2)] by linarith+
  have lex: "piece_text p < piece_text q \<longleftrightarrow> ?a < ?b \<or> (?a = ?b \<and> length (piece_text p) < length (piece_text q))"
    "piece_text q < piece_text p \<longleftrightarrow> ?b < ?a \<or> (?a = ?b \<and> length (piece_text q) < length (piece_text p))"
    "piece_text p = piece_text q \<longleftrightarrow> ?a = ?b \<and> length (piece_text p) = length (piece_text q)"
    using lex_common [of "piece_text p" "piece_text q"] lex_common(1) [of "piece_text q" "piece_text p"] unfolding m_def by (metis min.commute)+
  have "memcmp p q (if sp_length p < sp_length q then sp_length p else sp_length q) = Inr (memcmp_bytes ?a ?b)"
    unfolding m_def by (rule memcmp_common [OF assms])
  then show ?thesis unfolding L lex memcmp_bytes_zero [OF len, symmetric] memcmp_bytes_neg [OF len, symmetric] memcmp_bytes_pos [OF len, symmetric]
    by (intro exI conjI) auto
qed

lemma sp_eq_ok:
  assumes "piece_ok p" "piece_ok q"
  shows "sp_eq p q = Inr (piece_text p = piece_text q)"
  using memcmp_order [OF assms] by (auto simp: sp_eq_def)

lemma starts_with_ok:
  assumes "piece_ok p" "piece_ok q"
  shows "starts_with p q = Inr (prefix (piece_text q) (piece_text p))"
proof (cases "sp_length p \<ge> sp_length q")
  case True
  have n: "nat (sp_length q) = length (piece_text q)" using length_piece_text [OF assms(2)] by linarith
  have "0 \<le> sp_length q" using length_piece_text [OF assms(2)] by linarith
  then have "memcmp p q (sp_length q) = Inr (memcmp_bytes (take (length (piece_text q)) (piece_text p)) (piece_text q))"
    using sp_bytes_ok [OF assms(1), of "sp_length q"] sp_bytes_ok [OF assms(2), of "sp_length q"] True by (simp add: memcmp_def n)
  moreover have "length (take (length (piece_text q)) (piece_text p)) = length (piece_text q)"
    using True length_piece_text [OF assms(1)] length_piece_text [OF assms(2)] by simp
  ultimately show ?thesis using True by (auto simp: starts_with_def memcmp_bytes_zero prefix_def) (metis append_eq_conv_conj)+
next
  case False
  then have "length (piece_text p) < length (piece_text q)" using length_piece_text [OF assms(1)] length_piece_text [OF assms(2)] by linarith
  then show ?thesis using False by (auto simp: starts_with_def dest: prefix_length_le)
qed

section \<open>Properties\<close>

text \<open>Pieces inside their blocks are ordered as the texts they stand for: equality and inequality, the
  four order operators and \<^verbatim>\<open>compare\<close> agree with equality and the lexicographic order of byte strings,
  \<^verbatim>\<open>starts_with\<close> is the prefix relation, and no comparison reads outside a block.\<close>

theorem piece_order_exact:
  assumes "piece_ok p" and "piece_ok q"
  shows "sp_eq p q = Inr (piece_text p = piece_text q) \<and> sp_neq p q = Inr (piece_text p \<noteq> piece_text q)
     \<and> sp_less p q = Inr (piece_text p < piece_text q) \<and> sp_le p q = Inr (piece_text p \<le> piece_text q)
     \<and> sp_ge p q = Inr (piece_text p \<ge> piece_text q) \<and> sp_gt p q = Inr (piece_text p > piece_text q)
     \<and> (\<exists>r. sp_compare p q = Inr r \<and> (r < 0 \<longleftrightarrow> piece_text p < piece_text q) \<and> (r = 0 \<longleftrightarrow> piece_text p = piece_text q))
     \<and> starts_with p q = Inr (prefix (piece_text q) (piece_text p))"
proof -
  obtain r where r: "memcmp p q (if sp_length p < sp_length q then sp_length p else sp_length q) = Inr r"
    "piece_text p < piece_text q \<longleftrightarrow> r < 0 \<or> (r = 0 \<and> sp_length p < sp_length q)"
    "piece_text q < piece_text p \<longleftrightarrow> r > 0 \<or> (r = 0 \<and> sp_length q < sp_length p)"
    "piece_text p = piece_text q \<longleftrightarrow> r = 0 \<and> sp_length p = sp_length q"
    using memcmp_order [OF assms] by (elim exE conjE)
  have le: "piece_text p \<le> piece_text q \<longleftrightarrow> r < 0 \<or> (r = 0 \<and> sp_length p \<le> sp_length q)"
    "piece_text q \<le> piece_text p \<longleftrightarrow> r > 0 \<or> (r = 0 \<and> sp_length q \<le> sp_length p)"
    unfolding le_less r(2) r(3) r(4) r(4) [unfolded eq_commute [of "piece_text p"]] by auto
  have "sp_less p q = Inr (piece_text p < piece_text q)" "sp_le p q = Inr (piece_text p \<le> piece_text q)"
    "sp_ge p q = Inr (piece_text p \<ge> piece_text q)" "sp_gt p q = Inr (piece_text p > piece_text q)"
    unfolding sp_less_def sp_le_def sp_ge_def sp_gt_def binary_predicate_def r(1) r(2,3) le by auto
  moreover have "\<exists>r. sp_compare p q = Inr r \<and> (r < 0 \<longleftrightarrow> piece_text p < piece_text q) \<and> (r = 0 \<longleftrightarrow> piece_text p = piece_text q)"
    unfolding sp_compare_def r(1) r(2,4) by auto
  ultimately show ?thesis using sp_eq_ok [OF assms] starts_with_ok [OF assms] by (simp add: sp_neq_def)
qed

theorem piece_order_exact_witness:
  "sp_less (StringPiece_range ''xabc'' 1 3) (StringPiece_range ''abd'' 0 3) = Inr True
   \<and> starts_with (StringPiece_range ''xabc'' 1 3) (StringPiece_range ''ab'' 0 2) = Inr True"
proof -
  have ok: "piece_ok (StringPiece_range ''xabc'' 1 3)" "piece_ok (StringPiece_range ''abd'' 0 3)" "piece_ok (StringPiece_range ''ab'' 0 2)"
    by (simp_all add: piece_ok_def StringPiece_range_def)
  have t: "piece_text (StringPiece_range ''xabc'' 1 3) = ''abc''" "piece_text (StringPiece_range ''abd'' 0 3) = ''abd''" "piece_text (StringPiece_range ''ab'' 0 2) = ''ab''"
    by (simp_all add: piece_text_def StringPiece_range_def eval_nat_numeral)
  show ?thesis using piece_order_exact [OF ok(1,2)] piece_order_exact [OF ok(1,3)] by (simp add: t)
qed

text \<open>Cutting: removing at most as many characters as a piece has, from its front or its end, leaves a piece
  inside the block that stands for the rest of the text, an index below the length reads that character,
  and \<^verbatim>\<open>as_string\<close> copies the text.\<close>

theorem piece_cut:
  assumes "piece_ok p" and "0 \<le> n" and "n \<le> sp_length p"
  shows "piece_ok (remove_prefix n p) \<and> piece_text (remove_prefix n p) = drop (nat n) (piece_text p)
     \<and> piece_ok (remove_suffix n p) \<and> piece_text (remove_suffix n p) = take (nat (sp_length p - n)) (piece_text p)
     \<and> (n < sp_length p \<longrightarrow> sp_index p n = Inr (piece_text p ! nat n)) \<and> as_string p = Inr (piece_text p)"
proof (cases "sp_block p")
  case None
  then show ?thesis using assms by (simp add: piece_ok_def piece_text_def remove_prefix_def remove_suffix_def as_string_def sp_bytes_def)
next
  case (Some b)
  have b: "0 \<le> sp_off p" "0 \<le> sp_length p" "sp_off p + sp_length p \<le> int (length b)" using assms(1) Some by (simp_all add: piece_ok_def)
  have "take (nat (sp_length p)) (piece_text p) = piece_text p" using length_piece_text [OF assms(1)] by simp
  then have "as_string p = Inr (piece_text p)" using sp_bytes_ok [OF assms(1) b(2) order_refl] by (simp add: as_string_def)
  moreover have "nat (sp_off p + n) = nat (sp_off p) + nat n" "nat (sp_length p - n) = nat (sp_length p) - nat n" using b assms(2) by simp_all
  moreover have "nat n < nat (sp_length p)" "nat (sp_off p) + nat n < length b" if "n < sp_length p" using that b assms(2) by linarith+
  ultimately show ?thesis using b assms(2,3) Some
    by (auto simp: piece_ok_def piece_text_def remove_prefix_def remove_suffix_def sp_index_def nthR_def drop_take add.commute min_def)
qed

theorem piece_cut_witness: "piece_text (remove_prefix 2 (StringPiece_range ''hello'' 0 5)) = ''llo''"
proof -
  have ok: "piece_ok (StringPiece_range ''hello'' 0 5)" by (simp add: piece_ok_def StringPiece_range_def)
  have "piece_text (remove_prefix 2 (StringPiece_range ''hello'' 0 5)) = drop (nat 2) (piece_text (StringPiece_range ''hello'' 0 5))"
    using piece_cut [OF ok, of 2] by (simp add: StringPiece_range_def)
  then show ?thesis by (simp add: piece_text_def StringPiece_range_def)
qed

end
