(* ===== verification/Base_Process.thy ===== *)
theory Base_Process
  imports Base_StringPiece Base_Thread "HOL-Library.Multiset"
begin

text \<open>
  \<^verbatim>\<open>ReadSmallFile\<close> of \<^verbatim>\<open>base/FileUtil.cc\<close> and \<^verbatim>\<open>base/ProcessInfo.cc\<close>: reading a small file in pieces, and what
  the process reads about itself from \<^verbatim>\<open>/proc\<close>; also the stack trace of \<^verbatim>\<open>base/CurrentThread.cc\<close>. The system calls are arguments: \<^verbatim>\<open>read\<close> is a function on
  the state of the open file that gives an error number or the bytes it delivers, a directory is the list of the
  names that \<^verbatim>\<open>scandir\<close> hands to its filter.
\<close>

section \<open>Small files\<close>

definition kBufferSize :: nat where "kBufferSize = 64 * 1024"

record 'k ReadSmallFile =
  rs_file :: "'k option"   \<comment> \<open>the open file, nothing when \<^verbatim>\<open>fd_ < 0\<close>\<close>
  rs_err :: int
  rs_buf :: string

definition ReadSmallFile_ctor :: "(int + 'k) \<Rightarrow> string \<Rightarrow> 'k ReadSmallFile result" where
  "ReadSmallFile_ctor opened garbage =
     bindR (vec_write garbage 0 [CHR 0x00]) (\<lambda>buf.
       Inr (case opened of Inl errno \<Rightarrow> \<lparr>rs_file = None, rs_err = errno, rs_buf = buf\<rparr>
                         | Inr k \<Rightarrow> \<lparr>rs_file = Some k, rs_err = 0, rs_buf = buf\<rparr>))"

text \<open>The file that the destructor closes.\<close>

definition ReadSmallFile_dtor :: "'k ReadSmallFile \<Rightarrow> 'k option" where "ReadSmallFile_dtor f = rs_file f"

type_synonym 'k read_call = "'k \<Rightarrow> nat \<Rightarrow> (int + string) \<times> 'k"

text \<open>The loop: each turn that delivers something makes the text longer, so it ends.\<close>

function read_loop :: "'k read_call \<Rightarrow> nat \<Rightarrow> string \<Rightarrow> int \<Rightarrow> string \<Rightarrow> 'k \<Rightarrow> (string \<times> int \<times> string \<times> 'k) result" where
  "read_loop rd maxSize content err buf k =
     (if length content < maxSize
      then let toRead = min (maxSize - length content) kBufferSize in
        case rd k toRead of
          (Inl e, k1) \<Rightarrow> Inr (content, e, buf, k1)
        | (Inr d, k1) \<Rightarrow>
            if d = [] then Inr (content, err, buf, k1)
            else case vec_write buf 0 d of
              Inl f \<Rightarrow> Inl f
            | Inr buf1 \<Rightarrow> read_loop rd maxSize (content @ d) err buf1 k1
      else Inr (content, err, buf, k))"
  by pat_completeness auto
termination
  by (relation "measure (\<lambda>(_, maxSize, content, _). maxSize - length content)") (auto intro!: diff_less_mono2)

declare read_loop.simps [simp del]

datatype file_kind = S_REG | S_DIR | S_OTHER

record Stat =
  st_kind :: file_kind
  st_size :: int
  st_mtime :: int
  st_ctime :: int

text \<open>What a caller asks for: the size, the times (each a pointer that may be null), and what it gets.\<close>

record FileInfo =
  fi_size :: "int option"
  fi_mtime :: "int option"
  fi_ctime :: "int option"

text \<open>The block that stores the file's data; reserving a negative size throws.\<close>

definition read_stat :: "bool \<Rightarrow> bool \<Rightarrow> int \<Rightarrow> (int + Stat) \<Rightarrow> int \<Rightarrow> (int \<times> FileInfo) result" where
  "read_stat wantMtime wantCtime maxSize fstat err =
     (case fstat of
        Inl errno \<Rightarrow> Inr (errno, \<lparr>fi_size = None, fi_mtime = None, fi_ctime = None\<rparr>)
      | Inr st \<Rightarrow>
          if st_kind st = S_REG \<and> min maxSize (st_size st) < 0 then Inl BadAlloc
          else Inr (if st_kind st = S_DIR then 21 else err,
            \<lparr>fi_size = (if st_kind st = S_REG then Some (st_size st) else None),
             fi_mtime = (if wantMtime then Some (st_mtime st) else None), fi_ctime = (if wantCtime then Some (st_ctime st) else None)\<rparr>))"

definition readToString ::
    "'k read_call \<Rightarrow> (int + Stat) \<Rightarrow> int \<Rightarrow> bool \<Rightarrow> bool \<Rightarrow> bool \<Rightarrow> string \<Rightarrow> 'k ReadSmallFile \<Rightarrow> (int \<times> string \<times> FileInfo \<times> 'k ReadSmallFile) result" where
  "readToString rd fstat maxSize wantSize wantMtime wantCtime content f =
     (let none = \<lparr>fi_size = None, fi_mtime = None, fi_ctime = None\<rparr> in
      case rs_file f of
        None \<Rightarrow> Inr (rs_err f, content, none, f)
      | Some k \<Rightarrow>
          bindR (if wantSize then read_stat wantMtime wantCtime maxSize fstat (rs_err f) else Inr (rs_err f, none)) (\<lambda>(err, info).
          bindR (read_loop rd (nat (maxSize mod 2 ^ 64)) [] err (rs_buf f) k) (\<lambda>(content1, err1, buf1, k1).
            Inr (err1, content1, info, f\<lparr>rs_buf := buf1, rs_file := Some k1\<rparr>))))"

text \<open>\<^verbatim>\<open>readToBuffer\<close>: \<open>pread\<close> is the call's result; the value stored in \<^verbatim>\<open>*size\<close> is returned.\<close>

definition readToBuffer :: "(int + string) \<Rightarrow> 'k ReadSmallFile \<Rightarrow> (int \<times> nat option \<times> 'k ReadSmallFile) result" where
  "readToBuffer pread f =
     (case rs_file f of
        None \<Rightarrow> Inr (rs_err f, None, f)
      | Some k \<Rightarrow>
          (case pread of
             Inl errno \<Rightarrow> Inr (errno, None, f)
           | Inr d \<Rightarrow> bindR (vec_write (rs_buf f) 0 d) (\<lambda>buf. bindR (vec_write buf (length d) [CHR 0x00]) (\<lambda>buf1.
               Inr (rs_err f, Some (length d), f\<lparr>rs_buf := buf1\<rparr>)))))"

text \<open>\<^verbatim>\<open>FileUtil::readFile\<close> without the file's data, as \<^verbatim>\<open>ProcessInfo\<close> calls it: the error and the text.\<close>

definition readFile :: "'k read_call \<Rightarrow> (int + 'k) \<Rightarrow> string \<Rightarrow> int \<Rightarrow> string \<Rightarrow> (int \<times> string) result" where
  "readFile rd opened garbage maxSize content =
     bindR (ReadSmallFile_ctor opened garbage) (\<lambda>f.
     bindR (readToString rd (Inl 0) maxSize False False False content f) (\<lambda>(err, content1, _). Inr (err, content1)))"

section \<open>The process\<close>

definition isdigit :: "char \<Rightarrow> bool" where
  "isdigit c = (48 \<le> (of_char c :: nat) \<and> (of_char c :: nat) \<le> 57)"

text \<open>\<^verbatim>\<open>atoi\<close>: blanks, a sign, digits up to the first other character.\<close>

definition atoi :: "string \<Rightarrow> int" where
  "atoi s =
     (let t = dropWhile isspace s in
      case t of
        [] \<Rightarrow> 0
      | c # cs \<Rightarrow> if c = CHR ''-'' then - int (dec_value (takeWhile isdigit cs))
                  else if c = CHR ''+'' then int (dec_value (takeWhile isdigit cs))
                  else int (dec_value (takeWhile isdigit t)))"

text \<open>A directory entry's name ends with a \<^verbatim>\<open>NUL\<close>, so \<^verbatim>\<open>d_name[0]\<close> exists.\<close>

definition first_digit :: "string \<Rightarrow> bool" where
  "first_digit d_name = (case d_name of [] \<Rightarrow> False | c # _ \<Rightarrow> isdigit c)"

definition fdDirFilter :: "string \<Rightarrow> int \<Rightarrow> int" where
  "fdDirFilter d_name t_numOpenedFiles = (if first_digit d_name then t_numOpenedFiles + 1 else t_numOpenedFiles)"

text \<open>\<^verbatim>\<open>t_pids\<close> is null outside \<^verbatim>\<open>threads\<close>.\<close>

definition taskDirFilter :: "string \<Rightarrow> int list option \<Rightarrow> int list option result" where
  "taskDirFilter d_name t_pids =
     (if first_digit d_name then (case t_pids of None \<Rightarrow> Inl DanglingPointer | Some pids \<Rightarrow> Inr (Some (pids @ [atoi d_name])))
      else Inr t_pids)"

text \<open>\<^verbatim>\<open>scandir\<close> calls the filter on each name, or on none when it fails; the filters select nothing, so there is
  no list.\<close>

definition scanDir :: "string list option \<Rightarrow> (string \<Rightarrow> 's \<Rightarrow> 's result) \<Rightarrow> 's \<Rightarrow> (int \<times> 's) result" where
  "scanDir dir flt s = (case dir of None \<Rightarrow> Inr (- 1, s) | Some entries \<Rightarrow> bindR (foldR flt entries s) (\<lambda>s1. Inr (0, s1)))"

definition pidString :: "int \<Rightarrow> string" where "pidString pid = snprintf 32 (dec_int pid)"

definition username :: "string option \<Rightarrow> string" where
  "username pw_name = (case pw_name of None \<Rightarrow> ''unknownuser'' | Some n \<Rightarrow> n)"

text \<open>\<open>gethostname\<close> gives the 256 bytes of the array, or fails.\<close>

definition hostname :: "string option \<Rightarrow> string result" where
  "hostname gethostname =
     (case gethostname of
        None \<Rightarrow> Inr ''unknownhost''
      | Some buf \<Rightarrow> bindR (vec_write buf 255 [CHR 0x00]) (\<lambda>b. Inr (takeWhile (\<lambda>c. c \<noteq> CHR 0x00) b)))"

definition procname :: "string \<Rightarrow> StringPiece" where
  "procname stat =
     (let lp = std_find (CHR ''('') stat; rp = strrchr (CHR '')'') stat in
      case rp of
        None \<Rightarrow> StringPiece_null
      | Some r \<Rightarrow> if lp \<noteq> length stat \<and> lp < r then sp_set stat (int (lp + 1)) (int_of_size (r - lp - 1)) StringPiece_null else StringPiece_null)"

definition threadStat_path :: "int \<Rightarrow> string" where
  "threadStat_path n = snprintf 64 (''/proc/self/task/'' @ dec_int n @ ''/stat'')"

text \<open>\<open>readlink\<close> gives at most 1024 bytes, or fails.\<close>

definition exePath :: "string option \<Rightarrow> string" where
  "exePath readlink = (case readlink of None \<Rightarrow> [] | Some buf \<Rightarrow> if length buf > 0 then buf else [])"

definition openedFiles :: "string list option \<Rightarrow> int result" where
  "openedFiles dir = bindR (scanDir dir (\<lambda>d n. Inr (fdDirFilter d n)) 0) (\<lambda>(_, n). Inr n)"

text \<open>\<open>rlim\<close> is the limit of descriptors, nothing when \<^verbatim>\<open>getrlimit\<close> fails.\<close>

definition maxOpenFiles :: "64 word option \<Rightarrow> string list option \<Rightarrow> int result" where
  "maxOpenFiles rlim dir = (case rlim of None \<Rightarrow> openedFiles dir | Some r \<Rightarrow> Inr (sint (ucast r :: 32 word)))"

definition numThreads :: "string \<Rightarrow> int" where
  "numThreads status =
     (let pos = std_search status ''Threads:'' in if pos \<noteq> length status then atoi (drop (pos + 8) status) else 0)"

definition threads :: "string list option \<Rightarrow> int list result" where
  "threads dir =
     bindR (scanDir dir taskDirFilter (Some [])) (\<lambda>(_, t_pids).
       case t_pids of None \<Rightarrow> Inl DanglingPointer | Some result \<Rightarrow> Inr (sort result))"

text \<open>The files of the process. \<open>opn\<close> is \<^verbatim>\<open>open\<close>, which gives an error number or the file; an error of the
  reading is ignored.\<close>

definition read_proc :: "'k read_call \<Rightarrow> (string \<Rightarrow> int + 'k) \<Rightarrow> string \<Rightarrow> string \<Rightarrow> string result" where
  "read_proc rd opn garbage path = bindR (readFile rd (opn path) garbage 65536 []) (\<lambda>(_, t). Inr t)"

definition procStatus :: "'k read_call \<Rightarrow> (string \<Rightarrow> int + 'k) \<Rightarrow> string \<Rightarrow> string result" where
  "procStatus rd opn garbage = read_proc rd opn garbage ''/proc/self/status''"

definition procStat :: "'k read_call \<Rightarrow> (string \<Rightarrow> int + 'k) \<Rightarrow> string \<Rightarrow> string result" where
  "procStat rd opn garbage = read_proc rd opn garbage ''/proc/self/stat''"

definition threadStat :: "'k read_call \<Rightarrow> (string \<Rightarrow> int + 'k) \<Rightarrow> string \<Rightarrow> int \<Rightarrow> string result" where
  "threadStat rd opn garbage n = read_proc rd opn garbage (threadStat_path n)"

definition procname_self :: "'k read_call \<Rightarrow> (string \<Rightarrow> int + 'k) \<Rightarrow> string \<Rightarrow> string result" where
  "procname_self rd opn garbage = bindR (procStat rd opn garbage) (\<lambda>t. as_string (procname t))"

section \<open>The stack trace\<close>

text \<open>The loop over a symbol: the places of the last opening parenthesis and of the last plus sign.\<close>

primrec scan_symbol :: "nat \<Rightarrow> nat option \<Rightarrow> nat option \<Rightarrow> string \<Rightarrow> nat option \<times> nat option" where
  "scan_symbol p left_par plus_at [] = (left_par, plus_at)"
| "scan_symbol p left_par plus_at (c # cs) =
     (if c = CHR ''('' then scan_symbol (p + 1) (Some p) plus_at cs
      else if c = CHR ''+'' then scan_symbol (p + 1) left_par (Some p) cs
      else scan_symbol (p + 1) left_par plus_at cs)"

text \<open>One frame; \<open>cxa_demangle\<close> gives nothing when its status is not zero. With a \<^verbatim>\<open>NUL\<close> in place of the plus_at sign, the
  name ends there if the sign is behind the parenthesis, and otherwise at the end of the symbol.\<close>

definition frame_line :: "(string \<Rightarrow> string option) \<Rightarrow> bool \<Rightarrow> string \<Rightarrow> string" where
  "frame_line cxa_demangle demangle s =
     (case (if demangle then scan_symbol 0 None None s else (None, None)) of
        (Some l, Some p) \<Rightarrow>
          let name = (if l < p then take (p - (l + 1)) (drop (l + 1) s) else drop (l + 1) s) in
          (case cxa_demangle name of
             Some d \<Rightarrow> take (l + 1) s @ d @ drop p s @ [CHR 0x0A]
           | None \<Rightarrow> s @ [CHR 0x0A])
      | _ \<Rightarrow> s @ [CHR 0x0A])"

text \<open>\<open>symbols\<close> is what \<^verbatim>\<open>backtrace_symbols\<close> gives for the frames, nothing when it fails; the first one is skipped.\<close>

definition stackTrace :: "(string \<Rightarrow> string option) \<Rightarrow> bool \<Rightarrow> string list option \<Rightarrow> string" where
  "stackTrace cxa_demangle demangle symbols =
     (case symbols of None \<Rightarrow> [] | Some strings \<Rightarrow> concat (map (frame_line cxa_demangle demangle) (drop 1 strings)))"

text \<open>An exception keeps its message and the stack of the place where it was made, not demangled.\<close>

record Exception =
  ex_message :: string
  ex_stack :: string

definition Exception_ctor :: "(string \<Rightarrow> string option) \<Rightarrow> string list option \<Rightarrow> string \<Rightarrow> Exception" where
  "Exception_ctor cxa_demangle symbols msg = \<lparr>ex_message = msg, ex_stack = stackTrace cxa_demangle False symbols\<rparr>"

section \<open>Lemmas on reading\<close>

text \<open>What \<^verbatim>\<open>read\<close> does on a file without errors: it delivers a piece of what is left, not more than asked for,
  and nothing only at the end.\<close>

definition reads_file :: "'k read_call \<Rightarrow> ('k \<Rightarrow> string) \<Rightarrow> bool" where
  "reads_file rd rest =
     (\<forall>k n. 0 < n \<longrightarrow> (\<exists>d k'. rd k n = (Inr d, k') \<and> length d \<le> n \<and> rest k = d @ rest k' \<and> (rest k \<noteq> [] \<longrightarrow> d \<noteq> [])))"

text \<open>What it does on any file: never more than asked for.\<close>

definition reads_within :: "'k read_call \<Rightarrow> bool" where
  "reads_within rd = (\<forall>k n d k'. rd k n = (Inr d, k') \<longrightarrow> length d \<le> n)"

lemma vec_write_front: "length d \<le> length b \<Longrightarrow> \<exists>b'. vec_write b 0 d = Inr b' \<and> length b' = length b"
  by (simp add: vec_write_def)

lemma read_loop_within:
  assumes "reads_within rd" "length buf = kBufferSize" "length content \<le> maxSize"
  shows "\<exists>more err1 buf1 k1. read_loop rd maxSize content err buf k = Inr (content @ more, err1, buf1, k1)
     \<and> length (content @ more) \<le> maxSize \<and> length buf1 = kBufferSize"
  using assms
proof (induction rd maxSize content err buf k rule: read_loop.induct)
  case (1 rd maxSize content err buf k)
  let ?n = "min (maxSize - length content) kBufferSize"
  show ?case
  proof (cases "length content < maxSize")
    case True
    obtain r k1 where r: "rd k ?n = (r, k1)" by force
    show ?thesis
    proof (cases r)
      case (Inr d)
      then have d: "length d \<le> ?n" using "1.prems"(1) r unfolding reads_within_def by blast
      show ?thesis
      proof (cases "d = []")
        case False
        obtain b where b: "vec_write buf 0 d = Inr b" "length b = kBufferSize" using vec_write_front [of d buf] d "1.prems"(2) by auto
        have le: "length (content @ d) \<le> maxSize" using d True by (simp add: le_diff_conv2)
        obtain more err1 buf1 k2 where "read_loop rd maxSize (content @ d) err b k1 = Inr ((content @ d) @ more, err1, buf1, k2)"
          "length ((content @ d) @ more) \<le> maxSize" "length buf1 = kBufferSize"
          using "1.IH" [OF True refl r [symmetric] Inr False b(1)] "1.prems"(1) b(2) le by blast
        then show ?thesis using True r Inr False b(1) by (subst read_loop.simps) (simp add: Let_def)
      qed (use True r Inr "1.prems" in \<open>subst read_loop.simps, simp add: Let_def\<close>)
    qed (use True r "1.prems" in \<open>subst read_loop.simps, simp add: Let_def\<close>)
  qed (use "1.prems" in \<open>subst read_loop.simps, simp\<close>)
qed

lemma read_loop_file:
  assumes "reads_file rd rest" "length buf = kBufferSize" "length content \<le> maxSize"
  shows "\<exists>buf1 k1. read_loop rd maxSize content err buf k = Inr (content @ take (maxSize - length content) (rest k), err, buf1, k1)"
  using assms
proof (induction rd maxSize content err buf k rule: read_loop.induct)
  case (1 rd maxSize content err buf k)
  let ?n = "min (maxSize - length content) kBufferSize"
  show ?case
  proof (cases "length content < maxSize")
    case True
    then have "0 < ?n" by (simp add: kBufferSize_def)
    then obtain d k1 where r: "rd k ?n = (Inr d, k1)" "length d \<le> ?n" "rest k = d @ rest k1" "rest k \<noteq> [] \<longrightarrow> d \<noteq> []"
      using "1.prems"(1) unfolding reads_file_def by blast
    show ?thesis
    proof (cases "d = []")
      case True
      then have "rest k = []" using r(4) by blast
      then show ?thesis using \<open>length content < maxSize\<close> r(1) True by (subst read_loop.simps) (simp add: Let_def)
    next
      case False
      obtain b where b: "vec_write buf 0 d = Inr b" "length b = kBufferSize" using vec_write_front [of d buf] r(2) "1.prems"(2) by auto
      have le: "length (content @ d) \<le> maxSize" using r(2) True by (simp add: le_diff_conv2)
      obtain buf1 k2 where "read_loop rd maxSize (content @ d) err b k1 = Inr ((content @ d) @ take (maxSize - length (content @ d)) (rest k1), err, buf1, k2)"
        using "1.IH" [OF True refl r(1) [symmetric] refl False b(1)] "1.prems"(1) b(2) le by blast
      moreover have "content @ take (maxSize - length content) (rest k) = (content @ d) @ take (maxSize - length (content @ d)) (rest k1)"
        using r(2,3) le by simp
      ultimately show ?thesis using True r(1) False b(1) by (subst read_loop.simps) (simp add: Let_def)
    qed
  qed (subst read_loop.simps, simp)
qed

section \<open>Lemmas on numbers and names\<close>

lemma isdigit_dec_nat: "\<forall>c \<in> set (dec_nat n). isdigit c"
  using dec_nat_digits [of n] by (auto simp: isdigit_def)

lemma isdigit_not_space: "isdigit c \<Longrightarrow> \<not> isspace c \<and> c \<noteq> CHR ''-'' \<and> c \<noteq> CHR ''+''"
  by (auto simp: isdigit_def isspace_def)

lemma takeWhile_digits: "(rest = [] \<or> \<not> isdigit (hd rest)) \<Longrightarrow> takeWhile isdigit (dec_nat n @ rest) = dec_nat n"
  using isdigit_dec_nat [of n] by (cases rest) (auto simp: takeWhile_append2)

lemma atoi_dec_nat:
  assumes "\<forall>c \<in> set blanks. isspace c" "rest = [] \<or> \<not> isdigit (hd rest)"
  shows "atoi (blanks @ dec_nat n @ rest) = int n"
proof -
  obtain c cs where c: "dec_nat n = c # cs" using dec_nat_nonempty by (cases "dec_nat n") auto
  then have d: "isdigit c" using isdigit_dec_nat [of n] by simp
  have "dropWhile isspace (blanks @ dec_nat n @ rest) = dec_nat n @ rest"
    using assms(1) isdigit_not_space [OF d] c by (simp add: dropWhile_append2)
  then show ?thesis using takeWhile_digits [OF assms(2), of n] isdigit_not_space [OF d] c
    by (simp add: atoi_def Let_def) (metis append_Cons dec_value_dec_nat)
qed

lemma taskDirFilter_fold:
  "foldR taskDirFilter entries (Some pids) = Inr (Some (pids @ map atoi (filter first_digit entries)))"
  by (induction entries arbitrary: pids) (simp_all add: taskDirFilter_def)

lemma fdDirFilter_fold: "foldR (\<lambda>d n. Inr (fdDirFilter d n)) entries n = Inr (n + int (length (filter first_digit entries)))"
  by (induction entries arbitrary: n) (simp_all add: fdDirFilter_def)

lemma strrchr_last: "c \<notin> set post \<Longrightarrow> strrchr c (pre @ c # post) = Some (length pre)"
  by (simp add: strrchr_def std_find_append_notin)

lemma scan_symbol_append: "scan_symbol p l q (xs @ ys) = (case scan_symbol p l q xs of (l1, q1) \<Rightarrow> scan_symbol (p + length xs) l1 q1 ys)"
  by (induction xs arbitrary: p l q) auto

lemma scan_symbol_none: "CHR ''('' \<notin> set xs \<Longrightarrow> CHR ''+'' \<notin> set xs \<Longrightarrow> scan_symbol p l q xs = (l, q)"
  by (induction xs arbitrary: p) auto

lemma scan_symbol_left: "CHR ''('' \<notin> set xs \<Longrightarrow> fst (scan_symbol p l q xs) = l"
  by (induction xs arbitrary: p q) auto

text \<open>A symbol as \<^verbatim>\<open>backtrace_symbols\<close> writes it: the file, the name and the offset in parentheses, the address.\<close>

definition symbol_text :: "string \<times> string \<times> string \<Rightarrow> string" where
  "symbol_text = (\<lambda>(module, name, offset). module @ ''('' @ name @ ''+'' @ offset)"

definition symbol_ok :: "string \<times> string \<times> string \<Rightarrow> bool" where
  "symbol_ok = (\<lambda>(module, name, offset). CHR ''('' \<notin> set (name @ offset) \<and> CHR ''+'' \<notin> set offset)"

lemma frame_line_symbol:
  assumes "symbol_ok (module, name, offset)"
  shows "frame_line dm True (symbol_text (module, name, offset))
     = symbol_text (module, case dm name of Some d \<Rightarrow> d | None \<Rightarrow> name, offset) @ [CHR 0x0A]"
proof -
  obtain l0 q0 where a: "scan_symbol 0 None None module = (l0, q0)" by force
  obtain q1 where n: "scan_symbol (length module + 1) (Some (length module)) q0 name = (Some (length module), q1)"
    using scan_symbol_left [of name "length module + 1" "Some (length module)" q0] assms by (cases "scan_symbol (length module + 1) (Some (length module)) q0 name") (auto simp: symbol_ok_def)
  have "scan_symbol 0 None None (symbol_text (module, name, offset)) = (Some (length module), Some (length module + 1 + length name))"
    using assms a n by (simp add: symbol_text_def symbol_ok_def scan_symbol_append scan_symbol_none)
  then show ?thesis by (simp add: frame_line_def symbol_text_def Let_def split: option.splits)
qed

lemma readFile_ok:
  assumes "reads_file rd rest" and "length garbage = kBufferSize" and "0 \<le> maxSize" and "maxSize < 2 ^ 31"
  shows "readFile rd (Inr k) garbage maxSize content = Inr (0, take (nat maxSize) (rest k))"
proof -
  obtain buf where buf: "vec_write garbage 0 [CHR 0x00] = Inr buf" "length buf = kBufferSize"
    using vec_write_front [of "[CHR 0x00]" garbage] assms(2) by (auto simp: kBufferSize_def)
  have "maxSize mod 2 ^ 64 = maxSize" using assms(3,4) by simp
  moreover obtain buf1 k1 where "read_loop rd (nat maxSize) [] 0 buf k = Inr ([] @ take (nat maxSize - length []) (rest k), 0, buf1, k1)"
    using read_loop_file [OF assms(1) buf(2), of "[]" "nat maxSize" 0 k] by auto
  ultimately show ?thesis using buf(1) by (simp add: readFile_def ReadSmallFile_ctor_def readToString_def)
qed

lemma procname_ok:
  assumes "CHR ''('' \<notin> set pre" and "CHR '')'' \<notin> set post" and "length name < 2 ^ 31"
  shows "as_string (procname (pre @ ''('' @ name @ '')'' @ post)) = Inr name"
proof -
  let ?s = "pre @ ''('' @ name @ '')'' @ post"
  have lp: "std_find (CHR ''('') ?s = length pre" using assms(1) by (simp add: std_find_append_notin)
  have rp: "strrchr (CHR '')'') ?s = Some (length pre + 1 + length name)"
    using strrchr_last [OF assms(2), of "pre @ ''('' @ name"] by simp
  have "procname ?s = \<lparr>sp_block = Some ?s, sp_off = int (length pre + 1), sp_length = int (length name)\<rparr>"
    unfolding procname_def lp rp using sint_of_nat [OF assms(3)] by (simp add: sp_set_def StringPiece_null_def int_of_size_def)
  then show ?thesis by (auto simp: as_string_def sp_bytes_def vec_read_def nat_add_distrib)
qed

section \<open>Properties\<close>

text \<open>Reading a file: on a file that \<^verbatim>\<open>read\<close> delivers without errors, in whatever pieces, \<^verbatim>\<open>readToString\<close> stores
  exactly its first \<^verbatim>\<open>maxSize\<close> bytes, all of a shorter file, and reports no error.\<close>

theorem read_file_exact:
  assumes "reads_file rd rest" and "length garbage = kBufferSize" and "0 \<le> maxSize" and "maxSize < 2 ^ 31"
  shows "readFile rd (Inr k) garbage maxSize content = Inr (0, take (nat maxSize) (rest k))"
  by (rule readFile_ok [OF assms])

text \<open>A file of the given bytes that is delivered at most three bytes at a time.\<close>

definition slow_read :: "string \<Rightarrow> nat \<Rightarrow> (int + string) \<times> string" where
  "slow_read k n = (let m = min 3 n in (Inr (take m k), drop m k))"

theorem read_file_exact_witness:
  "readFile slow_read (Inr ''hello, world'') (replicate kBufferSize (CHR ''x'')) 8 [] = Inr (0, ''hello, w'')"
proof -
  have "reads_file slow_read (\<lambda>k. k)" by (auto simp: reads_file_def slow_read_def Let_def)
  from read_file_exact [OF this, of "replicate kBufferSize (CHR ''x'')" 8 "''hello, world''" "[]"] show ?thesis by (simp add: eval_nat_numeral)
qed

text \<open>Any file: whatever errors \<^verbatim>\<open>read\<close> reports and wherever it stops, as long as it keeps to the size of the
  request, \<^verbatim>\<open>readToString\<close> returns, never writes outside its array and never stores more than \<^verbatim>\<open>maxSize\<close> bytes.\<close>

theorem read_file_bounded:
  assumes "reads_within rd" and "length (rs_buf f) = kBufferSize" and "0 \<le> maxSize" and "maxSize < 2 ^ 31"
    and "rs_file f = Some k"
  shows "\<exists>err text f'. readToString rd st maxSize False False False content f = Inr (err, text, \<lparr>fi_size = None, fi_mtime = None, fi_ctime = None\<rparr>, f')
     \<and> int (length text) \<le> maxSize \<and> length (rs_buf f') = kBufferSize"
proof -
  have m: "maxSize mod 2 ^ 64 = maxSize" using assms(3,4) by simp
  obtain more err1 buf1 k1 where "read_loop rd (nat maxSize) [] (rs_err f) (rs_buf f) k = Inr ([] @ more, err1, buf1, k1)"
     "length ([] @ more) \<le> nat maxSize" "length buf1 = kBufferSize"
    using read_loop_within [OF assms(1,2), of "[]" "nat maxSize" "rs_err f" k] by auto
  then show ?thesis using m assms(3,5) by (simp add: readToString_def Let_def)
qed

theorem read_file_bounded_witness:
  "\<exists>err text f'. readToString (\<lambda>k n. (Inl 5, k)) (Inl 0) 100 False False False [] \<lparr>rs_file = Some (), rs_err = 0, rs_buf = replicate kBufferSize (CHR ''x'')\<rparr>
     = Inr (err, text, \<lparr>fi_size = None, fi_mtime = None, fi_ctime = None\<rparr>, f') \<and> int (length text) \<le> 100"
  using read_file_bounded [of "\<lambda>k n. (Inl 5, k)" "\<lparr>rs_file = Some (), rs_err = 0, rs_buf = replicate kBufferSize (CHR ''x'')\<rparr>" 100 "()" "Inl 0" "[]"]
  by (auto simp: reads_within_def)

text \<open>The name of the process: from the line of \<^verbatim>\<open>/proc/self/stat\<close> the function cuts out exactly what stands between
  the first opening and the last closing parenthesis, also when the name itself has parentheses.\<close>

theorem procname_exact:
  assumes "CHR ''('' \<notin> set pre" and "CHR '')'' \<notin> set post" and "length name < 2 ^ 31"
  shows "as_string (procname (pre @ ''('' @ name @ '')'' @ post)) = Inr name"
  by (rule procname_ok [OF assms])

theorem procname_exact_witness: "as_string (procname ''4242 (a) b) S 1'') = Inr ''a) b''"
  using procname_exact [of "''4242 ''" "'' S 1''" "''a) b''"] by simp

text \<open>The threads of the process: for a directory that lists the numbers of the threads, in any order and between
  any entries that do not start with a digit, \<^verbatim>\<open>threads\<close> gives the numbers in ascending order; \<^verbatim>\<open>openedFiles\<close> counts
  the entries of its directory likewise.\<close>

theorem threads_sorted:
  assumes "filter first_digit entries = map dec_nat pids"
  shows "threads (Some entries) = Inr (sort (map int pids)) \<and> openedFiles (Some entries) = Inr (int (length pids))"
proof -
  have m: "map atoi (filter first_digit entries) = map int pids"
    unfolding assms using atoi_dec_nat [of "[]" "[]"] by simp
  have "threads (Some entries) = Inr (sort (map int pids))" by (simp add: threads_def scanDir_def taskDirFilter_fold m)
  moreover have "openedFiles (Some entries) = Inr (int (length pids))" by (simp add: openedFiles_def scanDir_def fdDirFilter_fold assms)
  ultimately show ?thesis ..
qed

theorem threads_sorted_witness: "threads (Some [''.'', ''..'', ''12'', ''7'']) = Inr [7, 12]"
proof -
  have "filter first_digit [''.'', ''..'', ''12'', ''7''] = map dec_nat [12, 7]" by code_simp
  from conjunct1 [OF threads_sorted [OF this]] show ?thesis by simp
qed

text \<open>The number of threads: where the status names it after \<^verbatim>\<open>Threads:\<close> and blanks, in decimal and not followed
  by a digit, and that word does not occur before, \<^verbatim>\<open>numThreads\<close> reads it.\<close>

theorem numThreads_exact:
  assumes "\<forall>i < length pre. take 8 (drop i (pre @ ''Threads:'' @ blanks @ dec_nat n @ post)) \<noteq> ''Threads:''"
    and "\<forall>c \<in> set blanks. isspace c" and "post = [] \<or> \<not> isdigit (hd post)"
  shows "numThreads (pre @ ''Threads:'' @ blanks @ dec_nat n @ post) = int n"
proof -
  let ?s = "pre @ ''Threads:'' @ blanks @ dec_nat n @ post"
  have l: "length ''Threads:'' = 8" by simp
  have "std_search ?s ''Threads:'' = length pre"
  proof (rule std_search_unique)
    show "take (length ''Threads:'') (drop i ?s) \<noteq> ''Threads:''" if "i < length pre" for i using assms(1) that unfolding l by blast
  qed simp_all
  then show ?thesis using atoi_dec_nat [OF assms(2,3), of n] by (simp add: numThreads_def)
qed

theorem numThreads_exact_witness: "numThreads (''Uid: 0'' @ [CHR 0x0A] @ ''Threads:'' @ [CHR 0x09] @ dec_nat 4 @ [CHR 0x0A]) = 4"
proof -
  have "list_all (\<lambda>i. take 8 (drop i ((''Uid: 0'' @ [CHR 0x0A]) @ ''Threads:'' @ [CHR 0x09] @ dec_nat 4 @ [CHR 0x0A])) \<noteq> ''Threads:'') [0..<7]" by code_simp
  then have "\<forall>i < length (''Uid: 0'' @ [CHR 0x0A]). take 8 (drop i ((''Uid: 0'' @ [CHR 0x0A]) @ ''Threads:'' @ [CHR 0x09] @ dec_nat 4 @ [CHR 0x0A])) \<noteq> ''Threads:''"
    unfolding list_all_iff by simp
  from numThreads_exact [OF this] show ?thesis by (simp add: isspace_def isdigit_def)
qed

text \<open>The process name read from the file itself, in whatever pieces the kernel delivers it.\<close>

theorem procname_from_proc:
  assumes "reads_file rd rest" and "length garbage = kBufferSize" and "opn ''/proc/self/stat'' = Inr k"
    and "rest k = pre @ ''('' @ name @ '')'' @ post" and "CHR ''('' \<notin> set pre" and "CHR '')'' \<notin> set post" and "length (rest k) \<le> 65536"
  shows "procname_self rd opn garbage = Inr name"
proof -
  have t: "take (nat 65536) (rest k) = rest k" using assms(7) by (intro take_all) simp
  have "readFile rd (Inr k) garbage 65536 [] = Inr (0, rest k)" using readFile_ok [OF assms(1,2), of 65536 k "[]"] unfolding t by simp
  moreover have "length name < 2 ^ 31" using assms(7) unfolding assms(4) by simp
  then have "as_string (procname (rest k)) = Inr name" unfolding assms(4) by (rule procname_ok [OF assms(5,6)])
  ultimately show ?thesis unfolding procname_self_def procStat_def read_proc_def assms(3) by simp
qed

theorem procname_from_proc_witness:
  "procname_self slow_read (\<lambda>path. if path = ''/proc/self/stat'' then Inr ''42 (web) S'' else Inl 2) (replicate kBufferSize (CHR ''x'')) = Inr ''web''"
proof -
  have "reads_file slow_read (\<lambda>k. k)" by (auto simp: reads_file_def slow_read_def Let_def)
  then show ?thesis
    by (rule procname_from_proc [where k = "''42 (web) S''" and pre = "''42 ''" and post = "'' S''"]) (simp_all only: length_replicate if_True refl append.simps, simp_all)
qed

text \<open>The stack trace: one line for each frame but the first, in order; with demangling, the name between the last
  parenthesis and the last plus sign is replaced where it can be demangled, and everything else is kept.\<close>

theorem stackTrace_lines:
  assumes "\<forall>f \<in> set frames. symbol_ok f"
  shows "stackTrace dm True (Some (first # map symbol_text frames))
       = concat (map (\<lambda>(module, name, offset). symbol_text (module, case dm name of Some d \<Rightarrow> d | None \<Rightarrow> name, offset) @ [CHR 0x0A]) frames)
     \<and> stackTrace dm False (Some (first # map symbol_text frames)) = concat (map (\<lambda>f. symbol_text f @ [CHR 0x0A]) frames)"
proof
  show "stackTrace dm True (Some (first # map symbol_text frames))
      = concat (map (\<lambda>(module, name, offset). symbol_text (module, case dm name of Some d \<Rightarrow> d | None \<Rightarrow> name, offset) @ [CHR 0x0A]) frames)"
    using assms frame_line_symbol by (auto simp: stackTrace_def comp_def intro!: arg_cong [where f = concat] map_cong)
qed (simp add: stackTrace_def frame_line_def comp_def)

theorem stackTrace_lines_witness:
  "stackTrace (\<lambda>n. if n = ''_Z1fv'' then Some ''f()'' else None) True (Some [''x'', ''./a(_Z1fv+0x1) [0x2]'']) = ''./a(f()+0x1) [0x2]'' @ [CHR 0x0A]"
proof -
  have "\<forall>f \<in> set [(''./a'', ''_Z1fv'', ''0x1) [0x2]'')]. symbol_ok f" by (simp add: symbol_ok_def)
  from conjunct1 [OF stackTrace_lines [OF this, of "\<lambda>n. if n = ''_Z1fv'' then Some ''f()'' else None" "''x''"]]
  show ?thesis by (simp add: symbol_text_def)
qed

end
