(* ===== verification/Base_Singleton.thy ===== *)
theory Base_Singleton
  imports Cpp_Prelude
begin

text \<open>
  \<^verbatim>\<open>base/Singleton.h\<close>, \<^verbatim>\<open>base/ThreadLocal.h\<close> and \<^verbatim>\<open>base/ThreadLocalSingleton.h\<close>: objects made on first use. An object is its
  number on a heap that records which objects are alive; deleting one twice and using one that is gone are faults.
  \<^verbatim>\<open>pthread_once\<close> runs its function once and lets nobody pass before; a key has a value in every thread, and a thread that ends hands
  the value, reset to null, to the destructor of the key.
\<close>

section \<open>Objects\<close>

record heap =
  hp_next :: nat
  hp_alive :: "nat set"

definition heap_new :: "heap \<Rightarrow> nat \<times> heap" where
  "heap_new h = (hp_next h, h\<lparr>hp_next := hp_next h + 1, hp_alive := insert (hp_next h) (hp_alive h)\<rparr>)"

text \<open>\<^verbatim>\<open>delete\<close>; deleting null does nothing.\<close>

definition heap_delete :: "nat option \<Rightarrow> heap \<Rightarrow> heap result" where
  "heap_delete p h =
     (case p of None \<Rightarrow> Inr h
      | Some x \<Rightarrow> if x \<in> hp_alive h then Inr (h\<lparr>hp_alive := hp_alive h - {x}\<rparr>) else Inl DanglingPointer)"

definition heap_use :: "nat \<Rightarrow> heap \<Rightarrow> nat result" where
  "heap_use x h = (if x \<in> hp_alive h then Inr x else Inl DanglingPointer)"

section \<open>One object for the process\<close>

record Singleton =
  si_once :: bool            \<comment> \<open>\<^verbatim>\<open>ponce_\<close>: the initialisation has run\<close>
  si_value :: "nat option"
  si_atexit :: nat           \<comment> \<open>how often \<^verbatim>\<open>destroy\<close> is registered\<close>

definition Singleton_zero :: Singleton where
  "Singleton_zero = \<lparr>si_once = False, si_value = None, si_atexit = 0\<rparr>"

text \<open>\<open>no_destroy\<close> is \<^verbatim>\<open>has_no_destroy<T>::value\<close>.\<close>

definition Singleton_init :: "bool \<Rightarrow> Singleton \<times> heap \<Rightarrow> Singleton \<times> heap" where
  "Singleton_init no_destroy sh =
     (case sh of (s, h) \<Rightarrow>
        let (x, h1) = heap_new h; s1 = s\<lparr>si_value := Some x\<rparr>
        in (if \<not> no_destroy then s1\<lparr>si_atexit := si_atexit s1 + 1\<rparr> else s1, h1))"

definition pthread_once :: "(Singleton \<times> heap \<Rightarrow> Singleton \<times> heap) \<Rightarrow> Singleton \<times> heap \<Rightarrow> Singleton \<times> heap" where
  "pthread_once init sh = (if si_once (fst sh) then sh else let (s, h) = init sh in (s\<lparr>si_once := True\<rparr>, h))"

definition Singleton_instance :: "bool \<Rightarrow> Singleton \<times> heap \<Rightarrow> (nat \<times> Singleton \<times> heap) result" where
  "Singleton_instance no_destroy sh =
     (case pthread_once (Singleton_init no_destroy) sh of (s, h) \<Rightarrow>
        (case si_value s of
           None \<Rightarrow> Inl (AssertFail ''value_!=NULL'')
         | Some x \<Rightarrow> bindR (heap_use x h) (\<lambda>y. Inr (y, s, h))))"

definition Singleton_destroy :: "Singleton \<times> heap \<Rightarrow> (Singleton \<times> heap) result" where
  "Singleton_destroy sh = (case sh of (s, h) \<Rightarrow> bindR (heap_delete (si_value s) h) (\<lambda>h1. Inr (s\<lparr>si_value := None\<rparr>, h1)))"

text \<open>Calls from any threads, one after the other, and then the exit of the process.\<close>

primrec instances :: "nat \<Rightarrow> bool \<Rightarrow> Singleton \<times> heap \<Rightarrow> (nat list \<times> Singleton \<times> heap) result" where
  "instances 0 no_destroy sh = Inr ([], sh)"
| "instances (Suc n) no_destroy sh =
     bindR (Singleton_instance no_destroy sh) (\<lambda>(x, sh1). bindR (instances n no_destroy sh1) (\<lambda>(xs, sh2). Inr (x # xs, sh2)))"

primrec run_atexit :: "nat \<Rightarrow> Singleton \<times> heap \<Rightarrow> (Singleton \<times> heap) result" where
  "run_atexit 0 sh = Inr sh"
| "run_atexit (Suc n) sh = bindR (Singleton_destroy sh) (run_atexit n)"

section \<open>One object for each thread\<close>

text \<open>The values of the key, by thread.\<close>

type_synonym ThreadLocal = "nat \<Rightarrow> nat option"

definition ThreadLocal_ctor :: ThreadLocal where "ThreadLocal_ctor = (\<lambda>_. None)"

definition ThreadLocal_value :: "nat \<Rightarrow> ThreadLocal \<times> heap \<Rightarrow> (nat \<times> ThreadLocal \<times> heap) result" where
  "ThreadLocal_value tid th =
     (case th of (k, h) \<Rightarrow>
        (case k tid of
           Some x \<Rightarrow> bindR (heap_use x h) (\<lambda>y. Inr (y, k, h))
         | None \<Rightarrow> let (x, h1) = heap_new h in Inr (x, k(tid := Some x), h1)))"

definition ThreadLocal_destructor :: "nat \<Rightarrow> heap \<Rightarrow> heap result" where
  "ThreadLocal_destructor x h = heap_delete (Some x) h"

definition ThreadLocal_exit :: "nat \<Rightarrow> ThreadLocal \<times> heap \<Rightarrow> (ThreadLocal \<times> heap) result" where
  "ThreadLocal_exit tid th =
     (case th of (k, h) \<Rightarrow>
        (case k tid of
           None \<Rightarrow> Inr (k, h)
         | Some x \<Rightarrow> bindR (ThreadLocal_destructor x h) (\<lambda>h1. Inr (k(tid := None), h1))))"

text \<open>The singleton of a thread keeps a second pointer, \<^verbatim>\<open>t_value_\<close>, beside the key.\<close>

record ThreadLocalSingleton =
  tl_value :: "nat \<Rightarrow> nat option"   \<comment> \<open>\<^verbatim>\<open>t_value_\<close>\<close>
  tl_key :: "nat \<Rightarrow> nat option"     \<comment> \<open>the values of the deleter's key\<close>

definition TLSingleton_zero :: ThreadLocalSingleton where
  "TLSingleton_zero = \<lparr>tl_value = (\<lambda>_. None), tl_key = (\<lambda>_. None)\<rparr>"

definition Deleter_set :: "nat \<Rightarrow> nat \<Rightarrow> ThreadLocalSingleton \<Rightarrow> ThreadLocalSingleton result" where
  "Deleter_set tid obj s = assertR ''pthread_getspecific(pkey_)==NULL'' (tl_key s tid = None) (Inr (s\<lparr>tl_key := (tl_key s)(tid := Some obj)\<rparr>))"

definition TLSingleton_instance :: "nat \<Rightarrow> ThreadLocalSingleton \<times> heap \<Rightarrow> (nat \<times> ThreadLocalSingleton \<times> heap) result" where
  "TLSingleton_instance tid sh =
     (case sh of (s, h) \<Rightarrow>
        (case tl_value s tid of
           Some x \<Rightarrow> bindR (heap_use x h) (\<lambda>y. Inr (y, s, h))
         | None \<Rightarrow>
             let (x, h1) = heap_new h in
             bindR (Deleter_set tid x (s\<lparr>tl_value := (tl_value s)(tid := Some x)\<rparr>)) (\<lambda>s1. Inr (x, s1, h1))))"

definition TLSingleton_destructor :: "nat \<Rightarrow> nat \<Rightarrow> ThreadLocalSingleton \<times> heap \<Rightarrow> (ThreadLocalSingleton \<times> heap) result" where
  "TLSingleton_destructor tid obj sh =
     (case sh of (s, h) \<Rightarrow>
        assertR ''obj==t_value_'' (tl_value s tid = Some obj) (bindR (heap_delete (tl_value s tid) h) (\<lambda>h1. Inr (s, h1))))"

definition TLSingleton_exit :: "nat \<Rightarrow> ThreadLocalSingleton \<times> heap \<Rightarrow> (ThreadLocalSingleton \<times> heap) result" where
  "TLSingleton_exit tid sh =
     (case sh of (s, h) \<Rightarrow>
        (case tl_key s tid of
           None \<Rightarrow> Inr (s, h)
         | Some x \<Rightarrow> TLSingleton_destructor tid x (s\<lparr>tl_key := (tl_key s)(tid := None)\<rparr>, h)))"

section \<open>Lemmas\<close>

definition heap_ok :: "heap \<Rightarrow> bool" where "heap_ok h = (\<forall>x \<in> hp_alive h. x < hp_next h)"

lemma instances_same:
  assumes "si_once s" "si_value s = Some x" "x \<in> hp_alive h"
  shows "instances n no_destroy (s, h) = Inr (replicate n x, s, h)"
  using assms by (induction n) (simp_all add: Singleton_instance_def pthread_once_def heap_use_def)

lemma first_instance:
  "Singleton_instance no_destroy (Singleton_zero, h)
   = Inr (hp_next h, \<lparr>si_once = True, si_value = Some (hp_next h), si_atexit = (if no_destroy then 0 else 1)\<rparr>, snd (heap_new h))"
  by (simp add: Singleton_instance_def pthread_once_def Singleton_init_def Singleton_zero_def heap_new_def heap_use_def)

text \<open>Each thread has at most one object, alive, and no two share one.\<close>

definition local_inv :: "ThreadLocal \<times> heap \<Rightarrow> bool" where
  "local_inv th = (heap_ok (snd th) \<and> (\<forall>t x. fst th t = Some x \<longrightarrow> x \<in> hp_alive (snd th)) \<and> inj_on (fst th) (dom (fst th)))"

lemma local_inv_D: "local_inv (k, h) \<Longrightarrow> k t = Some x \<Longrightarrow> x \<in> hp_alive h \<and> x < hp_next h"
  by (auto simp: local_inv_def heap_ok_def)

lemma ThreadLocal_value_ok:
  assumes inv: "local_inv (k, h)"
  shows "\<exists>x k' h'. ThreadLocal_value tid (k, h) = Inr (x, k', h') \<and> local_inv (k', h') \<and> k' tid = Some x
     \<and> (\<forall>t. t \<noteq> tid \<longrightarrow> k' t = k t) \<and> (\<forall>y. k tid = Some y \<longrightarrow> y = x)"
proof (cases "k tid")
  case None
  have fresh: "k t \<noteq> Some (hp_next h)" for t using local_inv_D [OF inv, of t "hp_next h"] by auto
  have "inj_on (k(tid := Some (hp_next h))) (dom (k(tid := Some (hp_next h))))"
    using inv fresh None unfolding local_inv_def inj_on_def by (auto simp: dom_def)
  then have "local_inv (k(tid := Some (hp_next h)), h\<lparr>hp_next := hp_next h + 1, hp_alive := insert (hp_next h) (hp_alive h)\<rparr>)"
    using inv by (auto simp: local_inv_def heap_ok_def less_SucI)
  then show ?thesis using None by (simp add: ThreadLocal_value_def heap_new_def)
next
  case (Some x)
  then show ?thesis using inv local_inv_D [OF inv Some] by (simp add: ThreadLocal_value_def heap_use_def)
qed

lemma ThreadLocal_exit_ok:
  assumes inv: "local_inv (k, h)"
  shows "\<exists>h'. ThreadLocal_exit tid (k, h) = Inr (k(tid := None), h') \<and> local_inv (k(tid := None), h')
     \<and> (\<forall>x. k tid = Some x \<longrightarrow> x \<notin> hp_alive h')"
proof (cases "k tid")
  case None
  then have "k(tid := None) = k" by auto
  then show ?thesis using None inv by (simp add: ThreadLocal_exit_def)
next
  case (Some x)
  have "k t \<noteq> Some x" if "t \<noteq> tid" for t using inv Some that unfolding local_inv_def inj_on_def by (metis domI fst_conv)
  then have "local_inv (k(tid := None), h\<lparr>hp_alive := hp_alive h - {x}\<rparr>)"
    using inv unfolding local_inv_def by (auto simp: heap_ok_def inj_on_def dom_def)
  then show ?thesis using Some local_inv_D [OF inv Some] by (simp add: ThreadLocal_exit_def ThreadLocal_destructor_def heap_delete_def)
qed

section \<open>Properties\<close>

text \<open>One object: any number of calls of \<^verbatim>\<open>Singleton::instance\<close> from any threads return the same object, one object is made for
  them, and the exit of the process deletes it once (not at all for a class that asks for that).\<close>

theorem singleton_once:
  "\<exists>s h'. instances (Suc n) no_destroy (Singleton_zero, h) = Inr (replicate (Suc n) (hp_next h), s, h') \<and> hp_next h' = hp_next h + 1
     \<and> (\<exists>s' h''. run_atexit (si_atexit s) (s, h') = Inr (s', h'') \<and> hp_alive h'' = (if no_destroy then insert (hp_next h) (hp_alive h) else hp_alive h - {hp_next h}))"
proof -
  let ?s = "\<lparr>si_once = True, si_value = Some (hp_next h), si_atexit = (if no_destroy then 0 else 1)\<rparr>" let ?h = "snd (heap_new h)"
  have h: "hp_next h \<in> hp_alive ?h" "hp_next ?h = hp_next h + 1" "hp_alive ?h = insert (hp_next h) (hp_alive h)" by (simp_all add: heap_new_def)
  have "instances (Suc n) no_destroy (Singleton_zero, h) = Inr (replicate (Suc n) (hp_next h), ?s, ?h)"
    using instances_same [of ?s "hp_next h" ?h n no_destroy] h(1) by (simp add: first_instance)
  moreover have "\<exists>s' h''. run_atexit (si_atexit ?s) (?s, ?h) = Inr (s', h'')
      \<and> hp_alive h'' = (if no_destroy then insert (hp_next h) (hp_alive h) else hp_alive h - {hp_next h})"
    using h by (cases no_destroy) (simp_all add: Singleton_destroy_def heap_delete_def)
  ultimately show ?thesis using h(2) by blast
qed

text \<open>One object for each thread: from a state in which the threads have their own objects, a call of \<^verbatim>\<open>ThreadLocal::value\<close> gives
  the calling thread its object, makes it on the first call, and touches no other thread's; the end of a thread deletes its
  object and only that. So no thread ever uses an object that is gone or belongs to another.\<close>

theorem thread_local_separate:
  assumes "local_inv (k, h)"
  shows "(\<exists>x k' h'. ThreadLocal_value tid (k, h) = Inr (x, k', h') \<and> local_inv (k', h') \<and> k' tid = Some x
           \<and> (\<forall>t. t \<noteq> tid \<longrightarrow> k' t = k t) \<and> (\<forall>y. k tid = Some y \<longrightarrow> y = x))
     \<and> (\<exists>h'. ThreadLocal_exit tid (k, h) = Inr (k(tid := None), h') \<and> local_inv (k(tid := None), h') \<and> (\<forall>x. k tid = Some x \<longrightarrow> x \<notin> hp_alive h'))"
  using ThreadLocal_value_ok [OF assms] ThreadLocal_exit_ok [OF assms] by blast

theorem thread_local_separate_witness:
  "\<exists>x k' h'. ThreadLocal_value 3 (ThreadLocal_ctor, \<lparr>hp_next = 0, hp_alive = {}\<rparr>) = Inr (x, k', h') \<and> k' 3 = Some x \<and> k' 4 = None"
proof -
  have "local_inv (ThreadLocal_ctor, \<lparr>hp_next = 0, hp_alive = {}\<rparr>)" by (simp add: local_inv_def heap_ok_def ThreadLocal_ctor_def)
  from conjunct1 [OF thread_local_separate [OF this, of 3]] show ?thesis by (auto simp: ThreadLocal_ctor_def)
qed

text \<open>The singleton of a thread after its destructor: the end of a thread deletes its object but leaves \<^verbatim>\<open>t_value_\<close> pointing to it, so
  a later call of \<^verbatim>\<open>instance\<close> in that thread, as the destructor of another key may make, uses the deleted object.\<close>

theorem local_singleton_dangles:
  assumes "tl_value s tid = Some x" and "tl_key s tid = Some x" and "x \<in> hp_alive h"
  shows "\<exists>s' h'. TLSingleton_exit tid (s, h) = Inr (s', h') \<and> TLSingleton_instance tid (s', h') = Inl DanglingPointer"
  using assms by (simp add: TLSingleton_exit_def TLSingleton_destructor_def heap_delete_def TLSingleton_instance_def heap_use_def)

theorem local_singleton_dangles_witness:
  "\<exists>s h s' h'. TLSingleton_instance 5 (TLSingleton_zero, \<lparr>hp_next = 0, hp_alive = {}\<rparr>) = Inr (0, s, h)
     \<and> TLSingleton_exit 5 (s, h) = Inr (s', h') \<and> TLSingleton_instance 5 (s', h') = Inl DanglingPointer"
proof -
  let ?s = "\<lparr>tl_value = (\<lambda>_. None)(5 := Some 0), tl_key = (\<lambda>_. None)(5 := Some 0)\<rparr>" let ?h = "\<lparr>hp_next = 1, hp_alive = {0}\<rparr>"
  have i: "TLSingleton_instance 5 (TLSingleton_zero, \<lparr>hp_next = 0, hp_alive = {}\<rparr>) = Inr (0, ?s, ?h)"
    by (simp add: TLSingleton_instance_def TLSingleton_zero_def heap_new_def Deleter_set_def)
  have "\<exists>s' h'. TLSingleton_exit 5 (?s, ?h) = Inr (s', h') \<and> TLSingleton_instance 5 (s', h') = Inl DanglingPointer"
    by (rule local_singleton_dangles [of _ _ 0]) simp_all
  with i show ?thesis by blast
qed

end
