(* ===== verification/App_SimpleServer.thy ===== *)
theory App_SimpleServer
  imports Http_Server Base_TimeZone Base_Logging Base_Process
begin

text \<open>
  \<^verbatim>\<open>server/SimpleServer.cc\<close>: the program that serves three pages through the HTTP server. The handler is the
  callback the server of \<open>Http_Server\<close> runs, so the bytes a client gets are those of the handler's answer.
\<close>

section \<open>The program\<close>

definition favicon :: string where
  "favicon = map char_of
    ([
     137, 80, 78, 71, 13, 10, 26, 10,
     0, 0, 0, 13, 73, 72, 68, 82,
     0, 0, 0, 16, 0, 0, 0, 16,
     8, 6, 0, 0, 0, 31, 243, 255,
     97, 0, 0, 0, 25, 116, 69, 88,
     116, 83, 111, 102, 116, 119, 97, 114,
     101, 0, 65, 100, 111, 98, 101, 32,
     73, 109, 97, 103, 101, 82, 101, 97,
     100, 121, 113, 201, 101, 60, 0, 0,
     1, 205, 73, 68, 65, 84, 120, 218,
     148, 147, 57, 72, 3, 65, 20, 134,
     255, 93, 98, 167, 4, 82, 196, 109,
     34, 30, 160, 70, 36, 8, 22, 22,
     118, 10, 54, 186, 74, 154, 128, 8,
     65, 180, 113, 133, 88, 137, 71, 176,
     73, 169, 81, 36, 205, 166, 8, 164,
     72, 99, 145, 66, 11, 175, 86, 193,
     70, 180, 21, 207, 34, 88, 152, 11,
     84, 72, 138, 100, 147, 141, 251, 70,
     103, 201, 26, 20, 125, 240, 102, 118,
     102, 223, 124, 239, 231, 103, 70, 168,
     213, 106, 72, 36, 18, 42, 0, 5,
     191, 71, 212, 239, 247, 47, 54, 236,
     18, 32, 30, 143, 215, 170, 213, 234,
     175, 73, 53, 70, 170, 84, 95, 159,
     34, 65, 42, 149, 10, 131, 229, 114,
     57, 100, 179, 89, 150, 153, 76, 6,
     233, 116, 154, 37, 133, 44, 203, 84,
     167, 196, 98, 49, 181, 94, 0, 3,
     104, 154, 198, 22, 130, 32, 88, 82,
     20, 69, 54, 83, 148, 203, 101, 120,
     189, 94, 170, 85, 84, 35, 76, 192,
     224, 226, 193, 143, 0, 158, 188, 9,
     65, 124, 62, 31, 131, 68, 34, 17,
     213, 84, 64, 63, 56, 128, 119, 229,
     51, 7, 184, 92, 46, 72, 146, 4,
     135, 195, 129, 64, 32, 64, 103, 152,
     233, 54, 26, 166, 103, 21, 4, 227,
     215, 200, 189, 21, 225, 105, 183, 67,
     171, 234, 120, 47, 106, 88, 146, 187,
     24, 32, 159, 207, 51, 195, 184, 233,
     78, 167, 211, 108, 74, 0, 105, 54,
     124, 142, 225, 254, 86, 132, 231, 60,
     159, 114, 43, 58, 66, 123, 55, 102,
     119, 174, 142, 14, 243, 189, 82, 169,
     100, 2, 66, 175, 133, 50, 102, 70,
     186, 12, 217, 159, 29, 154, 108, 34,
     230, 199, 58, 44, 128, 239, 193, 21,
     144, 7, 147, 162, 40, 160, 83, 106,
     177, 184, 223, 41, 53, 67, 14, 63,
     88, 252, 152, 218, 121, 106, 80, 64,
     0, 135, 174, 27, 23, 66, 180, 58,
     63, 190, 121, 199, 10, 38, 182, 238,
     217, 154, 96, 20, 147, 219, 143, 13,
     10, 46, 233, 35, 149, 41, 88, 0,
     39, 235, 110, 86, 112, 188, 214, 203,
     214, 71, 171, 61, 108, 125, 184, 210,
     221, 160, 96, 131, 186, 239, 95, 164,
     234, 204, 2, 78, 174, 94, 112, 26,
     236, 179, 64, 57, 172, 254, 242, 145,
     137, 103, 145, 133, 33, 168, 135, 183,
     88, 126, 126, 133, 187, 205, 78, 78,
     98, 116, 64, 250, 147, 137, 236, 30,
     236, 134, 2, 72, 38, 147, 208, 117,
     29, 127, 9, 50, 149, 191, 31, 219,
     215, 99, 138, 26, 247, 92, 193, 255,
     34, 74, 195, 135, 0, 3, 0, 75,
     187, 248, 214, 42, 118, 152, 73, 0,
     0, 0, 0, 73, 69, 78, 68, 174,
     66, 96, 130] :: nat list)"

text \<open>The handler; \<open>now\<close> is the clock and \<open>gmtime_r\<close> the C library's.\<close>

definition simple_onRequest :: "(int \<Rightarrow> tm) \<Rightarrow> Timestamp \<Rightarrow> HttpCallback" where
  "simple_onRequest gmtime_r now req resp =
     (if req_path req = ''/'' then
        let resp = setStatusCode k200Ok resp;
            resp = setStatusMessage ''OK'' resp;
            resp = setContentType ''text/html'' resp;
            resp = HttpResponse_addHeader ''Server'' ''Yszc'' resp;
            now_text = toFormattedString gmtime_r True now
        in setBody (''<html><head><title>This is title</title></head>'' @ ''<body><h1>Hello</h1>Now is '' @ now_text @ ''</body></html>'') resp
      else if req_path req = ''/favicon.ico'' then
        let resp = setStatusCode k200Ok resp;
            resp = setStatusMessage ''OK'' resp;
            resp = setContentType ''image/png'' resp
        in setBody favicon resp
      else if req_path req = ''/hello'' then
        let resp = setStatusCode k200Ok resp;
            resp = setStatusMessage ''OK'' resp;
            resp = setContentType ''text/plain'' resp;
            resp = HttpResponse_addHeader ''Server'' ''Yszc'' resp
        in setBody (''hello, world!'' @ [CHR 0x0A]) resp
      else
        let resp = setStatusCode k404NotFound resp;
            resp = setStatusMessage ''Not Found'' resp
        in setCloseConnection True resp)"

text \<open>What \<^verbatim>\<open>main\<close> makes of its arguments.\<close>

record SimpleServer_config =
  ss_benchmark :: bool
  ss_logLevel :: "LogLevel option"   \<comment> \<open>the level it sets\<close>
  ss_numThreads :: int
  ss_port :: nat
  ss_name :: string

definition SimpleServer_main :: "string list \<Rightarrow> SimpleServer_config" where
  "SimpleServer_main argv =
     (let config = \<lparr>ss_benchmark = False, ss_logLevel = None, ss_numThreads = 0, ss_port = 8000, ss_name = ''dummy''\<rparr> in
      if length argv > 1
      then config\<lparr>ss_benchmark := True, ss_logLevel := Some ERROR, ss_numThreads := atoi (argv ! 1)\<rparr>
      else config)"

section \<open>Lemmas\<close>

text \<open>The pages as a client sees them.\<close>

definition simple_body :: "(int \<Rightarrow> tm) \<Rightarrow> Timestamp \<Rightarrow> string \<Rightarrow> string" where
  "simple_body gmtime_r now path =
     (if path = ''/'' then ''<html><head><title>This is title</title></head><body><h1>Hello</h1>Now is '' @ toFormattedString gmtime_r True now @ ''</body></html>''
      else if path = ''/favicon.ico'' then favicon
      else if path = ''/hello'' then ''hello, world!'' @ [CHR 0x0A]
      else [])"

definition simple_fields :: "string \<Rightarrow> string list" where
  "simple_fields path =
     (if path = ''/'' then [''Content-Type: text/html'', ''Server: Yszc'']
      else if path = ''/favicon.ico'' then [''Content-Type: image/png'']
      else if path = ''/hello'' then [''Content-Type: text/plain'', ''Server: Yszc'']
      else [])"

definition simple_known :: "string \<Rightarrow> bool" where
  "simple_known path = (path \<in> {''/'', ''/favicon.ico'', ''/hello''})"

definition simple_page :: "(int \<Rightarrow> tm) \<Rightarrow> Timestamp \<Rightarrow> bool \<Rightarrow> string \<Rightarrow> string" where
  "simple_page gmtime_r now close path =
     (let body = simple_body gmtime_r now path in
      ''HTTP/1.1 '' @ (if simple_known path then ''200 OK'' else ''404 Not Found'') @ kCRLF
      @ (if close \<or> \<not> simple_known path then ''Connection: close'' @ kCRLF
         else ''Content-Length: '' @ dec_nat (length body) @ kCRLF @ ''Connection: Keep-Alive'' @ kCRLF)
      @ concat (map (\<lambda>f. f @ kCRLF) (simple_fields path)) @ kCRLF @ body)"

lemmas response_ops = setStatusCode_def setStatusMessage_def setCloseConnection_def HttpResponse_addHeader_def setContentType_def setBody_def
  HttpResponse_ctor_def

lemma status_texts: "dec_int 200 = ''200''" "dec_int 404 = ''404''"
  by (simp_all add: print_simps)

lemma header_order: "map_put ''Server'' ''Yszc'' [(''Content-Type'', t)] = [(''Content-Type'', t), (''Server'', ''Yszc'')]"
  by simp

text \<open>The answer to a request on a connection that is to be closed or not.\<close>

lemma simple_response:
  "resp_statusCode (simple_onRequest gm now req (HttpResponse_ctor close)) = (if simple_known (req_path req) then k200Ok else k404NotFound)"
  "resp_statusMessage (simple_onRequest gm now req (HttpResponse_ctor close)) = (if simple_known (req_path req) then ''OK'' else ''Not Found'')"
  "resp_closeConnection (simple_onRequest gm now req (HttpResponse_ctor close)) = (close \<or> \<not> simple_known (req_path req))"
  "resp_body (simple_onRequest gm now req (HttpResponse_ctor close)) = simple_body gm now (req_path req)"
  "map header_line (resp_headers (simple_onRequest gm now req (HttpResponse_ctor close))) = simple_fields (req_path req)"
  by (simp_all add: simple_onRequest_def simple_known_def simple_body_def simple_fields_def response_ops header_order header_line_def
      del: map_put.simps(2))

lemma simple_response_text:
  "response_text (simple_onRequest gm now req (HttpResponse_ctor close)) = simple_page gm now close (req_path req)"
proof -
  have h: "concat (map (\<lambda>kv. header_line kv @ kCRLF) hs) = concat (map (\<lambda>f. f @ kCRLF) (map header_line hs))" for hs
    by (simp add: comp_def)
  show ?thesis unfolding response_text_def h simple_response by (simp add: simple_page_def Let_def status_texts)
qed

lemma favicon_length: "length favicon = 555"
  by (simp add: favicon_def)

lemma simple_body_short: "length (simple_body gm now path) < 10 ^ 13"
proof -
  have "length (toFormattedString gm True now) \<le> 63" by (simp add: toFormattedString_def snprintf_def Let_def)
  then show ?thesis by (simp add: simple_body_def favicon_length)
qed

section \<open>Properties\<close>

text \<open>C7. The pages of the program: a complete, well-formed request in the input buffer of a new or kept connection is
  answered, whole and once, by the page for its path, byte for byte: the greeting with the time, the icon, the
  plain greeting, or the answer that there is no such page. The connection is closed after it when the client asked for that or
  the path is unknown, and otherwise kept, ready for the next request.\<close>

theorem simple_server_pages:
  assumes "server_ok ops s" and "hs_conns s cid = Some c" "hc_context c = HttpContext_ctor"
    and "tc_inv out (hc_tcp c)" "tc_state (hc_tcp c) = kConnected" "tid = tc_thread (hc_tcp c)"
    and "request_ok r" "Buffer_content (tc_inputBuffer (hc_tcp c)) = render_request r @ rest"
    and "write_fits w2 (length (simple_page gm now (must_close r) (req_path r)))"
  shows "\<exists>s' c'. onMessage ops (simple_onRequest gm now) tid w1 w2 cid t s = Some (Inr s') \<and> hs_conns s' cid = Some c'
     \<and> tc_inv (out @ simple_page gm now (must_close r) (req_path r)) (hc_tcp c')
     \<and> tc_state (hc_tcp c') = (if must_close r \<or> \<not> simple_known (req_path r) then kDisconnecting else kConnected)
     \<and> hc_context c' = HttpContext_ctor \<and> Buffer_content (tc_inputBuffer (hc_tcp c')) = rest"
proof -
  let ?r = "r\<lparr>req_receiveTime := t\<rparr>"
  let ?resp = "simple_onRequest gm now ?r (HttpResponse_ctor (must_close ?r))"
  have same: "must_close ?r = must_close r" "req_path ?r = req_path r" by (simp_all add: must_close_def getHeader_def Let_def)
  have fits: "length (resp_body ?resp) < 10 ^ 13" "write_fits w2 (length (response_text ?resp))"
    unfolding simple_response simple_response_text same by (rule simple_body_short, rule assms(9))
  have w: "wheel_inv ops s" using assms(1) by (simp add: server_ok_def)
  have "\<exists>s' c'. onMessage ops (simple_onRequest gm now) tid w1 w2 cid t s = Some (Inr s') \<and> hs_conns s' cid = Some c'
     \<and> tc_inv (out @ response_text ?resp) (hc_tcp c')
     \<and> tc_state (hc_tcp c') = (if resp_closeConnection ?resp then kDisconnecting else kConnected)
     \<and> hc_context c' = HttpContext_ctor \<and> Buffer_content (tc_inputBuffer (hc_tcp c')) = rest"
    by (rule onMessage_answers [where cb = "simple_onRequest gm now" and now = t and r = r, OF w assms(2-8) fits])
  then show ?thesis by (simp only: simple_response simple_response_text same)
qed

theorem simple_server_pages_witness:
  "\<exists>s s' c'. onMessage ring (simple_onRequest (\<lambda>_. tm_zero) 5) 1 None (Some 5) 7 9 s = Some (Inr s') \<and> hs_conns s' 7 = Some c'
     \<and> tc_state (hc_tcp c') = kConnected
     \<and> tc_inv (''HTTP/1.1 200 OK'' @ kCRLF @ ''Content-Length: 14'' @ kCRLF @ ''Connection: Keep-Alive'' @ kCRLF
          @ ''Content-Type: text/plain'' @ kCRLF @ ''Server: Yszc'' @ kCRLF @ kCRLF @ ''hello, world!'' @ [CHR 0x0A]) (hc_tcp c')"
proof -
  let ?r = "\<lparr>req_method = kGet, req_version = kHttp11, req_path = ''/hello'', req_query = ''?b'',
     req_receiveTime = 0, req_headers = [(''Host'', ''x'')]\<rparr>"
  have ok: "request_ok ?r" by (simp add: request_ok_def map_ok_def header_ok_def trimmed_def isspace_def)
  obtain b0 where b0: "Buffer_inv b0" "Buffer_content b0 = []" using Buffer_ctor_ok by blast
  obtain b where b: "Buffer_inv b" "Buffer_content b = render_request ?r @ ''more''"
    using Buffer_append_ok [OF b0(1), of "render_request ?r @ ''more''"] b0(2) by auto
  let ?c = "demo_conn b b0"
  have c: "hs_conns (demo_server ?c) 7 = Some ?c" "hc_context ?c = HttpContext_ctor" "tc_state (hc_tcp ?c) = kConnected" "1 = tc_thread (hc_tcp ?c)"
      "Buffer_content (tc_inputBuffer (hc_tcp ?c)) = render_request ?r @ ''more''"
    using b(2) by (simp_all add: demo_server_def demo_conn_def)
  note D = demo_ok [OF b(1) b0]
  have k: "\<not> must_close ?r" "simple_known ''/hello''" by (simp_all add: must_close_def getHeader_def map_find_def simple_known_def)
  have p: "simple_page (\<lambda>_. tm_zero) 5 False ''/hello'' = ''HTTP/1.1 200 OK'' @ kCRLF @ ''Content-Length: 14'' @ kCRLF @ ''Connection: Keep-Alive'' @ kCRLF
          @ ''Content-Type: text/plain'' @ kCRLF @ ''Server: Yszc'' @ kCRLF @ kCRLF @ ''hello, world!'' @ [CHR 0x0A]"
    by (simp add: simple_page_def simple_body_def simple_fields_def k print_simps)
  have f: "write_fits (Some 5) (length (simple_page (\<lambda>_. tm_zero) 5 (must_close ?r) (req_path ?r)))" by (simp add: write_fits_def simple_page_def Let_def)
  show ?thesis
    using simple_server_pages [where gm = "\<lambda>_. tm_zero" and now = 5 and t = 9 and r = ?r, OF D(2) c(1,2) D(1) c(3,4) ok c(5) f, of None] k
    unfolding p [symmetric] by (auto simp: simple_known_def)
qed

end
