(* ===== verification/App_AddrBook.thy ===== *)
theory App_AddrBook
  imports Net_Codec Base_LogStream Base_Process
begin

text \<open>
  The address book programs of \<^verbatim>\<open>net/protobuf/codec\<close>: the server \<^verbatim>\<open>addr_book_server.cc\<close>, the client
  \<^verbatim>\<open>addr_book_client.cc\<close> and the tools \<^verbatim>\<open>list_people.cc\<close> and \<^verbatim>\<open>add_people.cc\<close>. Messages are records with the fields
  of \<^verbatim>\<open>addr_book.proto\<close>; the protobuf library is the parameter of \<open>Net_Codec\<close>. A log line is the list of the items it inserts.
\<close>

section \<open>Messages\<close>

datatype PhoneType = MOBILE | HOME | WORK

record PhoneNumber =
  ph_number :: string
  ph_type :: "PhoneType option"   \<comment> \<open>optional, default \<^verbatim>\<open>HOME\<close>\<close>

record Person =
  pe_name :: string
  pe_id :: int
  pe_email :: "string option"
  pe_phones :: "PhoneNumber list"

record AddressBook = ab_people :: "Person list"

datatype ab_message = MPerson Person | MPhoneNumber PhoneNumber | MAddressBook AddressBook | MOther string

datatype ab_descriptor = DPerson | DPhoneNumber | DAddressBook | DOther string

primrec GetDescriptor :: "ab_message \<Rightarrow> ab_descriptor" where
  "GetDescriptor (MPerson _) = DPerson"
| "GetDescriptor (MPhoneNumber _) = DPhoneNumber"
| "GetDescriptor (MAddressBook _) = DAddressBook"
| "GetDescriptor (MOther n) = DOther n"

primrec GetTypeName :: "ab_message \<Rightarrow> string" where
  "GetTypeName (MPerson _) = ''tutorial.Person''"
| "GetTypeName (MPhoneNumber _) = ''tutorial.Person.PhoneNumber''"
| "GetTypeName (MAddressBook _) = ''tutorial.AddressBook''"
| "GetTypeName (MOther n) = n"

text \<open>The accessor of the optional field.\<close>

definition phone_type :: "PhoneNumber \<Rightarrow> PhoneType" where
  "phone_type p = (case ph_type p of None \<Rightarrow> HOME | Some t \<Rightarrow> t)"

section \<open>The server\<close>

type_synonym log_line = "log_item list"

definition ListPhoneNumber :: "PhoneNumber \<Rightarrow> log_line list" where
  "ListPhoneNumber phone_number =
     (case phone_type phone_number of
        MOBILE \<Rightarrow> [[LCString (Some ''  Mobile phone #: '')]]
      | HOME \<Rightarrow> [[LCString (Some ''  Home phone #: '')]]
      | WORK \<Rightarrow> [[LCString (Some ''  Work phone #: '')]])
     @ [[LString (ph_number phone_number)]]"

text \<open>The loops over the repeated fields, from an index to the size.\<close>

function ListPhones :: "Person \<Rightarrow> nat \<Rightarrow> log_line list" where
  "ListPhones person j =
     (if j < length (pe_phones person) then ListPhoneNumber (pe_phones person ! j) @ ListPhones person (j + 1) else [])"
  by pat_completeness auto
termination
  by (relation "measure (\<lambda>(person, j). length (pe_phones person) - j)") auto

declare ListPhones.simps [simp del]

definition ListPerson :: "Person \<Rightarrow> log_line list" where
  "ListPerson person =
     [[LCString (Some ''Person ID: ''), LInteger (pe_id person)], [LCString (Some ''  Name: ''), LString (pe_name person)]]
     @ (case pe_email person of Some email \<Rightarrow> [[LCString (Some ''  E-mail address: ''), LString email]] | None \<Rightarrow> [])
     @ ListPhones person 0"

function ListPersons :: "AddressBook \<Rightarrow> nat \<Rightarrow> log_line list" where
  "ListPersons address_book i =
     (if i < length (ab_people address_book) then ListPerson (ab_people address_book ! i) @ ListPersons address_book (i + 1) else [])"
  by pat_completeness auto
termination
  by (relation "measure (\<lambda>(address_book, i). length (ab_people address_book) - i)") auto

declare ListPersons.simps [simp del]

definition ListAddressBook :: "AddressBook \<Rightarrow> log_line list" where
  "ListAddressBook address_book = ListPersons address_book 0"

text \<open>The handlers: what they log and what becomes of the connection. A handler for a type gets the message by
  \<^verbatim>\<open>static_pointer_cast\<close>, so a message of another type would be misread.\<close>

datatype ab_callback = CbUnknownMessage | CbAddressBook | CbPerson | CbPhoneNumber

definition onUnknownMessage :: "nat \<Rightarrow> ab_message \<Rightarrow> TcpConnection \<Rightarrow> (log_line list \<times> TcpConnection) result" where
  "onUnknownMessage tid message conn =
     bindR (shutdown tid conn) (\<lambda>c. Inr ([[LCString (Some ''onUnknownMessage: ''), LString (GetTypeName message)]], c))"

definition onPerson :: "nat \<Rightarrow> Person \<Rightarrow> TcpConnection \<Rightarrow> (log_line list \<times> TcpConnection) result" where
  "onPerson tid person conn = bindR (shutdown tid conn) (\<lambda>c. Inr (ListPerson person, c))"

definition onPhoneNumber :: "nat \<Rightarrow> PhoneNumber \<Rightarrow> TcpConnection \<Rightarrow> (log_line list \<times> TcpConnection) result" where
  "onPhoneNumber tid phone_number conn = bindR (shutdown tid conn) (\<lambda>c. Inr (ListPhoneNumber phone_number, c))"

definition onAddressBook :: "nat \<Rightarrow> AddressBook \<Rightarrow> TcpConnection \<Rightarrow> (log_line list \<times> TcpConnection) result" where
  "onAddressBook tid address_book conn = bindR (shutdown tid conn) (\<lambda>c. Inr (ListAddressBook address_book, c))"

definition run_callback :: "ab_callback \<Rightarrow> nat \<Rightarrow> ab_message \<Rightarrow> TcpConnection \<Rightarrow> (log_line list \<times> TcpConnection) result" where
  "run_callback cb tid message conn =
     (case cb of
        CbUnknownMessage \<Rightarrow> onUnknownMessage tid message conn
      | CbAddressBook \<Rightarrow> (case message of MAddressBook b \<Rightarrow> onAddressBook tid b conn | _ \<Rightarrow> Inl DanglingPointer)
      | CbPerson \<Rightarrow> (case message of MPerson p \<Rightarrow> onPerson tid p conn | _ \<Rightarrow> Inl DanglingPointer)
      | CbPhoneNumber \<Rightarrow> (case message of MPhoneNumber p \<Rightarrow> onPhoneNumber tid p conn | _ \<Rightarrow> Inl DanglingPointer))"

text \<open>The dispatcher the constructor builds.\<close>

definition AddrBookServer_ctor :: "(ab_descriptor, ab_callback) ProtobufDispatcher" where
  "AddrBookServer_ctor =
     (let d = ProtobufDispatcher_ctor CbUnknownMessage;
          d = registerMessageCallback DAddressBook CbAddressBook d;
          d = registerMessageCallback DPerson CbPerson d
      in registerMessageCallback DPhoneNumber CbPhoneNumber d)"

text \<open>One event of the codec, whose callback is the dispatcher; an error is logged by the codec and closes the connection.\<close>

definition ab_event :: "(ab_descriptor, ab_callback) ProtobufDispatcher \<Rightarrow> nat \<Rightarrow> ab_message codec_event
    \<Rightarrow> log_line list \<times> TcpConnection \<Rightarrow> (log_line list \<times> TcpConnection) result" where
  "ab_event d tid e lc =
     (case lc of (lines, conn) \<Rightarrow>
        (case e of
           CMessage m \<Rightarrow> bindR (run_callback (onProtobufMessage GetDescriptor m d) tid m conn) (\<lambda>(ls, c). Inr (lines @ ls, c))
         | CError code \<Rightarrow> bindR (defaultErrorCallback tid conn) (\<lambda>c. Inr (lines, c))))"

text \<open>The message callback of the server: \<^verbatim>\<open>None\<close> would be a codec that does not return.\<close>

definition AddrBookServer_onMessage ::
    "ab_message protobuf \<Rightarrow> (ab_descriptor, ab_callback) ProtobufDispatcher \<Rightarrow> nat \<Rightarrow> TcpConnection \<Rightarrow> (log_line list \<times> TcpConnection) result option" where
  "AddrBookServer_onMessage pb d tid conn =
     (case Codec_onMessage pb (tc_inputBuffer conn) of
        None \<Rightarrow> None
      | Some (Inl f) \<Rightarrow> Some (Inl f)
      | Some (Inr (events, buf)) \<Rightarrow> Some (foldR (ab_event d tid) events ([], conn\<lparr>tc_inputBuffer := buf\<rparr>)))"

text \<open>\<^verbatim>\<open>onConnection\<close>, which is not registered; the addresses are their texts.\<close>

definition AddrBookServer_onConnection :: "string \<Rightarrow> string \<Rightarrow> TcpConnection \<Rightarrow> log_line list" where
  "AddrBookServer_onConnection peerAddress localAddress conn =
     [[LCString (Some ''AddrBookServer - ''), LString peerAddress, LCString (Some '' -> ''), LString localAddress, LCString (Some '' is ''),
       LCString (Some (if connected conn then ''UP'' else ''DOWN''))]]"

text \<open>What \<^verbatim>\<open>main\<close> makes of its arguments: the text it prints, or the port of the server.\<close>

definition AddrBookServer_main :: "string list \<Rightarrow> string + 16 word" where
  "AddrBookServer_main argv =
     (if length argv > 1 then Inr (word_of_int (atoi (argv ! 1)))
      else Inl (''Usage: '' @ argv ! 0 @ '' port'' @ [CHR 0x0A]))"

section \<open>The client\<close>

text \<open>\<^verbatim>\<open>onConnection\<close>: sends the message when the connection is up, and otherwise leaves the loop (\<open>True\<close>).\<close>

definition AddrBookClient_onConnection ::
    "ab_message protobuf \<Rightarrow> nat \<Rightarrow> nat option \<Rightarrow> ab_message \<Rightarrow> TcpConnection \<Rightarrow> (TcpConnection \<times> bool) result" where
  "AddrBookClient_onConnection pb tid w messageToSend conn =
     (if connected conn then bindR (Codec_send pb tid w messageToSend conn) (\<lambda>c. Inr (c, False)) else Inr (conn, True))"

text \<open>The dispatcher of the client has no handlers.\<close>

definition AddrBookClient_ctor :: "(ab_descriptor, ab_callback) ProtobufDispatcher" where
  "AddrBookClient_ctor = ProtobufDispatcher_ctor CbUnknownMessage"

definition AddrBookClient_onUnknownMessage :: "ab_message \<Rightarrow> log_line list" where
  "AddrBookClient_onUnknownMessage message = [[LCString (Some ''onUnknownMessage: ''), LString (GetTypeName message)]]"

section \<open>Prompting\<close>

text \<open>Standard input: what is left, and whether the stream has failed. \<^verbatim>\<open>getline\<close> reads to the next newline, fails at the end
  of the input with an empty string.\<close>

record istream =
  is_rest :: string
  is_fail :: bool

definition newline :: char where "newline = CHR 0x0A"

definition cin_getline :: "istream \<Rightarrow> string \<times> istream" where
  "cin_getline s =
     (if is_fail s \<or> is_rest s = [] then ([], s\<lparr>is_fail := True\<rparr>)
      else let line = takeWhile (\<lambda>c. c \<noteq> newline) (is_rest s)
           in (line, s\<lparr>is_rest := drop (length line + 1) (is_rest s)\<rparr>))"

text \<open>\<^verbatim>\<open>cin >> id\<close>: blanks, a sign, digits; without digits the stream fails and the value is zero, and a number outside the
  type sets the nearest value and fails. A stream that has failed leaves the variable as it was.\<close>

definition cin_int :: "int \<Rightarrow> istream \<Rightarrow> int \<times> istream" where
  "cin_int old s =
     (if is_fail s then (old, s)
      else
        let t = dropWhile isspace (is_rest s);
            neg = (t \<noteq> [] \<and> hd t = CHR ''-'');
            u = (if t \<noteq> [] \<and> (hd t = CHR ''-'' \<or> hd t = CHR ''+'') then tl t else t);
            ds = takeWhile isdigit u;
            n = (if neg then - int (dec_value ds) else int (dec_value ds));
            s1 = s\<lparr>is_rest := drop (length ds) u\<rparr>
        in if ds = [] then (0, s1\<lparr>is_fail := True\<rparr>)
           else if n < - (2 ^ 31) then (- (2 ^ 31), s1\<lparr>is_fail := True\<rparr>)
           else if 2 ^ 31 \<le> n then (2 ^ 31 - 1, s1\<lparr>is_fail := True\<rparr>)
           else (n, s1))"

text \<open>\<^verbatim>\<open>cin.ignore(256, '\n')\<close>: drops up to 256 characters, the newline included.\<close>

definition cin_ignore :: "nat \<Rightarrow> char \<Rightarrow> istream \<Rightarrow> istream" where
  "cin_ignore n delim s =
     (if is_fail s then s
      else let k = length (takeWhile (\<lambda>c. c \<noteq> delim) (is_rest s)) in s\<lparr>is_rest := drop (min n (k + 1)) (is_rest s)\<rparr>)"

definition set_type_by_name :: "string \<Rightarrow> PhoneNumber \<Rightarrow> PhoneNumber" where
  "set_type_by_name type p =
     (if type = ''mobile'' then p\<lparr>ph_type := Some MOBILE\<rparr>
      else if type = ''home'' then p\<lparr>ph_type := Some HOME\<rparr>
      else if type = ''work'' then p\<lparr>ph_type := Some WORK\<rparr>
      else p)"

lemma cin_getline_shorter: "cin_getline s = (l, s') \<Longrightarrow> l \<noteq> [] \<Longrightarrow> length (is_rest s') < length (is_rest s)"
  by (auto simp: cin_getline_def Let_def split: if_splits)

lemma cin_getline_le: "cin_getline s = (l, s') \<Longrightarrow> length (is_rest s') \<le> length (is_rest s)"
  by (auto simp: cin_getline_def Let_def split: if_splits)

text \<open>The loop over phone numbers ends with a blank line or with the input.\<close>

function prompt_phones :: "Person \<Rightarrow> istream \<Rightarrow> Person \<times> istream" where
  "prompt_phones person s =
     (case cin_getline s of (number, s1) \<Rightarrow>
        if number = [] then (person, s1)
        else case cin_getline s1 of (type, s2) \<Rightarrow>
          prompt_phones (person\<lparr>pe_phones := pe_phones person @ [set_type_by_name type \<lparr>ph_number = number, ph_type = None\<rparr>]\<rparr>) s2)"
  by pat_completeness auto
termination
proof (relation "measure (\<lambda>(person, s). length (is_rest s))")
  fix person s number s1 type s2
  assume a: "(number, s1) = cin_getline s" "number \<noteq> []" "(type, s2) = cin_getline s1"
  have "length (is_rest s2) < length (is_rest s)"
    using cin_getline_shorter [of s number s1] cin_getline_le [of s1 type s2] a by simp
  then show "((person\<lparr>pe_phones := pe_phones person @ [set_type_by_name type \<lparr>ph_number = number, ph_type = None\<rparr>]\<rparr>, s2), (person, s))
      \<in> measure (\<lambda>(person, s). length (is_rest s))" by simp
qed simp

declare prompt_phones.simps [simp del]

definition PromptForAddress :: "int \<Rightarrow> Person \<Rightarrow> istream \<Rightarrow> Person \<times> istream" where
  "PromptForAddress garbage person s =
     (let (n, s1) = cin_int garbage s;
          s2 = cin_ignore 256 newline s1;
          (name, s3) = cin_getline s2;
          (email, s4) = cin_getline s3;
          person1 = person\<lparr>pe_id := n, pe_name := name\<rparr>;
          person2 = (if email \<noteq> [] then person1\<lparr>pe_email := Some email\<rparr> else person1)
      in prompt_phones person2 s4)"

definition Person_new :: Person where
  "Person_new = \<lparr>pe_name = [], pe_id = 0, pe_email = None, pe_phones = []\<rparr>"

text \<open>What the client makes of its arguments and its input: the text it prints, or the address and port it connects to and
  the message it sends. \<open>garbage\<close> is the value of the uninitialised variable.\<close>

definition AddrBookClient_main :: "int \<Rightarrow> string list \<Rightarrow> istream \<Rightarrow> string + string \<times> 16 word \<times> ab_message" where
  "AddrBookClient_main garbage argv cin =
     (if length argv > 2
      then Inr (argv ! 1, word_of_int (atoi (argv ! 2)), MPerson (fst (PromptForAddress garbage Person_new cin)))
      else Inl (''Usage: '' @ argv ! 0 @ '' host_ip port [q|e]'' @ [CHR 0x0A]))"

section \<open>The file tools\<close>

text \<open>\<^verbatim>\<open>add_people\<close> has its own copy of the dialogue. The book is read from the file when there is one, a person is added and the file is written; the
  result is the exit code and the new contents. \<open>parse\<close> and \<open>serialize\<close> are those of the library.\<close>

definition add_people_PromptForAddress :: "int \<Rightarrow> Person \<Rightarrow> istream \<Rightarrow> Person \<times> istream" where
  "add_people_PromptForAddress = PromptForAddress"

definition add_people :: "(string \<Rightarrow> AddressBook option) \<Rightarrow> (AddressBook \<Rightarrow> string option) \<Rightarrow> int \<Rightarrow> istream \<Rightarrow> string option \<Rightarrow> int \<times> string option" where
  "add_people parse serialize garbage input contents =
     (let book = (case contents of None \<Rightarrow> Some \<lparr>ab_people = []\<rparr> | Some bytes \<Rightarrow> parse bytes) in
      case book of
        None \<Rightarrow> (- 1, contents)
      | Some address_book \<Rightarrow>
          let person = fst (add_people_PromptForAddress garbage Person_new input);
              address_book = address_book\<lparr>ab_people := ab_people address_book @ [person]\<rparr>
          in case serialize address_book of None \<Rightarrow> (- 1, Some []) | Some bytes \<Rightarrow> (0, Some bytes))"

text \<open>\<^verbatim>\<open>list_people\<close>: what it prints, and the exit code.\<close>

definition ListPeople_phone :: "PhoneNumber \<Rightarrow> string" where
  "ListPeople_phone p = (case phone_type p of MOBILE \<Rightarrow> ''  Mobile phone #: '' | HOME \<Rightarrow> ''  Home phone #: '' | WORK \<Rightarrow> ''  Work phone #: '') @ ph_number p @ [newline]"

definition ListPeople_person :: "Person \<Rightarrow> string" where
  "ListPeople_person p =
     ''Person ID: '' @ dec_int (pe_id p) @ [newline] @ ''  Name: '' @ pe_name p @ [newline]
     @ (case pe_email p of Some e \<Rightarrow> ''  E-mail address: '' @ e @ [newline] | None \<Rightarrow> []) @ concat (map ListPeople_phone (pe_phones p))"

definition ListPeople :: "AddressBook \<Rightarrow> string" where
  "ListPeople b = concat (map ListPeople_person (ab_people b))"

definition list_people :: "(string \<Rightarrow> AddressBook option) \<Rightarrow> string \<Rightarrow> string \<times> int" where
  "list_people parse bytes = (case parse bytes of None \<Rightarrow> (''Failed to parse address book.'' @ [newline], - 1) | Some b \<Rightarrow> (ListPeople b, 0))"

section \<open>Lemmas\<close>

lemma ListPhones_eq: "ListPhones person j = concat (map ListPhoneNumber (drop j (pe_phones person)))"
proof (induction person j rule: ListPhones.induct)
  case (1 person j)
  then show ?case by (subst ListPhones.simps) (simp add: Cons_nth_drop_Suc [symmetric])
qed

lemma ListPersons_eq: "ListPersons b i = concat (map ListPerson (drop i (ab_people b)))"
proof (induction b i rule: ListPersons.induct)
  case (1 b i)
  then show ?case by (subst ListPersons.simps) (simp add: Cons_nth_drop_Suc [symmetric])
qed

text \<open>What the server logs for a message.\<close>

primrec listing :: "ab_message \<Rightarrow> log_line list" where
  "listing (MPerson p) = ListPerson p"
| "listing (MPhoneNumber p) = ListPhoneNumber p"
| "listing (MAddressBook b) = concat (map ListPerson (ab_people b))"
| "listing (MOther n) = [[LCString (Some ''onUnknownMessage: ''), LString n]]"

lemma run_callback_listing:
  "run_callback (onProtobufMessage GetDescriptor m AddrBookServer_ctor) tid m conn = bindR (shutdown tid conn) (\<lambda>c. Inr (listing m, c))"
  by (cases m) (simp_all add: run_callback_def onProtobufMessage_def AddrBookServer_ctor_def registerMessageCallback_def ProtobufDispatcher_ctor_def
      onUnknownMessage_def onPerson_def onPhoneNumber_def onAddressBook_def ListAddressBook_def ListPersons_eq)

text \<open>Shutting down a connection that is up or already closing.\<close>

lemma shutdown_closing:
  assumes "tc_inv out c" "tc_state c \<in> {kConnected, kDisconnecting}"
  shows "\<exists>c'. shutdown tid c = Inr c' \<and> tc_inv out c' \<and> tc_state c' = kDisconnecting \<and> tc_inputBuffer c' = tc_inputBuffer c"
  using assms shutdown_state [OF assms(1), of tid] by (cases "tc_state c = kConnected") (auto simp: shutdown_def)

lemma ab_events:
  assumes "tc_inv out c" "tc_state c \<in> {kConnected, kDisconnecting}"
  shows "\<exists>c'. foldR (ab_event AddrBookServer_ctor tid) (map CMessage ms) (lines, c) = Inr (lines @ concat (map listing ms), c') \<and> tc_inv out c'
     \<and> tc_inputBuffer c' = tc_inputBuffer c \<and> tc_state c' = (if ms = [] then tc_state c else kDisconnecting)"
  using assms
proof (induction ms arbitrary: lines c)
  case (Cons m ms)
  obtain c1 where c1: "shutdown tid c = Inr c1" "tc_inv out c1" "tc_state c1 = kDisconnecting" "tc_inputBuffer c1 = tc_inputBuffer c"
    using shutdown_closing [OF Cons.prems] by blast
  obtain c' where "foldR (ab_event AddrBookServer_ctor tid) (map CMessage ms) (lines @ listing m, c1) = Inr ((lines @ listing m) @ concat (map listing ms), c')"
    "tc_inv out c'" "tc_inputBuffer c' = tc_inputBuffer c1" "tc_state c' = kDisconnecting"
    using Cons.IH [OF c1(2), of "lines @ listing m"] c1(3) by (auto split: if_splits)
  moreover have "ab_event AddrBookServer_ctor tid (CMessage m) (lines, c) = Inr (lines @ listing m, c1)"
    using c1(1) by (simp add: ab_event_def run_callback_listing)
  ultimately show ?case using c1(4) by simp
qed simp

text \<open>Typing a person in answer to the prompts.\<close>

definition type_name :: "PhoneType option \<Rightarrow> string" where
  "type_name t = (case t of None \<Rightarrow> ''none'' | Some MOBILE \<Rightarrow> ''mobile'' | Some HOME \<Rightarrow> ''home'' | Some WORK \<Rightarrow> ''work'')"

definition typed_phone :: "PhoneNumber \<Rightarrow> string" where
  "typed_phone p = ph_number p @ [newline] @ type_name (ph_type p) @ [newline]"

definition typed_person :: "Person \<Rightarrow> string" where
  "typed_person p = dec_int (pe_id p) @ [newline] @ pe_name p @ [newline] @ (case pe_email p of None \<Rightarrow> [] | Some e \<Rightarrow> e) @ [newline]
     @ concat (map typed_phone (pe_phones p)) @ [newline]"

definition typable :: "Person \<Rightarrow> bool" where
  "typable p = (- (2 ^ 31) \<le> pe_id p \<and> pe_id p < 2 ^ 31 \<and> newline \<notin> set (pe_name p)
     \<and> (case pe_email p of None \<Rightarrow> True | Some e \<Rightarrow> e \<noteq> [] \<and> newline \<notin> set e)
     \<and> list_all (\<lambda>ph. ph_number ph \<noteq> [] \<and> newline \<notin> set (ph_number ph)) (pe_phones p))"

lemma takeWhile_line: "newline \<notin> set l \<Longrightarrow> takeWhile (\<lambda>c. c \<noteq> newline) (l @ newline # r) = l"
  by (subst takeWhile_append2) auto

lemma cin_getline_line:
  assumes "newline \<notin> set l" "is_rest s = l @ newline # r" "\<not> is_fail s"
  shows "cin_getline s = (l, s\<lparr>is_rest := r\<rparr>)"
  using takeWhile_line [OF assms(1), of r] assms(2,3) by (simp add: cin_getline_def Let_def)

lemma type_name_ok:
  "newline \<notin> set (type_name t)" "set_type_by_name (type_name (ph_type ph)) \<lparr>ph_number = ph_number ph, ph_type = None\<rparr> = ph"
  by (cases ph; auto simp: type_name_def newline_def set_type_by_name_def split: option.splits PhoneType.splits)+

lemma prompt_phones_typed:
  assumes "list_all (\<lambda>ph. ph_number ph \<noteq> [] \<and> newline \<notin> set (ph_number ph)) phones"
    and "is_rest s = concat (map typed_phone phones) @ newline # r" "\<not> is_fail s"
  shows "prompt_phones person s = (person\<lparr>pe_phones := pe_phones person @ phones\<rparr>, s\<lparr>is_rest := r\<rparr>)"
  using assms
proof (induction phones arbitrary: person s)
  case Nil
  then have "cin_getline s = ([], s\<lparr>is_rest := r\<rparr>)" by (intro cin_getline_line) simp_all
  then show ?case by (subst prompt_phones.simps) simp
next
  case (Cons ph phones)
  let ?r1 = "concat (map typed_phone phones) @ newline # r"
  let ?s1 = "s\<lparr>is_rest := type_name (ph_type ph) @ newline # ?r1\<rparr>" let ?s2 = "s\<lparr>is_rest := ?r1\<rparr>"
  have "cin_getline s = (ph_number ph, ?s1)" using Cons.prems by (intro cin_getline_line) (simp_all add: typed_phone_def [of ph])
  moreover have "cin_getline ?s1 = (type_name (ph_type ph), ?s1\<lparr>is_rest := ?r1\<rparr>)"
    using Cons.prems(3) type_name_ok(1) by (intro cin_getline_line) simp_all
  moreover have "prompt_phones (person\<lparr>pe_phones := pe_phones person @ [ph]\<rparr>) ?s2
      = (person\<lparr>pe_phones := (pe_phones person @ [ph]) @ phones\<rparr>, ?s2\<lparr>is_rest := r\<rparr>)"
    using Cons.IH [of ?s2 "person\<lparr>pe_phones := pe_phones person @ [ph]\<rparr>"] Cons.prems(1,3) by simp
  ultimately show ?case using Cons.prems(1) by (subst prompt_phones.simps) (simp add: type_name_ok(2))
qed

lemma cin_int_typed:
  assumes "- (2 ^ 31) \<le> n" "n < 2 ^ 31" "is_rest s = dec_int n @ newline # r" "\<not> is_fail s"
  shows "cin_int old s = (n, s\<lparr>is_rest := newline # r\<rparr>)"
proof -
  have nd: "\<not> isdigit newline" by (simp add: isdigit_def newline_def)
  have tw: "takeWhile isdigit (dec_nat k @ newline # r) = dec_nat k" for k using takeWhile_digits [of "newline # r" k] nd by simp
  obtain d ds where d: "dec_nat (nat \<bar>n\<bar>) = d # ds" using dec_nat_nonempty by (cases "dec_nat (nat \<bar>n\<bar>)") auto
  have dd: "\<not> isspace d" "d \<noteq> CHR ''-''" "d \<noteq> CHR ''+''" using isdigit_dec_nat [of "nat \<bar>n\<bar>"] isdigit_not_space [of d] d by simp_all
  have m: "\<not> isspace (CHR ''-'')" by (simp add: isspace_def)
  have v: "dec_value (d # ds) = nat \<bar>n\<bar>" using dec_value_dec_nat [of "nat \<bar>n\<bar>"] d by simp
  show ?thesis
  proof (cases "n < 0")
    case True
    then have "is_rest s = CHR ''-'' # (d # ds) @ newline # r" using assms(3) d by (simp add: dec_int_def)
    then show ?thesis using True assms tw [of "nat \<bar>n\<bar>"] v m unfolding d by (simp add: cin_int_def Let_def)
  next
    case False
    then have "is_rest s = (d # ds) @ newline # r" using assms(3) d by (simp add: dec_int_def)
    then show ?thesis using False assms tw [of "nat \<bar>n\<bar>"] v dd unfolding d by (simp add: cin_int_def Let_def)
  qed
qed

lemma cin_ignore_line: "\<not> is_fail s \<Longrightarrow> is_rest s = newline # r \<Longrightarrow> cin_ignore 256 newline s = s\<lparr>is_rest := r\<rparr>"
  by (simp add: cin_ignore_def Let_def)

lemma prompt_typed:
  assumes "typable p" "is_rest s = typed_person p @ r" "\<not> is_fail s"
  shows "PromptForAddress garbage Person_new s = (p, s\<lparr>is_rest := r\<rparr>)"
proof -
  let ?r4 = "concat (map typed_phone (pe_phones p)) @ newline # r"
  let ?e = "case pe_email p of None \<Rightarrow> [] | Some e \<Rightarrow> e"
  let ?r3 = "?e @ newline # ?r4" let ?r2 = "pe_name p @ newline # ?r3"
  have 1: "cin_int garbage s = (pe_id p, s\<lparr>is_rest := newline # ?r2\<rparr>)"
    using assms by (intro cin_int_typed) (simp_all add: typable_def typed_person_def)
  have 2: "cin_ignore 256 newline (s\<lparr>is_rest := newline # ?r2\<rparr>) = s\<lparr>is_rest := ?r2\<rparr>" using assms(3) by (subst cin_ignore_line) simp_all
  have 3: "cin_getline (s\<lparr>is_rest := ?r2\<rparr>) = (pe_name p, s\<lparr>is_rest := ?r2\<rparr>\<lparr>is_rest := ?r3\<rparr>)"
    using assms(1,3) by (intro cin_getline_line) (simp_all add: typable_def)
  have 4: "cin_getline (s\<lparr>is_rest := ?r3\<rparr>) = (?e, s\<lparr>is_rest := ?r3\<rparr>\<lparr>is_rest := ?r4\<rparr>)"
    using assms(1,3) by (intro cin_getline_line) (simp_all add: typable_def split: option.splits)
  have 5: "prompt_phones q (s\<lparr>is_rest := ?r4\<rparr>) = (q\<lparr>pe_phones := pe_phones q @ pe_phones p\<rparr>, s\<lparr>is_rest := ?r4\<rparr>\<lparr>is_rest := r\<rparr>)" for q
    using assms(1,3) by (intro prompt_phones_typed) (simp_all add: typable_def)
  have "?e \<noteq> [] \<longleftrightarrow> pe_email p \<noteq> None" using assms(1) by (auto simp: typable_def split: option.splits)
  then show ?thesis using 1 2 3 4 5 by (simp add: PromptForAddress_def Person_new_def Let_def split: option.splits)
qed

lemma server_lists:
  assumes "\<forall>m \<in> set ms. pb_laws pb m \<and> fits_frame pb m" and "tc_inv out c" "tc_state c = kConnected"
    and "Buffer_content (tc_inputBuffer c) = concat (map (frame pb) ms)"
  shows "\<exists>c'. AddrBookServer_onMessage pb AddrBookServer_ctor tid c = Some (Inr (concat (map listing ms), c')) \<and> tc_inv out c'
     \<and> Buffer_content (tc_inputBuffer c') = [] \<and> tc_state c' = (if ms = [] then kConnected else kDisconnecting)"
proof -
  have framed: "codec_next pb (frame pb m @ t) = Item (CMessage m) (length (frame pb m))" if "m \<in> set ms" for m t
    using codec_next_frame [of pb m t] assms(1) that by blast
  have "unframe (codec_next pb) [] = ([], [])" by (simp add: unframe.simps codec_next_def codec_lens)
  then have u: "unframe (codec_next pb) (Buffer_content (tc_inputBuffer c)) = (map CMessage ms, [])"
    using cd.frames [of ms pb "frame pb" CMessage "[]", OF framed] assms(4) by simp
  obtain b where b: "Codec_onMessage pb (tc_inputBuffer c) = Some (Inr (map CMessage ms, b))" "Buffer_inv b" "Buffer_content b = []"
    using codec_loop_refines [OF tc_invD(1) [OF assms(2)], of pb "[]"] u by (auto simp: Codec_onMessage_def)
  have inv: "tc_inv out (c\<lparr>tc_inputBuffer := b\<rparr>)" using assms(2) b(2) by (simp add: tc_inv_def tc_isWriting_def)
  obtain c' where "foldR (ab_event AddrBookServer_ctor tid) (map CMessage ms) ([], c\<lparr>tc_inputBuffer := b\<rparr>) = Inr ([] @ concat (map listing ms), c')"
    "tc_inv out c'" "tc_inputBuffer c' = tc_inputBuffer (c\<lparr>tc_inputBuffer := b\<rparr>)" "tc_state c' = (if ms = [] then tc_state (c\<lparr>tc_inputBuffer := b\<rparr>) else kDisconnecting)"
    using ab_events [OF inv, of tid ms "[]"] assms(3) by auto
  then show ?thesis using b(1,3) assms(3) by (simp add: AddrBookServer_onMessage_def)
qed

section \<open>Properties\<close>

text \<open>What a person should read like in the log, one text per line: number, name, the e-mail address if there is one, and for each
  telephone number, in order, a line with its kind, at home unless another was given, and a line with the number.\<close>

definition logged_text :: "log_line \<Rightarrow> string" where
  "logged_text l = concat (map item_text l)"

definition phone_labels :: "(PhoneType option \<times> string) list" where
  "phone_labels = [(Some MOBILE, ''Mobile''), (Some HOME, ''Home''), (Some WORK, ''Work''), (None, ''Home'')]"

definition person_report :: "Person \<Rightarrow> string list" where
  "person_report p =
     [''Person ID: '' @ dec_int (pe_id p), ''  Name: '' @ pe_name p]
     @ [''  E-mail address: '' @ e. e \<leftarrow> (if pe_email p = None then [] else [the (pe_email p)])]
     @ concat [[''  '' @ the (map_of phone_labels (ph_type ph)) @ '' phone #: '', ph_number ph]. ph \<leftarrow> pe_phones p]"

lemma ListPhoneNumber_text:
  "map logged_text (ListPhoneNumber ph) = [''  '' @ the (map_of phone_labels (ph_type ph)) @ '' phone #: '', ph_number ph]"
  by (simp add: ListPhoneNumber_def phone_type_def logged_text_def phone_labels_def split: option.split PhoneType.split)

lemma ListPerson_text: "map logged_text (ListPerson p) = person_report p"
  by (simp add: ListPerson_def person_report_def ListPhones_eq map_concat o_def ListPhoneNumber_text logged_text_def split: option.split)

text \<open>C11. A person from the keyboard of the client to the log of the server: a person typed in answer to the prompts is read back
  field by field; when the connection is up, the client sends exactly the frame of that person; and a server
  connection that receives these bytes logs the person's number, name, e-mail address if there is one and telephone numbers
  with their kinds in order, each on its line and once, takes the bytes from its buffer and closes the connection
  after what it has to send. The person can be typed (lines without newlines, a number of 32 bits), the library
  serializes it faithfully and its frame is within the limit.\<close>

theorem addr_book_end_to_end:
  assumes "typable p" and "pb_laws pb (MPerson p)" "fits_frame pb (MPerson p)"
    and "tc_inv out c" "tc_state c = kConnected" "tid = tc_thread c" "write_fits w (length (frame pb (MPerson p)))"
    and "tc_inv out' c2" "tc_state c2 = kConnected" "Buffer_content (tc_inputBuffer c2) = frame pb (MPerson p)"
  shows "fst (PromptForAddress garbage Person_new \<lparr>is_rest = typed_person p, is_fail = False\<rparr>) = p
     \<and> (\<exists>c'. AddrBookClient_onConnection pb tid w (MPerson p) c = Inr (c', False) \<and> tc_inv (out @ frame pb (MPerson p)) c')
     \<and> (\<exists>ls c2'. AddrBookServer_onMessage pb AddrBookServer_ctor tid2 c2 = Some (Inr (ls, c2'))
          \<and> map logged_text ls = person_report p \<and> tc_inv out' c2'
          \<and> Buffer_content (tc_inputBuffer c2') = [] \<and> tc_state c2' = kDisconnecting)"
proof -
  have "fst (PromptForAddress garbage Person_new \<lparr>is_rest = typed_person p, is_fail = False\<rparr>) = p"
    using prompt_typed [OF assms(1), of "\<lparr>is_rest = typed_person p, is_fail = False\<rparr>" "[]" garbage] by simp
  moreover have "\<exists>c'. AddrBookClient_onConnection pb tid w (MPerson p) c = Inr (c', False) \<and> tc_inv (out @ frame pb (MPerson p)) c'"
    using sendInLoop_ok [OF assms(4,7,6)] assms(5)
    by (auto simp: AddrBookClient_onConnection_def connected_def Codec_send_eq [OF assms(2,3,5,6)] total_iff)
  moreover have "\<exists>c2'. AddrBookServer_onMessage pb AddrBookServer_ctor tid2 c2 = Some (Inr (ListPerson p, c2')) \<and> tc_inv out' c2'
          \<and> Buffer_content (tc_inputBuffer c2') = [] \<and> tc_state c2' = kDisconnecting"
    using server_lists [of "[MPerson p]" pb out' c2 tid2] assms by simp
  ultimately show ?thesis using ListPerson_text [of p] by blast
qed

text \<open>A person with a telephone number, and a library that knows that message only.\<close>

definition sample_person :: Person where
  "sample_person = \<lparr>pe_name = ''Ann'', pe_id = 7, pe_email = None, pe_phones = [\<lparr>ph_number = ''555'', ph_type = Some WORK\<rparr>]\<rparr>"

definition sample_pb :: "ab_message protobuf" where
  "sample_pb = \<lparr>pb_typeName = GetTypeName, pb_isInitialized = (\<lambda>m. True), pb_byteSize = (\<lambda>m. 1), pb_serialize = (\<lambda>m. ''p''), pb_create = (\<lambda>n. Some (MOther n)),
     pb_parse = (\<lambda>m d. Some (MPerson sample_person)), pb_adler32 = (\<lambda>s. word_of_nat (length s))\<rparr>"

theorem addr_book_end_to_end_witness:
  "fst (PromptForAddress 0 Person_new \<lparr>is_rest = typed_person sample_person, is_fail = False\<rparr>) = sample_person
   \<and> (\<exists>c ls c'. AddrBookServer_onMessage sample_pb AddrBookServer_ctor 1 c = Some (Inr (ls, c'))
        \<and> map logged_text ls = [''Person ID: 7'', ''  Name: Ann'', ''  Work phone #: '', ''555''] \<and> tc_state c' = kDisconnecting)"
proof -
  let ?m = "MPerson sample_person" let ?f = "frame sample_pb ?m"
  obtain b where b: "Buffer_inv b" "Buffer_content b = []" using Buffer_ctor_ok by blast
  obtain b2 where b2: "Buffer_inv b2" "Buffer_content b2 = ?f" using Buffer_append_ok [OF b(1), of ?f] b(2) by auto
  let ?c = "\<lparr>tc_thread = 1, tc_name = ''c'', tc_state = kConnected, tc_events = kReadEvent, tc_inputBuffer = b,
     tc_outputBuffer = b, tc_highWaterMark = 100, tc_hasHighWaterMarkCallback = False, tc_hasWriteCompleteCallback = False,
     tc_calls = [], tc_queue = [], tc_written = [], tc_trace = []\<rparr>"
  have c: "tc_inv [] ?c" "tc_inv [] (?c\<lparr>tc_inputBuffer := b2\<rparr>)"
    using b b2 by (simp_all add: tc_inv_def tc_isWriting_def kReadEvent_def kWriteEvent_def POLLIN_def POLLPRI_def POLLOUT_def)
  have p: "typable sample_person" by (simp add: typable_def sample_person_def newline_def)
  have l: "pb_laws sample_pb ?m" "fits_frame sample_pb ?m" "write_fits (Some 3) (length ?f)"
    by (simp_all add: pb_laws_def sample_pb_def fits_frame_def length_payload kMaxMessageLen_def write_fits_def frame_def)
  have "dec_int 7 = ''7''" by code_simp
  then have r: "person_report sample_person = [''Person ID: 7'', ''  Name: Ann'', ''  Work phone #: '', ''555'']"
    by (simp add: person_report_def sample_person_def phone_labels_def)
  have s: "tc_state ?c = kConnected" "tid = tc_thread ?c" "tc_state (?c\<lparr>tc_inputBuffer := b2\<rparr>) = kConnected"
    "Buffer_content (tc_inputBuffer (?c\<lparr>tc_inputBuffer := b2\<rparr>)) = ?f" if "tid = 1" for tid using b2(2) that by simp_all
  note a = addr_book_end_to_end [OF p l(1,2) c(1) s(1,2) l(3) c(2) s(3,4), of 1 1 1 1 0 1, unfolded r, OF refl refl refl refl]
  then show ?thesis by (elim conjE exE) (intro conjI exI, assumption+)
qed

text \<open>The client's command line: given an address and a port in decimal, and a person typed in answer to the prompts,
  it connects to that address and port, the port taken modulo \<open>2 ^ 16\<close>, and has that person to send.\<close>

theorem client_main_reads:
  assumes "typable p"
  shows "AddrBookClient_main garbage [prog, host, dec_nat port] \<lparr>is_rest = typed_person p @ rest, is_fail = False\<rparr>
     = Inr (host, word_of_nat port, MPerson p)"
  using prompt_typed [OF assms, of "\<lparr>is_rest = typed_person p @ rest, is_fail = False\<rparr>" rest garbage] atoi_dec_nat [of "[]" "[]" port]
  by (simp add: AddrBookClient_main_def)

theorem client_main_reads_witness:
  "AddrBookClient_main 0 [''client'', ''10.0.0.1'', dec_nat 8888] \<lparr>is_rest = typed_person sample_person @ [], is_fail = False\<rparr>
     = Inr (''10.0.0.1'', 8888, MPerson sample_person)"
proof -
  have "typable sample_person" by (simp add: typable_def sample_person_def newline_def)
  from client_main_reads [OF this, of 0 "''client''" "''10.0.0.1''" 8888 "[]"] show ?thesis by simp
qed

end
