(* ===== verification/Spec2Isabelle.thy ===== *)
theory Spec2Isabelle
  imports Net_Buffer Http_Message Http_Server Http_Pieces Net_Codec Net_Wire Net_Timer Net_Poller Net_EventLoop Net_Tcp
    Net_TcpServer Net_Connector Base_Queue Base_ThreadPool Base_LogStream Base_Units Base_Seconds Base_TimeZone Base_AsyncLog Base_Logging
    Base_Process Base_Singleton App_SimpleServer App_AddrBook
begin

text \<open>
  Verification of a C++ network library in the style of muduo, with its base library, an HTTP server and a
  protobuf message server. Paths are relative to \<^verbatim>\<open>src/\<close>.

  \<^bold>\<open>The program and its parts.\<close> One thread runs one \<^verbatim>\<open>EventLoop\<close>: it asks a \<^verbatim>\<open>Poller\<close> which descriptors are ready,
  calls the handlers of their \<^verbatim>\<open>Channel\<close>s, and then runs the functors that other threads have queued, waking it
  through an eventfd. Timers are one more descriptor, owned by a \<^verbatim>\<open>TimerQueue\<close>. An \<^verbatim>\<open>Acceptor\<close> (server) or a
  \<^verbatim>\<open>Connector\<close> (client) makes sockets; \<^verbatim>\<open>TcpServer\<close> and \<^verbatim>\<open>TcpClient\<close> wrap each in a \<^verbatim>\<open>TcpConnection\<close>, which moves bytes
  between the socket and two \<^verbatim>\<open>Buffer\<close>s and lives in one loop of an \<^verbatim>\<open>EventLoopThreadPool\<close>. The HTTP server, with a
  wheel of idle connections, and the protobuf codec are message callbacks of connections. Below are threads,
  locks, queues, the thread pool, dates and zones, and logging: a statement formats one line into a
  \<^verbatim>\<open>LogStream\<close> and gives it to an output function, for example \<^verbatim>\<open>AsyncLogging\<close>, whose thread writes to \<^verbatim>\<open>LogFile\<close>s.

  \<^bold>\<open>Conventions.\<close> A definition has the name of the function it models, with its class in front where two classes
  share it (\<open>Buffer_append\<close>, \<open>LogFile_append\<close>); a class is a record of its members. A run that reads outside an
  array, uses a destroyed object, fails an assertion, throws, or ends in \<^verbatim>\<open>LOG_FATAL\<close> is a value \<open>Inl fault\<close> of
  \<open>'a result\<close>, so that ``no fault'' is part of the statements. Machine integers that can wrap are words; pointers into
  buffers are offsets with their bounds checked. Code that runs on several threads, and code driven by the kernel and the
  peer, is an inductive step relation, each step one atomic part of a function; \<open>reach\<close> of \<open>Step_System\<close> is every
  interleaving. Results of system calls, library code outside the repository and the user's callbacks are arguments.

  \<^bold>\<open>Theories.\<close>
  \<^item> \<open>Cpp_Prelude\<close> (faults, arrays, printing, byte order), \<open>Std_Map\<close> (\<^verbatim>\<open>std::map\<close>, locale \<open>ordered_map\<close>), \<open>Step_System\<close>
    (locale \<open>step_invariant\<close>), \<open>Stream_Spec\<close> (locales \<open>byte_sink\<close> and \<open>byte_queue\<close>): what the components share.
  \<^item> \<open>Net_Buffer\<close>: \<^verbatim>\<open>net/Buffer.h\<close>, \<^verbatim>\<open>net/Buffer.cc\<close>. Every operation keeps the index invariant; any schedule of appends and
    reads is a queue of bytes (interpretation \<open>buf\<close>); \<^verbatim>\<open>readFd\<close> delivers what the kernel gave.
  \<^item> \<open>Net_Poller\<close>: \<^verbatim>\<open>net/Channel\<close>, \<^verbatim>\<open>net/Poller\<close>, \<^verbatim>\<open>net/poller/*\<close>. Locale \<open>poller\<close> is the contract of a poller, interpreted for
    epoll and poll; the two agree on what they watch, with two exceptions stated exactly.
  \<^item> \<open>Net_Timer\<close>: \<^verbatim>\<open>net/TimerQueue\<close>, \<^verbatim>\<open>net/Timer\<close>, with timers at addresses of a heap. No schedule of additions and
    cancellations, from the loop, its callbacks and other threads, and of expirations faults, but for one read of a deleted
    timer in \<^verbatim>\<open>addTimer\<close> of another thread, which is exhibited; a cancelled timer does not run again; the descriptor is armed
    for the earliest timer.
  \<^item> \<open>Net_EventLoop\<close>: \<^verbatim>\<open>net/EventLoop\<close>. Functors run once and in order; no wake-up is lost, except for what the loop thread queues
    outside \<^verbatim>\<open>loop()\<close>.
  \<^item> \<open>Net_Tcp\<close>: \<^verbatim>\<open>net/TcpConnection\<close>. The bytes handed to the kernel and those pending are, in order, the bytes sent; until a
    close the write side is shut only after them; which fault can happen, and when; the connection keeps the rules of the poller
    as long as its removed channel is not touched again. What happens outside these limits is exhibited.
  \<^item> \<open>Net_Address\<close>: \<^verbatim>\<open>net/SocketsOps.cc\<close>, \<^verbatim>\<open>net/InetAddress\<close>. \<open>Net_TcpServer\<close>: \<^verbatim>\<open>net/Acceptor\<close>, \<^verbatim>\<open>net/EventLoopThread\<close>,
    \<^verbatim>\<open>net/EventLoopThreadPool\<close>, \<^verbatim>\<open>net/TcpServer\<close>. \<open>Net_Connector\<close>: \<^verbatim>\<open>net/Connector\<close>, \<^verbatim>\<open>net/TcpClient\<close>. New connections are
    registered under fresh names and dealt to the loops in turn; a connector gives each socket to its owner or closes it.
  \<^item> \<open>Http_Message\<close>: \<^verbatim>\<open>net/http/HttpRequest.h\<close>, \<^verbatim>\<open>HttpContext\<close>, \<^verbatim>\<open>HttpResponse\<close>. The parser refines a pure one, does not depend
    on how the bytes are cut, and inverts printing. \<open>Http_Server\<close>: \<^verbatim>\<open>net/http/HttpServer\<close>, \<^verbatim>\<open>net/TimeWheel\<close>. A request is
    answered, a bad one refused, an idle connection shut by the eighth tick, whatever the others do. \<open>Http_Pieces\<close>: a request arriving
    in pieces, with ticks of the idle wheel between them, is answered once, with the last piece. \<open>App_SimpleServer\<close>: \<^verbatim>\<open>server/SimpleServer.cc\<close> and its pages.
  \<^item> \<open>Net_Codec\<close>: \<^verbatim>\<open>net/protobuf/codec/codec\<close>, \<^verbatim>\<open>dispatcher.h\<close> (locale \<open>framing\<close>). Frames round trip, in any pieces; damaged ones
    are reported. \<open>Net_Wire\<close>: two processes with a connection each and the network between them; the messages of one
    arrive at the codec of the other once and in order, under every interleaving. \<open>App_AddrBook\<close>: the programs
    of that directory, from the prompt to the log of the server.
  \<^item> \<open>Base_Sync\<close>: \<^verbatim>\<open>base/Mutex.h\<close>, \<^verbatim>\<open>Condition\<close>, \<^verbatim>\<open>Atomic.h\<close>, \<^verbatim>\<open>CountDownLatch\<close>. \<open>Base_Queue\<close>: \<^verbatim>\<open>base/BlockingQueue.h\<close>,
    \<^verbatim>\<open>BoundedBlockingQueue.h\<close> (locale \<open>blocking_fifo\<close>). \<open>Base_ThreadPool\<close>: \<^verbatim>\<open>base/ThreadPool\<close>, with the exceptions of its tasks.
    \<open>Base_Thread\<close>: \<^verbatim>\<open>base/Thread\<close>, \<^verbatim>\<open>CurrentThread\<close>.
    Queues and the pool are first-in first-out and stop; a started thread publishes its number before \<^verbatim>\<open>start\<close> returns.
  \<^item> \<open>Base_Timestamp\<close>, \<open>Base_Seconds\<close>, \<open>Base_Calendar\<close>, \<open>Base_TimeZone\<close>: \<^verbatim>\<open>base/Timestamp\<close>, \<^verbatim>\<open>Date\<close>, \<^verbatim>\<open>TimeZone\<close> (locale
    \<open>libc_time\<close>, interpreted by the program's own conversions). What adding seconds as a \<^verbatim>\<open>double\<close> can lose; the
    Julian day formula against the Gregorian rules, zone tables in range.
  \<^item> \<open>Base_LogStream\<close>, \<open>Base_Units\<close>, \<open>Base_Logging\<close>, \<open>Base_AsyncLog\<close>: \<^verbatim>\<open>base/LogStream\<close>, \<^verbatim>\<open>Logging\<close>, \<^verbatim>\<open>FileUtil\<close>, \<^verbatim>\<open>LogFile\<close>,
    \<^verbatim>\<open>AsyncLogging\<close>. The text of a line, what fits, the order of lines through the four buffers and the files.
  \<^item> \<open>Base_StringPiece\<close>, \<open>Base_Process\<close>, \<open>Base_Singleton\<close>: \<^verbatim>\<open>base/StringPiece.h\<close>; \<^verbatim>\<open>FileUtil\<close>'s small files, \<^verbatim>\<open>ProcessInfo\<close>, the
    stack trace and \<^verbatim>\<open>Exception\<close>; \<^verbatim>\<open>Singleton.h\<close>, \<^verbatim>\<open>ThreadLocal.h\<close>, \<^verbatim>\<open>ThreadLocalSingleton.h\<close>.
  \<^item> This theory: the way of a log line from its statement through \<^verbatim>\<open>AsyncLogging\<close> to the files.

  \<^bold>\<open>Loops.\<close> A loop is structural recursion or a \<open>function\<close> with its termination proof. Two loops may run
  forever, that of \<^verbatim>\<open>HttpContext::parseRequest\<close> and that of \<^verbatim>\<open>ProtobufCodec::onMessage\<close>; they are partial functions whose
  value is \<open>None\<close> when they do not return, and theorems say when they do (the first one exactly when it is not
  entered with a finished request, the second one always). There is no fuel and no bound on sizes but those of the
  types (\<open>run_orphan\<close> runs the number of functors it is given).

  \<^bold>\<open>Arguments that stand for code outside the repository\<close>, with the laws assumed of them: the system calls and their
  errors, \<^verbatim>\<open>boost::circular_buffer\<close> (\<open>bucket_laws\<close> and the laws in \<open>Base_Queue\<close>), protobuf and \<^verbatim>\<open>adler32\<close> (\<open>pb_laws\<close>),
  \<^verbatim>\<open>gmtime_r\<close> and \<^verbatim>\<open>timegm\<close> (\<open>libc_time\<close>), \<^verbatim>\<open>strftime\<close>, \<^verbatim>\<open>strerror_r\<close>, \<^verbatim>\<open>inet_ntop\<close> and \<^verbatim>\<open>inet_pton\<close>, the memory allocator, and the
  text \<^verbatim>\<open>snprintf\<close> gives a \<^verbatim>\<open>double\<close> in a log line. Each property with such a law has a witness with a concrete function.

  \<^bold>\<open>Not modelled.\<close> The generated \<^verbatim>\<open>addr_book.pb.*\<close> and the texts copied from protobuf (\<^verbatim>\<open>google-inl.h\<close>); \<^verbatim>\<open>train/\<close>, drafts
  that are not built; annotations, tag classes and type names; \<^verbatim>\<open>WeakCallback.h\<close>, which does not compile and is not
  included; functions that only return a system call (\<^verbatim>\<open>ProcessInfo::pid\<close>, \<^verbatim>\<open>sockets::read\<close> and their like); memory orderings weaker
  than sequential consistency; a task that throws in the thread that calls \<^verbatim>\<open>ThreadPool::run\<close> of a pool without threads.
\<close>

section \<open>The way of a log line\<close>

text \<open>The output function that a program installs to log asynchronously: every line goes to
  \<^verbatim>\<open>AsyncLogging::append\<close>; \<open>blank\<close> is the memory of a new buffer.\<close>

definition async_output :: "string \<Rightarrow> string \<Rightarrow> AsyncLogging result \<Rightarrow> AsyncLogging result" where
  "async_output blank line out = bindR out (AsyncLogging_append blank line)"

text \<open>C13. A log statement, from the statement to the disk. The log is in any state its threads can reach, the
  statement is enabled and not fatal, and its line fits into the stream and into a buffer. Then the
  statement returns, and whatever the threads do afterwards, as long as no buffer is dropped: the log files
  made from the chunks that the background thread has written, followed by what the buffers still hold, are
  the lines accepted before the statement, its own line, whole and once, and lines accepted after it.\<close>

theorem log_line_reaches_files:
  assumes run: "reach (log_step (length blank)) (AsyncLogging_start blank) s"
    and ready: "log_ready e (g_logTimeZone g) t th" and on: "macro_enabled (g_logLevel g) m" "macro_level m \<noteq> FATAL"
    and items: "\<forall>x \<in> set items. item_ok x" "- (2 ^ 31) \<le> line" "line < 2 ^ 31"
    and fits: "length (line_text m e (g_logTimeZone g) t path line func (concat (map item_text items))) + 32 \<le> 4000" "4000 \<le> length blank"
    and disk: "\<forall>t u. 0 < t \<longrightarrow> t < u \<longrightarrow> timebuf t \<noteq> timebuf u" "0 < now" "CHR ''/'' \<notin> set base"
  shows "\<exists>th' s'. log_statement m e (setOutput (async_output blank) g) path line func items th (Inr s) = Inr (th', Inr s', False)
     \<and> (\<forall>s'' ts. reach (log_step (length blank)) s' s'' \<longrightarrow> al_dropped s'' = 0
          \<longrightarrow> map (\<lambda>(now, now', ws, m). m) ts = al_output s'' \<longrightarrow> (\<forall>(now, now', ws, m) \<in> set ts. progress ws m)
          \<longrightarrow> (\<exists>l fs l' fs' later. LogFile_ctor timebuf host pid now base rollSize flushInterval checkEveryN [] = Inr (l, fs)
               \<and> log_run timebuf host pid ts (l, fs) = Inr (l', fs')
               \<and> concat (map snd fs') @ concat (map fb_toString (al_buffersToWrite s'' @ al_buffers s'' @ [al_current s'']))
                 = al_accepted s @ line_text m e (g_logTimeZone g) t path line func (concat (map item_text items)) @ later))"
proof -
  let ?g = "setOutput (async_output blank) g"
  let ?line = "line_text m e (g_logTimeZone g) t path line func (concat (map item_text items))"
  have g: "g_logTimeZone ?g = g_logTimeZone g" "g_logLevel ?g = g_logLevel g" "g_output ?g = async_output blank" by (simp_all add: setOutput_def)
  have inv: "log_inv (length blank) s" by (rule alog.invariant [OF run start_inv [OF refl]])
  obtain s' where s': "AsyncLogging_append blank ?line s = Inr s'" "log_inv (length blank) s'" "al_accepted s' = al_accepted s @ ?line"
    using append_ok [OF inv refl, of ?line] fits by auto
  obtain th' where "log_statement m e ?g path line func items th (Inr s) = Inr (th', async_output blank ?line (Inr s), False)"
    using log_statement_ok [of e ?g t th m items line path func "Inr s"] ready on items fits(1) unfolding g by auto
  then have st: "log_statement m e ?g path line func items th (Inr s) = Inr (th', Inr s', False)" using s'(1) by (simp add: async_output_def)
  have "\<exists>l fs l' fs' later. LogFile_ctor timebuf host pid now base rollSize flushInterval checkEveryN [] = Inr (l, fs)
      \<and> log_run timebuf host pid ts (l, fs) = Inr (l', fs')
      \<and> concat (map snd fs') @ concat (map fb_toString (al_buffersToWrite s'' @ al_buffers s'' @ [al_current s''])) = al_accepted s @ ?line @ later"
    if r: "reach (log_step (length blank)) s' s''" "al_dropped s'' = 0" "map (\<lambda>(now, now', ws, m). m) ts = al_output s''"
      "\<forall>(now, now', ws, m) \<in> set ts. progress ws m" for s'' ts
  proof -
    have "log_inv (length blank) s''" by (rule alog.invariant [OF r(1) s'(2)])
    then have acc: "al_accepted s'' = concat (al_output s'') @ concat (map fb_toString (al_buffersToWrite s'' @ al_buffers s'' @ [al_current s'']))"
      using r(2) unfolding log_inv_def by blast
    have "prefix (al_accepted s @ ?line) (al_accepted s'')" by (rule alog_mono.invariant [OF r(1)]) (simp add: s'(3))
    then obtain later where "al_accepted s'' = al_accepted s @ ?line @ later" by (auto simp: prefix_def)
    then show ?thesis using log_run_from_start [OF disk r(4), of host pid rollSize flushInterval checkEveryN] unfolding acc r(3) by metis
  qed
  with st show ?thesis by blast
qed

definition async_globals :: "string \<Rightarrow> AsyncLogging result LogGlobals" where
  "async_globals blank = setOutput (async_output blank) \<lparr>g_logLevel = INFO, g_output = (\<lambda>_ s. s), g_flush = (\<lambda>s. s), g_logTimeZone = TimeZone_invalid\<rparr>"

theorem log_line_reaches_files_witness:
  "let blank = replicate 4000 (CHR ''.''); start = AsyncLogging_start blank in
   \<exists>th' s'. log_statement LOG_WARN sample_env (async_globals blank) ''net/Buffer.cc'' 12 ''f'' sample_items new_thread (Inr start) = Inr (th', Inr s', False)
     \<and> (\<forall>s'' ts. reach (log_step 4000) s' s'' \<longrightarrow> al_dropped s'' = 0
          \<longrightarrow> map (\<lambda>(now, now', ws, m). m) ts = al_output s'' \<longrightarrow> (\<forall>(now, now', ws, m) \<in> set ts. progress ws m)
          \<longrightarrow> (\<exists>l fs l' fs' later. LogFile_ctor (\<lambda>t. dec_nat (nat t)) ''host'' 1 5 ''log'' 3 3 1 [] = Inr (l, fs)
               \<and> log_run (\<lambda>t. dec_nat (nat t)) ''host'' 1 ts (l, fs) = Inr (l', fs')
               \<and> concat (map snd fs') @ concat (map fb_toString (al_buffersToWrite s'' @ al_buffers s'' @ [al_current s'']))
                 = (''20200913 12:26:40.123456Z  4242 WARN  left -7 - Buffer.cc:12'' @ [CHR 0x0A]) @ later))"
proof -
  let ?blank = "replicate 4000 (CHR ''.'')"
  let ?g = "\<lparr>g_logLevel = INFO, g_output = (\<lambda>_ s. s), g_flush = (\<lambda>s. s), g_logTimeZone = TimeZone_invalid\<rparr> :: AsyncLogging result LogGlobals"
  have len: "length ?blank = 4000" by (rule length_replicate)
  have start: "al_accepted (AsyncLogging_start ?blank) = []" by (simp only: AsyncLogging_start_def AsyncLogging.simps)
  have z: "g_logTimeZone ?g = TimeZone_invalid" "g_logLevel ?g = INFO" by simp_all
  have names: "\<forall>t u. 0 < t \<longrightarrow> t < u \<longrightarrow> dec_nat (nat t) \<noteq> dec_nat (nat u)" by (auto dest: dec_nat_inj)
  note main = log_line_reaches_files [OF reach_refl, where blank = ?blank and e = sample_env and g = ?g and t = "toUtcTime 1600000000 False" and th = new_thread
      and m = LOG_WARN and items = sample_items and line = 12 and path = "''net/Buffer.cc''" and func = "''f''"
      and timebuf = "\<lambda>t. dec_nat (nat t)" and now = 5 and base = "''log''" and host = "''host''" and pid = 1 and rollSize = 3
      and flushInterval = 3 and checkEveryN = 1, unfolded len start z sample_line append_Nil]
  show ?thesis unfolding Let_def async_globals_def
    by (rule main) (use names in \<open>simp_all add: sample_ready macro_enabled_def item_ok_def sample_items_def\<close>)
qed

end
